(* ===== verification/GA_Prelude.thy ===== *)
theory GA_Prelude
  imports Main "HOL-Library.Monad_Syntax"
begin

text \<open>
  What the components share: the machine integers of the C code (values of \<^typ>\<open>int\<close> with the
  wrap-around of \<open>size_t\<close>, \<open>Integer\<close> and \<open>int\<close> written out) and C's truncating division.
\<close>

section \<open>Collections\<close>

named_theorems width_simps \<open>evaluation of the width conversions inside their range\<close>

section \<open>Machine integers\<close>

definition u64 :: "int \<Rightarrow> int" where
  "u64 x = x mod 18446744073709551616"

definition u32 :: "int \<Rightarrow> int" where
  "u32 x = x mod 4294967296"

definition s32 :: "int \<Rightarrow> int" where
  "s32 x = (x + 2147483648) mod 4294967296 - 2147483648"

definition s64 :: "int \<Rightarrow> int" where
  "s64 x = (x + 9223372036854775808) mod 18446744073709551616 - 9223372036854775808"

lemma u64_id [width_simps]: "0 \<le> x \<Longrightarrow> x < 18446744073709551616 \<Longrightarrow> u64 x = x"
  by (simp add: u64_def)

lemma u32_id [width_simps]: "0 \<le> x \<Longrightarrow> x < 4294967296 \<Longrightarrow> u32 x = x"
  by (simp add: u32_def)

lemma s32_id [width_simps]: "-2147483648 \<le> x \<Longrightarrow> x < 2147483648 \<Longrightarrow> s32 x = x"
  by (simp add: s32_def)

lemma s64_id [width_simps]:
  "-9223372036854775808 \<le> x \<Longrightarrow> x < 9223372036854775808 \<Longrightarrow> s64 x = x"
  by (simp add: s64_def)

lemma u64_range [simp]: "0 \<le> u64 x" "u64 x < 18446744073709551616"
  by (simp_all add: u64_def)

lemma u64_u64 [simp]: "u64 (u64 x) = u64 x"
  by (simp add: u64_def)

lemma u64_add_left [simp]: "u64 (u64 x + y) = u64 (x + y)"
  and u64_add_right [simp]: "u64 (x + u64 y) = u64 (x + y)"
  and u64_diff_left [simp]: "u64 (u64 x - y) = u64 (x - y)"
  and u64_diff_right [simp]: "u64 (x - u64 y) = u64 (x - y)"
  by (simp_all add: u64_def mod_simps)

lemma u64_s64 [simp]: "u64 (s64 x) = u64 x"
  by (simp add: u64_def s64_def mod_diff_left_eq)

text \<open>
  A modulus that divides \<open>2^64\<close> sees through the wrap-around. This is why the alignment
  computations of the allocator are right for every element size that is a power of two.
\<close>

lemma u64_mod_dvd: "m dvd 18446744073709551616 \<Longrightarrow> u64 x mod m = x mod m"
  by (simp add: u64_def mod_mod_cancel)

section \<open>C's integer division\<close>

definition cdiv :: "int \<Rightarrow> int \<Rightarrow> int" where
  "cdiv a b = sgn a * sgn b * (\<bar>a\<bar> div \<bar>b\<bar>)"

definition cmod :: "int \<Rightarrow> int \<Rightarrow> int" where
  "cmod a b = a - cdiv a b * b"

lemma cdiv_nonneg [simp]: "0 \<le> a \<Longrightarrow> 0 < b \<Longrightarrow> cdiv a b = a div b"
  by (cases "a = 0") (auto simp: cdiv_def)

lemma cmod_nonneg [simp]: "0 \<le> a \<Longrightarrow> 0 < b \<Longrightarrow> cmod a b = a mod b"
  by (simp add: cmod_def minus_div_mult_eq_mod)

lemma cmod_range: "0 \<le> a \<Longrightarrow> 0 < b \<Longrightarrow> 0 \<le> cmod a b \<and> cmod a b < b"
  by simp

end
