(* ===== verification/MA_Error.thy ===== *)
theory MA_Error
  imports GA_Prelude
begin

text \<open>
  The error module of the memory allocator (src/ma/error.c). Every routine of the allocator that
  may report an error returns a value of an option type: \<open>None\<close> means that control does not come
  back to the caller, because the error terminated the process or because a loop does not end.
  What is printed on stderr is kept as a log of severity, category and reporting routine; the text
  of the message is not modelled.
\<close>

datatype ErrorLevel = EL_Fatal | EL_Nonfatal

datatype ErrorType = ET_External | ET_Internal

text \<open>
  \<open>ma_func_terminate\<close> is the client's callback: \<open>None\<close> when none is registered, otherwise whether
  the registered function returns to its caller. \<open>stderr_log\<close> is what has been printed.
\<close>

record ma_err =
  ma_error_print :: bool
  ma_hard_fail :: bool
  ma_func_terminate :: "bool option"
  stderr_log :: "(ErrorLevel \<times> ErrorType \<times> string) list"

definition MA_set_error_callback :: "bool \<Rightarrow> 'a ma_err_scheme \<Rightarrow> 'a ma_err_scheme" where
  "MA_set_error_callback func s = s\<lparr>ma_func_terminate := Some func\<rparr>"

definition ma_error ::
  "ErrorLevel \<Rightarrow> ErrorType \<Rightarrow> string \<Rightarrow> 'a ma_err_scheme \<Rightarrow> 'a ma_err_scheme option" where
  "ma_error elevel etype func s =
     (let s1 = (if elevel = EL_Fatal \<or> ma_hard_fail s \<or> ma_error_print s
                then s\<lparr>stderr_log := stderr_log s @ [(elevel, etype, func)]\<rparr> else s)
      in if elevel = EL_Fatal \<or> ma_hard_fail s
         then (case ma_func_terminate s of None \<Rightarrow> None
               | Some returns \<Rightarrow> if returns then Some s1 else None)
         else Some s1)"

text \<open>
  Reporting a nonfatal error comes back unless hard failures are on, and changes nothing but the
  log: the routines that report an error and return are transparent for the rest of the state.
\<close>

lemma ma_error_log:
  assumes "ma_error e t f s = Some s'"
  shows "\<exists>l. s' = s\<lparr>stderr_log := l\<rparr>"
proof -
  have "s = s\<lparr>stderr_log := stderr_log s\<rparr>" by simp
  moreover have "s' = s \<or> s' = s\<lparr>stderr_log := stderr_log s @ [(e, t, f)]\<rparr>"
    using assms by (auto simp: ma_error_def Let_def split: if_splits option.splits)
  ultimately show ?thesis by blast
qed

lemma ma_error_nonfatal:
  assumes "\<not> ma_hard_fail s"
  shows "\<exists>l. ma_error EL_Nonfatal t f s = Some (s\<lparr>stderr_log := l\<rparr>)"
proof -
  from assms obtain s' where "ma_error EL_Nonfatal t f s = Some s'"
    by (simp add: ma_error_def Let_def)
  with ma_error_log show ?thesis by metis
qed

end
