(* ===== verification/MA_Table.thy ===== *)
theory MA_Table
  imports MA_Error
begin

text \<open>
  The dynamic table module (src/ma/table.c): the table that maps the integer handles given to
  clients to the addresses of allocation descriptors. The state extends the error module's state,
  so that the routines read and write only their own part of the allocator's state.

  The interface the allocator relies on is the locale \<open>handle_table\<close>; it is interpreted below on
  the routines of the table.
\<close>

section \<open>State\<close>

datatype TableEntryState = TES_Unused | TES_Allocated | TES_Deallocated

record TableEntry =
  te_data :: int
  te_state :: TableEntryState

record ma_tab = ma_err +
  ma_table :: "TableEntry list"
  ma_table_capacity :: int
  ma_table_entries :: int
  ma_table_next_slot :: int

definition TABLE_HANDLE_NONE :: int where
  "TABLE_HANDLE_NONE = -1"

definition DEFAULT_TABLE_ENTRIES :: int where
  "DEFAULT_TABLE_ENTRIES = 32"

text \<open>\<open>sizeof(TableEntry)\<close>: a pointer and an enumeration, padded.\<close>

definition sizeof_TableEntry :: int where
  "sizeof_TableEntry = 16"

section \<open>Routines\<close>

text \<open>
  Growing the table. \<open>bytealloc\<close> stands for \<open>malloc\<close>: whether a request of the given size
  succeeds. The size is computed in an \<open>unsigned\<close>; where it does not fit in 32 bits, the new table
  is longer than the memory obtained for it and the copy that follows is undefined (\<open>None\<close>).
\<close>

definition ma_table_grow ::
  "(int \<Rightarrow> bool) \<Rightarrow> 'a ma_tab_scheme \<Rightarrow> (bool \<times> 'a ma_tab_scheme) option" where
  "ma_table_grow bytealloc s =
     (let cap = ma_table_capacity s;
          new_cap = (if cap = 0 then DEFAULT_TABLE_ENTRIES else 2 * cap);
          new_size = u32 (new_cap * sizeof_TableEntry)
      in if \<not> bytealloc new_size
         then do { s \<leftarrow> ma_error EL_Nonfatal ET_Internal ''ma_table_allocate'' s; Some (False, s) }
         else if new_size < new_cap * sizeof_TableEntry then None
         else Some (True, s\<lparr>
                ma_table := take (nat cap) (ma_table s) @
                   replicate (nat (new_cap - cap)) \<lparr>te_data = 0, te_state = TES_Unused\<rparr>,
                ma_table_next_slot := cap,
                ma_table_capacity := new_cap\<rparr>))"

text \<open>The circular search: \<open>k\<close> slots are still to be examined, the next one is \<open>i\<close>.\<close>

fun find_slot :: "TableEntry list \<Rightarrow> int \<Rightarrow> nat \<Rightarrow> int \<Rightarrow> int option" where
  "find_slot tbl cap 0 i = None"
| "find_slot tbl cap (Suc k) i =
     (if te_state (tbl ! nat i) \<noteq> TES_Allocated then Some i
      else find_slot tbl cap k ((i + 1) mod cap))"

definition ma_table_allocate ::
  "(int \<Rightarrow> bool) \<Rightarrow> int \<Rightarrow> 'a ma_tab_scheme \<Rightarrow> (int \<times> 'a ma_tab_scheme) option" where
  "ma_table_allocate bytealloc data s =
     do { (ok, s) \<leftarrow> (if ma_table_entries s \<ge> ma_table_capacity s
                      then ma_table_grow bytealloc s else Some (True, s));
          if \<not> ok then Some (TABLE_HANDLE_NONE, s)
          else case find_slot (ma_table s) (ma_table_capacity s) (nat (ma_table_capacity s))
                      (ma_table_next_slot s) of
            None \<Rightarrow> do { s \<leftarrow> ma_error EL_Nonfatal ET_Internal ''ma_table_allocate'' s;
                         Some (TABLE_HANDLE_NONE, s) }
          | Some i \<Rightarrow> Some (i, s\<lparr>
              ma_table := (ma_table s)[nat i := \<lparr>te_data = data, te_state = TES_Allocated\<rparr>],
              ma_table_entries := ma_table_entries s + 1,
              ma_table_next_slot := (i + 1) mod ma_table_capacity s\<rparr>) }"

definition ma_table_verify ::
  "int \<Rightarrow> string \<Rightarrow> 'a ma_tab_scheme \<Rightarrow> (bool \<times> 'a ma_tab_scheme) option" where
  "ma_table_verify handle caller s =
     (if handle < 0 \<or> handle \<ge> ma_table_capacity s \<or>
         te_state (ma_table s ! nat handle) = TES_Unused \<or>
         te_state (ma_table s ! nat handle) = TES_Deallocated
      then do { s \<leftarrow> ma_error EL_Nonfatal ET_External caller s; Some (False, s) }
      else Some (True, s))"

definition ma_table_deallocate :: "int \<Rightarrow> 'a ma_tab_scheme \<Rightarrow> 'a ma_tab_scheme option" where
  "ma_table_deallocate handle s =
     do { (ok, s) \<leftarrow> ma_table_verify handle ''ma_table_deallocate'' s;
          if ok
          then Some (s\<lparr>ma_table := (ma_table s)[nat handle :=
                         (ma_table s ! nat handle)\<lparr>te_state := TES_Deallocated\<rparr>],
                       ma_table_entries := ma_table_entries s - 1\<rparr>)
          else Some s }"

text \<open>The data of a slot, or NULL (0).\<close>

definition ma_table_lookup :: "int \<Rightarrow> 'a ma_tab_scheme \<Rightarrow> (int \<times> 'a ma_tab_scheme) option" where
  "ma_table_lookup handle s =
     do { (ok, s) \<leftarrow> ma_table_verify handle ''ma_table_lookup'' s;
          Some (if ok then te_data (ma_table s ! nat handle) else 0, s) }"

text \<open>The inverted lookup: a linear search from slot \<open>i\<close> on.\<close>

fun lookup_assoc_from :: "int \<Rightarrow> TableEntry list \<Rightarrow> int \<Rightarrow> int" where
  "lookup_assoc_from data [] i = TABLE_HANDLE_NONE"
| "lookup_assoc_from data (e # es) i =
     (if te_state e = TES_Allocated \<and> te_data e = data then i
      else lookup_assoc_from data es (i + 1))"

definition ma_table_lookup_assoc :: "int \<Rightarrow> 'a ma_tab_scheme \<Rightarrow> int" where
  "ma_table_lookup_assoc data s = lookup_assoc_from data (ma_table s) 0"

section \<open>Abstraction and invariant\<close>

text \<open>The table as a finite map from handles to data, and what every routine keeps of it.\<close>

definition table_map :: "'a ma_tab_scheme \<Rightarrow> int \<Rightarrow> int option" where
  "table_map s h = (if 0 \<le> h \<and> h < ma_table_capacity s \<and>
                       te_state (ma_table s ! nat h) = TES_Allocated
                    then Some (te_data (ma_table s ! nat h)) else None)"

definition num_allocated :: "TableEntry list \<Rightarrow> int" where
  "num_allocated es = int (length (filter (\<lambda>e. te_state e = TES_Allocated) es))"

definition table_inv :: "'a ma_tab_scheme \<Rightarrow> bool" where
  "table_inv s \<longleftrightarrow> int (length (ma_table s)) = ma_table_capacity s \<and>
     ma_table_entries s = num_allocated (ma_table s) \<and>
     0 \<le> ma_table_next_slot s \<and>
     (ma_table_capacity s = 0 \<or> ma_table_next_slot s < ma_table_capacity s)"


section \<open>The circular search\<close>

lemma find_slot_Some:
  "find_slot tbl cap k i = Some j \<Longrightarrow> 0 < cap \<Longrightarrow> 0 \<le> i \<Longrightarrow> i < cap \<Longrightarrow>
   0 \<le> j \<and> j < cap \<and> te_state (tbl ! nat j) \<noteq> TES_Allocated"
  by (induction tbl cap k i rule: find_slot.induct) (auto split: if_splits)

lemma find_slot_None:
  assumes "find_slot tbl cap k i = None" "0 < cap" "0 \<le> i" "i < cap" "j < k"
  shows "te_state (tbl ! nat ((i + int j) mod cap)) = TES_Allocated"
  using assms
proof (induction tbl cap k i arbitrary: j rule: find_slot.induct)
  case (2 tbl cap k i)
  then have hit: "te_state (tbl ! nat i) = TES_Allocated"
    and rest: "find_slot tbl cap k ((i + 1) mod cap) = None" by (auto split: if_splits)
  show ?case
  proof (cases j)
    case 0
    with hit "2.prems" show ?thesis by simp
  next
    case (Suc j')
    then have "te_state (tbl ! nat (((i + 1) mod cap + int j') mod cap)) = TES_Allocated"
      using "2.IH" hit rest "2.prems" by simp
    then show ?thesis using Suc by (simp add: mod_simps algebra_simps)
  qed
qed simp

lemma num_allocated_le: "num_allocated es \<le> int (length es)"
  by (simp add: num_allocated_def)

lemma num_allocated_simps [simp]:
  "num_allocated [] = 0"
  "num_allocated (e # es) = (if te_state e = TES_Allocated then 1 else 0) + num_allocated es"
  "num_allocated (es @ fs) = num_allocated es + num_allocated fs"
  by (simp_all add: num_allocated_def)

lemma num_allocated_update:
  assumes "n < length es"
  shows "num_allocated (es[n := e]) = num_allocated es
    - (if te_state (es ! n) = TES_Allocated then 1 else 0)
    + (if te_state e = TES_Allocated then 1 else 0)"
  using assms
proof (induction es arbitrary: n)
  case (Cons x es)
  then show ?case by (cases n) auto
qed simp

text \<open>A table that is not full has a free slot, and the search finds one.\<close>

lemma find_slot_total:
  assumes inv: "table_inv s" and room: "ma_table_entries s < ma_table_capacity s"
  shows "\<exists>i. find_slot (ma_table s) (ma_table_capacity s) (nat (ma_table_capacity s))
               (ma_table_next_slot s) = Some i"
proof (rule ccontr)
  let ?c = "ma_table_capacity s" and ?i = "ma_table_next_slot s"
  assume "\<not> ?thesis"
  then have none: "find_slot (ma_table s) ?c (nat ?c) ?i = None" by auto
  have c: "0 < ?c" and i: "0 \<le> ?i" "?i < ?c" and len: "int (length (ma_table s)) = ?c"
    using inv room num_allocated_le [of "ma_table s"] by (auto simp: table_inv_def num_allocated_def)
  have all: "te_state (ma_table s ! n) = TES_Allocated" if "n < length (ma_table s)" for n
  proof -
    define j where "j = nat ((int n - ?i) mod ?c)"
    have j: "int j = (int n - ?i) mod ?c" using c by (simp add: j_def)
    then have "j < nat ?c" using c by (simp add: j_def nat_less_iff)
    moreover have "(?i + int j) mod ?c = int n" using that len c by (simp add: j mod_simps)
    ultimately show ?thesis using find_slot_None [OF none c i, of j] by simp
  qed
  then have "filter (\<lambda>e. te_state e = TES_Allocated) (ma_table s) = ma_table s"
    by (simp add: filter_id_conv all_set_conv_all_nth)
  then show False using inv room len by (simp add: table_inv_def num_allocated_def)
qed

section \<open>Contracts of the routines\<close>

text \<open>No routine touches anything but the table and the error log.\<close>

definition table_frame :: "'a ma_tab_scheme \<Rightarrow> 'a ma_tab_scheme \<Rightarrow> bool" where
  "table_frame s s' \<longleftrightarrow> (\<exists>l t c e n. s' = s\<lparr>stderr_log := l, ma_table := t,
     ma_table_capacity := c, ma_table_entries := e, ma_table_next_slot := n\<rparr>)"

lemma table_frame_refl [simp]: "table_frame s s"
  unfolding table_frame_def
  by (intro exI [of _ "stderr_log s"] exI [of _ "ma_table s"] exI [of _ "ma_table_capacity s"]
      exI [of _ "ma_table_entries s"] exI [of _ "ma_table_next_slot s"]) simp

lemma table_frame_trans: "table_frame s t \<Longrightarrow> table_frame t u \<Longrightarrow> table_frame s u"
  unfolding table_frame_def by (elim exE, hypsubst) (simp, blast)

lemma table_frame_log: "table_frame s (s\<lparr>stderr_log := l\<rparr>)"
  unfolding table_frame_def
  by (intro exI [of _ l] exI [of _ "ma_table s"] exI [of _ "ma_table_capacity s"]
      exI [of _ "ma_table_entries s"] exI [of _ "ma_table_next_slot s"]) simp

lemma table_inv_log [simp]: "table_inv (s\<lparr>stderr_log := l\<rparr>) = table_inv s"
  by (simp add: table_inv_def)

lemma table_map_log [simp]: "table_map (s\<lparr>stderr_log := l\<rparr>) = table_map s"
  by (simp add: table_map_def fun_eq_iff)

lemma table_map_bounds:
  "table_map s h = Some d \<Longrightarrow> 0 \<le> h \<and> h < ma_table_capacity s \<and>
     te_state (ma_table s ! nat h) = TES_Allocated \<and> te_data (ma_table s ! nat h) = d"
  by (auto simp: table_map_def split: if_splits)

lemma ma_table_verify_valid:
  "table_map s h = Some d \<Longrightarrow> ma_table_verify h caller s = Some (True, s)"
  by (auto simp: ma_table_verify_def dest: table_map_bounds)

lemma ma_table_verify_invalid:
  assumes "table_map s h = None" "\<not> ma_hard_fail s"
  shows "\<exists>l. ma_table_verify h caller s = Some (False, s\<lparr>stderr_log := l\<rparr>)"
proof -
  have "h < 0 \<or> h \<ge> ma_table_capacity s \<or> te_state (ma_table s ! nat h) \<noteq> TES_Allocated"
    using assms(1) by (auto simp: table_map_def split: if_splits)
  then have "h < 0 \<or> h \<ge> ma_table_capacity s \<or> te_state (ma_table s ! nat h) = TES_Unused \<or>
      te_state (ma_table s ! nat h) = TES_Deallocated"
    by (cases "te_state (ma_table s ! nat h)") auto
  moreover obtain l where "ma_error EL_Nonfatal ET_External caller s = Some (s\<lparr>stderr_log := l\<rparr>)"
    using ma_error_nonfatal [OF assms(2)] by blast
  ultimately show ?thesis by (auto simp: ma_table_verify_def)
qed

lemma ma_table_grow_ok:
  assumes inv: "table_inv s" and full: "ma_table_entries s \<ge> ma_table_capacity s"
    and grow: "ma_table_grow bytealloc s = Some (True, s')"
  shows "table_inv s' \<and> table_map s' = table_map s \<and> table_frame s s' \<and>
    ma_table_entries s' < ma_table_capacity s'"
proof -
  let ?c = "ma_table_capacity s"
  let ?n = "if ?c = 0 then DEFAULT_TABLE_ENTRIES else 2 * ?c"
  let ?new = "replicate (nat (?n - ?c)) \<lparr>te_data = 0, te_state = TES_Unused\<rparr>"
  have len: "int (length (ma_table s)) = ?c" and ent: "ma_table_entries s = num_allocated (ma_table s)"
    using inv by (auto simp: table_inv_def)
  have s': "s' = s\<lparr>ma_table := ma_table s @ ?new, ma_table_next_slot := ?c, ma_table_capacity := ?n\<rparr>"
    using grow len by (auto simp: ma_table_grow_def Let_def split: if_splits Option.bind_splits)
  have c0: "0 \<le> ?c" and n: "?c < ?n" using len by (auto simp: DEFAULT_TABLE_ENTRIES_def)
  have num: "num_allocated (ma_table s @ ?new) = num_allocated (ma_table s)"
    by (simp add: num_allocated_def)
  have "te_state ((ma_table s @ ?new) ! nat h) = TES_Unused" if "?c \<le> h" "h < ?n" for h
    using that len by (simp add: nth_append nat_less_iff)
  then have "table_map s' = table_map s"
    using n len by (auto simp: table_map_def s' fun_eq_iff nth_append nat_less_iff)
  moreover have "table_inv s'" using n c0 len num ent by (simp add: table_inv_def s')
  moreover have "table_frame s s'" unfolding table_frame_def s'
    by (intro exI [of _ "stderr_log s"] exI [of _ "ma_table s @ ?new"] exI [of _ ?n]
      exI [of _ "ma_table_entries s"] exI [of _ ?c]) simp
  moreover have "ma_table_entries s' < ma_table_capacity s'"
    using num_allocated_le [of "ma_table s"] n len ent by (simp add: s')
  ultimately show ?thesis by blast
qed

lemma ma_table_grow_fail:
  "ma_table_grow bytealloc s = Some (False, s') \<Longrightarrow> \<exists>l. s' = s\<lparr>stderr_log := l\<rparr>"
  by (auto simp: ma_table_grow_def Let_def split: if_splits Option.bind_splits dest: ma_error_log)

text \<open>Storing into a slot that is not allocated.\<close>

lemma store_slot:
  fixes d :: int
  assumes inv: "table_inv s" and i: "0 \<le> i" "i < ma_table_capacity s"
    and free: "te_state (ma_table s ! nat i) \<noteq> TES_Allocated"
  defines "s' \<equiv> s\<lparr>ma_table := (ma_table s)[nat i := \<lparr>te_data = d, te_state = TES_Allocated\<rparr>],
       ma_table_entries := ma_table_entries s + 1,
       ma_table_next_slot := (i + 1) mod ma_table_capacity s\<rparr>"
  shows "table_inv s'" "table_map s' = (table_map s)(i \<mapsto> d)" "table_map s i = None" "table_frame s s'"
proof -
  have n: "nat i < length (ma_table s)" using inv i by (simp add: table_inv_def nat_less_iff)
  show "table_inv s'"
    using inv i n free by (simp add: table_inv_def s'_def num_allocated_update)
  show "table_map s' = (table_map s)(i \<mapsto> d)"
    using n i by (auto simp: table_map_def s'_def fun_eq_iff nth_list_update)
  show "table_map s i = None" using free by (simp add: table_map_def)
  show "table_frame s s'" unfolding table_frame_def s'_def
    by (intro exI [of _ "stderr_log s"] exI
          [of _ "(ma_table s)[nat i := \<lparr>te_data = d, te_state = TES_Allocated\<rparr>]"]
        exI [of _ "ma_table_capacity s"] exI [of _ "ma_table_entries s + 1"]
        exI [of _ "(i + 1) mod ma_table_capacity s"]) simp
qed

lemma ma_table_allocate_cases:
  assumes inv: "table_inv s" and run: "ma_table_allocate bytealloc d s = Some (h, s')"
  shows "table_inv s' \<and> table_frame s s' \<and>
    (if h = TABLE_HANDLE_NONE then table_map s' = table_map s
     else table_map s h = None \<and> table_map s' = (table_map s)(h \<mapsto> d))"
proof -
  obtain ok s1 where g: "(if ma_table_entries s \<ge> ma_table_capacity s
      then ma_table_grow bytealloc s else Some (True, s)) = Some (ok, s1)"
    using run by (auto simp: ma_table_allocate_def split: Option.bind_splits)
  show ?thesis
  proof (cases ok)
    case False
    with g have "ma_table_grow bytealloc s = Some (False, s1)" by (auto split: if_splits)
    then obtain l where "s1 = s\<lparr>stderr_log := l\<rparr>" using ma_table_grow_fail by blast
    moreover have "h = TABLE_HANDLE_NONE" "s' = s1" using run g False
      by (auto simp: ma_table_allocate_def)
    ultimately show ?thesis using inv by (simp add: table_frame_log)
  next
    case True
    have 1: "table_inv s1" "table_map s1 = table_map s" "table_frame s s1"
      "ma_table_entries s1 < ma_table_capacity s1"
      using g True ma_table_grow_ok [OF inv] inv by (auto split: if_splits)
    obtain i where i: "find_slot (ma_table s1) (ma_table_capacity s1)
        (nat (ma_table_capacity s1)) (ma_table_next_slot s1) = Some i"
      using find_slot_total 1 by blast
    have r: "0 < ma_table_capacity s1" "0 \<le> ma_table_next_slot s1"
      "ma_table_next_slot s1 < ma_table_capacity s1"
      using 1(1,4) by (auto simp: table_inv_def num_allocated_def)
    note slot = find_slot_Some [OF i r]
    note st = store_slot(1,2,4) [OF 1(1), where i = i and d = d] store_slot(3) [OF 1(1), of i]
    have s': "h = i" "s' = s1\<lparr>ma_table := (ma_table s1)[nat i := \<lparr>te_data = d, te_state = TES_Allocated\<rparr>],
       ma_table_entries := ma_table_entries s1 + 1,
       ma_table_next_slot := (i + 1) mod ma_table_capacity s1\<rparr>"
      using run g True i by (auto simp: ma_table_allocate_def)
    have "h \<noteq> TABLE_HANDLE_NONE" using s' slot by (auto simp: TABLE_HANDLE_NONE_def)
    then show ?thesis using st slot s' 1 table_frame_trans by force
  qed
qed

text \<open>Allocation of a handle always succeeds when the memory for a larger table can be obtained.\<close>

lemma ma_table_allocate_ok:
  assumes inv: "table_inv s" and mem: "\<And>n. bytealloc n" and cap: "ma_table_capacity s < 134217728"
  shows "\<exists>h s'. ma_table_allocate bytealloc d s = Some (h, s') \<and> h \<noteq> TABLE_HANDLE_NONE"
proof -
  have c0: "0 \<le> ma_table_capacity s" using inv by (auto simp: table_inv_def)
  have "\<exists>s1. ma_table_grow bytealloc s = Some (True, s1)"
    using mem cap c0 by (simp add: ma_table_grow_def Let_def u32_id sizeof_TableEntry_def
      DEFAULT_TABLE_ENTRIES_def)
  then obtain s1 where g: "(if ma_table_entries s \<ge> ma_table_capacity s
      then ma_table_grow bytealloc s else Some (True, s)) = Some (True, s1)"
    by (cases "ma_table_entries s \<ge> ma_table_capacity s") auto
  have 1: "table_inv s1" "ma_table_entries s1 < ma_table_capacity s1"
    using g ma_table_grow_ok [OF inv] inv by (auto split: if_splits)
  obtain i where i: "find_slot (ma_table s1) (ma_table_capacity s1)
      (nat (ma_table_capacity s1)) (ma_table_next_slot s1) = Some i"
    using find_slot_total [OF 1] by blast
  have "0 \<le> i" using find_slot_Some [OF i] 1 by (auto simp: table_inv_def num_allocated_def)
  then show ?thesis using g i by (simp add: ma_table_allocate_def TABLE_HANDLE_NONE_def)
qed

lemma ma_table_deallocate_valid:
  assumes inv: "table_inv s" and h: "table_map s h = Some d"
  shows "\<exists>s'. ma_table_deallocate h s = Some s' \<and> table_inv s' \<and>
    table_map s' = (table_map s)(h := None) \<and> table_frame s s'"
proof -
  let ?t = "(ma_table s)[nat h := (ma_table s ! nat h)\<lparr>te_state := TES_Deallocated\<rparr>]"
  let ?s = "s\<lparr>ma_table := ?t, ma_table_entries := ma_table_entries s - 1\<rparr>"
  note b = table_map_bounds [OF h]
  have n: "nat h < length (ma_table s)" using inv b by (simp add: table_inv_def nat_less_iff)
  have "ma_table_deallocate h s = Some ?s"
    by (simp add: ma_table_deallocate_def ma_table_verify_valid [OF h])
  moreover have "table_inv ?s" using inv b n by (simp add: table_inv_def num_allocated_update)
  moreover have "table_map ?s = (table_map s)(h := None)"
    using n b by (auto simp: table_map_def fun_eq_iff nth_list_update)
  moreover have "table_frame s ?s" unfolding table_frame_def
    by (rule exI [of _ "stderr_log s"], rule exI [of _ ?t], rule exI [of _ "ma_table_capacity s"],
      rule exI [of _ "ma_table_entries s - 1"], rule exI [of _ "ma_table_next_slot s"]) simp
  ultimately show ?thesis by blast
qed

lemma ma_table_lookup_valid: "table_map s h = Some d \<Longrightarrow> ma_table_lookup h s = Some (d, s)"
  by (simp add: ma_table_lookup_def ma_table_verify_valid table_map_bounds)

lemma lookup_assoc_from_cases:
  "(lookup_assoc_from d es i = TABLE_HANDLE_NONE \<and>
      \<not> (\<exists>e\<in>set es. te_state e = TES_Allocated \<and> te_data e = d)) \<or>
   (\<exists>n < length es. lookup_assoc_from d es i = i + int n \<and>
      te_state (es ! n) = TES_Allocated \<and> te_data (es ! n) = d)"
proof (induction d es i rule: lookup_assoc_from.induct)
  case (2 d e es i)
  show ?case
  proof (cases "te_state e = TES_Allocated \<and> te_data e = d")
    case True
    then show ?thesis by (intro disjI2 exI [of _ 0]) simp
  next
    case False
    from 2 [OF this] show ?thesis
    proof (elim disjE exE conjE)
      fix n assume "n < length es" "lookup_assoc_from d es (i + 1) = i + 1 + int n"
        "te_state (es ! n) = TES_Allocated" "te_data (es ! n) = d"
      with False show ?thesis by (intro disjI2 exI [of _ "Suc n"]) auto
    qed (use False in auto)
  qed
qed simp

lemma ma_table_lookup_assoc_cases:
  assumes inv: "table_inv s"
  shows "(ma_table_lookup_assoc d s = TABLE_HANDLE_NONE \<and> d \<notin> ran (table_map s)) \<or>
    table_map s (ma_table_lookup_assoc d s) = Some d"
proof -
  have len: "int (length (ma_table s)) = ma_table_capacity s" using inv by (simp add: table_inv_def)
  have "d \<notin> ran (table_map s)"
    if "\<not> (\<exists>e\<in>set (ma_table s). te_state e = TES_Allocated \<and> te_data e = d)"
  proof
    assume "d \<in> ran (table_map s)"
    then obtain h where h: "table_map s h = Some d" by (auto simp: ran_def)
    have "nat h < length (ma_table s)" using table_map_bounds [OF h] len by (simp add: nat_less_iff)
    then have "ma_table s ! nat h \<in> set (ma_table s)" by simp
    with that table_map_bounds [OF h] show False by blast
  qed
  moreover have "table_map s (int n) = Some d"
    if "n < length (ma_table s)" "te_state (ma_table s ! n) = TES_Allocated"
      "te_data (ma_table s ! n) = d" for n
    using that len by (simp add: table_map_def)
  ultimately show ?thesis
    using lookup_assoc_from_cases [of d "ma_table s" 0] by (auto simp: ma_table_lookup_assoc_def)
qed

section \<open>The interface the allocator relies on\<close>

text \<open>A one-to-one correspondence between the live handles and a set of data.\<close>

definition handles_for :: "('h \<rightharpoonup> 'd) \<Rightarrow> 'd set \<Rightarrow> bool" where
  "handles_for m B \<longleftrightarrow> inj_on m (dom m) \<and> ran m = B"

lemma handles_for_insert:
  assumes "handles_for m B" "m h = None" "d \<notin> B"
  shows "handles_for (m(h \<mapsto> d)) (insert d B)"
proof -
  have "ran (m(h \<mapsto> d)) = insert d B" using assms by (simp add: handles_for_def)
  moreover have "inj_on (m(h \<mapsto> d)) (dom (m(h \<mapsto> d)))"
    using assms by (auto simp: handles_for_def inj_on_def ran_def dom_def)
  ultimately show ?thesis by (simp add: handles_for_def)
qed

lemma handles_for_delete:
  assumes "handles_for m B" "m h = Some d"
  shows "handles_for (m(h := None)) (B - {d})"
  using assms by (auto simp: handles_for_def inj_on_def ran_def dom_def) (metis option.inject)

locale handle_table =
  fixes alloc :: "'d \<Rightarrow> 's \<Rightarrow> ('h \<times> 's) option"
    and dealloc :: "'h \<Rightarrow> 's \<Rightarrow> 's option"
    and assoc :: "'d \<Rightarrow> 's \<Rightarrow> 'h"
    and none :: 'h
    and handles :: "'s \<Rightarrow> 'h \<rightharpoonup> 'd"
    and inv :: "'s \<Rightarrow> bool"
    and frame :: "'s \<Rightarrow> 's \<Rightarrow> bool"
  assumes alloc_inv: "inv s \<Longrightarrow> alloc d s = Some (h, s') \<Longrightarrow> inv s' \<and> frame s s'"
    and alloc_none: "inv s \<Longrightarrow> alloc d s = Some (none, s') \<Longrightarrow> handles s' = handles s"
    and alloc_some: "inv s \<Longrightarrow> alloc d s = Some (h, s') \<Longrightarrow> h \<noteq> none \<Longrightarrow>
      handles s h = None \<and> handles s' = (handles s)(h \<mapsto> d)"
    and dealloc_law: "inv s \<Longrightarrow> handles s h = Some d \<Longrightarrow>
      \<exists>s'. dealloc h s = Some s' \<and> inv s' \<and> handles s' = (handles s)(h := None) \<and> frame s s'"
    and assoc_law: "inv s \<Longrightarrow> (assoc d s = none \<and> d \<notin> ran (handles s)) \<or>
      handles s (assoc d s) = Some d"
    and none_law: "inv s \<Longrightarrow> handles s none = None"
begin

lemma alloc_handles:
  assumes "inv s" "handles_for (handles s) B" "d \<notin> B" "alloc d s = Some (h, s')" "h \<noteq> none"
  shows "handles_for (handles s') (insert d B)"
  using alloc_some [OF assms(1,4,5)] handles_for_insert [OF assms(2) _ assms(3), of h] by simp

lemma dealloc_handles:
  assumes "inv s" "handles_for (handles s) B" "handles s h = Some d"
  shows "\<exists>s'. dealloc h s = Some s' \<and> inv s' \<and> handles_for (handles s') (B - {d}) \<and> frame s s'"
  using dealloc_law [OF assms(1,3)] handles_for_delete [OF assms(2,3)] by auto

lemma assoc_handles:
  assumes "inv s" "handles_for (handles s) B" "d \<in> B"
  shows "assoc d s \<noteq> none \<and> handles s (assoc d s) = Some d"
  using assoc_law [OF assms(1), of d] assms(2,3) none_law [OF assms(1)]
  by (auto simp: handles_for_def)

text \<open>A handle given back at once leaves the correspondence as it was.\<close>

lemma alloc_dealloc:
  assumes "inv s" "alloc d s = Some (h, s')" "h \<noteq> none"
  shows "\<exists>s''. dealloc h s' = Some s'' \<and> handles s'' = handles s"
proof -
  have "inv s'" and m: "handles s h = None" "handles s' = (handles s)(h \<mapsto> d)"
    using alloc_inv [OF assms(1,2)] alloc_some [OF assms] by auto
  then obtain s'' where "dealloc h s' = Some s''" "handles s'' = (handles s')(h := None)"
    using dealloc_law [of s' h d] by auto
  with m show ?thesis by (auto simp: fun_eq_iff)
qed

end

interpretation tab: handle_table "ma_table_allocate bytealloc" ma_table_deallocate
  ma_table_lookup_assoc TABLE_HANDLE_NONE table_map table_inv table_frame
  for bytealloc
proof unfold_locales
  fix d h :: int and s s' :: "'a ma_tab_scheme"
  assume i: "table_inv s"
  show "table_inv s' \<and> table_frame s s'" if "ma_table_allocate bytealloc d s = Some (h, s')"
    using ma_table_allocate_cases [OF i that] by simp
  show "table_map s' = table_map s"
    if "ma_table_allocate bytealloc d s = Some (TABLE_HANDLE_NONE, s')"
    using ma_table_allocate_cases [OF i that] by simp
  show "table_map s h = None \<and> table_map s' = (table_map s)(h \<mapsto> d)"
    if "ma_table_allocate bytealloc d s = Some (h, s')" "h \<noteq> TABLE_HANDLE_NONE"
    using ma_table_allocate_cases [OF i that(1)] that(2) by simp
  show "\<exists>s'. ma_table_deallocate h s = Some s' \<and> table_inv s' \<and>
      table_map s' = (table_map s)(h := None) \<and> table_frame s s'" if "table_map s h = Some d"
    using ma_table_deallocate_valid [OF i that] .
  show "(ma_table_lookup_assoc d s = TABLE_HANDLE_NONE \<and> d \<notin> ran (table_map s)) \<or>
      table_map s (ma_table_lookup_assoc d s) = Some d"
    using ma_table_lookup_assoc_cases [OF i] .
  show "table_map s TABLE_HANDLE_NONE = None" by (simp add: table_map_def TABLE_HANDLE_NONE_def)
qed

end
