(* ===== verification/MA_State.thy ===== *)
theory MA_State
  imports MA_Table
begin

text \<open>
  The memory allocator's data and private routines (src/ma/ma.c). Addresses and sizes are values
  of \<^typ>\<open>int\<close>; where the C code computes in \<open>size_t\<close> or with pointers the result is taken modulo
  \<open>2^64\<close> (\<^const>\<open>u64\<close>), and a conversion to \<open>int\<close> is \<^const>\<open>s32\<close>. \<open>Integer\<close> is the 64-bit integer,
  so \<open>sizeof(AD)\<close> is 80. NULL is 0.

  The segment is seen through two stores: \<open>ads\<close>, the allocation descriptors by address, with their
  \<open>next\<close> fields, so that the lists are the linked lists of the code; and \<open>mem\<close>, the bytes of the
  guards and of the client spaces. Descriptors never share a byte with a guard or a client space
  of a block in use (this is proved of the layout), which is what makes the two stores faithful.
\<close>

section \<open>Constants\<close>

definition sizeof_AD :: int where
  "sizeof_AD = 80"

definition sizeof_Guard :: int where
  "sizeof_Guard = 4"

definition ALIGNMENT :: int where
  "ALIGNMENT = 8"

definition BLOCK_OVERHEAD_FIXED :: int where
  "BLOCK_OVERHEAD_FIXED = sizeof_AD + 2 * sizeof_Guard"

definition MA_NAMESIZE :: nat where
  "MA_NAMESIZE = 32"

definition MT_BASE :: int where
  "MT_BASE = 1000"

definition MT_FIRST :: int where
  "MT_FIRST = MT_BASE + 0"

definition MT_LAST :: int where
  "MT_LAST = MT_BASE + 16"

definition DEFAULT_TOTAL_HEAP :: int where
  "DEFAULT_TOTAL_HEAP = 524288"

definition DEFAULT_TOTAL_STACK :: int where
  "DEFAULT_TOTAL_STACK = 524288"

definition GUARD1 :: int where
  "GUARD1 = 2863311530"

definition GUARD2 :: int where
  "GUARD2 = 1431655765"

definition mt_import :: "int \<Rightarrow> int" where
  "mt_import d = d - MT_BASE"

definition mt_valid :: "int \<Rightarrow> bool" where
  "mt_valid d \<longleftrightarrow> MT_FIRST \<le> d \<and> d \<le> MT_LAST"

text \<open>\<open>value & ~(unit - 1)\<close> after adding \<open>unit - 1\<close>; \<open>unit\<close> is a power of two.\<close>

definition mai_round :: "int \<Rightarrow> int \<Rightarrow> int" where
  "mai_round value unit =
     (let unit = u64 (unit - 1); value = u64 (value + unit)
      in and value (u64 (- unit - 1)))"

definition MINBLOCKSIZE :: int where
  "MINBLOCKSIZE = mai_round (ALIGNMENT + BLOCK_OVERHEAD_FIXED) ALIGNMENT"

section \<open>Types\<close>

record AR =
  ar_datatype :: int
  ar_nelem :: int

record AD =
  ad_datatype :: int
  ad_nelem :: int
  ad_name :: string
  ad_client_space :: int
  ad_nbytes :: int
  ad_next :: int
  ad_checksum :: int

datatype BlockLocation = BL_HeapOrStack | BL_Heap | BL_Stack | BL_StackTop

datatype FID = FID_MA_alloc_get | FID_MA_allocate_heap | FID_MA_chop_stack | FID_MA_free_heap
  | FID_MA_free_heap_piece | FID_MA_get_index | FID_MA_get_mbase | FID_MA_get_next_memhandle
  | FID_MA_get_numalign | FID_MA_get_pointer | FID_MA_init | FID_MA_initialized
  | FID_MA_init_memhandle_iterator | FID_MA_inquire_avail | FID_MA_inquire_heap
  | FID_MA_inquire_heap_check_stack | FID_MA_inquire_heap_no_partition | FID_MA_inquire_stack
  | FID_MA_inquire_stack_check_heap | FID_MA_inquire_stack_no_partition | FID_MA_pop_stack
  | FID_MA_print_stats | FID_MA_push_get | FID_MA_push_stack | FID_MA_set_auto_verify
  | FID_MA_set_error_print | FID_MA_set_hard_fail | FID_MA_set_numalign | FID_MA_sizeof
  | FID_MA_sizeof_overhead | FID_MA_summarize_allocated_blocks | FID_MA_trace
  | FID_MA_verify_allocator_stuff

record Stats =
  hblocks :: int
  hblocks_max :: int
  hbytes :: int
  hbytes_max :: int
  sblocks :: int
  sblocks_max :: int
  sbytes :: int
  sbytes_max :: int
  calls :: "FID \<Rightarrow> int"

text \<open>
  The static variables of ma.c. \<open>ma_fb\<close> holds the addresses of the first two elements of the
  FORTRAN base arrays, which \<open>ma_set_sizes_\<close> passes on.
\<close>

record ma_state = ma_tab +
  ma_base :: "int list"
  ma_sizeof :: "int list"
  ma_fb :: "(int \<times> int) list"
  ma_segment :: int
  ma_partition :: int
  ma_eos :: int
  ma_hp :: int
  ma_sp :: int
  ma_hfree :: int
  ma_hused :: int
  ma_sused :: int
  ma_preinitialized :: bool
  ma_initialized :: bool
  ma_auto_verify :: bool
  ma_trace :: bool
  ma_numalign :: int
  ma_stats :: Stats
  ads :: "int \<Rightarrow> AD"
  mem :: "int \<Rightarrow> int"

text \<open>The three list heads, as the \<open>AD **list\<close> arguments name them.\<close>

datatype listref = HFree | HUsed | SUsed

fun get_list :: "listref \<Rightarrow> ma_state \<Rightarrow> int" where
  "get_list HFree s = ma_hfree s"
| "get_list HUsed s = ma_hused s"
| "get_list SUsed s = ma_sused s"

fun set_list :: "listref \<Rightarrow> int \<Rightarrow> ma_state \<Rightarrow> ma_state" where
  "set_list HFree p s = s\<lparr>ma_hfree := p\<rparr>"
| "set_list HUsed p s = s\<lparr>ma_hused := p\<rparr>"
| "set_list SUsed p s = s\<lparr>ma_sused := p\<rparr>"

definition upd_ad :: "int \<Rightarrow> (AD \<Rightarrow> AD) \<Rightarrow> ma_state \<Rightarrow> ma_state" where
  "upd_ad a f s = s\<lparr>ads := (ads s)(a := f (ads s a))\<rparr>"

definition sizeof_dt :: "ma_state \<Rightarrow> int \<Rightarrow> int" where
  "sizeof_dt s d = ma_sizeof s ! nat d"

definition base_dt :: "ma_state \<Rightarrow> int \<Rightarrow> int" where
  "base_dt s d = ma_base s ! nat d"

definition max_block_overhead :: "ma_state \<Rightarrow> int \<Rightarrow> int" where
  "max_block_overhead s d = BLOCK_OVERHEAD_FIXED + (sizeof_dt s d - 1) + (ALIGNMENT - 1)"

definition client_space_index :: "ma_state \<Rightarrow> int \<Rightarrow> int" where
  "client_space_index s ad =
     s64 (u64 (ad_client_space (ads s ad) - base_dt s (ad_datatype (ads s ad)))
          div sizeof_dt s (ad_datatype (ads s ad)))"

definition bump :: "FID \<Rightarrow> ma_state \<Rightarrow> ma_state" where
  "bump f s = s\<lparr>ma_stats := (ma_stats s)\<lparr>calls :=
     (calls (ma_stats s))(f := u64 (calls (ma_stats s) f + 1))\<rparr>\<rparr>"

section \<open>Sizing a block\<close>

text \<open>
  The shift of the client space to a multiple of \<open>2^ma_numalign\<close>, which happens only when it is a
  multiple of the element size. \<open>x & mask\<close> is \<open>x mod 2^ma_numalign\<close>.
\<close>

definition align_up :: "ma_state \<Rightarrow> int \<Rightarrow> int \<Rightarrow> int" where
  "align_up s sz b =
     (if ma_numalign s > 0
      then let diff = s32 (b mod 2 ^ nat (ma_numalign s))
           in if diff \<noteq> 0
              then let diff = 2 ^ nat (ma_numalign s) - diff
                   in if cmod diff sz = 0 then u64 (b + diff) else b
              else b
      else b)"

definition align_down :: "ma_state \<Rightarrow> int \<Rightarrow> int \<Rightarrow> int" where
  "align_down s sz b =
     (if ma_numalign s > 0
      then let diff = s32 (b mod 2 ^ nat (ma_numalign s))
           in if diff \<noteq> 0 \<and> cmod diff sz = 0 then u64 (b - diff) else b
      else b)"

definition balloc_after :: "AR \<Rightarrow> int \<Rightarrow> ma_state \<Rightarrow> int \<times> int" where
  "balloc_after ar address s =
     (let sz = sizeof_dt s (ar_datatype ar);
          B_base = base_dt s (ar_datatype ar);
          L_client_space = u64 (ar_nelem ar * sz);
          L_gap1 = s32 (u64 (B_base - address - sizeof_AD - sizeof_Guard) mod sz);
          L_gap1 = (if L_gap1 < 0 then L_gap1 + sz else L_gap1);
          B_client_space = u64 (address + sizeof_AD + L_gap1 + sizeof_Guard);
          B_client_space = align_up s sz B_client_space;
          L_gap2 = s32 (u64 (address - B_client_space - L_client_space - sizeof_Guard) mod ALIGNMENT);
          L_gap2 = (if L_gap2 < 0 then L_gap2 + ALIGNMENT else L_gap2)
      in (B_client_space, u64 (B_client_space + L_client_space + sizeof_Guard + L_gap2 - address)))"

definition balloc_before :: "AR \<Rightarrow> int \<Rightarrow> ma_state \<Rightarrow> int \<times> int" where
  "balloc_before ar address s =
     (let sz = sizeof_dt s (ar_datatype ar);
          B_base = base_dt s (ar_datatype ar);
          L_client_space = u64 (ar_nelem ar * sz);
          L_gap2 = s32 (u64 (address - sizeof_Guard - L_client_space - B_base) mod sz);
          L_gap2 = (if L_gap2 < 0 then L_gap2 + sz else L_gap2);
          B_client_space = u64 (address - L_gap2 - sizeof_Guard - L_client_space);
          B_client_space = align_down s sz B_client_space;
          L_gap1 = s32 (u64 (B_client_space - sizeof_Guard - sizeof_AD) mod ALIGNMENT)
      in (B_client_space, u64 (address - B_client_space + sizeof_Guard + L_gap1 + sizeof_AD)))"

section \<open>Checksums and guards\<close>

definition checksum :: "AD \<Rightarrow> int" where
  "checksum ad = u64 (ad_datatype ad + ad_nelem ad + ad_client_space ad + ad_nbytes ad)"

definition guard1 :: "ma_state \<Rightarrow> int \<Rightarrow> int" where
  "guard1 s ad = u64 (ad_client_space (ads s ad) - sizeof_Guard)"

definition guard2 :: "ma_state \<Rightarrow> int \<Rightarrow> int" where
  "guard2 s ad = u64 (ad_client_space (ads s ad) +
     ad_nelem (ads s ad) * sizeof_dt s (ad_datatype (ads s ad)))"

text \<open>Guards are copied byte by byte; the bytes are in little-endian order.\<close>

definition guard_read :: "int \<Rightarrow> ma_state \<Rightarrow> int" where
  "guard_read g s = mem s g + 256 * mem s (g + 1) + 65536 * mem s (g + 2) + 16777216 * mem s (g + 3)"

definition guard_write :: "int \<Rightarrow> int \<Rightarrow> ma_state \<Rightarrow> ma_state" where
  "guard_write g v s = s\<lparr>mem := (mem s)(g := v mod 256, g + 1 := v div 256 mod 256,
     g + 2 := v div 65536 mod 256, g + 3 := v div 16777216 mod 256)\<rparr>"

definition guard_check :: "int \<Rightarrow> ma_state \<Rightarrow> bool" where
  "guard_check ad s \<longleftrightarrow> guard_read (guard1 s ad) s = GUARD1 \<and> guard_read (guard2 s ad) s = GUARD2"

definition guard_set :: "int \<Rightarrow> ma_state \<Rightarrow> ma_state" where
  "guard_set ad s =
     (let s = guard_write (guard1 s ad) GUARD1 s in guard_write (guard2 s ad) GUARD2 s)"

definition str_ncopy :: "string option \<Rightarrow> nat \<Rightarrow> string" where
  "str_ncopy from maxchars = (case from of None \<Rightarrow> '''' | Some f \<Rightarrow> take (maxchars - 1) f)"

end
