(* ===== verification/Regions.thy ===== *)
theory Regions
  imports GA_Prelude
begin

text \<open>
  Regions of memory cut into blocks. \<open>tiles len B lo hi\<close> says that the blocks whose start addresses
  are \<open>B\<close> and whose lengths are given by \<open>len\<close> cover the addresses from \<open>lo\<close> to \<open>hi\<close> exactly:
  no gap, no overlap, nothing outside. The heap region and the stack region of the memory
  allocator are such regions; the lemmas say what appending, pushing, truncating, splitting and
  merging blocks does to one.
\<close>

definition tiles :: "(int \<Rightarrow> int) \<Rightarrow> int set \<Rightarrow> int \<Rightarrow> int \<Rightarrow> bool" where
  "tiles len B lo hi \<longleftrightarrow> lo \<le> hi \<and> finite B \<and>
     (\<forall>a\<in>B. 0 < len a \<and> lo \<le> a \<and> a + len a \<le> hi) \<and>
     (\<forall>a\<in>B. \<forall>b\<in>B. a < b \<longrightarrow> a + len a \<le> b) \<and>
     (\<forall>x. lo \<le> x \<and> x < hi \<longrightarrow> (\<exists>a\<in>B. a \<le> x \<and> x < a + len a))"

lemma tilesI:
  assumes "lo \<le> hi" "finite B" "\<And>a. a \<in> B \<Longrightarrow> 0 < len a"
    and "\<And>a b. a \<in> B \<Longrightarrow> b \<in> B \<Longrightarrow> a < b \<Longrightarrow> a + len a \<le> b"
    and "\<And>a. a \<in> B \<Longrightarrow> lo \<le> a \<and> a + len a \<le> hi"
    and "\<And>x. lo \<le> x \<Longrightarrow> x < hi \<Longrightarrow> \<exists>a\<in>B. a \<le> x \<and> x < a + len a"
  shows "tiles len B lo hi"
  unfolding tiles_def using assms by simp

lemma tiles_cover: "tiles len B lo hi \<Longrightarrow> lo \<le> x \<Longrightarrow> x < hi \<Longrightarrow> \<exists>a\<in>B. a \<le> x \<and> x < a + len a"
  by (simp add: tiles_def)

lemma tiles_pos: "tiles len B lo hi \<Longrightarrow> a \<in> B \<Longrightarrow> 0 < len a"
  by (simp add: tiles_def)

lemma tiles_apart: "tiles len B lo hi \<Longrightarrow> a \<in> B \<Longrightarrow> b \<in> B \<Longrightarrow> a < b \<Longrightarrow> a + len a \<le> b"
  by (simp add: tiles_def)

lemma tiles_finite: "tiles len B lo hi \<Longrightarrow> finite B"
  by (simp add: tiles_def)

lemma tiles_le: "tiles len B lo hi \<Longrightarrow> lo \<le> hi"
  by (simp add: tiles_def)

lemma tiles_bounds:
  assumes "tiles len B lo hi" "a \<in> B"
  shows "lo \<le> a" "a + len a \<le> hi"
  using assms by (simp_all add: tiles_def)

text \<open>The blocks cover the interval, and no address belongs to two of them.\<close>

lemma tiles_unique:
  assumes t: "tiles len B lo hi" and a: "a \<in> B" "a \<le> x" "x < a + len a"
    and b: "b \<in> B" "b \<le> x" "x < b + len b"
  shows "a = b"
  using tiles_apart [OF t a(1) b(1)] tiles_apart [OF t b(1) a(1)] a b by linarith

lemma tiles_cong:
  assumes "\<And>a. a \<in> B \<Longrightarrow> len a = len' a"
  shows "tiles len B lo hi = tiles len' B lo hi"
  using assms by (simp add: tiles_def)

lemma tiles_empty: "tiles len {} lo lo"
  by (simp add: tiles_def)

lemma tiles_empty_iff [simp]: "tiles len {} lo hi \<longleftrightarrow> lo = hi"
  by (auto simp: tiles_def)

lemma tiles_snoc:
  assumes t: "tiles len B lo hi" and n: "0 < len hi"
  shows "tiles len (insert hi B) lo (hi + len hi)"
proof (rule tilesI)
  note b = tiles_bounds [OF t] and le = tiles_le [OF t]
  show "lo \<le> hi + len hi" using n le by simp
  show "finite (insert hi B)" using tiles_finite [OF t] by simp
  show "0 < len a" if "a \<in> insert hi B" for a using that n tiles_pos [OF t] by auto
  show "a + len a \<le> c" if "a \<in> insert hi B" "c \<in> insert hi B" "a < c" for a c
    using that b tiles_apart [OF t] tiles_pos [OF t] n by force
  show "lo \<le> a \<and> a + len a \<le> hi + len hi" if "a \<in> insert hi B" for a
    using that b n le by force
  show "\<exists>a\<in>insert hi B. a \<le> x \<and> x < a + len a" if "lo \<le> x" "x < hi + len hi" for x
    using that tiles_cover [OF t, of x] by (cases "x < hi") auto
qed

lemma tiles_push:
  assumes t: "tiles len B lo hi" and n: "0 < len a" "a + len a = lo"
  shows "tiles len (insert a B) a hi"
proof (rule tilesI)
  note b = tiles_bounds [OF t] and le = tiles_le [OF t]
  show "a \<le> hi" using n le by simp
  show "finite (insert a B)" using tiles_finite [OF t] by simp
  show "0 < len c" if "c \<in> insert a B" for c using that n tiles_pos [OF t] by auto
  show "c + len c \<le> d" if "c \<in> insert a B" "d \<in> insert a B" "c < d" for c d
    using that b n tiles_apart [OF t] by force
  show "a \<le> c \<and> c + len c \<le> hi" if "c \<in> insert a B" for c
    using that b n le by force
  show "\<exists>c\<in>insert a B. c \<le> x \<and> x < c + len c" if "a \<le> x" "x < hi" for x
    using that n tiles_cover [OF t, of x] by (cases "x < lo") auto
qed

lemma tiles_truncate:
  assumes t: "tiles len B lo hi" and m: "m \<in> B"
  shows "tiles len {a \<in> B. a \<le> m} lo (m + len m)"
proof (rule tilesI)
  note b = tiles_bounds [OF t] and ap = tiles_apart [OF t]
  show "lo \<le> m + len m" using b(1) [OF m] tiles_pos [OF t m] by simp
  show "finite {a \<in> B. a \<le> m}" using tiles_finite [OF t] by simp
  show "0 < len a" if "a \<in> {a \<in> B. a \<le> m}" for a using that tiles_pos [OF t] by simp
  show "a + len a \<le> c" if "a \<in> {a \<in> B. a \<le> m}" "c \<in> {a \<in> B. a \<le> m}" "a < c" for a c
    using that ap by simp
  show "lo \<le> a \<and> a + len a \<le> m + len m" if "a \<in> {a \<in> B. a \<le> m}" for a
    using that b(1) ap [of a m] m tiles_pos [OF t m] by (cases "a = m") auto
  show "\<exists>a\<in>{a \<in> B. a \<le> m}. a \<le> x \<and> x < a + len a" if "lo \<le> x" "x < m + len m" for x
  proof -
    from that(2) b(2) [OF m] have "x < hi" by simp
    with that(1) obtain a where a: "a \<in> B" "a \<le> x" "x < a + len a"
      using tiles_cover [OF t] by blast
    have "a \<le> m" using ap [OF m a(1)] a that(2) by linarith
    with a show ?thesis by auto
  qed
qed

lemma tiles_drop:
  assumes t: "tiles len B lo hi" and m: "m \<in> B"
  shows "tiles len {a \<in> B. m < a} (m + len m) hi"
proof (rule tilesI)
  note b = tiles_bounds [OF t] and ap = tiles_apart [OF t]
  show "m + len m \<le> hi" using b(2) [OF m] .
  show "finite {a \<in> B. m < a}" using tiles_finite [OF t] by simp
  show "0 < len a" if "a \<in> {a \<in> B. m < a}" for a using that tiles_pos [OF t] by simp
  show "a + len a \<le> c" if "a \<in> {a \<in> B. m < a}" "c \<in> {a \<in> B. m < a}" "a < c" for a c
    using that ap by simp
  show "m + len m \<le> a \<and> a + len a \<le> hi" if "a \<in> {a \<in> B. m < a}" for a
    using that b ap [OF m, of a] by simp
  show "\<exists>a\<in>{a \<in> B. m < a}. a \<le> x \<and> x < a + len a" if "m + len m \<le> x" "x < hi" for x
  proof -
    from that(1) b(1) [OF m] tiles_pos [OF t m] have "lo \<le> x" by simp
    with that(2) obtain a where a: "a \<in> B" "a \<le> x" "x < a + len a"
      using tiles_cover [OF t] by blast
    have "m < a"
    proof (rule ccontr)
      assume "\<not> m < a"
      then have "a = m \<or> a + len a \<le> m" using ap [OF a(1) m] by linarith
      with a that(1) tiles_pos [OF t m] show False by auto
    qed
    with a show ?thesis by auto
  qed
qed

lemma tiles_split:
  assumes t: "tiles len B lo hi" and a: "a \<in> B" and k: "0 < k" "k < len a"
  shows "tiles (len(a := k, a + k := len a - k)) (insert (a + k) B) lo hi" (is ?tiles)
    and "a + k \<notin> B"
proof -
  note b = tiles_bounds [OF t] and ap = tiles_apart [OF t] and p = tiles_pos [OF t]
  show new: "a + k \<notin> B" using ap [OF a, of "a + k"] k by auto
  let ?l = "len(a := k, a + k := len a - k)"
  have out: "?l c = len c" if "c \<in> B" "c \<noteq> a" for c using that new by auto
  show ?tiles
  proof (rule tilesI)
    show "lo \<le> hi" using tiles_le [OF t] .
    show "finite (insert (a + k) B)" using tiles_finite [OF t] by simp
    show "0 < ?l c" if "c \<in> insert (a + k) B" for c using that p k by auto
    show "c + ?l c \<le> d" if cd: "c \<in> insert (a + k) B" "d \<in> insert (a + k) B" "c < d" for c d
    proof -
      consider "c = a + k" | "c = a" | "c \<in> B" "c \<noteq> a" using cd(1) by blast
      then show ?thesis
      proof cases
        case 1
        then have "d \<in> B" "a < d" using cd k by auto
        with 1 ap [OF a] show ?thesis by simp
      next
        case 2
        then have "d = a + k \<or> a + len a \<le> d" using cd ap [OF a, of d] by auto
        with 2 k show ?thesis by auto
      next
        case 3
        have "d = a + k \<Longrightarrow> c < a" using 3 cd ap [OF a, of c] k by (cases "a < c") auto
        then show ?thesis using 3 cd out ap [of c a] ap [of c d] a k new by auto
      qed
    qed
    show "lo \<le> c \<and> c + ?l c \<le> hi" if "c \<in> insert (a + k) B" for c
      using that b [OF a] b [of c] k by auto
    show "\<exists>c\<in>insert (a + k) B. c \<le> x \<and> x < c + ?l c" if "lo \<le> x" "x < hi" for x
    proof -
      obtain c where c: "c \<in> B" "c \<le> x" "x < c + len c"
        using tiles_cover [OF t \<open>lo \<le> x\<close> \<open>x < hi\<close>] by blast
      show ?thesis
      proof (cases "c = a")
        case True
        show ?thesis
        proof (cases "x < a + k")
          case True
          with \<open>c = a\<close> c k a show ?thesis by (intro bexI [of _ a]) auto
        next
          case False
          with \<open>c = a\<close> c show ?thesis by (intro bexI [of _ "a + k"]) auto
        qed
      next
        case False
        with c out show ?thesis by (intro bexI [of _ c]) auto
      qed
    qed
  qed
qed

lemma tiles_merge:
  assumes t: "tiles len B lo hi" and a: "a \<in> B" and c: "a + len a \<in> B"
  shows "tiles (len(a := len a + len (a + len a))) (B - {a + len a}) lo hi"
proof (rule tilesI)
  let ?c = "a + len a" and ?l = "len(a := len a + len (a + len a))"
  note b = tiles_bounds [OF t] and ap = tiles_apart [OF t] and p = tiles_pos [OF t]
  have ac: "a < ?c" using p [OF a] by simp
  show "lo \<le> hi" using tiles_le [OF t] .
  show "finite (B - {?c})" using tiles_finite [OF t] by simp
  show "0 < ?l d" if "d \<in> B - {?c}" for d using that p p [OF a] p [OF c] by auto
  show "d + ?l d \<le> e" if "d \<in> B - {?c}" "e \<in> B - {?c}" "d < e" for d e
  proof (cases "d = a")
    case True
    have "?c < e" using that True ap [OF a, of e] by auto
    with that ap [OF c, of e] True show ?thesis by simp
  qed (use that ap in auto)
  show "lo \<le> d \<and> d + ?l d \<le> hi" if "d \<in> B - {?c}" for d
    using that b b(2) [OF c] by auto
  show "\<exists>d\<in>B - {?c}. d \<le> x \<and> x < d + ?l d" if "lo \<le> x" "x < hi" for x
  proof -
    obtain d where d: "d \<in> B" "d \<le> x" "x < d + len d"
      using tiles_cover [OF t \<open>lo \<le> x\<close> \<open>x < hi\<close>] by blast
    show ?thesis
    proof (cases "d = ?c \<or> d = a")
      case True
      then show ?thesis using d a ac p [OF c] by (intro bexI [of _ a]) auto
    next
      case False
      with d show ?thesis by (intro bexI [of _ d]) auto
    qed
  qed
qed

lemma tiles_next:
  assumes t: "tiles len B lo hi" and a: "a \<in> B" and x: "a + len a < hi"
  shows "a + len a \<in> B"
proof -
  have "lo \<le> a + len a" using tiles_bounds(1) [OF t a] tiles_pos [OF t a] by simp
  then obtain c where c: "c \<in> B" "c \<le> a + len a" "a + len a < c + len c"
    using tiles_cover [OF t _ x] by blast
  then have "\<not> c < a + len a"
    using tiles_apart [OF t a, of c] tiles_apart [OF t, of c a] a tiles_pos [OF t a]
    by (cases "c < a"; cases "c = a") auto
  with c show ?thesis by simp
qed

lemma tiles_sum: "tiles len B lo hi \<Longrightarrow> sum len B = hi - lo"
proof (induction "card B" arbitrary: B hi)
  case 0
  then have "B = {}" using tiles_finite by fastforce
  with 0 show ?case by simp
next
  case (Suc n)
  note t = \<open>tiles len B lo hi\<close>
  have fin: "finite B" and ne: "B \<noteq> {}" using tiles_finite [OF t] Suc.hyps(2) by auto
  define m where "m = Max B"
  have m: "m \<in> B" and mx: "\<And>a. a \<in> B \<Longrightarrow> a \<le> m" using fin ne by (simp_all add: m_def)
  have me: "m + len m = hi"
  proof (rule ccontr)
    assume "m + len m \<noteq> hi"
    then have "m + len m \<in> B" using tiles_next [OF t m] tiles_bounds(2) [OF t m] by simp
    then show False using mx [of "m + len m"] tiles_pos [OF t m] by simp
  qed
  have rest: "tiles len (B - {m}) lo m"
  proof (rule tilesI)
    note b = tiles_bounds [OF t] and ap = tiles_apart [OF t]
    show "lo \<le> m" using b [OF m] by simp
    show "lo \<le> a \<and> a + len a \<le> m" if "a \<in> B - {m}" for a
      using that b ap [OF _ m, of a] mx [of a] by force
    show "\<exists>a\<in>B - {m}. a \<le> x \<and> x < a + len a" if "lo \<le> x" "x < m" for x
      using tiles_cover [OF t that(1)] that(2) me tiles_pos [OF t m] by force
  qed (use fin tiles_pos [OF t] tiles_apart [OF t] in auto)
  have "card (B - {m}) = n" using Suc.hyps(2) m fin by simp
  then have "sum len (B - {m}) = m - lo" using Suc.hyps(1) rest by blast
  then show ?case using sum.remove [OF fin m, of len] me by simp
qed

end
