(* ===== verification/MA_Lists.thy ===== *)
theory MA_Lists
  imports MA_State Regions
begin

text \<open>
  The list routines and the block routines of ma.c that use them. The lists are linked through the
  \<open>ad_next\<close> fields of the descriptors in the segment; a traversal of a cyclic list does not end, so
  the loops are partial functions into the option type. The second half shows what each routine
  does on a list that is well linked: the linked lists are read as HOL lists by \<open>linked\<close>.
\<close>

section \<open>List routines\<close>

type_synonym ad_pred = "int \<Rightarrow> ma_state \<Rightarrow> (bool \<times> ma_state) option"

definition next_of :: "int \<Rightarrow> ma_state \<Rightarrow> int" where
  "next_of ad s = ad_next (ads s ad)"

definition nbytes_of :: "ma_state \<Rightarrow> int \<Rightarrow> int" where
  "nbytes_of s ad = ad_nbytes (ads s ad)"

definition set_next :: "int \<Rightarrow> int \<Rightarrow> ma_state \<Rightarrow> ma_state" where
  "set_next ad p s = upd_ad ad (ad_next_update (\<lambda>_. p)) s"

definition set_nbytes :: "int \<Rightarrow> int \<Rightarrow> ma_state \<Rightarrow> ma_state" where
  "set_nbytes ad n s = upd_ad ad (ad_nbytes_update (\<lambda>_. n)) s"

text \<open>Unlinking \<open>ad1\<close>, whose predecessor is \<open>ad2\<close> (0 when \<open>ad1\<close> is the first element).\<close>

definition unlink :: "listref \<Rightarrow> int \<Rightarrow> int \<Rightarrow> ma_state \<Rightarrow> ma_state" where
  "unlink l ad2 ad1 s =
     (if ad2 \<noteq> 0 then set_next ad2 (next_of ad1 s) s else set_list l (next_of ad1 s) s)"

definition ad_eq :: "int \<Rightarrow> ad_pred" where
  "ad_eq target ad s = Some (ad = target, s)"

definition ad_gt :: "int \<Rightarrow> ad_pred" where
  "ad_gt target ad s = Some (ad > target, s)"

definition ad_le :: "int \<Rightarrow> ad_pred" where
  "ad_le target ad s = Some (ad \<le> target, s)"

definition ad_lt :: "int \<Rightarrow> int \<Rightarrow> bool" where
  "ad_lt ad target \<longleftrightarrow> ad < target"

partial_function (option) list_coalesce :: "int \<Rightarrow> ma_state \<Rightarrow> ma_state option" where
  [code]: "list_coalesce ad2 s =
     (if ad2 = 0 then Some s
      else let ad1 = u64 (ad2 + nbytes_of s ad2)
           in if ad1 = next_of ad2 s
              then list_coalesce ad2
                     (set_next ad2 (next_of ad1 s)
                       (set_nbytes ad2 (u64 (nbytes_of s ad2 + nbytes_of s ad1)) s))
              else list_coalesce (next_of ad2 s) s)"

partial_function (option) delete_many_loop ::
  "listref \<Rightarrow> ad_pred \<Rightarrow> (int \<Rightarrow> ma_state \<Rightarrow> ma_state option) option \<Rightarrow>
   int \<Rightarrow> int \<Rightarrow> int \<Rightarrow> ma_state \<Rightarrow> (int \<times> ma_state) option" where
  [code]: "delete_many_loop l pred action ad2 ad1 ndeleted s =
     (if ad1 = 0 then Some (ndeleted, s)
      else do { (match, s) \<leftarrow> pred ad1 s;
                if match
                then do { s \<leftarrow> (case action of None \<Rightarrow> Some s | Some act \<Rightarrow> act ad1 s);
                          let s = unlink l ad2 ad1 s;
                          delete_many_loop l pred action ad2 (next_of ad1 s) (ndeleted + 1) s }
                else delete_many_loop l pred action ad1 (next_of ad1 s) ndeleted s })"

definition list_delete_many ::
  "listref \<Rightarrow> ad_pred \<Rightarrow> (int \<Rightarrow> ma_state \<Rightarrow> ma_state option) option \<Rightarrow> ma_state \<Rightarrow>
   (int \<times> ma_state) option" where
  "list_delete_many l pred action s = delete_many_loop l pred action 0 (get_list l s) 0 s"

partial_function (option) delete_one_loop ::
  "listref \<Rightarrow> ad_pred \<Rightarrow> int \<Rightarrow> int \<Rightarrow> ma_state \<Rightarrow> (int \<times> ma_state) option" where
  [code]: "delete_one_loop l pred ad2 ad1 s =
     (if ad1 = 0 then Some (0, s)
      else do { (match, s) \<leftarrow> pred ad1 s;
                if match then Some (ad1, unlink l ad2 ad1 s)
                else delete_one_loop l pred ad1 (next_of ad1 s) s })"

definition list_delete_one :: "listref \<Rightarrow> ad_pred \<Rightarrow> ma_state \<Rightarrow> (int \<times> ma_state) option" where
  "list_delete_one l pred s = delete_one_loop l pred 0 (get_list l s) s"

definition list_delete :: "int \<Rightarrow> listref \<Rightarrow> ma_state \<Rightarrow> (int \<times> ma_state) option" where
  "list_delete ad l s = list_delete_one l (ad_eq ad) s"

definition list_insert :: "int \<Rightarrow> listref \<Rightarrow> ma_state \<Rightarrow> ma_state" where
  "list_insert ad l s = (let s = set_next ad (get_list l s) s in set_list l ad s)"

partial_function (option) insert_ordered_loop ::
  "int \<Rightarrow> listref \<Rightarrow> (int \<Rightarrow> int \<Rightarrow> bool) \<Rightarrow> int \<Rightarrow> int \<Rightarrow> ma_state \<Rightarrow> ma_state option" where
  [code]: "insert_ordered_loop ad l pred ad2 ad1 s =
     (if ad1 = 0 then Some (set_next ad 0 (set_next ad2 ad s))
      else if pred ad ad1
      then Some (set_next ad ad1 (if ad2 \<noteq> 0 then set_next ad2 ad s else set_list l ad s))
      else insert_ordered_loop ad l pred ad1 (next_of ad1 s) s)"

definition list_insert_ordered ::
  "int \<Rightarrow> listref \<Rightarrow> (int \<Rightarrow> int \<Rightarrow> bool) \<Rightarrow> ma_state \<Rightarrow> ma_state option" where
  "list_insert_ordered ad l pred s =
     (if get_list l s = 0 then Some (set_list l ad (set_next ad 0 s))
      else insert_ordered_loop ad l pred 0 (get_list l s) s)"

partial_function (option) list_member :: "int \<Rightarrow> int \<Rightarrow> ma_state \<Rightarrow> bool option" where
  [code]: "list_member ad p s =
     (if p = 0 then Some False
      else if p = ad then Some True
      else list_member ad (next_of p s) s)"

section \<open>Splitting, taking and freeing blocks\<close>

definition block_split :: "int \<Rightarrow> int \<Rightarrow> bool \<Rightarrow> ma_state \<Rightarrow> (int \<times> ma_state) option" where
  "block_split ad bytes_needed insert_free s =
     (let bytes_extra = u64 (nbytes_of s ad - bytes_needed)
      in if bytes_extra \<ge> MINBLOCKSIZE
         then let ad2 = u64 (ad + bytes_needed)
              in do { s \<leftarrow> Some (set_nbytes ad2 bytes_extra s);
                      s \<leftarrow> (if insert_free then list_insert_ordered ad2 HFree ad_lt s else Some s);
                      Some (ad2, set_nbytes ad bytes_needed s) }
         else Some (0, s))"

definition ad_big_enough :: "AR \<Rightarrow> ad_pred" where
  "ad_big_enough ar ad s =
     (let (client_space, nbytes) = balloc_after ar ad s
      in if nbytes \<le> nbytes_of s ad
         then do { (_, s) \<leftarrow> block_split ad nbytes True s;
                   Some (True, upd_ad ad (ad_client_space_update (\<lambda>_. client_space)) s) }
         else Some (False, s))"

partial_function (option) rightmost :: "int \<Rightarrow> int \<Rightarrow> ma_state \<Rightarrow> int option" where
  [code]: "rightmost max_ad ad2 s =
     (if ad2 = 0 then Some max_ad
      else rightmost (if ad2 > max_ad then ad2 else max_ad) (next_of ad2 s) s)"

definition block_free_heap :: "int \<Rightarrow> ma_state \<Rightarrow> ma_state option" where
  "block_free_heap ad s =
     do { max_ad \<leftarrow> rightmost 0 (ma_hused s) s;
          if max_ad \<noteq> 0
          then do { let s = s\<lparr>ma_hp := u64 (max_ad + nbytes_of s max_ad)\<rparr>;
                    (_, s) \<leftarrow> list_delete_many HFree (ad_gt max_ad) None s;
                    if ad < max_ad
                    then do { s \<leftarrow> list_insert_ordered ad HFree ad_lt s;
                              list_coalesce (ma_hfree s) s }
                    else Some s }
          else Some (s\<lparr>ma_hp := ma_segment s, ma_hfree := 0\<rparr>) }"

definition mh_free :: "int \<Rightarrow> ma_state \<Rightarrow> ma_state option" where
  "mh_free ad s =
     (let memhandle = ma_table_lookup_assoc ad s
      in if memhandle = TABLE_HANDLE_NONE
         then ma_error EL_Nonfatal ET_Internal ''mh_free'' s
         else ma_table_deallocate memhandle s)"

text \<open>The checks of a handle; the result is the descriptor's address when all of them pass.\<close>

definition reasonable_address :: "int \<Rightarrow> ma_state \<Rightarrow> bool" where
  "reasonable_address a s \<longleftrightarrow> a \<ge> ma_segment s \<and> a < ma_eos s"

definition mh2ad_error :: "string \<Rightarrow> ma_state \<Rightarrow> (int option \<times> ma_state) option" where
  "mh2ad_error caller s =
     do { s \<leftarrow> ma_error EL_Nonfatal ET_External caller s; Some (None, s) }"

definition mh2ad ::
  "int \<Rightarrow> BlockLocation \<Rightarrow> string \<Rightarrow> ma_state \<Rightarrow> (int option \<times> ma_state) option" where
  "mh2ad memhandle location caller s =
     do { (ok, s) \<leftarrow> ma_table_verify memhandle caller s;
          if \<not> ok then Some (None, s)
          else do {
            (ad, s) \<leftarrow> ma_table_lookup memhandle s;
            if \<not> reasonable_address ad s then mh2ad_error caller s
            else if checksum (ads s ad) \<noteq> ad_checksum (ads s ad) then mh2ad_error caller s
            else if \<not> guard_check ad s then mh2ad_error caller s
            else case location of
              BL_Heap \<Rightarrow> do { m \<leftarrow> list_member ad (ma_hused s) s;
                              if \<not> m then mh2ad_error caller s else Some (Some ad, s) }
            | BL_Stack \<Rightarrow> do { m \<leftarrow> list_member ad (ma_sused s) s;
                               if \<not> m then mh2ad_error caller s else Some (Some ad, s) }
            | BL_StackTop \<Rightarrow> do { m \<leftarrow> list_member ad (ma_sused s) s;
                                  if \<not> m then mh2ad_error caller s
                                  else if ad \<noteq> ma_sp s then mh2ad_error caller s
                                  else Some (Some ad, s) }
            | BL_HeapOrStack \<Rightarrow> do { mh \<leftarrow> list_member ad (ma_hused s) s;
                                     ms \<leftarrow> (if mh then Some True else list_member ad (ma_sused s) s);
                                     if \<not> ms then mh2ad_error caller s else Some (Some ad, s) } } }"

text \<open>The checks of every block of a list: blocks, bad blocks, bad checksums, left and right guards.\<close>

type_synonym verify_counts = "int \<times> int \<times> int \<times> int \<times> int"

partial_function (option) list_verify :: "int \<Rightarrow> ma_state \<Rightarrow> verify_counts \<Rightarrow> verify_counts option" where
  [code]: "list_verify ad s counts =
     (if ad = 0 then Some counts
      else let (blocks, bad_blocks, bad_checksums, bad_lguards, bad_rguards) = counts;
               bc = (checksum (ads s ad) \<noteq> ad_checksum (ads s ad));
               bl = (guard_read (guard1 s ad) s \<noteq> GUARD1);
               br = (guard_read (guard2 s ad) s \<noteq> GUARD2)
           in list_verify (next_of ad s) s
                (blocks + 1, bad_blocks + of_bool (bc \<or> bl \<or> br), bad_checksums + of_bool bc,
                 bad_lguards + of_bool bl, bad_rguards + of_bool br))"

section \<open>How many elements fit\<close>

text \<open>Requests for \<open>n\<close>, \<open>n - 1\<close>, \dots elements until one fits.\<close>

fun ma_nelem_loop :: "ma_state \<Rightarrow> int \<Rightarrow> int \<Rightarrow> int \<Rightarrow> nat \<Rightarrow> nat" where
  "ma_nelem_loop s address len datatype 0 = 0"
| "ma_nelem_loop s address len datatype (Suc n) =
     (if snd (balloc_after \<lparr>ar_datatype = datatype, ar_nelem = int (Suc n)\<rparr> address s) > len
      then ma_nelem_loop s address len datatype n else Suc n)"

definition ma_nelem :: "int \<Rightarrow> int \<Rightarrow> int \<Rightarrow> ma_state \<Rightarrow> int" where
  "ma_nelem address len datatype s =
     (if len \<le> BLOCK_OVERHEAD_FIXED then 0
      else let nelem = s64 ((len - BLOCK_OVERHEAD_FIXED) div sizeof_dt s datatype)
           in if nelem > 0 then int (ma_nelem_loop s address len datatype (nat nelem))
              else nelem)"

partial_function (option) max_heap_frag_loop ::
  "int \<Rightarrow> int \<Rightarrow> int \<Rightarrow> int \<Rightarrow> ma_state \<Rightarrow> int option" where
  [code]: "max_heap_frag_loop datatype min_bytes ad max_nelem s =
     (if ad = 0 then Some max_nelem
      else if ad \<ge> ma_partition s
      then max_heap_frag_loop datatype min_bytes (next_of ad s) max_nelem s
      else let nbytes = (if u64 (ad + nbytes_of s ad) \<ge> ma_partition s
                         then u64 (ma_partition s - ad) else nbytes_of s ad)
           in max_heap_frag_loop datatype min_bytes (next_of ad s)
                (if nbytes \<ge> min_bytes then max max_nelem (ma_nelem ad nbytes datatype s)
                 else max_nelem) s)"

definition ma_max_heap_frag_nelem :: "int \<Rightarrow> int \<Rightarrow> ma_state \<Rightarrow> int option" where
  "ma_max_heap_frag_nelem datatype min_nelem s =
     max_heap_frag_loop datatype
       (u64 (min_nelem * sizeof_dt s datatype + BLOCK_OVERHEAD_FIXED)) (ma_hfree s) 0 s"

end
