(* ===== verification/MA_Public.thy ===== *)
theory MA_Public
  imports MA_Lists
begin

text \<open>
  The public routines of the memory allocator (src/ma/ma.c), translated whole: the call counters,
  the automatic verification (the code is built with STATS and VERIFY), the checks of the
  arguments with the errors they report, and every change of the state. Trace output is not
  modelled. A routine returns its C result together with what it writes through its pointer
  arguments (an option where it may leave them unwritten) and the new state.

  Outside code enters as arguments: \<open>bytealloc\<close> says whether \<open>malloc\<close> gives memory for the handle
  table, \<open>get_segment\<close> is the address that \<open>malloc\<close> (or \<open>ARMCI_Malloc_local\<close>, or
  \<open>cudaMallocManaged\<close>) gives for the segment, 0 when it fails.
\<close>

section \<open>Verification\<close>

definition MA_verify_allocator_stuff :: "ma_state \<Rightarrow> (bool \<times> ma_state) option" where
  "MA_verify_allocator_stuff s =
     do { let s = bump FID_MA_verify_allocator_stuff s;
          (hb, bad_heap_blocks, hc, hl, hr) \<leftarrow> list_verify (ma_hused s) s (0, 0, 0, 0, 0);
          (sb, bad_stack_blocks, sc, sl, sr) \<leftarrow> list_verify (ma_sused s) s (0, 0, 0, 0, 0);
          if bad_heap_blocks > 0 \<or> bad_stack_blocks > 0
          then do { let old_ma_error_print = ma_error_print s;
                    s \<leftarrow> ma_error EL_Nonfatal ET_External ''MA_verify_allocator_stuff''
                           (s\<lparr>ma_error_print := True\<rparr>);
                    Some (False, s\<lparr>ma_error_print := old_ma_error_print\<rparr>) }
          else Some (True, s) }"

definition auto_verify :: "ma_state \<Rightarrow> (bool \<times> ma_state) option" where
  "auto_verify s = (if ma_auto_verify s then MA_verify_allocator_stuff s else Some (True, s))"

section \<open>Datatypes and initialization\<close>

definition MAi_inform_base ::
  "int \<Rightarrow> int \<Rightarrow> int \<Rightarrow> ma_state \<Rightarrow> (bool \<times> ma_state) option" where
  "MAi_inform_base datatype address1 address2 s =
     (if ma_initialized s
      then do { s \<leftarrow> ma_error EL_Nonfatal ET_Internal ''MAi_inform_base'' s; Some (False, s) }
      else if \<not> mt_valid datatype
      then do { s \<leftarrow> ma_error EL_Nonfatal ET_Internal ''MAi_inform_base'' s; Some (False, s) }
      else let d = mt_import datatype
           in Some (True, s\<lparr>ma_base := (ma_base s)[nat d := address1],
                            ma_sizeof := (ma_sizeof s)[nat d := s32 (address2 - address1)]\<rparr>))"

text \<open>The seven FORTRAN datatypes are \<open>MT_F_BYTE\<close> to \<open>MT_F_DCPL\<close>, numbered from 1009 on.\<close>

fun inform_bases :: "int \<Rightarrow> (int \<times> int) list \<Rightarrow> ma_state \<Rightarrow> ma_state option" where
  "inform_bases d [] s = Some s"
| "inform_bases d ((a1, a2) # rest) s =
     do { (_, s) \<leftarrow> MAi_inform_base d a1 a2 s; inform_bases (d + 1) rest s }"

definition ma_set_sizes :: "ma_state \<Rightarrow> (int \<times> ma_state) option" where
  "ma_set_sizes s = do { s \<leftarrow> inform_bases (MT_BASE + 9) (take 7 (ma_fb s)) s; Some (1, s) }"

definition ma_preinitialize :: "string \<Rightarrow> ma_state \<Rightarrow> ma_state option" where
  "ma_preinitialize caller s =
     (if ma_preinitialized s then Some s
      else do { (ok, s) \<leftarrow> ma_set_sizes s;
                if ok = 0 then ma_error EL_Fatal ET_Internal caller s
                else Some (s\<lparr>ma_preinitialized := True\<rparr>) })"

definition region_bytes :: "int \<Rightarrow> int \<Rightarrow> int \<Rightarrow> ma_state \<Rightarrow> int" where
  "region_bytes nominal dflt d s =
     mai_round (if nominal < 0 then dflt
                else u64 (nominal * sizeof_dt s d + 1 * max_block_overhead s d)) ALIGNMENT"

definition MA_init ::
  "(int \<Rightarrow> int) \<Rightarrow> int \<Rightarrow> int \<Rightarrow> int \<Rightarrow> ma_state \<Rightarrow> (bool \<times> ma_state) option" where
  "MA_init get_segment datatype nominal_stack nominal_heap s =
     do { let s = bump FID_MA_init s;
          (ok, s) \<leftarrow> auto_verify s;
          if \<not> ok then Some (False, s)
          else do {
            s \<leftarrow> ma_preinitialize ''MA_init'' s;
            if ma_initialized s
            then do { s \<leftarrow> ma_error EL_Nonfatal ET_External ''MA_init'' s; Some (False, s) }
            else if \<not> mt_valid datatype
            then do { s \<leftarrow> ma_error EL_Nonfatal ET_External ''MA_init'' s; Some (False, s) }
            else do {
              let d = mt_import datatype;
              let heap_bytes = region_bytes nominal_heap DEFAULT_TOTAL_HEAP d s;
              let stack_bytes = region_bytes nominal_stack DEFAULT_TOTAL_STACK d s;
              let total_bytes = u64 (heap_bytes + stack_bytes);
              let segment = get_segment total_bytes;
              let s = s\<lparr>ma_segment := segment\<rparr>;
              if segment = 0
              then do { s \<leftarrow> ma_error EL_Nonfatal ET_External ''MA_init'' s; Some (False, s) }
              else Some (True, s\<lparr>ma_partition := u64 (segment + heap_bytes),
                                 ma_eos := u64 (segment + total_bytes),
                                 ma_hp := segment,
                                 ma_sp := u64 (segment + total_bytes),
                                 ma_hfree := 0, ma_hused := 0, ma_sused := 0,
                                 ma_initialized := True\<rparr>) } } }"

definition MA_initialized :: "ma_state \<Rightarrow> bool \<times> ma_state" where
  "MA_initialized s = (ma_initialized s, bump FID_MA_initialized s)"

definition MA_get_mbase :: "int \<Rightarrow> ma_state \<Rightarrow> (int \<times> ma_state) option" where
  "MA_get_mbase datatype s =
     do { s \<leftarrow> ma_preinitialize ''MA_get_mbase'' (bump FID_MA_get_mbase s);
          if \<not> mt_valid datatype
          then do { s \<leftarrow> ma_error EL_Fatal ET_External ''MA_get_mbase'' s; Some (0, s) }
          else Some (base_dt s (mt_import datatype), s) }"

definition MA_sizeof :: "int \<Rightarrow> int \<Rightarrow> int \<Rightarrow> ma_state \<Rightarrow> (int \<times> ma_state) option" where
  "MA_sizeof datatype1 nelem1 datatype2 s =
     do { let s = bump FID_MA_sizeof s;
          (ok, s) \<leftarrow> auto_verify s;
          if \<not> ok then Some (0, s)
          else do {
            s \<leftarrow> ma_preinitialize ''MA_sizeof'' s;
            if \<not> mt_valid datatype1 \<or> nelem1 < 0 \<or> \<not> mt_valid datatype2
            then do { s \<leftarrow> ma_error EL_Fatal ET_External ''MA_sizeof'' s; Some (0, s) }
            else let source_bytes = u64 (nelem1 * sizeof_dt s (mt_import datatype1));
                     sz2 = sizeof_dt s (mt_import datatype2);
                     ceiling = (if source_bytes mod sz2 \<noteq> 0 then 1 else 0)
                 in Some (s64 (source_bytes div sz2 + ceiling), s) } }"

text \<open>The first datatype of greatest size.\<close>

fun biggest_from :: "int list \<Rightarrow> int \<Rightarrow> int \<Rightarrow> int \<Rightarrow> int" where
  "biggest_from [] i max_sizeof biggest = biggest"
| "biggest_from (z # zs) i max_sizeof biggest =
     (if z > max_sizeof then biggest_from zs (i + 1) z i else biggest_from zs (i + 1) max_sizeof biggest)"

definition MA_sizeof_overhead :: "int \<Rightarrow> ma_state \<Rightarrow> (int \<times> ma_state) option" where
  "MA_sizeof_overhead datatype s =
     do { let s = bump FID_MA_sizeof_overhead s;
          (ok, s) \<leftarrow> auto_verify s;
          if \<not> ok then Some (0, s)
          else do {
            s \<leftarrow> ma_preinitialize ''MA_sizeof_overhead'' s;
            if \<not> mt_valid datatype
            then do { s \<leftarrow> ma_error EL_Fatal ET_External ''MA_sizeof_overhead'' s; Some (0, s) }
            else let overhead_bytes = s32 (max_block_overhead s (biggest_from (ma_sizeof s) 0 0 0));
                     sz = sizeof_dt s (mt_import datatype);
                     ceiling = (if cmod overhead_bytes sz \<noteq> 0 then 1 else 0)
                 in Some (cdiv overhead_bytes sz + ceiling, s) } }"

section \<open>Handles\<close>

definition MA_get_index :: "int \<Rightarrow> ma_state \<Rightarrow> (bool \<times> int option \<times> ma_state) option" where
  "MA_get_index memhandle s =
     do { let s = bump FID_MA_get_index s;
          (ok, s) \<leftarrow> auto_verify s;
          if \<not> ok then Some (False, None, s)
          else do { (ad, s) \<leftarrow> mh2ad memhandle BL_HeapOrStack ''MA_get_index'' s;
                    case ad of None \<Rightarrow> Some (False, None, s)
                    | Some ad \<Rightarrow> Some (True, Some (client_space_index s ad), s) } }"

definition MA_get_pointer :: "int \<Rightarrow> ma_state \<Rightarrow> (bool \<times> int option \<times> ma_state) option" where
  "MA_get_pointer memhandle s =
     do { let s = bump FID_MA_get_pointer s;
          (ok, s) \<leftarrow> auto_verify s;
          if \<not> ok then Some (False, None, s)
          else do { (ad, s) \<leftarrow> mh2ad memhandle BL_HeapOrStack ''MA_get_pointer'' s;
                    case ad of None \<Rightarrow> Some (False, None, s)
                    | Some ad \<Rightarrow> Some (True, Some (ad_client_space (ads s ad)), s) } }"

definition MA_get_next_memhandle :: "ma_state \<Rightarrow> (bool \<times> ma_state) option" where
  "MA_get_next_memhandle s =
     do { let s = bump FID_MA_get_next_memhandle s;
          (ok, s) \<leftarrow> auto_verify s;
          if \<not> ok then Some (False, s)
          else do { s \<leftarrow> ma_error EL_Nonfatal ET_External ''MA_get_next_memhandle'' s;
                    Some (False, s) } }"

definition MA_init_memhandle_iterator :: "ma_state \<Rightarrow> (bool \<times> ma_state) option" where
  "MA_init_memhandle_iterator s =
     do { let s = bump FID_MA_init_memhandle_iterator s;
          (ok, s) \<leftarrow> auto_verify s;
          if \<not> ok then Some (False, s)
          else do { s \<leftarrow> ma_error EL_Nonfatal ET_External ''MA_init_memhandle_iterator'' s;
                    Some (False, s) } }"

section \<open>The heap\<close>

definition count_heap_block :: "int \<Rightarrow> ma_state \<Rightarrow> ma_state" where
  "count_heap_block n s =
     (let st = ma_stats s; b = u64 (hblocks st + 1); y = u64 (hbytes st + n)
      in s\<lparr>ma_stats := st\<lparr>hblocks := b, hblocks_max := max b (hblocks_max st),
                          hbytes := y, hbytes_max := max y (hbytes_max st)\<rparr>\<rparr>)"

definition uncount_heap :: "int \<Rightarrow> int \<Rightarrow> ma_state \<Rightarrow> ma_state" where
  "uncount_heap k n s = s\<lparr>ma_stats := (ma_stats s)\<lparr>hblocks := u64 (hblocks (ma_stats s) - k),
     hbytes := u64 (hbytes (ma_stats s) - n)\<rparr>\<rparr>"

definition count_stack_block :: "int \<Rightarrow> ma_state \<Rightarrow> ma_state" where
  "count_stack_block n s =
     (let st = ma_stats s; b = u64 (sblocks st + 1); y = u64 (sbytes st + n)
      in s\<lparr>ma_stats := st\<lparr>sblocks := b, sblocks_max := max b (sblocks_max st),
                          sbytes := y, sbytes_max := max y (sbytes_max st)\<rparr>\<rparr>)"

definition uncount_stack :: "int \<Rightarrow> int \<Rightarrow> ma_state \<Rightarrow> ma_state" where
  "uncount_stack k n s = s\<lparr>ma_stats := (ma_stats s)\<lparr>sblocks := u64 (sblocks (ma_stats s) - k),
     sbytes := u64 (sbytes (ma_stats s) - n)\<rparr>\<rparr>"

text \<open>Finding the space for a heap block: the free list first, then the top of the heap.\<close>

definition heap_space :: "AR \<Rightarrow> ma_state \<Rightarrow> (int option \<times> ma_state) option" where
  "heap_space ar s =
     do { (ad, s) \<leftarrow> list_delete_one HFree (ad_big_enough ar) s;
          if ad \<noteq> 0 then Some (Some ad, s)
          else let (client_space, nbytes) = balloc_after ar (ma_hp s) s;
                   new_hp = u64 (ma_hp s + nbytes)
               in if new_hp > ma_sp s
                  then do { s \<leftarrow> ma_error EL_Nonfatal ET_External ''MA_allocate_heap'' s;
                            Some (None, s) }
                  else Some (Some (ma_hp s),
                         upd_ad (ma_hp s) (\<lambda>a. a\<lparr>ad_client_space := client_space,
                                                 ad_nbytes := nbytes\<rparr>) s) }"

text \<open>Filling in the descriptor of a new block and linking it into its used list.\<close>

definition init_ad :: "listref \<Rightarrow> int \<Rightarrow> int \<Rightarrow> int \<Rightarrow> string option \<Rightarrow> ma_state \<Rightarrow> ma_state" where
  "init_ad l ad datatype nelem name s =
     (let s = upd_ad ad (\<lambda>a. a\<lparr>ad_datatype := datatype, ad_nelem := nelem,
                               ad_name := str_ncopy name MA_NAMESIZE\<rparr>) s;
          s = list_insert ad l s;
          s = upd_ad ad (\<lambda>a. a\<lparr>ad_checksum := checksum a\<rparr>) s
      in guard_set ad s)"

definition MA_allocate_heap ::
  "(int \<Rightarrow> bool) \<Rightarrow> int \<Rightarrow> int \<Rightarrow> string option \<Rightarrow> ma_state \<Rightarrow>
   (bool \<times> int option \<times> ma_state) option" where
  "MA_allocate_heap bytealloc datatype nelem name s =
     do { let s = bump FID_MA_allocate_heap s;
          (ok, s) \<leftarrow> auto_verify s;
          if \<not> ok then Some (False, None, s)
          else if \<not> ma_initialized s \<or> \<not> mt_valid datatype \<or> nelem < 0
          then do { s \<leftarrow> ma_error EL_Nonfatal ET_External ''MA_allocate_heap'' s;
                    Some (False, None, s) }
          else do {
            let d = mt_import datatype;
            (space, s) \<leftarrow> heap_space \<lparr>ar_datatype = d, ar_nelem = nelem\<rparr> s;
            case space of None \<Rightarrow> Some (False, None, s)
            | Some ad \<Rightarrow> do {
                let s = init_ad HUsed ad d nelem name s;
                let new_hp = u64 (ad + nbytes_of s ad);
                let s = (if new_hp > ma_hp s then s\<lparr>ma_hp := new_hp\<rparr> else s);
                let s = count_heap_block (nbytes_of s ad) s;
                (memhandle, s) \<leftarrow> ma_table_allocate bytealloc ad s;
                Some (memhandle \<noteq> TABLE_HANDLE_NONE, Some memhandle, s) } } }"

definition MA_alloc_get ::
  "(int \<Rightarrow> bool) \<Rightarrow> int \<Rightarrow> int \<Rightarrow> string option \<Rightarrow> ma_state \<Rightarrow>
   (bool \<times> int option \<times> int option \<times> ma_state) option" where
  "MA_alloc_get bytealloc datatype nelem name s =
     do { (ok, memhandle, s) \<leftarrow> MA_allocate_heap bytealloc datatype nelem name
                                   (bump FID_MA_alloc_get s);
          case (ok, memhandle) of
            (True, Some h) \<Rightarrow> do { (ok, index, s) \<leftarrow> MA_get_index h s; Some (ok, memhandle, index, s) }
          | _ \<Rightarrow> Some (False, memhandle, None, s) }"

definition MA_free_heap :: "int \<Rightarrow> ma_state \<Rightarrow> (bool \<times> ma_state) option" where
  "MA_free_heap memhandle s =
     do { let s = bump FID_MA_free_heap s;
          (ok, s) \<leftarrow> auto_verify s;
          if \<not> ok then Some (False, s)
          else do {
            (ad, s) \<leftarrow> mh2ad memhandle BL_Heap ''MA_free_heap'' s;
            case ad of None \<Rightarrow> Some (False, s)
            | Some ad \<Rightarrow> do {
                (ad1, s) \<leftarrow> list_delete ad HUsed s;
                if ad1 \<noteq> ad
                then do { s \<leftarrow> ma_error EL_Nonfatal ET_Internal ''MA_free_heap'' s; Some (False, s) }
                else do { let s = uncount_heap 1 (nbytes_of s ad) s;
                          s \<leftarrow> block_free_heap ad s;
                          s \<leftarrow> ma_table_deallocate memhandle s;
                          Some (True, s) } } } }"

definition MA_free_heap_piece :: "int \<Rightarrow> int \<Rightarrow> ma_state \<Rightarrow> (bool \<times> ma_state) option" where
  "MA_free_heap_piece memhandle nelem s =
     do { let s = bump FID_MA_free_heap_piece s;
          (ok, s) \<leftarrow> auto_verify s;
          if \<not> ok then Some (False, s)
          else do {
            (ad, s) \<leftarrow> mh2ad memhandle BL_Heap ''MA_free_heap_piece'' s;
            case ad of None \<Rightarrow> Some (False, s)
            | Some ad \<Rightarrow>
                if nelem < 0
                then do { s \<leftarrow> ma_error EL_Nonfatal ET_External ''MA_free_heap_piece'' s;
                          Some (False, s) }
                else if nelem \<ge> ad_nelem (ads s ad) then MA_free_heap memhandle s
                else do {
                  let ar = \<lparr>ar_datatype = ad_datatype (ads s ad),
                            ar_nelem = ad_nelem (ads s ad) - nelem\<rparr>;
                  let (client_space, nbytes) = balloc_after ar ad s;
                  s \<leftarrow> (if nbytes < nbytes_of s ad
                        then do { (ad_reclaim, s) \<leftarrow> block_split ad nbytes False s;
                                  if ad_reclaim \<noteq> 0
                                  then block_free_heap ad_reclaim
                                         (uncount_heap 0 (nbytes_of s ad_reclaim) s)
                                  else Some s }
                        else Some s);
                  let s = upd_ad ad (ad_nelem_update (\<lambda>_. ar_nelem ar)) s;
                  let s = upd_ad ad (\<lambda>a. a\<lparr>ad_checksum := checksum a\<rparr>) s;
                  Some (True, guard_set ad s) } } }"

section \<open>The stack\<close>

definition MA_push_stack ::
  "(int \<Rightarrow> bool) \<Rightarrow> int \<Rightarrow> int \<Rightarrow> string option \<Rightarrow> ma_state \<Rightarrow>
   (bool \<times> int option \<times> ma_state) option" where
  "MA_push_stack bytealloc datatype nelem name s =
     do { let s = bump FID_MA_push_stack s;
          (ok, s) \<leftarrow> auto_verify s;
          if \<not> ok then Some (False, None, s)
          else if \<not> ma_initialized s \<or> \<not> mt_valid datatype \<or> nelem < 0
          then do { s \<leftarrow> ma_error EL_Nonfatal ET_External ''MA_push_stack'' s;
                    Some (False, None, s) }
          else do {
            let d = mt_import datatype;
            let (client_space, nbytes) = balloc_before \<lparr>ar_datatype = d, ar_nelem = nelem\<rparr> (ma_sp s) s;
            let new_sp = u64 (ma_sp s - nbytes);
            if u64 (ma_sp s - ma_hp s) < nbytes
            then do { s \<leftarrow> ma_error EL_Nonfatal ET_External ''MA_push_stack'' s;
                      Some (False, None, s) }
            else do {
              let ad = new_sp;
              let s = upd_ad ad (\<lambda>a. a\<lparr>ad_client_space := client_space, ad_nbytes := nbytes\<rparr>) s;
              let s = init_ad SUsed ad d nelem name s;
              let s = s\<lparr>ma_sp := new_sp\<rparr>;
              let s = count_stack_block (nbytes_of s ad) s;
              (memhandle, s) \<leftarrow> ma_table_allocate bytealloc ad s;
              Some (memhandle \<noteq> TABLE_HANDLE_NONE, Some memhandle, s) } } }"

definition MA_push_get ::
  "(int \<Rightarrow> bool) \<Rightarrow> int \<Rightarrow> int \<Rightarrow> string option \<Rightarrow> ma_state \<Rightarrow>
   (bool \<times> int option \<times> int option \<times> ma_state) option" where
  "MA_push_get bytealloc datatype nelem name s =
     do { (ok, memhandle, s) \<leftarrow> MA_push_stack bytealloc datatype nelem name
                                   (bump FID_MA_push_get s);
          case (ok, memhandle) of
            (True, Some h) \<Rightarrow> do { (ok, index, s) \<leftarrow> MA_get_index h s; Some (ok, memhandle, index, s) }
          | _ \<Rightarrow> Some (False, memhandle, None, s) }"

definition MA_pop_stack :: "int \<Rightarrow> ma_state \<Rightarrow> (bool \<times> ma_state) option" where
  "MA_pop_stack memhandle s =
     do { let s = bump FID_MA_pop_stack s;
          (ok, s) \<leftarrow> auto_verify s;
          if \<not> ok then Some (False, s)
          else do {
            (ad, s) \<leftarrow> mh2ad memhandle BL_StackTop ''MA_pop_stack'' s;
            case ad of None \<Rightarrow> Some (False, s)
            | Some ad \<Rightarrow> do {
                (ad1, s) \<leftarrow> list_delete ad SUsed s;
                if ad1 \<noteq> ad
                then do { s \<leftarrow> ma_error EL_Nonfatal ET_Internal ''MA_pop_stack'' s; Some (False, s) }
                else do { let s = s\<lparr>ma_sp := u64 (ma_sp s + nbytes_of s ad)\<rparr>;
                          let s = uncount_stack 1 (nbytes_of s ad) s;
                          s \<leftarrow> ma_table_deallocate memhandle s;
                          Some (True, s) } } } }"

definition MA_chop_stack :: "int \<Rightarrow> ma_state \<Rightarrow> (bool \<times> ma_state) option" where
  "MA_chop_stack memhandle s =
     do { let s = bump FID_MA_chop_stack s;
          (ok, s) \<leftarrow> auto_verify s;
          if \<not> ok then Some (False, s)
          else do {
            (ad, s) \<leftarrow> mh2ad memhandle BL_Stack ''MA_chop_stack'' s;
            case ad of None \<Rightarrow> Some (False, s)
            | Some ad \<Rightarrow> do {
                (ndeleted, s) \<leftarrow> list_delete_many SUsed (ad_le ad) (Some mh_free) s;
                let s = uncount_stack ndeleted (u64 (ad + nbytes_of s ad) - ma_sp s) s;
                Some (True, s\<lparr>ma_sp := u64 (ad + nbytes_of s ad)\<rparr>) } } }"

section \<open>Settings\<close>

definition MA_set_auto_verify :: "bool \<Rightarrow> ma_state \<Rightarrow> bool \<times> ma_state" where
  "MA_set_auto_verify value s =
     (ma_auto_verify s, (bump FID_MA_set_auto_verify s)\<lparr>ma_auto_verify := value\<rparr>)"

definition MA_set_error_print :: "bool \<Rightarrow> ma_state \<Rightarrow> bool \<times> ma_state" where
  "MA_set_error_print value s =
     (ma_error_print s, (bump FID_MA_set_error_print s)\<lparr>ma_error_print := value\<rparr>)"

definition MA_set_hard_fail :: "bool \<Rightarrow> ma_state \<Rightarrow> bool \<times> ma_state" where
  "MA_set_hard_fail value s =
     (ma_hard_fail s, (bump FID_MA_set_hard_fail s)\<lparr>ma_hard_fail := value\<rparr>)"

definition MA_get_numalign :: "ma_state \<Rightarrow> int \<times> ma_state" where
  "MA_get_numalign s = (ma_numalign s, bump FID_MA_get_numalign s)"

definition MA_set_numalign :: "int \<Rightarrow> ma_state \<Rightarrow> (bool \<times> ma_state) option" where
  "MA_set_numalign value s =
     (let s = bump FID_MA_set_numalign s
      in if value < 0 \<or> value > 30
         then do { s \<leftarrow> ma_error EL_Nonfatal ET_External ''MA_set_numalign'' s; Some (False, s) }
         else Some (True, s\<lparr>ma_numalign := value\<rparr>))"

definition MA_trace :: "bool \<Rightarrow> ma_state \<Rightarrow> ma_state" where
  "MA_trace value s = s\<lparr>ma_trace := value\<rparr>"

section \<open>The state before initialization\<close>

text \<open>
  The initial values of the static variables: the sizes of the C datatypes, the addresses \<open>cb\<close> of
  the C base arrays (for MT_C_CHAR to MT_C_LDCPL, and MT_C_LONGLONG last), nothing allocated. The
  contents of the segment (\<open>mem\<close>, \<open>ads\<close>) are not determined.
\<close>

definition ma_static :: "int list \<Rightarrow> (int \<times> int) list \<Rightarrow> (int \<Rightarrow> AD) \<Rightarrow> (int \<Rightarrow> int) \<Rightarrow> ma_state" where
  "ma_static cb fb h m = \<lparr>ma_error_print = True, ma_hard_fail = False, ma_func_terminate = None,
     stderr_log = [],
     ma_table = [], ma_table_capacity = 0, ma_table_entries = 0, ma_table_next_slot = 0,
     ma_base = take 9 cb @ [0, 0, 0, 0, 0, 0, 0] @ drop 9 cb,
     ma_sizeof = [1, 4, 8, 4, 8, 16, 8, 16, 32, 0, 0, 0, 0, 0, 0, 0, 8],
     ma_fb = fb, ma_segment = 0, ma_partition = 0, ma_eos = 0, ma_hp = 0, ma_sp = 0,
     ma_hfree = 0, ma_hused = 0, ma_sused = 0, ma_preinitialized = False, ma_initialized = False,
     ma_auto_verify = False, ma_trace = False, ma_numalign = 0,
     ma_stats = \<lparr>hblocks = 0, hblocks_max = 0, hbytes = 0, hbytes_max = 0, sblocks = 0,
       sblocks_max = 0, sbytes = 0, sbytes_max = 0, calls = (\<lambda>_. 0)\<rparr>,
     ads = h, mem = m\<rparr>"

end
