(* ===== verification/MA_Links.thy ===== *)
theory MA_Links
  imports MA_Public
begin

text \<open>
  The list routines of src/ma/ma.c on well-linked lists: \<open>lists_are\<close> reads the three linked lists of the
  allocator as HOL lists, and every routine is shown to change exactly the links that the list operation
  needs.
\<close>

section \<open>Linked lists as lists\<close>

primrec linked :: "(int \<Rightarrow> AD) \<Rightarrow> int \<Rightarrow> int list \<Rightarrow> bool" where
  "linked h p [] \<longleftrightarrow> p = 0"
| "linked h p (x # xs) \<longleftrightarrow> p = x \<and> x \<noteq> 0 \<and> linked h (ad_next (h x)) xs"

text \<open>The address of the first element, and of the last one of a prefix; 0 for none.\<close>

definition first_of :: "int list \<Rightarrow> int" where
  "first_of xs = (case xs of [] \<Rightarrow> 0 | x # _ \<Rightarrow> x)"

definition last_of :: "int list \<Rightarrow> int" where
  "last_of xs = (if xs = [] then 0 else last xs)"

lemma first_of_simps [simp]: "first_of [] = 0" "first_of (x # xs) = x"
  by (simp_all add: first_of_def)

lemma last_of_simps [simp]: "last_of [] = 0" "last_of (xs @ [x]) = x"
  by (simp_all add: last_of_def)

lemma linked_first: "linked h p xs \<Longrightarrow> p = first_of xs"
  by (cases xs) auto

lemma linked_nonzero: "linked h p xs \<Longrightarrow> x \<in> set xs \<Longrightarrow> x \<noteq> 0"
  by (induction xs arbitrary: p) auto

lemma linked_cong: "(\<And>x. x \<in> set xs \<Longrightarrow> ad_next (h x) = ad_next (h' x)) \<Longrightarrow> linked h p xs = linked h' p xs"
  by (induction xs arbitrary: p) auto

lemma linked_upd [simp]: "x \<notin> set xs \<Longrightarrow> linked (h(x := v)) p xs = linked h p xs"
  by (rule linked_cong) auto

lemma linked_next: "linked h p (pre @ x # suf) \<Longrightarrow> ad_next (h x) = first_of suf"
proof (induction pre arbitrary: p)
  case Nil
  then show ?case by (auto dest: linked_first)
qed auto

lemma linked_append: "linked h p (pre @ suf) \<Longrightarrow> linked h (first_of suf) suf"
proof (induction pre arbitrary: p)
  case Nil
  then show ?case using linked_first by fastforce
qed auto

lemma linked_relink:
  assumes "linked h p (pre @ x # suf)" "distinct (pre @ x # suf)" "linked h' (ad_next (h' x)) suf'"
    and "\<And>y. y \<in> set pre \<Longrightarrow> ad_next (h' y) = ad_next (h y)"
  shows "linked h' p (pre @ x # suf')"
  using assms
proof (induction pre arbitrary: p)
  case (Cons a pre)
  then show ?case by (cases pre) auto
qed auto

text \<open>
  The three lists of the allocator at once: \<open>L\<close> gives the elements of each, and no descriptor is
  on two lists or twice on one.
\<close>

definition lists_are :: "ma_state \<Rightarrow> (listref \<Rightarrow> int list) \<Rightarrow> bool" where
  "lists_are s L \<longleftrightarrow> (\<forall>l. linked (ads s) (get_list l s) (L l) \<and> distinct (L l)) \<and>
     (\<forall>l l'. l \<noteq> l' \<longrightarrow> set (L l) \<inter> set (L l') = {})"

text \<open>Two states that differ at most in the links: the \<open>next\<close> fields and the list heads.\<close>

definition links_only :: "ma_state \<Rightarrow> ma_state \<Rightarrow> bool" where
  "links_only s s' \<longleftrightarrow> (\<exists>n f u k. s' = s\<lparr>ads := (\<lambda>a. (ads s a)\<lparr>ad_next := n a\<rparr>),
     ma_hfree := f, ma_hused := u, ma_sused := k\<rparr>)"

lemma links_onlyI:
  "s' = s\<lparr>ads := (\<lambda>a. (ads s a)\<lparr>ad_next := n a\<rparr>), ma_hfree := f, ma_hused := u, ma_sused := k\<rparr> \<Longrightarrow>
   links_only s s'"
  unfolding links_only_def by blast

lemma links_only_refl [simp]: "links_only s s"
  by (rule links_onlyI [where n = "\<lambda>a. ad_next (ads s a)" and f = "ma_hfree s" and u = "ma_hused s" and k = "ma_sused s"]) simp

lemma links_only_trans: "links_only s t \<Longrightarrow> links_only t u \<Longrightarrow> links_only s u"
  unfolding links_only_def by (elim exE, hypsubst) (simp, blast)

lemma links_only_set_next [simp]: "links_only s (set_next a p s)"
  by (rule links_onlyI [where n = "(\<lambda>x. ad_next (ads s x))(a := p)" and f = "ma_hfree s" and u = "ma_hused s" and k = "ma_sused s"])
    (auto simp: set_next_def upd_ad_def fun_eq_iff)

lemma links_only_set_list [simp]: "links_only s (set_list l p s)"
proof -
  have [simp]: "(\<lambda>a. (ads s a)\<lparr>ad_next := ad_next (ads s a)\<rparr>) = ads s" by simp
  show ?thesis
  proof (cases l)
    case HFree
    then show ?thesis
      by (intro links_onlyI [where n = "\<lambda>a. ad_next (ads s a)" and f = p and u = "ma_hused s" and k = "ma_sused s"]) simp
  next
    case HUsed
    then show ?thesis
      by (intro links_onlyI [where n = "\<lambda>a. ad_next (ads s a)" and f = "ma_hfree s" and u = p and k = "ma_sused s"]) simp
  next
    case SUsed
    then show ?thesis
      by (intro links_onlyI [where n = "\<lambda>a. ad_next (ads s a)" and f = "ma_hfree s" and u = "ma_hused s" and k = p]) simp
  qed
qed

lemma links_only_nbytes: "links_only s s' \<Longrightarrow> nbytes_of s' = nbytes_of s"
  by (auto simp: links_only_def nbytes_of_def fun_eq_iff)

lemma get_set_list [simp]: "get_list l' (set_list l p s) = (if l' = l then p else get_list l' s)"
  by (cases l; cases l') auto

lemma ads_set_list [simp]: "ads (set_list l p s) = ads s"
  by (cases l) auto

lemma get_list_set_next [simp]: "get_list l (set_next a p s) = get_list l s"
  by (cases l) (auto simp: set_next_def upd_ad_def)

lemma ads_set_next [simp]: "ads (set_next a p s) = (ads s)(a := (ads s a)\<lparr>ad_next := p\<rparr>)"
  by (simp add: set_next_def upd_ad_def)

lemma next_of_simps [simp]:
  "next_of x (set_next a p s) = (if x = a then p else next_of x s)"
  "next_of x (set_list l p s) = next_of x s"
  by (simp_all add: next_of_def)

lemma lists_areD:
  assumes "lists_are s L"
  shows "linked (ads s) (get_list l s) (L l)" "distinct (L l)" "get_list l s = first_of (L l)"
    "l \<noteq> l' \<Longrightarrow> set (L l) \<inter> set (L l') = {}"
  using assms by (auto simp: lists_are_def dest: linked_first)

lemma lists_are_next: "lists_are s L \<Longrightarrow> L l = pre @ x # suf \<Longrightarrow> next_of x s = first_of suf"
  using lists_areD(1) [of s L l] linked_next [of "ads s" _ pre x suf] by (simp add: next_of_def)

lemma lists_are_nonzero: "lists_are s L \<Longrightarrow> x \<in> set (L l) \<Longrightarrow> x \<noteq> 0"
  using lists_areD(1) linked_nonzero by blast

text \<open>Changing the fields other than \<open>next\<close> keeps the lists.\<close>

lemma lists_are_cong:
  assumes "lists_are s L" "\<And>l. get_list l s' = get_list l s"
    and "\<And>l x. x \<in> set (L l) \<Longrightarrow> next_of x s' = next_of x s"
  shows "lists_are s' L"
proof -
  have "linked (ads s') (get_list l s') (L l)" for l
    using lists_areD(1) [OF assms(1), of l] assms(2,3)
      linked_cong [of "L l" "ads s'" "ads s"] by (simp add: next_of_def)
  with assms(1) show ?thesis by (simp add: lists_are_def)
qed

text \<open>Replacing one list.\<close>

lemma lists_are_update:
  assumes L: "lists_are s L" and new: "linked (ads s') (get_list l s') xs" "distinct xs"
    and heads: "\<And>l'. l' \<noteq> l \<Longrightarrow> get_list l' s' = get_list l' s"
    and nexts: "\<And>l' x. l' \<noteq> l \<Longrightarrow> x \<in> set (L l') \<Longrightarrow> next_of x s' = next_of x s"
    and fresh: "\<And>l' x. l' \<noteq> l \<Longrightarrow> x \<in> set (L l') \<Longrightarrow> x \<notin> set xs"
  shows "lists_are s' (L(l := xs))"
proof -
  have "linked (ads s') (get_list l' s') (L l')" if "l' \<noteq> l" for l'
    using lists_areD(1) [OF L, of l'] that heads nexts
      linked_cong [of "L l'" "ads s'" "ads s"] by (simp add: next_of_def)
  moreover have "set ((L(l := xs)) k) \<inter> set ((L(l := xs)) k') = {}" if "k \<noteq> k'" for k k'
    using that lists_areD(4) [OF L that] fresh by (cases "k = l"; cases "k' = l") auto
  ultimately show ?thesis using new lists_areD(2) [OF L] unfolding lists_are_def by simp
qed

section \<open>What the list routines do\<close>

lemma unlink_lists:
  assumes L: "lists_are s L" and l: "L l = pre @ x # suf"
  shows "lists_are (unlink l (last_of pre) x s) (L(l := pre @ suf))"
    and "links_only s (unlink l (last_of pre) x s)"
    and "next_of x (unlink l (last_of pre) x s) = first_of suf"
proof -
  let ?s = "unlink l (last_of pre) x s"
  note lk = lists_areD(1) [OF L, of l, unfolded l] and dst = lists_areD(2) [OF L, of l, unfolded l]
  have nx: "next_of x s = first_of suf" using lists_are_next [OF L l] .
  have suf: "linked (ads s) (first_of suf) suf"
    using linked_append [of "ads s" _ "pre @ [x]" suf] lk by simp
  show "links_only s ?s" by (simp add: unlink_def)
  show "lists_are ?s (L(l := pre @ suf))"
  proof (cases pre rule: rev_cases)
    case Nil
    then show ?thesis using suf dst nx lists_areD(4) [OF L, of _ l] l
      by (intro lists_are_update [OF L]) (auto simp: unlink_def)
  next
    case (snoc pre' y)
    have y: "y \<noteq> 0" "y \<in> set (L l)" using lk linked_nonzero [OF lk, of y] snoc l by auto
    then have s': "?s = set_next y (first_of suf) s" using snoc nx by (simp add: unlink_def)
    have "linked (ads ?s) (get_list l s) (pre' @ y # suf)"
    proof (rule linked_relink)
      show "linked (ads s) (get_list l s) (pre' @ y # x # suf)" "distinct (pre' @ y # x # suf)"
        using lk dst snoc by auto
      show "linked (ads ?s) (ad_next (ads ?s y)) suf"
        using suf dst snoc unfolding s' by simp
    qed (use dst snoc s' in auto)
    moreover have "y \<notin> set (L l')" if "l' \<noteq> l" for l'
      using y(2) lists_areD(4) [OF L that] by blast
    ultimately show ?thesis using snoc dst lists_areD(4) [OF L, of _ l] l unfolding s'
      by (intro lists_are_update [OF L]) auto
  qed
  have "x \<noteq> last_of pre" using dst linked_nonzero [OF lk, of x]
    by (cases pre rule: rev_cases) auto
  then show "next_of x ?s = first_of suf" using nx by (simp add: unlink_def)
qed

lemma list_insert_lists:
  assumes L: "lists_are s L" and x: "x \<noteq> 0" "\<And>l. x \<notin> set (L l)"
  shows "lists_are (list_insert x l s) (L(l := x # L l))" "links_only s (list_insert x l s)"
proof -
  let ?s = "list_insert x l s"
  have s': "?s = set_list l x (set_next x (get_list l s) s)" by (simp add: list_insert_def Let_def)
  show "links_only s ?s" unfolding s'
    by (rule links_only_trans [OF links_only_set_next links_only_set_list])
  have "linked (ads ?s) (get_list l s) (L l)"
    using lists_areD(1) [OF L, of l] x by (simp add: s')
  then show "lists_are ?s (L(l := x # L l))"
    using x lists_areD(2) [OF L, of l] lists_areD(4) [OF L, of _ l]
    by (intro lists_are_update [OF L]) (auto simp: s')
qed

text \<open>Ordered insertion, on lists.\<close>

fun ins :: "int \<Rightarrow> int list \<Rightarrow> int list" where
  "ins x [] = [x]"
| "ins x (y # ys) = (if x < y then x # y # ys else y # ins x ys)"

lemma set_ins [simp]: "set (ins x xs) = insert x (set xs)"
  by (induction xs) auto

lemma distinct_ins: "distinct xs \<Longrightarrow> x \<notin> set xs \<Longrightarrow> distinct (ins x xs)"
  by (induction xs) auto

lemma sorted_ins: "sorted xs \<Longrightarrow> sorted (ins x xs)"
  by (induction xs) (auto simp: less_imp_le)

lemma ins_middle: "\<forall>y\<in>set pre. y \<le> x \<Longrightarrow> (suf \<noteq> [] \<Longrightarrow> x < hd suf) \<Longrightarrow> ins x (pre @ suf) = pre @ x # suf"
proof (induction pre)
  case Nil
  then show ?case by (cases suf) auto
qed auto

lemma insert_ordered_loop_lists:
  assumes L: "lists_are s L" and l: "L l = pre @ suf" and ne: "pre @ suf \<noteq> []"
    and x: "x \<noteq> 0" "\<And>l. x \<notin> set (L l)"
  shows "\<exists>s'. insert_ordered_loop x l ad_lt (last_of pre) (first_of suf) s = Some s' \<and>
    lists_are s' (L(l := pre @ ins x suf)) \<and> links_only s s'"
  using l ne
proof (induction suf arbitrary: pre)
  case Nil
  then obtain pre' y where pre: "pre = pre' @ [y]" by (metis append_Nil2 rev_exhaust)
  let ?s = "set_next x 0 (set_next y x s)"
  note lk = lists_areD(1) [OF L, of l] and dst = lists_areD(2) [OF L, of l]
  have ynx: "y \<noteq> x" "x \<notin> set pre'" using x(2) [of l] Nil pre by auto
  have "linked (ads ?s) (get_list l s) (pre' @ y # [x])"
    by (rule linked_relink [where h = "ads s" and suf = "[]"])
      (use lk dst Nil pre ynx x in auto)
  moreover have "y \<notin> set (L l')" if "l' \<noteq> l" for l'
    using lists_areD(4) [OF L that] Nil pre by auto
  ultimately have "lists_are ?s (L(l := pre @ [x]))"
    using dst Nil pre x ynx lists_areD(4) [OF L, of _ l]
    by (intro lists_are_update [OF L]) auto
  moreover have "links_only s ?s" by (rule links_only_trans [OF links_only_set_next links_only_set_next])
  ultimately show ?case using pre by (subst insert_ordered_loop.simps) simp
next
  case (Cons y ys)
  note lk = lists_areD(1) [OF L, of l] and dst = lists_areD(2) [OF L, of l]
  have y: "y \<noteq> 0" using lists_are_nonzero [OF L, of y l] Cons.prems by auto
  show ?case
  proof (cases "x < y")
    case False
    have "next_of y s = first_of ys" using lists_are_next [OF L, of l pre y ys] Cons.prems by simp
    moreover have "\<not> ad_lt x y" using False by (simp add: ad_lt_def)
    ultimately have "insert_ordered_loop x l ad_lt (last_of pre) (first_of (y # ys)) s =
        insert_ordered_loop x l ad_lt (last_of (pre @ [y])) (first_of ys) s"
      using y by (subst insert_ordered_loop.simps) simp
    then show ?thesis using Cons.IH [of "pre @ [y]"] Cons.prems False by simp
  next
    case True
    let ?s = "set_next x y (if last_of pre \<noteq> 0 then set_next (last_of pre) x s else set_list l x s)"
    have step: "insert_ordered_loop x l ad_lt (last_of pre) (first_of (y # ys)) s = Some ?s"
      using True y by (subst insert_ordered_loop.simps) (simp add: ad_lt_def)
    have links: "links_only s ?s"
      using links_only_trans [OF links_only_set_list links_only_set_next]
        links_only_trans [OF links_only_set_next links_only_set_next] by simp
    have tail: "linked (ads s) y (y # ys)" using linked_append [of "ads s" _ pre "y # ys"] lk Cons.prems
      by simp
    have "lists_are ?s (L(l := pre @ x # y # ys))"
    proof (cases pre rule: rev_cases)
      case Nil
      have "linked (ads ?s) x (x # y # ys)"
        using tail x Cons.prems x(2) [of l] Nil by simp
      then show ?thesis using Nil dst Cons.prems x x(2) [of l] lists_areD(4) [OF L, of _ l]
        by (intro lists_are_update [OF L]) auto
    next
      case (snoc pre' z)
      have z: "z \<noteq> 0" "z \<noteq> x" "x \<notin> set pre'" using lists_are_nonzero [OF L, of z l] x(2) [of l] Cons.prems snoc by auto
      have zl: "z \<notin> set (L l')" if "l' \<noteq> l" for l'
        using lists_areD(4) [OF L that] Cons.prems snoc by auto
      have s': "?s = set_next x y (set_next z x s)" using snoc z by simp
      have "linked (ads ?s) (get_list l s) (pre' @ z # x # y # ys)"
      proof (rule linked_relink [where h = "ads s" and suf = "y # ys"])
        show "linked (ads ?s) (ad_next (ads ?s z)) (x # y # ys)"
          using tail x z Cons.prems dst snoc x(2) [of l] unfolding s' by simp
      qed (use lk dst Cons.prems snoc x z s' in auto)
      then show ?thesis using snoc dst Cons.prems x x(2) [of l] zl lists_areD(4) [OF L, of _ l] z
        by (intro lists_are_update [OF L]) (auto simp: s')
    qed
    then show ?thesis using step links True by (auto simp: fun_upd_def)
  qed
qed

lemma list_insert_ordered_lists:
  assumes L: "lists_are s L" and x: "x \<noteq> 0" "\<And>l. x \<notin> set (L l)"
  shows "\<exists>s'. list_insert_ordered x l ad_lt s = Some s' \<and>
    lists_are s' (L(l := ins x (L l))) \<and> links_only s s'"
proof (cases "L l = []")
  case True
  then have "list_insert_ordered x l ad_lt s = Some (list_insert x l s)"
    using lists_areD(3) [OF L, of l] by (simp add: list_insert_ordered_def list_insert_def Let_def)
  then show ?thesis using list_insert_lists [OF L x, of l] True by simp
next
  case False
  then have "get_list l s \<noteq> 0" using lists_areD(3) [OF L, of l] lists_are_nonzero [OF L, of _ l]
    by (cases "L l") auto
  then show ?thesis using insert_ordered_loop_lists [OF L, of l "[]" "L l" x] False x
      lists_areD(3) [OF L, of l] by (simp add: list_insert_ordered_def)
qed

lemma list_member_lists:
  "linked (ads s) p xs \<Longrightarrow> list_member ad p s = Some (ad \<in> set xs)"
proof (induction xs arbitrary: p)
  case Nil
  then show ?case by (subst list_member.simps) simp
next
  case (Cons x xs)
  then show ?case by (subst list_member.simps) (auto simp: next_of_def)
qed

lemma rightmost_lists:
  "linked (ads s) p xs \<Longrightarrow> rightmost m p s = Some (fold max xs m)"
proof (induction xs arbitrary: p m)
  case Nil
  then show ?case by (subst rightmost.simps) simp
next
  case (Cons x xs)
  moreover have "(if x > m then x else m) = max x m" by auto
  ultimately show ?case by (subst rightmost.simps) (simp add: next_of_def)
qed

text \<open>A deletion passes over the elements that do not match, and takes the first one that does.\<close>

lemma delete_one_loop_skip:
  assumes L: "lists_are s L" and l: "L l = pre @ mid @ rest"
    and pred: "\<forall>x\<in>set mid. pred x s = Some (False, s)"
  shows "delete_one_loop l pred (last_of pre) (first_of (mid @ rest)) s =
    delete_one_loop l pred (last_of (pre @ mid)) (first_of rest) s"
  using l pred
proof (induction mid arbitrary: pre)
  case (Cons x mid)
  have x: "x \<noteq> 0" "next_of x s = first_of (mid @ rest)"
    using lists_are_nonzero [OF L, of x l] lists_are_next [OF L] Cons.prems by auto
  then have "delete_one_loop l pred (last_of pre) (first_of ((x # mid) @ rest)) s =
      delete_one_loop l pred (last_of (pre @ [x])) (first_of (mid @ rest)) s"
    using Cons.prems by (subst delete_one_loop.simps) simp
  with Cons.IH [of "pre @ [x]"] Cons.prems show ?case by simp
qed simp

lemma list_delete_one_none:
  assumes L: "lists_are s L" and pred: "\<forall>x\<in>set (L l). pred x s = Some (False, s)"
  shows "list_delete_one l pred s = Some (0, s)"
proof -
  have "delete_one_loop l pred 0 (get_list l s) s = delete_one_loop l pred (last_of (L l)) 0 s"
    using delete_one_loop_skip [OF L, of l "[]" "L l" "[]" pred] pred lists_areD(3) [OF L, of l] by simp
  then show ?thesis unfolding list_delete_one_def by (subst (asm) (2) delete_one_loop.simps) simp
qed

lemma list_delete_one_first:
  assumes L: "lists_are s L" and l: "L l = pre @ x # suf"
    and pred: "\<forall>y\<in>set pre. pred y s = Some (False, s)" "pred x s = Some (True, t)"
  shows "list_delete_one l pred s = Some (x, unlink l (last_of pre) x t)"
proof -
  have x: "x \<noteq> 0" using lists_are_nonzero [OF L, of x l] l by simp
  have "delete_one_loop l pred 0 (get_list l s) s = delete_one_loop l pred (last_of pre) x s"
    using delete_one_loop_skip [OF L, of l "[]" pre "x # suf" pred] pred l lists_areD(3) [OF L, of l]
    by simp
  then show ?thesis unfolding list_delete_one_def using x pred(2)
    by (subst (asm) (2) delete_one_loop.simps) simp
qed

lemma list_delete_lists:
  assumes L: "lists_are s L" and x: "x \<in> set (L l)"
  shows "\<exists>s'. list_delete x l s = Some (x, s') \<and> lists_are s' (L(l := remove1 x (L l))) \<and> links_only s s'"
proof -
  obtain pre suf where l: "L l = pre @ x # suf" "x \<notin> set pre" using x split_list_first by metis
  have "list_delete x l s = Some (x, unlink l (last_of pre) x s)"
    using list_delete_one_first [OF L l(1), of "ad_eq x" s] l(2)
    by (auto simp: list_delete_def ad_eq_def)
  moreover have "remove1 x (L l) = pre @ suf" using l by (simp add: remove1_append)
  ultimately show ?thesis using unlink_lists [OF L l(1)] by simp
qed

text \<open>
  Deleting every element that satisfies a predicate, with an action on each: what the action does
  is described by a relation \<open>A\<close> it keeps, and it must leave the lists alone.
\<close>

lemma delete_many_loop_lists:
  assumes pred: "\<And>x t. pred x t = Some (P x, t)"
    and L: "lists_are s L" and l: "L l = pre @ suf"
  shows "\<exists>s'. delete_many_loop l pred None (last_of pre) (first_of suf) n s =
      Some (n + int (length (filter P suf)), s') \<and>
    lists_are s' (L(l := pre @ filter (\<lambda>x. \<not> P x) suf)) \<and> links_only s s'"
  using L l
proof (induction suf arbitrary: pre n s L)
  case Nil
  have "L(l := pre) = L" using Nil by auto
  then show ?case using Nil by (subst delete_many_loop.simps) simp
next
  case (Cons x suf)
  have x: "x \<noteq> 0" "next_of x s = first_of suf"
    using lists_are_nonzero [OF Cons.prems(1), of x l] lists_are_next [OF Cons.prems] Cons.prems(2) by auto
  show ?case
  proof (cases "P x")
    case False
    then have "delete_many_loop l pred None (last_of pre) (first_of (x # suf)) n s =
        delete_many_loop l pred None x (first_of suf) n s"
      using x by (subst delete_many_loop.simps) (simp add: pred)
    then show ?thesis using Cons.IH [of s L "pre @ [x]" n] Cons.prems False by simp
  next
    case True
    let ?s = "unlink l (last_of pre) x s"
    note u = unlink_lists [OF Cons.prems]
    have "delete_many_loop l pred None (last_of pre) (first_of (x # suf)) n s =
        delete_many_loop l pred None (last_of pre) (first_of suf) (n + 1) ?s"
      using x True u(3) by (subst delete_many_loop.simps) (simp add: pred)
    moreover obtain s' where "delete_many_loop l pred None (last_of pre) (first_of suf) (n + 1) ?s =
        Some (n + 1 + int (length (filter P suf)), s')"
      "lists_are s' (L(l := pre @ filter (\<lambda>x. \<not> P x) suf))" "links_only ?s s'"
      using Cons.IH [OF u(1), of pre "n + 1"] unfolding fun_upd_upd by fastforce
    ultimately show ?thesis using True links_only_trans [OF u(2)] by (auto simp: fun_upd_def)
  qed
qed

lemma list_delete_many_lists:
  assumes pred: "\<And>x t. pred x t = Some (P x, t)" and L: "lists_are s L"
  shows "\<exists>s'. list_delete_many l pred None s = Some (int (length (filter P (L l))), s') \<and>
    lists_are s' (L(l := filter (\<lambda>x. \<not> P x) (L l))) \<and> links_only s s'"
  using delete_many_loop_lists [OF pred L, where l = l and pre = "[]" and suf = "L l" and n = 0] lists_areD(3) [OF L, of l]
  by (simp add: list_delete_many_def)

end
