(* ===== verification/MA_Layout.thy ===== *)
theory MA_Layout
  imports MA_Links
begin

text \<open>
  The layout of a block (\<open>balloc_after\<close> and \<open>balloc_before\<close> of src/ma/ma.c): for sizes that divide 64 and
  requests up to \<open>2^61\<close> bytes the wrap-around of \<open>size_t\<close> never shows, the client space is aligned, and
  descriptor, guards and client space lie inside the block.
\<close>

definition sizes_ok :: "ma_state \<Rightarrow> bool" where
  "sizes_ok s \<longleftrightarrow> length (ma_sizeof s) = 17 \<and> length (ma_base s) = 17 \<and>
     (\<forall>z\<in>set (ma_sizeof s). 0 < z \<and> z dvd 64) \<and> 0 \<le> ma_numalign s \<and> ma_numalign s \<le> 30"

definition request_ok :: "ma_state \<Rightarrow> int \<Rightarrow> int \<Rightarrow> bool" where
  "request_ok s d n \<longleftrightarrow> 0 \<le> d \<and> d < 17 \<and> 0 \<le> n \<and> n * sizeof_dt s d \<le> 2305843009213693952"

lemma sizeof_dt_ok:
  assumes "sizes_ok s" "0 \<le> d" "d < 17"
  shows "0 < sizeof_dt s d" "sizeof_dt s d dvd 64" "sizeof_dt s d \<le> 64"
    "sizeof_dt s d dvd 18446744073709551616"
proof -
  have "sizeof_dt s d \<in> set (ma_sizeof s)" using assms by (auto simp: sizes_ok_def sizeof_dt_def)
  then show p: "0 < sizeof_dt s d" and d: "sizeof_dt s d dvd 64" using assms by (auto simp: sizes_ok_def)
  show "sizeof_dt s d \<le> 64" using d by (rule zdvd_imp_le) simp
  show "sizeof_dt s d dvd 18446744073709551616" by (rule dvd_trans [OF d]) simp
qed

lemma dvd_mod_minus: "m dvd x mod m - (x::int)"
  by (metis dvd_minus_iff dvd_minus_mod minus_diff_eq)

lemma pow_bound: "0 \<le> k \<Longrightarrow> k \<le> 30 \<Longrightarrow> (1::int) \<le> 2 ^ nat k \<and> 2 ^ nat k \<le> (1073741824::int)"
proof -
  assume k: "0 \<le> k" "k \<le> 30"
  have "(2::int) ^ nat k \<le> 2 ^ 30" using k by (intro power_increasing) auto
  then show ?thesis by simp
qed

lemma align_up_spec:
  assumes "sizes_ok s" "0 < sz" "0 \<le> b" "b < 9223372036854775808"
  shows "\<exists>g. align_up s sz b = b + g \<and> 0 \<le> g \<and> g < 1073741824 \<and> sz dvd g \<and>
    (sz dvd b \<and> sz dvd 2 ^ nat (ma_numalign s) \<longrightarrow> 2 ^ nat (ma_numalign s) dvd b + g)"
proof (cases "ma_numalign s > 0")
  case False
  then have "align_up s sz b = b + 0" "nat (ma_numalign s) = 0" by (simp_all add: align_up_def)
  then show ?thesis by (intro exI [of _ 0]) simp
next
  case True
  define p :: int where "p = 2 ^ nat (ma_numalign s)"
  define m where "m = b mod p"
  have p: "1 \<le> p" "p \<le> 1073741824"
    using assms(1) pow_bound [of "ma_numalign s"] by (auto simp: sizes_ok_def p_def)
  have m: "0 \<le> m" "m < p" using p by (simp_all add: m_def)
  have s: "s32 m = m" using m p by (intro s32_id) linarith+
  have c: "cmod (p - m) sz = 0 \<longleftrightarrow> sz dvd p - m"
    using m assms(2) by (simp only: cmod_nonneg dvd_eq_mod_eq_0)
  have d: "align_up s sz b = (if m \<noteq> 0 \<and> sz dvd p - m then u64 (b + (p - m)) else b)"
    using True s c unfolding align_up_def Let_def m_def p_def by simp
  have w: "u64 (b + (p - m)) = b + (p - m)" using assms m p by (intro u64_id) linarith+
  have e: "b + (p - m) = p * (b div p + 1)"
    using minus_mod_eq_mult_div [of b p] unfolding m_def by (simp add: algebra_simps)
  consider "m = 0" | "m \<noteq> 0" "sz dvd p - m" | "m \<noteq> 0" "\<not> sz dvd p - m" by blast
  then show ?thesis
  proof cases
    case 1
    then have "align_up s sz b = b + 0" "p dvd b" using d by (auto simp: m_def)
    then show ?thesis unfolding p_def [symmetric] by (intro exI [of _ 0]) simp
  next
    case 2
    have "align_up s sz b = b + (p - m)" using d w 2 by simp
    moreover have "p dvd b + (p - m)" unfolding e by simp
    ultimately show ?thesis using m p 2 unfolding p_def [symmetric] by (intro exI [of _ "p - m"]) auto
  next
    case 3
    have "align_up s sz b = b + 0" using d 3 by simp
    moreover have "\<not> (sz dvd b \<and> sz dvd p)"
      using 3 dvd_mod [of sz b p] dvd_diff [of sz p m] unfolding m_def by blast
    ultimately show ?thesis unfolding p_def [symmetric] by (intro exI [of _ 0]) auto
  qed
qed

lemma align_down_spec:
  assumes "sizes_ok s" "0 < sz" "0 \<le> b" "b < 18446744073709551616"
  shows "\<exists>g. align_down s sz b = b - g \<and> 0 \<le> g \<and> g \<le> b \<and> g < 1073741824 \<and> sz dvd g \<and>
    (sz dvd b \<and> sz dvd 2 ^ nat (ma_numalign s) \<longrightarrow> 2 ^ nat (ma_numalign s) dvd b - g)"
proof (cases "ma_numalign s > 0")
  case False
  then have "align_down s sz b = b - 0" "nat (ma_numalign s) = 0" by (simp_all add: align_down_def)
  then show ?thesis using assms by (intro exI [of _ 0]) simp
next
  case True
  define p :: int where "p = 2 ^ nat (ma_numalign s)"
  define g where "g = b mod p"
  have p: "1 \<le> p" "p \<le> 1073741824"
    using assms(1) pow_bound [of "ma_numalign s"] by (auto simp: sizes_ok_def p_def)
  have m: "0 \<le> g" "g < p" "g \<le> b" using p assms by (simp_all add: zmod_le_nonneg_dividend g_def)
  have s: "s32 g = g" using m p by (intro s32_id) linarith+
  have c: "cmod g sz = 0 \<longleftrightarrow> sz dvd g" using m(1) assms(2) by (simp only: cmod_nonneg dvd_eq_mod_eq_0)
  have d: "align_down s sz b = (if g \<noteq> 0 \<and> sz dvd g then u64 (b - g) else b)"
    using True s c unfolding align_down_def Let_def g_def p_def by simp
  have w: "u64 (b - g) = b - g" using assms m by (intro u64_id) linarith+
  show ?thesis
  proof (cases "sz dvd g")
    case True
    then have "align_down s sz b = b - g" using d w by auto
    moreover have "p dvd b - g" unfolding g_def by (rule dvd_minus_mod)
    ultimately show ?thesis using m p True unfolding p_def [symmetric] by (intro exI [of _ g]) auto
  next
    case False
    have "align_down s sz b = b - 0" using d False by simp
    moreover have "\<not> (sz dvd b \<and> sz dvd p)" using False dvd_mod [of sz b p] unfolding g_def by blast
    ultimately show ?thesis using assms unfolding p_def [symmetric] by (intro exI [of _ 0]) auto
  qed
qed

text \<open>
  The layout that \<open>balloc_after\<close> computes: with \<open>g1\<close> and \<open>g2\<close> the two gaps, descriptor, gap, guard,
  client space, guard, gap, in this order from \<open>address\<close> on.
\<close>

lemma gap_mod:
  assumes "0 < sz" "sz \<le> 64" "sz dvd 18446744073709551616"
  shows "s32 (u64 x mod sz) = x mod sz"
proof -
  have "s32 (x mod sz) = x mod sz" using pos_mod_bound [of sz x] pos_mod_sign [of sz x] assms
    by (intro s32_id) linarith+
  then show ?thesis by (simp add: u64_mod_dvd [OF assms(3)])
qed

lemma balloc_after_spec:
  assumes ok: "sizes_ok s" and r: "request_ok s d n" and a: "0 \<le> address" "address < 4611686018427387904"
  shows "\<exists>g1 g2. balloc_after \<lparr>ar_datatype = d, ar_nelem = n\<rparr> address s =
      (address + 84 + g1, 88 + g1 + n * sizeof_dt s d + g2) \<and>
    0 \<le> g1 \<and> g1 < 1073741888 \<and> 0 \<le> g2 \<and> g2 < 8 \<and>
    sizeof_dt s d dvd address + 84 + g1 - base_dt s d \<and>
    8 dvd 88 + g1 + n * sizeof_dt s d + g2 \<and>
    (sizeof_dt s d dvd base_dt s d \<and> sizeof_dt s d dvd 2 ^ nat (ma_numalign s) \<longrightarrow>
      2 ^ nat (ma_numalign s) dvd address + 84 + g1)"
proof -
  let ?sz = "sizeof_dt s d" and ?n = "n * sizeof_dt s d"
  have dn: "0 \<le> d" "d < 17" "0 \<le> n" "?n \<le> 2305843009213693952" using r by (auto simp: request_ok_def)
  note z = sizeof_dt_ok [OF ok dn(1,2)]
  have n0: "0 \<le> ?n" using dn z(1) by simp
  define h where "h = (base_dt s d - address - 80 - 4) mod ?sz"
  have h: "0 \<le> h" "h < 64" using pos_mod_bound [OF z(1)] pos_mod_sign [OF z(1)] z(3)
    unfolding h_def by (auto intro: less_le_trans)
  let ?b = "address + 84 + h"
  obtain g where g: "align_up s ?sz ?b = ?b + g" "0 \<le> g" "g < 1073741824" "?sz dvd g"
      "?sz dvd ?b \<and> ?sz dvd 2 ^ nat (ma_numalign s) \<longrightarrow> 2 ^ nat (ma_numalign s) dvd ?b + g"
    using align_up_spec [OF ok z(1), of ?b] a h by auto
  define g2 where "g2 = (address - (?b + g) - ?n - 4) mod 8"
  have g2: "0 \<le> g2" "g2 < 8" by (simp_all add: g2_def)
  have al: "?sz dvd ?b - base_dt s d"
  proof -
    have "?sz dvd h - (base_dt s d - address - 80 - 4)" unfolding h_def by (rule dvd_mod_minus)
    then show ?thesis by (simp add: algebra_simps)
  qed
  have "8 dvd g2 - (address - (?b + g) - ?n - 4)"
    unfolding g2_def by (rule dvd_mod_minus)
  moreover have "g2 - (address - (?b + g) - ?n - 4) = 88 + (h + g) + ?n + g2" by simp
  ultimately have nb: "8 dvd 88 + (h + g) + ?n + g2" by (simp only:)
  have e: "u64 (?b + g + ?n + 4 + g2 - address) = 88 + (h + g) + ?n + g2"
    using n0 dn h g g2 by (subst u64_id) auto
  have nn: "u64 ?n = ?n" using n0 dn by (intro u64_id) auto
  have b: "address + 80 + h + 4 = ?b" by simp
  have bb: "u64 ?b = ?b" using a h by (intro u64_id) auto
  have h': "s32 (u64 (base_dt s d - address - 80 - 4) mod ?sz) = h"
    unfolding h_def by (rule gap_mod [OF z(1,3,4)])
  have g2': "s32 (u64 (address - (?b + g) - ?n - 4) mod 8) = g2"
    unfolding g2_def by (rule gap_mod) simp_all
  have hg: "(if h < 0 then h + ?sz else h) = h" "(if g2 < 0 then g2 + 8 else g2) = g2"
    using h g2 by auto
  have cs: "address + 84 + (h + g) = ?b + g" by simp
  have "balloc_after \<lparr>ar_datatype = d, ar_nelem = n\<rparr> address s =
      (address + 84 + (h + g), 88 + (h + g) + ?n + g2)"
    unfolding balloc_after_def Let_def sizeof_AD_def sizeof_Guard_def ALIGNMENT_def AR.simps nn h' hg b bb g(1) g2' e cs ..
  moreover have "?sz dvd ?b + g - base_dt s d" using al g(4) by (metis add_diff_eq add.commute dvd_add diff_add_eq)
  moreover have "2 ^ nat (ma_numalign s) dvd ?b + g"
    if "?sz dvd base_dt s d" "?sz dvd 2 ^ nat (ma_numalign s)"
    using g(5) that al by (metis diff_add_cancel dvd_add)
  ultimately show ?thesis using h g g2 nb by (intro exI [of _ "h + g"] exI [of _ g2]) (simp add: add.assoc)
qed

text \<open>
  The layout that \<open>balloc_before\<close> computes, from the high end down: gap, guard, client space, guard,
  gap, descriptor; the descriptor's address \<open>address - nbytes\<close> is a multiple of 8.
\<close>

lemma balloc_before_spec:
  assumes ok: "sizes_ok s" and r: "request_ok s d n" and a: "0 \<le> address" "address < 4611686018427387904"
  shows "\<exists>g1 g2. balloc_before \<lparr>ar_datatype = d, ar_nelem = n\<rparr> address s =
      (u64 (address - 4 - g2 - n * sizeof_dt s d), 88 + g1 + n * sizeof_dt s d + g2) \<and>
    0 \<le> g1 \<and> g1 < 8 \<and> 0 \<le> g2 \<and> g2 < 1073741888 \<and>
    sizeof_dt s d dvd address - 4 - g2 - n * sizeof_dt s d - base_dt s d \<and>
    8 dvd address - (88 + g1 + n * sizeof_dt s d + g2) \<and>
    (sizeof_dt s d dvd base_dt s d \<and> sizeof_dt s d dvd 2 ^ nat (ma_numalign s) \<longrightarrow>
      2 ^ nat (ma_numalign s) dvd address - 4 - g2 - n * sizeof_dt s d)"
proof -
  let ?sz = "sizeof_dt s d" and ?n = "n * sizeof_dt s d" and ?p = "2 ^ nat (ma_numalign s) :: int"
  have dn: "0 \<le> d" "d < 17" "0 \<le> n" "?n \<le> 2305843009213693952" using r by (auto simp: request_ok_def)
  note z = sizeof_dt_ok [OF ok dn(1,2)]
  have n0: "0 \<le> ?n" using dn z(1) by simp
  define h where "h = (address - 4 - ?n - base_dt s d) mod ?sz"
  have h: "0 \<le> h" "h < 64" using pos_mod_bound [OF z(1)] pos_mod_sign [OF z(1)] z(3)
    unfolding h_def by (auto intro: less_le_trans)
  define x where "x = address - h - 4 - ?n"
  obtain g where g: "align_down s ?sz (u64 x) = u64 x - g" "0 \<le> g" "g \<le> u64 x" "g < 1073741824"
      "?sz dvd g" "?sz dvd u64 x \<and> ?sz dvd ?p \<longrightarrow> ?p dvd u64 x - g"
    using align_down_spec [OF ok z(1), of "u64 x"] by auto
  have c: "u64 x - g = u64 (x - g)"
    using u64_id [of "u64 x - g"] g(2,3) u64_range(2) [of x] by simp
  define g1 where "g1 = (x - g - 4 - 80) mod 8"
  have g1: "0 \<le> g1" "g1 < 8" by (simp_all add: g1_def)
  have al: "?sz dvd x - base_dt s d"
  proof -
    have "?sz dvd (address - 4 - ?n - base_dt s d) - h" unfolding h_def by (rule dvd_minus_mod)
    then show ?thesis by (simp add: x_def algebra_simps)
  qed
  have a8: "8 dvd x - g - 4 - 80 - g1" unfolding g1_def by (rule dvd_minus_mod)
  have tot: "address - (88 + g1 + ?n + (h + g)) = x - g - 4 - 80 - g1"
    and cs: "x - g = address - 4 - (h + g) - ?n" by (simp_all add: x_def)
  have e: "u64 (address - (x - g) + 4 + g1 + 80) = 88 + g1 + ?n + (h + g)"
    using n0 dn h g(2,4) g1 by (subst u64_id) (auto simp: x_def)
  have nn: "u64 ?n = ?n" using n0 dn by (intro u64_id) auto
  have e': "u64 (address - u64 (x - g) + 4 + g1 + 80) = u64 (address - (x - g) + 4 + g1 + 80)"
    using u64_diff_right [of "address + 4 + g1 + 80" "x - g"] by (simp add: algebra_simps)
  have g1': "s32 (u64 (u64 (x - g) - 4 - 80) mod 8) = g1"
    using gap_mod [of 8 "x - g - 4 - 80"] unfolding g1_def by (simp add: u64_def mod_simps)
  have h': "s32 (u64 (address - 4 - ?n - base_dt s d) mod ?sz) = h"
    unfolding h_def by (rule gap_mod [OF z(1,3,4)])
  have "balloc_before \<lparr>ar_datatype = d, ar_nelem = n\<rparr> address s =
      (u64 (x - g), 88 + g1 + ?n + (h + g))"
    using h h' g(1) c e e' g1' nn unfolding balloc_before_def Let_def sizeof_AD_def sizeof_Guard_def
      ALIGNMENT_def by (simp add: x_def [symmetric])
  moreover have "?sz dvd x - g - base_dt s d"
    using dvd_diff [OF al g(5)] by (simp add: algebra_simps)
  moreover have "?p dvd x - g" if "?sz dvd base_dt s d" "?sz dvd ?p"
  proof -
    have "?sz dvd x" using al that(1) by (metis diff_add_cancel dvd_add)
    then have "?sz dvd u64 x" using z(4) by (simp add: u64_def dvd_mod)
    then have "?p dvd u64 (x - g)" using g(6) that(2) c by simp
    moreover have "?p dvd 18446744073709551616"
    proof -
      have "?p dvd 2 ^ 64" using ok by (intro le_imp_power_dvd) (auto simp: sizes_ok_def)
      then show ?thesis by simp
    qed
    ultimately show ?thesis unfolding u64_def by (simp add: dvd_mod_iff)
  qed
  moreover have "8 dvd address - (88 + g1 + ?n + (h + g))" unfolding tot by (rule a8)
  ultimately show ?thesis using h g(2,4) g1 unfolding cs
    by - (rule exI [of _ g1], rule exI [of _ "h + g"], simp)
qed

end
