(* ===== verification/MA_Heap.thy ===== *)
theory MA_Heap
  imports MA_Links
begin

text \<open>
  The heap region as the code keeps it, on sets and lists of addresses: the used blocks \<open>U\<close> and the
  free list \<open>F\<close>. \<open>heap_cut\<close> is what splitting, freeing and truncating keep at every moment; between
  calls no two free blocks are adjacent and the rightmost block is in use (\<open>heap_ok\<close>).
\<close>

definition heap_cut :: "(int \<Rightarrow> int) \<Rightarrow> int \<Rightarrow> int \<Rightarrow> int set \<Rightarrow> int list \<Rightarrow> bool" where
  "heap_cut len lo hp U F \<longleftrightarrow> tiles len (U \<union> set F) lo hp \<and> U \<inter> set F = {} \<and>
     sorted_wrt (<) F \<and> (\<forall>a\<in>set F. 88 \<le> len a)"

definition heap_ok :: "(int \<Rightarrow> int) \<Rightarrow> int \<Rightarrow> int \<Rightarrow> int set \<Rightarrow> int list \<Rightarrow> bool" where
  "heap_ok len lo hp U F \<longleftrightarrow> heap_cut len lo hp U F \<and>
     (\<forall>a\<in>set F. a + len a \<notin> set F \<and> (\<exists>b\<in>U. a < b))"

definition stack_ok :: "(int \<Rightarrow> int) \<Rightarrow> int \<Rightarrow> int \<Rightarrow> int list \<Rightarrow> bool" where
  "stack_ok len sp eos S \<longleftrightarrow> tiles len (set S) sp eos \<and> sorted_wrt (<) S"

section \<open>Coalescing\<close>

fun coal :: "(int \<Rightarrow> int) \<Rightarrow> int list \<Rightarrow> int list \<times> (int \<Rightarrow> int)" where
  "coal len [] = ([], len)"
| "coal len [a] = ([a], len)"
| "coal len (a # b # r) =
     (if a + len a = b then coal (len(a := len a + len b)) (a # r)
      else let (xs, l) = coal len (b # r) in (a # xs, l))"

lemma coal_hd: "\<exists>ys. fst (coal len (a # F)) = a # ys"
proof (induction len "a # F" arbitrary: F rule: coal.induct)
  case (3 len b r)
  then show ?case by (cases "a + len a = b") (auto split: prod.splits)
qed auto

lemma coal_outside: "x \<notin> set F \<Longrightarrow> snd (coal len F) x = len x"
  by (induction len F rule: coal.induct) (auto split: prod.splits)

lemma coal_subset: "set (fst (coal len F)) \<subseteq> set F"
proof (induction len F rule: coal.induct)
  case (3 len a b r)
  then show ?case by (cases "a + len a = b") (auto simp: fun_upd_def split: prod.splits)
qed auto

text \<open>Coalescing keeps the region cut into blocks, and leaves no two adjacent free blocks.\<close>

lemma heap_cut_merge:
  assumes h: "heap_cut len lo hp U (pre @ a # b # suf)" and ab: "a + len a = b"
  shows "heap_cut (len(a := len a + len b)) lo hp U (pre @ a # suf)"
proof -
  let ?F = "pre @ a # b # suf" and ?l = "len(a := len a + len b)"
  have t: "tiles len (U \<union> set ?F) lo hp" and d: "U \<inter> set ?F = {}" and s: "sorted_wrt (<) ?F"
    and n: "\<And>x. x \<in> set ?F \<Longrightarrow> 88 \<le> len x" using h unfolding heap_cut_def by blast+
  have dst: "b \<notin> set (pre @ a # suf)" using s by (auto simp: sorted_wrt_append)
  have "tiles ?l (U \<union> set ?F - {a + len a}) lo hp"
    using tiles_merge [OF t, of a] ab by simp
  moreover have "U \<union> set ?F - {a + len a} = U \<union> set (pre @ a # suf)" using dst d ab by auto
  ultimately have "tiles ?l (U \<union> set (pre @ a # suf)) lo hp" by simp
  moreover have "sorted_wrt (<) (pre @ a # suf)" using s by (auto simp: sorted_wrt_append)
  moreover have "88 \<le> ?l x" if "x \<in> set (pre @ a # suf)" for x
    using n [of x] n [of a] n [of b] that by auto
  ultimately show ?thesis using d unfolding heap_cut_def by auto
qed

lemma coal_cut:
  assumes "heap_cut len lo hp U (pre @ F)"
  shows "heap_cut (snd (coal len F)) lo hp U (pre @ fst (coal len F))"
  using assms
proof (induction len F arbitrary: pre rule: coal.induct)
  case (3 len a b r)
  show ?case
  proof (cases "a + len a = b")
    case True
    then show ?thesis using 3(1) [OF True heap_cut_merge [OF 3(3) True]] by (simp add: fun_upd_def)
  next
    case False
    then show ?thesis using 3(2) [of "pre @ [a]"] 3(3) by (auto split: prod.splits)
  qed
qed auto

lemma coal_no_adjacent:
  assumes "heap_cut len lo hp U F"
  shows "\<forall>x\<in>set (fst (coal len F)). x + snd (coal len F) x \<notin> set (fst (coal len F))"
  using assms
proof (induction len F arbitrary: U rule: coal.induct)
  case (2 len a)
  then show ?case by (auto simp: heap_cut_def)
next
  case (3 len a b r)
  show ?case
  proof (cases "a + len a = b")
    case True
    then show ?thesis
      using 3(1) [OF True heap_cut_merge [of len lo hp U "[]" a b r, simplified, OF 3(3) True]]
      by (simp add: fun_upd_def)
  next
    case False
    let ?c = "coal len (b # r)"
    have cut: "heap_cut len lo hp (insert a U) (b # r)" and srt: "\<forall>x\<in>set (b # r). a < x"
      and t: "tiles len (U \<union> set (a # b # r)) lo hp" and a: "88 \<le> len a" and br: "\<forall>x\<in>set r. b < x"
      using 3(3) unfolding heap_cut_def by (auto simp: insert_commute)
    have ih: "\<forall>x\<in>set (fst ?c). x + snd ?c x \<notin> set (fst ?c)" using 3(2) [OF False cut] .
    have pos: "0 < snd ?c x" if "x \<in> set (fst ?c)" for x
      using coal_cut [of len lo hp "insert a U" "[]" "b # r"] cut that
      by (auto simp: heap_cut_def dest: tiles_pos)
    have sub: "\<forall>x\<in>set (fst ?c). b \<le> x" using coal_subset [of len "b # r"] br by fastforce
    have "a + len a \<le> b" using tiles_apart [OF t, of a b] srt by simp
    then have "a + len a < b" using False by simp
    moreover have "snd ?c a = len a" using srt by (intro coal_outside) auto
    moreover have "x + snd ?c x \<noteq> a" if "x \<in> set (fst ?c)" for x
      using pos [OF that] sub that srt by fastforce
    ultimately show ?thesis using ih sub False a by (fastforce split: prod.splits)
  qed
qed auto

section \<open>Allocation\<close>

lemma heap_ok_top:
  assumes h: "heap_ok len lo hp U F" and k: "0 < k" "len' hp = k" "\<And>a. a \<noteq> hp \<Longrightarrow> len' a = len a"
  shows "heap_ok len' lo (hp + k) (insert hp U) F"
proof -
  have t: "tiles len (U \<union> set F) lo hp" using h by (simp add: heap_ok_def heap_cut_def)
  have lt: "a < hp" if "a \<in> U \<union> set F" for a
    using tiles_bounds(2) [OF t that] tiles_pos [OF t that] by simp
  have "tiles len' (U \<union> set F) lo hp" using tiles_cong [of "U \<union> set F" len len'] t k(3) lt by force
  then have "tiles len' (insert hp (U \<union> set F)) lo (hp + k)" using tiles_snoc [of len'] k by auto
  moreover have "hp \<notin> set F" "\<forall>a\<in>set F. len' a = len a" using lt k(3) by force+
  ultimately show ?thesis using h lt by (auto simp: heap_ok_def heap_cut_def)
qed

lemma heap_ok_whole:
  assumes "heap_ok len lo hp U (pre @ x # suf)"
  shows "heap_ok len lo hp (insert x U) (pre @ suf)"
  using assms unfolding heap_ok_def heap_cut_def by (auto simp: sorted_wrt_append)

lemma heap_ok_split:
  assumes h: "heap_ok len lo hp U (pre @ x # suf)" and k: "0 < k" "k + 88 \<le> len x"
    and len': "len' = len(x := k, x + k := len x - k)"
  shows "heap_ok len' lo hp (insert x U) (pre @ (x + k) # suf)"
proof -
  let ?F = "pre @ x # suf" and ?G = "pre @ (x + k) # suf"
  have t: "tiles len (U \<union> set ?F) lo hp" and d: "U \<inter> set ?F = {}" and s: "sorted_wrt (<) ?F"
    and n: "\<forall>a\<in>set ?F. 88 \<le> len a" and adj: "\<forall>a\<in>set ?F. a + len a \<notin> set ?F"
    and r: "\<forall>a\<in>set ?F. \<exists>b\<in>U. a < b"
    using h unfolding heap_ok_def heap_cut_def by blast+
  have x: "x \<in> U \<union> set ?F" by simp
  note sp = tiles_split [OF t x, of k]
  have new: "x + k \<notin> U \<union> set ?F" using sp(2) k by simp
  have "insert (x + k) (U \<union> set ?F) = insert x U \<union> set ?G" by auto
  then have t': "tiles len' (insert x U \<union> set ?G) lo hp" using sp(1) k by (simp add: len')
  have out: "len' a = len a" if "a \<in> set pre \<union> set suf" for a
    using that new s unfolding len' by (auto simp: sorted_wrt_append)
  have suf: "x + len x < b" if "b \<in> set suf" for b
  proof -
    have "x < b" using that s by (auto simp: sorted_wrt_append)
    then have "x + len x \<le> b" using tiles_apart [OF t, of x b] that by simp
    moreover have "x + len x \<noteq> b" using adj that by auto
    ultimately show ?thesis by simp
  qed
  have pre: "a < x" if "a \<in> set pre" for a using that s by (auto simp: sorted_wrt_append)
  have "sorted_wrt (<) ?G" using s suf pre k by (fastforce simp: sorted_wrt_append)
  moreover have "insert x U \<inter> set ?G = {}" using d new s by (auto simp: sorted_wrt_append)
  moreover have "\<forall>a\<in>set ?G. 88 \<le> len' a" using n out k unfolding len' by auto
  ultimately have cut: "heap_cut len' lo hp (insert x U) ?G" using t' by (simp add: heap_cut_def)
  have "a + len' a \<notin> set ?G \<and> (\<exists>b\<in>insert x U. a < b)" if "a \<in> set ?G" for a
  proof (cases "a = x + k")
    case True
    have e: "x + k + len' (x + k) = x + len x" unfolding len' by simp
    obtain b where b: "b \<in> U" "x < b" using r by auto
    then have "x + len x \<le> b" using tiles_apart [OF t, of x b] by simp
    with b k have "\<exists>b\<in>insert x U. x + k < b" by (intro bexI [of _ b]) auto
    moreover have "x + len x \<notin> set ?G" using suf pre k adj n by fastforce
    ultimately show ?thesis unfolding True e by blast
  next
    case False
    then have a: "a \<in> set pre \<union> set suf" "a \<in> set ?F" using that by auto
    have "a + len a \<noteq> x + k"
    proof
      assume e: "a + len a = x + k"
      have "x < a" using tiles_apart [OF t, of a x] a e k pre [of a] suf [of a] n
        by (cases "a \<in> set pre") force+
      then have "x + len x \<le> a" using tiles_apart [OF t, of x a] a by simp
      moreover have "88 \<le> len a" using n a by simp
      ultimately show False using e k by linarith
    qed
    with adj r a out show ?thesis by auto
  qed
  with cut show ?thesis unfolding heap_ok_def by blast
qed

section \<open>Splitting a used block and freeing\<close>

lemma heap_cut_carve:
  assumes h: "heap_cut len lo hp U F" and x: "x \<in> U" and k: "0 < k" "k < len x"
    and len': "len' = len(x := k, x + k := len x - k)"
  shows "heap_cut len' lo hp (insert (x + k) U) F" "x + k \<notin> U"
proof -
  have t: "tiles len (U \<union> set F) lo hp" and d: "U \<inter> set F = {}" using h by (auto simp: heap_cut_def)
  have x': "x \<in> U \<union> set F" using x by simp
  note sp = tiles_split [OF t x' k]
  have "len' a = len a" if "a \<in> set F" for a using that sp(2) x d unfolding len' by auto
  then show "heap_cut len' lo hp (insert (x + k) U) F" using h sp by (auto simp: heap_cut_def len')
  show "x + k \<notin> U" using sp(2) by simp
qed

lemma sorted_wrt_ins: "sorted_wrt (<) F \<Longrightarrow> x \<notin> set F \<Longrightarrow> sorted_wrt (<) (ins x F)"
  by (induction F) auto

lemma heap_cut_truncate:
  assumes h: "heap_cut len lo hp (insert x U) F" and x: "x \<notin> U" and m: "m \<in> U" "\<forall>u\<in>U. u \<le> m"
  shows "x < m \<Longrightarrow> heap_cut len lo (m + len m) (insert x U) (filter (\<lambda>a. \<not> m < a) F)"
    and "m < x \<Longrightarrow> heap_cut len lo (m + len m) U (filter (\<lambda>a. \<not> m < a) F)"
proof -
  let ?F = "filter (\<lambda>a. \<not> m < a) F"
  have t: "tiles len (insert x U \<union> set F) lo hp" using h by (simp add: heap_cut_def)
  have mem: "m \<in> insert x U \<union> set F" using m by simp
  have s: "sorted_wrt (<) ?F" using h sorted_wrt_filter by (auto simp: heap_cut_def)
  note tr = tiles_truncate [OF t mem]
  show "heap_cut len lo (m + len m) (insert x U) ?F" if "x < m"
  proof -
    have "{a \<in> insert x U \<union> set F. a \<le> m} = insert x U \<union> set ?F" using that m by auto
    with tr h s show ?thesis by (auto simp: heap_cut_def)
  qed
  show "heap_cut len lo (m + len m) U ?F" if "m < x"
  proof -
    have "{a \<in> insert x U \<union> set F. a \<le> m} = U \<union> set ?F" using that m by auto
    with tr h s show ?thesis by (auto simp: heap_cut_def)
  qed
qed

lemma heap_ok_free_inner:
  assumes h: "heap_cut len lo hp (insert x U) F" and x: "x \<notin> U" "88 \<le> len x"
    and m: "m \<in> U" "\<forall>u\<in>U. u \<le> m" "x < m" and c: "coal len (ins x (filter (\<lambda>a. \<not> m < a) F)) = (F', len')"
  shows "heap_ok len' lo (m + len m) U F'" "\<forall>a\<in>U. len' a = len a"
proof -
  let ?F = "filter (\<lambda>a. \<not> m < a) F"
  have cut: "heap_cut len lo (m + len m) (insert x U) ?F" using heap_cut_truncate(1) [OF h x(1) m(1,2)] m by blast
  then have "x \<notin> set ?F" by (auto simp: heap_cut_def)
  with cut x have ins: "heap_cut len lo (m + len m) U (ins x ?F)"
    using sorted_wrt_ins [of ?F x] by (auto simp: heap_cut_def)
  have cut': "heap_cut len' lo (m + len m) U F'" using coal_cut [of len lo _ U "[]"] ins c by force
  have adj: "\<forall>a\<in>set F'. a + len' a \<notin> set F'" using coal_no_adjacent [OF ins] c by simp
  have "set F' \<subseteq> insert x (set ?F)" using coal_subset [of len "ins x ?F"] c by simp
  moreover have "m \<notin> set F'" using cut' m by (auto simp: heap_cut_def)
  ultimately have "a < m" if "a \<in> set F'" for a
    using that m(3) by (cases "a = m"; cases "a = x") (auto simp: not_less)
  with cut' adj m show "heap_ok len' lo (m + len m) U F'" by (auto simp: heap_ok_def)
  have "U \<inter> set (ins x ?F) = {}" using ins by (auto simp: heap_cut_def)
  then have "a \<notin> set (ins x ?F)" if "a \<in> U" for a using that by blast
  then show "\<forall>a\<in>U. len' a = len a" using coal_outside [of _ "ins x ?F" len] c by (metis snd_conv)
qed

lemma heap_ok_free_last:
  assumes h: "heap_cut len lo hp (insert x U) F" and x: "x \<notin> U"
    and m: "m \<in> U" "\<forall>u\<in>U. u \<le> m" "m < x" and adj: "\<forall>a\<in>set F. a + len a \<notin> set F"
  shows "heap_ok len lo (m + len m) U (filter (\<lambda>a. \<not> m < a) F)"
proof -
  let ?F = "filter (\<lambda>a. \<not> m < a) F"
  have cut: "heap_cut len lo (m + len m) U ?F" using heap_cut_truncate(2) [OF h x m(1,2)] m by blast
  moreover have "\<forall>a\<in>set ?F. a < m"
  proof
    fix a assume a: "a \<in> set ?F"
    moreover have "m \<notin> set ?F" using cut m by (auto simp: heap_cut_def)
    ultimately show "a < m" by (cases "a = m") auto
  qed
  ultimately show ?thesis using m adj by (auto simp: heap_ok_def)
qed

lemma heap_ok_empty: "heap_ok len lo lo {} []"
  by (simp add: heap_ok_def heap_cut_def)

section \<open>The stack\<close>

lemma stack_ok_push:
  assumes h: "stack_ok len sp eos S" and k: "0 < k" "len' (sp - k) = k" "\<And>a. a \<noteq> sp - k \<Longrightarrow> len' a = len a"
  shows "stack_ok len' (sp - k) eos ((sp - k) # S)"
proof -
  have t: "tiles len (set S) sp eos" using h by (simp add: stack_ok_def)
  have lt: "sp - k < a" if "a \<in> set S" for a using tiles_bounds(1) [OF t that] k by simp
  have "tiles len' (set S) sp eos" using tiles_cong [of "set S" len len'] t k(3) lt by force
  then have "tiles len' (insert (sp - k) (set S)) (sp - k) eos" using tiles_push [of len'] k by auto
  then show ?thesis using h lt by (auto simp: stack_ok_def)
qed

lemma stack_ok_drop:
  assumes h: "stack_ok len sp eos S" and x: "x \<in> set S"
  shows "stack_ok len (x + len x) eos (filter (\<lambda>a. \<not> a \<le> x) S)"
proof -
  have "tiles len (set S) sp eos" using h by (simp add: stack_ok_def)
  from tiles_drop [OF this x] show ?thesis
    using h by (auto simp: stack_ok_def not_le intro: sorted_wrt_filter)
qed

lemma stack_ok_top:
  assumes h: "stack_ok len sp eos S" and S: "S \<noteq> []"
  shows "hd S = sp" "stack_ok len (sp + len sp) eos (tl S)"
proof -
  obtain x T where xT: "S = x # T" using S by (cases S) auto
  have t: "tiles len (set S) sp eos" and lt: "\<forall>a\<in>set T. x < a" using h xT by (auto simp: stack_ok_def)
  have "sp < eos" using tiles_bounds [OF t, of x] tiles_pos [OF t, of x] xT by auto
  then obtain a where a: "a \<in> set S" "a \<le> sp" using tiles_cover [OF t, of sp] by auto
  then have "a = x" using tiles_bounds(1) [OF t, of x] lt xT by force
  then show hd: "hd S = sp" using a tiles_bounds(1) [OF t, of x] xT by auto
  have "filter (\<lambda>a. \<not> a \<le> x) S = T" using lt xT by (auto intro: filter_True simp: not_le)
  then show "stack_ok len (sp + len sp) eos (tl S)" using stack_ok_drop [OF h, of x] xT hd by simp
qed

end
