(* ===== verification/MA_Inv.thy ===== *)
theory MA_Inv
  imports MA_Layout MA_Heap
begin

text \<open>
  The invariant of the allocator (\<open>ma_wf\<close>): the linked lists, the tiling of heap and stack by blocks, the
  contents of descriptors and guards, and the handles. Coalescing, verification and the check of a handle
  keep it.
\<close>

section \<open>Changes of the bookkeeping fields\<close>

text \<open>Two states that differ at most in the links, the list heads and the lengths of blocks.\<close>

definition meta_only :: "ma_state \<Rightarrow> ma_state \<Rightarrow> bool" where
  "meta_only s s' \<longleftrightarrow> (\<exists>n b f u k. s' = s\<lparr>ads := (\<lambda>a. (ads s a)\<lparr>ad_next := n a, ad_nbytes := b a\<rparr>),
     ma_hfree := f, ma_hused := u, ma_sused := k\<rparr>)"

lemma meta_onlyI:
  "s' = s\<lparr>ads := (\<lambda>a. (ads s a)\<lparr>ad_next := n a, ad_nbytes := b a\<rparr>), ma_hfree := f,
     ma_hused := u, ma_sused := k\<rparr> \<Longrightarrow> meta_only s s'"
  unfolding meta_only_def by blast

lemma links_meta: "links_only s s' \<Longrightarrow> meta_only s s'"
proof -
  assume "links_only s s'"
  then obtain n f u k where e: "s' = s\<lparr>ads := (\<lambda>a. (ads s a)\<lparr>ad_next := n a\<rparr>),
      ma_hfree := f, ma_hused := u, ma_sused := k\<rparr>" unfolding links_only_def by blast
  show ?thesis
    by (rule meta_onlyI [where n = n and b = "nbytes_of s" and f = f and u = u and k = k])
      (simp add: e nbytes_of_def)
qed

lemma meta_only_refl [simp]: "meta_only s s"
  by (rule links_meta) simp

lemma meta_only_trans: "meta_only s t \<Longrightarrow> meta_only t u \<Longrightarrow> meta_only s u"
  unfolding meta_only_def by (elim exE, hypsubst) (simp, blast)

lemma meta_only_set_nbytes [simp]: "meta_only s (set_nbytes a k s)"
  by (rule meta_onlyI [where n = "\<lambda>x. ad_next (ads s x)" and b = "(nbytes_of s)(a := k)"
        and f = "ma_hfree s" and u = "ma_hused s" and k = "ma_sused s"])
    (auto simp: set_nbytes_def upd_ad_def nbytes_of_def fun_eq_iff)

lemma nbytes_set_nbytes [simp]: "nbytes_of (set_nbytes a k s) = (nbytes_of s)(a := k)"
  by (auto simp: nbytes_of_def set_nbytes_def upd_ad_def fun_eq_iff)

lemma nbytes_set_next [simp]: "nbytes_of (set_next a p s) = nbytes_of s"
  by (auto simp: nbytes_of_def fun_eq_iff)

lemma nbytes_set_list [simp]: "nbytes_of (set_list l p s) = nbytes_of s"
  by (auto simp: nbytes_of_def fun_eq_iff)

lemma next_set_nbytes [simp]: "next_of x (set_nbytes a k s) = next_of x s"
  by (simp add: next_of_def set_nbytes_def upd_ad_def)

lemma get_list_set_nbytes [simp]: "get_list l (set_nbytes a k s) = get_list l s"
  by (cases l) (auto simp: set_nbytes_def upd_ad_def)

lemma lists_are_set_nbytes [simp]: "lists_are s L \<Longrightarrow> lists_are (set_nbytes a k s) L"
  by (rule lists_are_cong) auto

section \<open>Coalescing the free list\<close>

lemma fun_upd_twice: "L(l := xs) = L(l := ys) \<longleftrightarrow> xs = ys"
  by (metis fun_upd_same)

lemma list_coalesce_lists:
  assumes "lists_are s L" "L HFree = pre @ F"
    and "\<forall>a\<in>set F. 0 \<le> a \<and> 0 \<le> nbytes_of s a \<and> a + nbytes_of s a < 18446744073709551616"
    and "\<forall>a\<in>set F. \<forall>b\<in>set F. a < b \<longrightarrow> a + nbytes_of s a \<le> b" "sorted_wrt (<) F"
  shows "\<exists>s'. list_coalesce (first_of F) s = Some s' \<and> meta_only s s' \<and>
    lists_are s' (L(HFree := pre @ fst (coal (nbytes_of s) F))) \<and> nbytes_of s' = snd (coal (nbytes_of s) F)"
  using assms
proof (induction "nbytes_of s" F arbitrary: s L pre rule: coal.induct)
  case 1
  have "L(HFree := pre) = L" using 1 by auto
  then show ?case using 1 by (subst list_coalesce.simps) simp
next
  case (2 a)
  have a: "a \<noteq> 0" "next_of a s = 0"
    using lists_are_nonzero [OF 2(1), of a HFree] lists_are_next [OF 2(1), of HFree pre a "[]"] 2(2) by auto
  have "L(HFree := pre @ [a]) = L" using 2 by auto
  moreover have "u64 (a + nbytes_of s a) \<noteq> 0" using 2(3) a(1) by (subst u64_id) auto
  ultimately show ?case using 2 a
    by (subst list_coalesce.simps, simp, subst list_coalesce.simps, simp)
next
  case (3 a b r)
  note L = 3(3) and l = 3(4)
  have a: "a \<noteq> 0" "next_of a s = b" and b: "next_of b s = first_of r"
    using lists_are_nonzero [OF L, of a HFree] lists_are_next [OF L, of HFree pre a "b # r"]
      lists_are_next [OF L, of HFree "pre @ [a]" b r] l by auto
  have u: "u64 (a + nbytes_of s a) = a + nbytes_of s a" using 3(5) by (intro u64_id) auto
  have ab: "a < b" using 3(7) by simp
  show ?case
  proof (cases "a + nbytes_of s a = b")
    case False
    then have "list_coalesce (first_of (a # b # r)) s = list_coalesce (first_of (b # r)) s"
      using a u by (subst list_coalesce.simps) simp
    then show ?thesis using 3(2) [OF False refl L, of "pre @ [a]"] 3(4-7) False
      by (simp add: case_prod_unfold Let_def)
  next
    case True
    have ub: "u64 (nbytes_of s a + nbytes_of s b) = nbytes_of s a + nbytes_of s b"
      using 3(5) True by (intro u64_id) auto
    let ?s = "set_next a (first_of r) (set_nbytes a (nbytes_of s a + nbytes_of s b) s)"
    have step: "list_coalesce (first_of (a # b # r)) s = list_coalesce (first_of (a # r)) ?s"
      using a b u ub True by (subst list_coalesce.simps) simp
    have un: "?s = unlink HFree a b (set_nbytes a (nbytes_of s a + nbytes_of s b) s)"
      using a b by (simp add: unlink_def)
    have L': "lists_are ?s (L(HFree := pre @ a # r))"
      using unlink_lists(1) [OF lists_are_set_nbytes [OF L], of HFree "pre @ [a]" b r] l un by simp
    have meta: "meta_only s ?s"
      by (rule meta_only_trans [OF meta_only_set_nbytes links_meta [OF links_only_set_next]])
    have nb: "nbytes_of ?s = (nbytes_of s)(a := nbytes_of s a + nbytes_of s b)" by simp
    have 1: "\<forall>c\<in>set (a # r). 0 \<le> c \<and> 0 \<le> nbytes_of ?s c \<and> c + nbytes_of ?s c < 18446744073709551616"
      unfolding nb using 3(5) True by auto
    have 2: "\<forall>c\<in>set (a # r). \<forall>d\<in>set (a # r). c < d \<longrightarrow> c + nbytes_of ?s c \<le> d"
      unfolding nb using 3(6,7) True by fastforce
    have 3: "sorted_wrt (<) (a # r)" using 3(7) by simp
    obtain s' where "list_coalesce (first_of (a # r)) ?s = Some s'" "meta_only ?s s'"
      "lists_are s' (L(HFree := pre @ fst (coal (nbytes_of ?s) (a # r))))"
      "nbytes_of s' = snd (coal (nbytes_of ?s) (a # r))"
      using "3.hyps"(1) [OF True nb [symmetric] L' _ 1 2 3, of pre] unfolding fun_upd_upd by auto
    then show ?thesis using step meta_only_trans [OF meta, of s'] True unfolding nb by auto
  qed
qed

section \<open>The allocator's invariant\<close>

text \<open>
  A block in use: the request it serves, the place of guards and client space inside the block, the
  congruence that makes the client space an element of the datatype's base array, the checksum and
  the guards.
\<close>

definition block_ok :: "ma_state \<Rightarrow> int \<Rightarrow> bool" where
  "block_ok s a \<longleftrightarrow>
     (let ad = ads s a; sz = sizeof_dt s (ad_datatype ad) in
      0 \<le> ad_datatype ad \<and> ad_datatype ad < 17 \<and> 0 \<le> ad_nelem ad \<and>
      a + 84 \<le> ad_client_space ad \<and> ad_client_space ad + ad_nelem ad * sz + 4 \<le> a + ad_nbytes ad \<and>
      sz dvd ad_client_space ad - base_dt s (ad_datatype ad) \<and>
      checksum ad = ad_checksum ad \<and> guard_check a s)"

definition used_blocks :: "(listref \<Rightarrow> int list) \<Rightarrow> int set" where
  "used_blocks L = set (L HUsed) \<union> set (L SUsed)"

definition ma_wf :: "ma_state \<Rightarrow> (listref \<Rightarrow> int list) \<Rightarrow> bool" where
  "ma_wf s L \<longleftrightarrow> ma_initialized s \<and> sizes_ok s \<and>
     0 < ma_segment s \<and> ma_hp s \<le> ma_sp s \<and> ma_eos s < 2305843009213693952 \<and>
     lists_are s L \<and>
     heap_ok (nbytes_of s) (ma_segment s) (ma_hp s) (set (L HUsed)) (L HFree) \<and>
     stack_ok (nbytes_of s) (ma_sp s) (ma_eos s) (L SUsed) \<and>
     (\<forall>a\<in>used_blocks L. block_ok s a) \<and>
     table_inv s \<and> handles_for (table_map s) (used_blocks L)"

lemma ma_wfD:
  assumes "ma_wf s L"
  shows "ma_initialized s" "sizes_ok s" "0 < ma_segment s" "ma_hp s \<le> ma_sp s"
    "ma_eos s < 4611686018427387904" "lists_are s L"
    "heap_ok (nbytes_of s) (ma_segment s) (ma_hp s) (set (L HUsed)) (L HFree)"
    "stack_ok (nbytes_of s) (ma_sp s) (ma_eos s) (L SUsed)"
    "\<And>a. a \<in> used_blocks L \<Longrightarrow> block_ok s a"
    "table_inv s" "handles_for (table_map s) (used_blocks L)"
  using assms by (auto simp: ma_wf_def)

lemma ma_wf_eos: "ma_wf s L \<Longrightarrow> ma_eos s < 2305843009213693952"
  by (simp add: ma_wf_def)

lemma ma_wf_tiles:
  assumes "ma_wf s L"
  shows "tiles (nbytes_of s) (set (L HUsed) \<union> set (L HFree)) (ma_segment s) (ma_hp s)"
    and "tiles (nbytes_of s) (set (L SUsed)) (ma_sp s) (ma_eos s)"
    and "ma_segment s \<le> ma_hp s" "ma_sp s \<le> ma_eos s"
  using ma_wfD(7,8) [OF assms] by (auto simp: heap_ok_def heap_cut_def stack_ok_def dest: tiles_le)

text \<open>The bounds of any block: inside the segment, above address 0.\<close>

lemma ma_wf_block:
  assumes wf: "ma_wf s L" and a: "a \<in> set (L l)"
  shows "ma_segment s \<le> a" "0 < a" "a + nbytes_of s a \<le> ma_eos s" "0 < nbytes_of s a"
    "u64 (a + nbytes_of s a) = a + nbytes_of s a"
proof -
  note t = ma_wf_tiles [OF wf]
  have "a \<in> set (L HUsed) \<union> set (L HFree) \<or> a \<in> set (L SUsed)" using a by (cases l) auto
  then show b: "ma_segment s \<le> a" "a + nbytes_of s a \<le> ma_eos s" "0 < nbytes_of s a"
    using t ma_wfD(4) [OF wf] tiles_bounds [OF t(1), of a] tiles_bounds [OF t(2), of a]
      tiles_pos [OF t(1), of a] tiles_pos [OF t(2), of a] by (auto simp: Un_iff)
  show "0 < a" using b ma_wfD(3) [OF wf] by simp
  then show "u64 (a + nbytes_of s a) = a + nbytes_of s a"
    using b ma_wfD(5) [OF wf] by (intro u64_id) auto
qed

text \<open>Blocks of any lists do not overlap.\<close>

lemma ma_wf_apart:
  assumes wf: "ma_wf s L" and a: "a \<in> set (L l)" and b: "b \<in> set (L l')" and ab: "a < b"
  shows "a + nbytes_of s a \<le> b"
proof -
  note t = ma_wf_tiles [OF wf]
  let ?H = "set (L HUsed) \<union> set (L HFree)" and ?S = "set (L SUsed)"
  have "a \<in> ?H \<or> a \<in> ?S" using a by (cases l) auto
  moreover have "b \<in> ?H \<or> b \<in> ?S" using b by (cases l') auto
  ultimately consider "a \<in> ?H" "b \<in> ?H" | "a \<in> ?H" "b \<in> ?S" | "a \<in> ?S" "b \<in> ?H" | "a \<in> ?S" "b \<in> ?S" by blast
  then show ?thesis
  proof cases
    case 1
    then show ?thesis using tiles_apart [OF t(1)] ab by blast
  next
    case 2
    then show ?thesis using tiles_bounds(2) [OF t(1)] tiles_bounds(1) [OF t(2)] ma_wfD(4) [OF wf] by force
  next
    case 3
    then show ?thesis using tiles_bounds(1) [OF t(2)] tiles_bounds(2) [OF t(1)] tiles_pos [OF t(1), of b]
        ma_wfD(4) [OF wf] ab by force
  next
    case 4
    then show ?thesis using tiles_apart [OF t(2)] ab by blast
  qed
qed

text \<open>Two states that agree on a block: on its descriptor, links apart, and on its bytes.\<close>

definition same_block :: "ma_state \<Rightarrow> ma_state \<Rightarrow> int \<Rightarrow> bool" where
  "same_block s s' a \<longleftrightarrow> ads s' a = (ads s a)\<lparr>ad_next := ad_next (ads s' a)\<rparr> \<and>
     (\<forall>x. a \<le> x \<and> x < a + nbytes_of s a \<longrightarrow> mem s' x = mem s x)"

lemma same_block_refl [simp]: "same_block s s a"
  by (simp add: same_block_def)

lemma same_block_nbytes: "same_block s s' a \<Longrightarrow> nbytes_of s' a = nbytes_of s a"
  by (simp add: same_block_def nbytes_of_def) (metis AD.select_convs(5) AD.surjective AD.update_convs(6))

lemma same_block_trans: "same_block s t a \<Longrightarrow> same_block t u a \<Longrightarrow> same_block s u a"
  using same_block_nbytes [of s t a] unfolding same_block_def
  by (metis (no_types, lifting) AD.unfold_congs(6) AD.update_convs(6) AD.surjective)

lemma block_ok_same:
  assumes b: "block_ok s a" "same_block s s' a" and sz: "ma_sizeof s' = ma_sizeof s" "ma_base s' = ma_base s"
    and r: "sizes_ok s" "0 \<le> a" "a + nbytes_of s a < 18446744073709551616"
  shows "block_ok s' a"
proof -
  obtain n where ad: "ads s' a = (ads s a)\<lparr>ad_next := n\<rparr>" using b(2) by (auto simp: same_block_def)
  have m: "\<And>x. a \<le> x \<Longrightarrow> x < a + nbytes_of s a \<Longrightarrow> mem s' x = mem s x" using b(2) by (auto simp: same_block_def)
  define c k where "c = ad_client_space (ads s a)"
    and "k = ad_nelem (ads s a) * sizeof_dt s (ad_datatype (ads s a))"
  have bd: "a + 84 \<le> c" "c + k + 4 \<le> a + nbytes_of s a" "0 \<le> k"
    using b(1) sizeof_dt_ok(1) [OF r(1), of "ad_datatype (ads s a)"]
    by (auto simp: block_ok_def Let_def c_def k_def nbytes_of_def)
  have g: "guard1 s a = c - 4" "guard2 s a = c + k"
    using bd r by (simp_all add: guard1_def guard2_def sizeof_Guard_def u64_id c_def [symmetric] k_def [symmetric])
  have g': "guard1 s' a = c - 4" "guard2 s' a = c + k"
    using g sz by (simp_all add: guard1_def guard2_def ad sizeof_dt_def)
  have "guard_check a s' = guard_check a s"
    unfolding guard_check_def g g' guard_read_def using m bd by auto
  then show ?thesis using b(1) sz unfolding block_ok_def ad
    by (simp add: Let_def sizeof_dt_def base_dt_def checksum_def)
qed

section \<open>Verification and handles in a well-formed state\<close>

text \<open>The statistics and the error log do not matter for the invariant.\<close>

lemma nbytes_next_simps [simp]:
  "nbytes_of (s\<lparr>ma_stats := x\<rparr>) = nbytes_of s" "nbytes_of (s\<lparr>stderr_log := l\<rparr>) = nbytes_of s"
  "next_of a (s\<lparr>ma_stats := x\<rparr>) = next_of a s" "next_of a (s\<lparr>stderr_log := l\<rparr>) = next_of a s"
  by (simp_all add: nbytes_of_def next_of_def fun_eq_iff)

lemma get_list_simps [simp]:
  "get_list r (s\<lparr>ma_stats := x\<rparr>) = get_list r s" "get_list r (s\<lparr>stderr_log := l\<rparr>) = get_list r s"
  by (cases r; simp)+

lemma lists_are_simps [simp]:
  "lists_are (s\<lparr>ma_stats := x\<rparr>) L = lists_are s L" "lists_are (s\<lparr>stderr_log := l\<rparr>) L = lists_are s L"
  by (simp_all add: lists_are_def)

lemma guard_check_simps [simp]:
  "guard_check a (s\<lparr>ma_stats := x\<rparr>) = guard_check a s" "guard_check a (s\<lparr>stderr_log := l\<rparr>) = guard_check a s"
  by (simp_all add: guard_check_def guard_read_def guard1_def guard2_def sizeof_dt_def)

lemma block_ok_simps [simp]:
  "block_ok (s\<lparr>ma_stats := x\<rparr>) a = block_ok s a" "block_ok (s\<lparr>stderr_log := l\<rparr>) a = block_ok s a"
  by (simp_all add: block_ok_def sizeof_dt_def base_dt_def)

lemma table_stats_simps [simp]:
  "table_map (s\<lparr>ma_stats := x\<rparr>) = table_map s" "table_inv (s\<lparr>ma_stats := x\<rparr>) = table_inv s"
  by (simp_all add: table_map_def table_inv_def fun_eq_iff)

lemma sizes_ok_simps [simp]:
  "sizes_ok (s\<lparr>ma_stats := x\<rparr>) = sizes_ok s" "sizes_ok (s\<lparr>stderr_log := l\<rparr>) = sizes_ok s"
  by (simp_all add: sizes_ok_def)

lemma ma_wf_stats [simp]: "ma_wf (s\<lparr>ma_stats := x\<rparr>) L = ma_wf s L"
  by (simp add: ma_wf_def)

lemma ma_wf_log [simp]: "ma_wf (s\<lparr>stderr_log := l\<rparr>) L = ma_wf s L"
  by (simp add: ma_wf_def)

lemma ma_wf_bump [simp]: "ma_wf (bump f s) L = ma_wf s L"
  by (simp add: bump_def)

lemma list_verify_ok:
  assumes "linked (ads s) p xs" "\<forall>a\<in>set xs. block_ok s a"
  shows "list_verify p s (n, b, c, l, r) = Some (n + int (length xs), b, c, l, r)"
  using assms
proof (induction xs arbitrary: p n)
  case Nil
  then show ?case by (subst list_verify.simps) simp
next
  case (Cons x xs)
  have "checksum (ads s x) = ad_checksum (ads s x)" "guard_check x s"
    using Cons.prems(2) by (auto simp: block_ok_def Let_def)
  then show ?case using Cons by (subst list_verify.simps) (simp add: guard_check_def next_of_def)
qed

text \<open>Routines that only count calls.\<close>

definition stats_only :: "ma_state \<Rightarrow> ma_state \<Rightarrow> bool" where
  "stats_only s s' \<longleftrightarrow> (\<exists>c. s' = s\<lparr>ma_stats := (ma_stats s)\<lparr>calls := c\<rparr>\<rparr>)"

lemma stats_only_bump: "stats_only s (bump f s)"
  by (auto simp: stats_only_def bump_def)

lemma stats_only_trans: "stats_only s t \<Longrightarrow> stats_only t u \<Longrightarrow> stats_only s u"
  unfolding stats_only_def by (elim exE, hypsubst) (simp, blast)

lemma verify_wf:
  assumes wf: "ma_wf s L"
  shows "MA_verify_allocator_stuff s = Some (True, bump FID_MA_verify_allocator_stuff s)"
proof -
  let ?s = "bump FID_MA_verify_allocator_stuff s"
  have wf': "ma_wf ?s L" using wf by simp
  have v: "list_verify (get_list l ?s) ?s (0, 0, 0, 0, 0) = Some (int (length (L l)), 0, 0, 0, 0)"
    if "l \<in> {HUsed, SUsed}" for l
    using list_verify_ok [OF lists_areD(1) [OF ma_wfD(6) [OF wf']], of l] ma_wfD(9) [OF wf'] that
    by (auto simp: used_blocks_def)
  show ?thesis using v [of HUsed] v [of SUsed] by (simp add: MA_verify_allocator_stuff_def)
qed

lemma auto_verify_wf:
  assumes "ma_wf s L"
  shows "\<exists>s'. auto_verify s = Some (True, s') \<and> stats_only s s' \<and> ma_wf s' L"
proof (cases "ma_auto_verify s")
  case True
  then show ?thesis using verify_wf [OF assms] assms stats_only_bump
    by (simp add: auto_verify_def)
next
  case False
  have "stats_only s s" by (auto simp: stats_only_def intro: exI [of _ "calls (ma_stats s)"])
  with False assms show ?thesis by (simp add: auto_verify_def)
qed

text \<open>The prologue of a public routine: counting the call and verifying.\<close>

lemma prologue_wf:
  assumes "ma_wf s L"
  shows "\<exists>s'. auto_verify (bump f s) = Some (True, s') \<and> stats_only s s' \<and> ma_wf s' L"
  using auto_verify_wf [of "bump f s" L] assms stats_only_trans [OF stats_only_bump] by auto

lemma stats_only_simps:
  assumes "stats_only s s'"
  shows "ads s' = ads s" "mem s' = mem s" "table_map s' = table_map s" "nbytes_of s' = nbytes_of s"
    "ma_hp s' = ma_hp s" "ma_sp s' = ma_sp s" "ma_segment s' = ma_segment s" "ma_eos s' = ma_eos s"
    "ma_sizeof s' = ma_sizeof s" "ma_base s' = ma_base s" "ma_numalign s' = ma_numalign s"
    "ma_partition s' = ma_partition s" "ma_hard_fail s' = ma_hard_fail s" "same_block s s' a"
    "hblocks (ma_stats s') = hblocks (ma_stats s)" "hbytes (ma_stats s') = hbytes (ma_stats s)"
    "sblocks (ma_stats s') = sblocks (ma_stats s)" "sbytes (ma_stats s') = sbytes (ma_stats s)"
  using assms by (auto simp: stats_only_def same_block_def)

text \<open>The handle of a block in use passes all the checks, for the places the block is in.\<close>

definition in_place :: "(listref \<Rightarrow> int list) \<Rightarrow> ma_state \<Rightarrow> int \<Rightarrow> BlockLocation \<Rightarrow> bool" where
  "in_place L s a loc \<longleftrightarrow> (case loc of BL_HeapOrStack \<Rightarrow> True | BL_Heap \<Rightarrow> a \<in> set (L HUsed)
     | BL_Stack \<Rightarrow> a \<in> set (L SUsed) | BL_StackTop \<Rightarrow> a \<in> set (L SUsed) \<and> a = ma_sp s)"

lemma mh2ad_wf:
  assumes wf: "ma_wf s L" and h: "table_map s h = Some a"
  shows "mh2ad h loc caller s = (if in_place L s a loc then Some (Some a, s) else mh2ad_error caller s)"
    and "a \<in> used_blocks L"
proof -
  show u: "a \<in> used_blocks L" using ma_wfD(11) [OF wf] h by (auto simp: handles_for_def ran_def)
  then obtain l where l: "a \<in> set (L l)" by (auto simp: used_blocks_def)
  have "reasonable_address a s" using ma_wf_block [OF wf l] by (simp add: reasonable_address_def)
  moreover have "checksum (ads s a) = ad_checksum (ads s a)" "guard_check a s"
    using ma_wfD(9) [OF wf u] by (auto simp: block_ok_def Let_def)
  moreover have "list_member a (ma_hused s) s = Some (a \<in> set (L HUsed))"
    using list_member_lists [OF lists_areD(1) [OF ma_wfD(6) [OF wf], of HUsed]] by simp
  moreover have "list_member a (ma_sused s) s = Some (a \<in> set (L SUsed))"
    using list_member_lists [OF lists_areD(1) [OF ma_wfD(6) [OF wf], of SUsed]] by simp
  ultimately show "mh2ad h loc caller s =
      (if in_place L s a loc then Some (Some a, s) else mh2ad_error caller s)"
    using u by (cases loc) (auto simp: mh2ad_def ma_table_verify_valid [OF h]
        ma_table_lookup_valid [OF h] in_place_def used_blocks_def)
qed

lemma mh2ad_invalid:
  assumes "table_map s h = None" "\<not> ma_hard_fail s"
  shows "\<exists>l. mh2ad h loc caller s = Some (None, s\<lparr>stderr_log := l\<rparr>)"
  using ma_table_verify_invalid [OF assms, of caller] by (auto simp: mh2ad_def)

end
