(* ===== verification/MA_Alloc.thy ===== *)
theory MA_Alloc
  imports MA_Inv
begin

text \<open>
  The steps of an allocation: taking a block from the free list or from the end of the heap, splitting off the
  rest, writing guards and descriptor. Each is shown to change nothing but its own block.
\<close>

text \<open>Routines that change descriptors and list heads, and nothing else.\<close>

definition ads_only :: "ma_state \<Rightarrow> ma_state \<Rightarrow> bool" where
  "ads_only s s' \<longleftrightarrow> (\<exists>A f u k. s' = s\<lparr>ads := A, ma_hfree := f, ma_hused := u, ma_sused := k\<rparr>)"

lemma meta_ads: "meta_only s s' \<Longrightarrow> ads_only s s'"
  unfolding meta_only_def ads_only_def by blast

lemma ads_only_trans: "ads_only s t \<Longrightarrow> ads_only t u \<Longrightarrow> ads_only s u"
  unfolding ads_only_def by (elim exE, hypsubst) (simp, blast)

lemma ads_only_upd_ad [simp]: "ads_only s (upd_ad a f s)"
  unfolding ads_only_def upd_ad_def
  by (intro exI [of _ "(ads s)(a := f (ads s a))"] exI [of _ "ma_hfree s"] exI [of _ "ma_hused s"]
      exI [of _ "ma_sused s"]) simp

lemma ads_only_simps:
  assumes "ads_only s s'"
  shows "mem s' = mem s" "table_map s' = table_map s" "table_inv s' = table_inv s"
    "ma_hp s' = ma_hp s" "ma_sp s' = ma_sp s" "ma_segment s' = ma_segment s" "ma_eos s' = ma_eos s"
    "ma_sizeof s' = ma_sizeof s" "ma_base s' = ma_base s" "ma_numalign s' = ma_numalign s"
    "sizes_ok s' = sizes_ok s" "ma_initialized s' = ma_initialized s" "ma_stats s' = ma_stats s"
    "ma_hard_fail s' = ma_hard_fail s" "ma_partition s' = ma_partition s"
  using assms by (auto simp: ads_only_def table_map_def table_inv_def sizes_ok_def)

lemma meta_same_block:
  assumes "meta_only s s'" "nbytes_of s' a = nbytes_of s a"
  shows "same_block s s' a"
  using assms by (auto simp: meta_only_def same_block_def nbytes_of_def)

lemma balloc_after_cong:
  assumes "ma_sizeof s' = ma_sizeof s" "ma_base s' = ma_base s" "ma_numalign s' = ma_numalign s"
  shows "balloc_after ar a s' = balloc_after ar a s"
  unfolding balloc_after_def align_up_def sizeof_dt_def base_dt_def assms ..

lemma MINBLOCKSIZE_eq: "MINBLOCKSIZE = 96"
  by code_simp

text \<open>Splitting: the remainder becomes a block of its own when it is large enough.\<close>

lemma block_split_cases:
  assumes k: "0 < k" "k \<le> nbytes_of s a" and a: "0 \<le> a" "a + nbytes_of s a < 18446744073709551616"
  shows "block_split a k insert_free s =
    (if nbytes_of s a - k \<ge> 96
     then do { t \<leftarrow> (if insert_free then list_insert_ordered (a + k) HFree ad_lt
                       (set_nbytes (a + k) (nbytes_of s a - k) s)
                     else Some (set_nbytes (a + k) (nbytes_of s a - k) s));
               Some (a + k, set_nbytes a k t) }
     else Some (0, s))"
proof -
  have "u64 (nbytes_of s a - k) = nbytes_of s a - k" "u64 (a + k) = a + k"
    using k a by (auto intro!: u64_id)
  then show ?thesis by (simp add: block_split_def MINBLOCKSIZE_eq Let_def)
qed

lemma ins_after:
  assumes "sorted_wrt (<) (pre @ x # suf)" "x < y" "\<forall>b\<in>set suf. y < b"
  shows "ins y (pre @ x # suf) = pre @ x # y # suf"
  using assms ins_middle [of "pre @ [x]" y suf] by (fastforce simp: sorted_wrt_append neq_Nil_conv)

lemma set_client_space:
  fixes t x c
  defines "t' \<equiv> upd_ad x (ad_client_space_update (\<lambda>_. c)) t"
  shows "lists_are t M \<Longrightarrow> lists_are t' M" "nbytes_of t' = nbytes_of t" "ads_only t t'"
    "ad_client_space (ads t' x) = c" "a \<noteq> x \<Longrightarrow> same_block t t' a"
proof -
  show "nbytes_of t' = nbytes_of t" by (auto simp: t'_def upd_ad_def nbytes_of_def fun_eq_iff)
  have "get_list l t' = get_list l t" for l by (cases l) (auto simp: t'_def upd_ad_def)
  moreover have "next_of a t' = next_of a t" for a by (simp add: t'_def upd_ad_def next_of_def)
  ultimately show "lists_are t M \<Longrightarrow> lists_are t' M" by (auto intro: lists_are_cong)
  show "ads_only t t'" "ad_client_space (ads t' x) = c" "a \<noteq> x \<Longrightarrow> same_block t t' a"
    by (simp_all add: t'_def) (simp_all add: upd_ad_def same_block_def)
qed

text \<open>Taking a block off the free list, for a request that needs \<open>k\<close> bytes there.\<close>

lemma take_unlink:
  fixes c :: int
  assumes t: "meta_only s t" "lists_are t M" "M HFree = pre @ x # suf"
  defines "s' \<equiv> unlink HFree (last_of pre) x (upd_ad x (ad_client_space_update (\<lambda>_. c)) t)"
  shows "lists_are s' (M(HFree := pre @ suf))" "ads_only s s'" "nbytes_of s' = nbytes_of t"
    "ad_client_space (ads s' x) = c" "a \<noteq> x \<Longrightarrow> nbytes_of t a = nbytes_of s a \<Longrightarrow> same_block s s' a"
proof -
  let ?t = "upd_ad x (ad_client_space_update (\<lambda>_. c)) t"
  note c = set_client_space [where t = t and x = x and c = c]
  note u = unlink_lists [OF c(1) [OF t(2)] t(3), folded s'_def]
  show "lists_are s' (M(HFree := pre @ suf))" by (rule u(1))
  show "ads_only s s'" using meta_ads [OF t(1)] c(3) meta_ads [OF links_meta [OF u(2)]] ads_only_trans by blast
  show n: "nbytes_of s' = nbytes_of t" using links_only_nbytes [OF u(2)] c(2) by simp
  show "ad_client_space (ads s' x) = c" using u(2) c(4) by (auto simp: links_only_def)
  show "same_block s s' a" if "a \<noteq> x" "nbytes_of t a = nbytes_of s a"
    using meta_same_block [OF t(1), of a] that c(5) [of a] c(2)
      meta_same_block [OF links_meta [OF u(2)], of a] n by (metis same_block_trans)
qed

lemma take_free:
  assumes wf: "ma_wf s L" and l: "L HFree = pre @ x # suf"
    and b: "balloc_after ar x s = (c, k)" "0 < k" "k \<le> nbytes_of s x"
    and first: "\<forall>y\<in>set pre. nbytes_of s y < snd (balloc_after ar y s)"
  shows "\<exists>s'. list_delete_one HFree (ad_big_enough ar) s = Some (x, s') \<and> ads_only s s' \<and>
    lists_are s' (L(HFree := pre @ (if nbytes_of s x - k \<ge> 96 then [x + k] else []) @ suf)) \<and>
    nbytes_of s' = (if nbytes_of s x - k \<ge> 96
                    then (nbytes_of s)(x := k, x + k := nbytes_of s x - k) else nbytes_of s) \<and>
    ad_client_space (ads s' x) = c \<and>
    (\<forall>a. a \<noteq> x \<and> (a \<noteq> x + k \<or> nbytes_of s x - k < 96) \<longrightarrow> same_block s s' a)"
proof -
  note L = ma_wfD(6) [OF wf] and heap = ma_wfD(7) [OF wf]
  have xl: "x \<in> set (L HFree)" using l by simp
  note xb = ma_wf_block [OF wf xl]
  have fit: "ad_big_enough ar y s = Some (False, s)" if "y \<in> set pre" for y
    using bspec [OF first that] by (simp add: ad_big_enough_def case_prod_unfold Let_def)
  have eos: "ma_eos s < 18446744073709551616" using ma_wfD(5) [OF wf] by simp
  note split = block_split_cases [OF b(2,3) _ le_less_trans [OF xb(3) eos], of True]
  have take: "list_delete_one HFree (ad_big_enough ar) s =
      Some (x, unlink HFree (last_of pre) x (upd_ad x (ad_client_space_update (\<lambda>_. c)) t))"
    if "block_split x k True s = Some (r, t)" for r t
    by (rule list_delete_one_first [OF L l]) (use fit b that in \<open>auto simp: ad_big_enough_def\<close>)
  show ?thesis
  proof (cases "nbytes_of s x - k \<ge> 96")
    case False
    then have "block_split x k True s = Some (0, s)" using split xb by simp
    from take [OF this] take_unlink [OF meta_only_refl L l, where c = c] False show ?thesis by auto
  next
    case True
    let ?s1 = "set_nbytes (x + k) (nbytes_of s x - k) s"
    have h: "heap_cut (nbytes_of s) (ma_segment s) (ma_hp s) (set (L HUsed)) (L HFree)"
      using heap by (simp add: heap_ok_def)
    then have srt: "sorted_wrt (<) (pre @ x # suf)"
      and t: "tiles (nbytes_of s) (set (L HUsed) \<union> set (L HFree)) (ma_segment s) (ma_hp s)"
      using l by (auto simp: heap_cut_def)
    have new: "x + k \<notin> set (L l')" for l'
      using ma_wf_apart [OF wf xl, of "x + k" l'] True b(2) by auto
    have "\<forall>z\<in>set suf. x + k < z"
    proof
      fix z assume z: "z \<in> set suf"
      then have "x < z" using srt by (auto simp: sorted_wrt_append)
      then have "x + nbytes_of s x \<le> z" using tiles_apart [OF t, of x z] z l by auto
      then show "x + k < z" using True by simp
    qed
    then have i: "ins (x + k) (L HFree) = pre @ x # (x + k) # suf" using ins_after [OF srt] b(2) l by simp
    obtain t where t: "list_insert_ordered (x + k) HFree ad_lt ?s1 = Some t"
      "lists_are t (L(HFree := pre @ x # (x + k) # suf))" "links_only ?s1 t"
      using list_insert_ordered_lists [OF lists_are_set_nbytes [OF L, of "x + k" "nbytes_of s x - k"] _ new,
          where l = HFree]
        xb(2) b(2) i by auto
    let ?t = "set_nbytes x k t"
    have bs: "block_split x k True s = Some (x + k, ?t)" using split xb True t(1) by simp
    have m: "meta_only s ?t"
      using meta_only_trans [OF meta_only_set_nbytes links_meta [OF t(3)]] meta_only_trans [OF _ meta_only_set_nbytes]
      by blast
    have n: "nbytes_of ?t = (nbytes_of s)(x := k, x + k := nbytes_of s x - k)"
      using links_only_nbytes [OF t(3)] b(2) by (auto simp: fun_eq_iff)
    note tu = take_unlink [OF m lists_are_set_nbytes [OF t(2)], where c = c and suf = "(x + k) # suf" and pre = pre and x = x]
    have nt: "nbytes_of ?t a = nbytes_of s a" if "a \<noteq> x" "a \<noteq> x + k" for a using n that by simp
    show ?thesis using take [OF bs] tu(1-4) tu(5) [OF _ _ nt] n True by auto
  qed
qed

section \<open>Finding the space for a heap block\<close>

text \<open>What a request that is laid out at \<open>a\<close> needs there.\<close>

lemma balloc_after_block:
  assumes "sizes_ok s" "request_ok s d n" "0 \<le> a" "a < 4611686018427387904"
    and "balloc_after \<lparr>ar_datatype = d, ar_nelem = n\<rparr> a s = (c, k)"
  shows "88 \<le> k" "k < 4611686018427387904" "a + 84 \<le> c" "c + n * sizeof_dt s d + 4 \<le> a + k"
    "sizeof_dt s d dvd c - base_dt s d" "8 dvd k"
proof -
  obtain g1 g2 where g: "c = a + 84 + g1" "k = 88 + g1 + n * sizeof_dt s d + g2" "0 \<le> g1" "g1 < 1073741888"
      "0 \<le> g2" "g2 < 8" "sizeof_dt s d dvd a + 84 + g1 - base_dt s d" "8 dvd 88 + g1 + n * sizeof_dt s d + g2"
    using balloc_after_spec [OF assms(1-4)] assms(5) by auto
  have "0 \<le> n * sizeof_dt s d" "n * sizeof_dt s d \<le> 2305843009213693952"
    using assms(2) sizeof_dt_ok(1) [OF assms(1), of d] by (auto simp: request_ok_def)
  with g show "88 \<le> k" "k < 4611686018427387904" "a + 84 \<le> c" "c + n * sizeof_dt s d + 4 \<le> a + k"
    "sizeof_dt s d dvd c - base_dt s d" "8 dvd k" by auto
qed

text \<open>
  The state after a successful search: \<open>x\<close> is cut out for the request, on none of the lists, and
  with \<open>x\<close> counted as used the heap is as it should be.
\<close>

definition reserved ::
  "ma_state \<Rightarrow> (listref \<Rightarrow> int list) \<Rightarrow> AR \<Rightarrow> int \<Rightarrow> ma_state \<Rightarrow> int list \<Rightarrow> bool" where
  "reserved s L ar x s' F \<longleftrightarrow> ads_only s s' \<and> lists_are s' (L(HFree := F)) \<and>
     x \<noteq> 0 \<and> (\<forall>l. x \<notin> set ((L(HFree := F)) l)) \<and> x < 4611686018427387904 \<and> 0 \<le> x \<and>
     heap_ok (nbytes_of s') (ma_segment s) (max (ma_hp s) (x + nbytes_of s' x))
       (insert x (set (L HUsed))) F \<and>
     x + nbytes_of s' x \<le> ma_sp s \<and>
     ad_client_space (ads s' x) = fst (balloc_after ar x s) \<and>
     snd (balloc_after ar x s) \<le> nbytes_of s' x \<and>
     (\<forall>a\<in>used_blocks L. a \<noteq> x \<and> same_block s s' a)"

lemma heap_space_free:
  assumes wf: "ma_wf s L" and r: "request_ok s d n"
    and l: "L HFree = pre @ x # suf" and fit: "snd (balloc_after \<lparr>ar_datatype = d, ar_nelem = n\<rparr> x s) \<le> nbytes_of s x"
    and first: "\<forall>y\<in>set pre. nbytes_of s y < snd (balloc_after \<lparr>ar_datatype = d, ar_nelem = n\<rparr> y s)"
  shows "\<exists>s' F. heap_space \<lparr>ar_datatype = d, ar_nelem = n\<rparr> s = Some (Some x, s') \<and>
    reserved s L \<lparr>ar_datatype = d, ar_nelem = n\<rparr> x s' F"
proof -
  let ?ar = "\<lparr>ar_datatype = d, ar_nelem = n\<rparr>"
  obtain c k where b: "balloc_after ?ar x s = (c, k)" by force
  have xl: "x \<in> set (L HFree)" using l by simp
  note xb = ma_wf_block [OF wf xl] and sz = ma_wfD(2) [OF wf] and heap = ma_wfD(7) [OF wf]
  have x: "0 \<le> x" "x < 4611686018427387904" using xb ma_wfD(5) [OF wf] by linarith+
  note bb = balloc_after_block [OF sz r x b]
  let ?F = "pre @ (if nbytes_of s x - k \<ge> 96 then [x + k] else []) @ suf"
  obtain s' where s': "list_delete_one HFree (ad_big_enough ?ar) s = Some (x, s')" "ads_only s s'"
      "lists_are s' (L(HFree := ?F))" "ad_client_space (ads s' x) = c"
    and n: "nbytes_of s' = (if nbytes_of s x - k \<ge> 96
      then (nbytes_of s)(x := k, x + k := nbytes_of s x - k) else nbytes_of s)"
    and same: "\<And>a. a \<noteq> x \<Longrightarrow> a \<noteq> x + k \<or> nbytes_of s x - k < 96 \<Longrightarrow> same_block s s' a"
    using take_free [OF wf l b, OF _ _ first] bb(1) fit b by fastforce
  have nx: "nbytes_of s' x = (if nbytes_of s x - k \<ge> 96 then k else nbytes_of s x)" using n bb(1) by auto
  have top: "x + nbytes_of s x \<le> ma_hp s" "ma_hp s \<le> ma_sp s"
    using ma_wf_tiles(1) [OF wf] tiles_bounds(2) [of "nbytes_of s"] xl ma_wfD(4) [OF wf] by auto
  have hp: "max (ma_hp s) (x + nbytes_of s' x) = ma_hp s" using top fit b nx by auto
  have ok: "heap_ok (nbytes_of s') (ma_segment s) (ma_hp s) (insert x (set (L HUsed))) ?F"
  proof (cases "nbytes_of s x - k \<ge> 96")
    case True
    then show ?thesis using heap_ok_split [of "nbytes_of s" _ _ _ pre x suf k "nbytes_of s'"] heap l n bb(1)
      by simp
  next
    case False
    then show ?thesis using heap_ok_whole [of "nbytes_of s" _ _ _ pre x suf] heap l n by simp
  qed
  have new: "x + k \<notin> used_blocks L" if "nbytes_of s x - k \<ge> 96"
    using ma_wf_apart [OF wf xl, of "x + k"] that bb(1) unfolding used_blocks_def by force
  have xu: "x \<notin> set (L HUsed)" "x \<notin> set (L SUsed)"
    using lists_areD(4) [OF ma_wfD(6) [OF wf], of HFree HUsed]
      lists_areD(4) [OF ma_wfD(6) [OF wf], of HFree SUsed] xl by auto
  have "distinct (pre @ x # suf)" using lists_areD(2) [OF ma_wfD(6) [OF wf], of HFree] l by simp
  moreover have "x + k \<noteq> x" using bb(1) by simp
  ultimately have "x \<notin> set pre \<union> {x + k} \<union> set suf" by auto
  then have "x \<notin> set ?F" by (cases "nbytes_of s x - k \<ge> 96") simp_all
  moreover have "x \<notin> set (L l')" if "l' \<noteq> HFree" for l'
    using lists_areD(4) [OF ma_wfD(6) [OF wf], of HFree l'] that xl by auto
  ultimately have "x \<notin> set ((L(HFree := ?F)) l')" for l' unfolding fun_upd_apply by presburger
  moreover have "a \<noteq> x \<and> same_block s s' a" if "a \<in> used_blocks L" for a
  proof -
    have "a \<noteq> x" using that xu by (auto simp: used_blocks_def)
    moreover have "a \<noteq> x + k \<or> nbytes_of s x - k < 96" using that new by (metis not_le)
    ultimately show ?thesis using same by blast
  qed
  moreover have "heap_space ?ar s = Some (Some x, s')" using s'(1) xb(2) by (simp add: heap_space_def)
  moreover have "x + nbytes_of s' x \<le> ma_sp s" "snd (balloc_after ?ar x s) \<le> nbytes_of s' x"
    using top nx b fit by auto
  ultimately have "reserved s L ?ar x s' ?F" unfolding reserved_def hp
    using s'(2-4) ok xb(2) x b by simp
  with \<open>heap_space ?ar s = Some (Some x, s')\<close> show ?thesis by blast
qed

lemma heap_space_top:
  assumes wf: "ma_wf s L" and r: "request_ok s d n"
    and none: "\<forall>y\<in>set (L HFree). nbytes_of s y < snd (balloc_after \<lparr>ar_datatype = d, ar_nelem = n\<rparr> y s)"
  shows "ma_hp s + snd (balloc_after \<lparr>ar_datatype = d, ar_nelem = n\<rparr> (ma_hp s) s) > ma_sp s \<Longrightarrow>
      heap_space \<lparr>ar_datatype = d, ar_nelem = n\<rparr> s =
        do { s \<leftarrow> ma_error EL_Nonfatal ET_External ''MA_allocate_heap'' s; Some (None, s) }"
    and "ma_hp s + snd (balloc_after \<lparr>ar_datatype = d, ar_nelem = n\<rparr> (ma_hp s) s) \<le> ma_sp s \<Longrightarrow>
      \<exists>s'. heap_space \<lparr>ar_datatype = d, ar_nelem = n\<rparr> s = Some (Some (ma_hp s), s') \<and>
        reserved s L \<lparr>ar_datatype = d, ar_nelem = n\<rparr> (ma_hp s) s' (L HFree) \<and>
        nbytes_of s' (ma_hp s) = snd (balloc_after \<lparr>ar_datatype = d, ar_nelem = n\<rparr> (ma_hp s) s)"
proof -
  let ?ar = "\<lparr>ar_datatype = d, ar_nelem = n\<rparr>" and ?hp = "ma_hp s"
  obtain c k where b: "balloc_after ?ar ?hp s = (c, k)" by force
  note sz = ma_wfD(2) [OF wf] and heap = ma_wfD(7) [OF wf] and L = ma_wfD(6) [OF wf]
  note t = ma_wf_tiles [OF wf]
  have hp: "0 < ?hp" "?hp < 4611686018427387904"
    using t ma_wfD(3-5) [OF wf] by linarith+
  note bb = balloc_after_block [OF sz r _ _ b]
  have u: "u64 (?hp + k) = ?hp + k" using hp bb by (intro u64_id) auto
  have "\<forall>y\<in>set (L HFree). ad_big_enough ?ar y s = Some (False, s)"
    using none by (auto simp: ad_big_enough_def case_prod_unfold Let_def)
  then have del: "list_delete_one HFree (ad_big_enough ?ar) s = Some (0, s)"
    by (rule list_delete_one_none [OF L])
  let ?f = "\<lambda>a. a\<lparr>ad_client_space := c, ad_nbytes := k\<rparr>"
  have hs: "heap_space ?ar s = (if ?hp + k > ma_sp s
      then do { s \<leftarrow> ma_error EL_Nonfatal ET_External ''MA_allocate_heap'' s; Some (None, s) }
      else Some (Some ?hp, upd_ad ?hp ?f s))"
    using del b u by (simp add: heap_space_def)
  then show "?hp + snd (balloc_after ?ar ?hp s) > ma_sp s \<Longrightarrow> heap_space ?ar s =
      do { s \<leftarrow> ma_error EL_Nonfatal ET_External ''MA_allocate_heap'' s; Some (None, s) }"
    using b by simp
  show "\<exists>s'. heap_space ?ar s = Some (Some ?hp, s') \<and> reserved s L ?ar ?hp s' (L HFree) \<and>
      nbytes_of s' ?hp = snd (balloc_after ?ar ?hp s)"
    if fit: "?hp + snd (balloc_after ?ar ?hp s) \<le> ma_sp s"
  proof -
    let ?s = "upd_ad ?hp ?f s"
    have n: "nbytes_of ?s = (nbytes_of s)(?hp := k)" by (auto simp: nbytes_of_def upd_ad_def fun_eq_iff)
    have k: "88 \<le> k" "?hp + k \<le> ma_sp s" using bb(1) hp fit b by auto
    have lt: "a \<noteq> ?hp" if "a \<in> set (L l)" for a l
    proof -
      have "a \<in> set (L HUsed) \<union> set (L HFree) \<or> a \<in> set (L SUsed)" using that by (cases l) auto
      then show ?thesis using tiles_bounds(2) [OF t(1), of a] tiles_pos [OF t(1), of a]
          tiles_bounds(1) [OF t(2), of a] k by auto
    qed
    have same: "a \<noteq> ?hp \<and> same_block s ?s a" if "a \<in> used_blocks L" for a
      using that lt by (auto simp: used_blocks_def same_block_def upd_ad_def)
    have lists: "lists_are ?s L"
    proof (rule lists_are_cong [OF L])
      show "get_list l ?s = get_list l s" for l by (cases l) (auto simp: upd_ad_def)
      show "next_of x ?s = next_of x s" for x by (simp add: next_of_def upd_ad_def)
    qed
    have ok: "heap_ok (nbytes_of ?s) (ma_segment s) (?hp + k) (insert ?hp (set (L HUsed))) (L HFree)"
      using heap_ok_top [OF heap, of k "nbytes_of ?s"] k by (simp add: n)
    have mx: "max ?hp (?hp + k) = ?hp + k" using k by simp
    have "ad_client_space (ads ?s ?hp) = c" by (simp add: upd_ad_def)
    then have "reserved s L ?ar ?hp ?s (L HFree)" unfolding reserved_def
      using lists lt [of ?hp] ok hp k same b mx by (auto simp: n)
    then show ?thesis using hs k b by (simp add: n)
  qed
qed

section \<open>Guards\<close>

lemma guard_read_bytes:
  "guard_read g (s\<lparr>mem := (mem s)(g := b0, g + 1 := b1, g + 2 := b2, g + 3 := b3)\<rparr>) =
     b0 + 256 * b1 + 65536 * b2 + 16777216 * b3"
  by (simp add: guard_read_def)

lemma guard_read_write: "0 \<le> v \<Longrightarrow> v < 4294967296 \<Longrightarrow> guard_read g (guard_write g v s) = v"
proof -
  assume v: "0 \<le> v" "v < 4294967296"
  have "v div 16777216 mod 256 = v div 16777216" using v by (intro mod_pos_pos_trivial) auto
  moreover have "v mod 256 + 256 * (v div 256 mod 256) + 65536 * (v div 65536 mod 256) + 16777216 * (v div 16777216) = v"
  proof -
    define p q r where "p = v div 256" and "q = p div 256" and "r = q div 256"
    define m0 m1 m2 where "m0 = v mod 256" and "m1 = p mod 256" and "m2 = q mod 256"
    have "v = 256 * p + m0" "p = 256 * q + m1" "q = 256 * r + m2"
      by (simp_all only: p_def q_def r_def m0_def m1_def m2_def mult_div_mod_eq)
    then have "m0 + 256 * m1 + 65536 * m2 + 16777216 * r = v" by simp
    moreover have "v div 65536 = q" "v div 16777216 = r"
      by (simp_all add: p_def q_def r_def zdiv_zmult2_eq [symmetric])
    ultimately show ?thesis by (simp only: m0_def m1_def m2_def p_def)
  qed
  ultimately show ?thesis unfolding guard_write_def guard_read_bytes by (simp only:)
qed

lemma guard_read_other:
  "g + 4 \<le> g' \<or> g' + 4 \<le> g \<Longrightarrow> guard_read g (guard_write g' v s) = guard_read g s"
  by (auto simp: guard_read_def guard_write_def)

lemma mem_guard_write: "x < g \<or> g + 4 \<le> x \<Longrightarrow> mem (guard_write g v s) x = mem s x"
  by (auto simp: guard_write_def)

text \<open>Setting the guards of a block touches only the guards' bytes, and the guards then check.\<close>

lemma guard_set_block:
  fixes a s
  defines "c \<equiv> ad_client_space (ads s a)"
    and "k \<equiv> ad_nelem (ads s a) * sizeof_dt s (ad_datatype (ads s a))"
  assumes b: "4 \<le> c" "0 \<le> k" "c + k + 4 \<le> 18446744073709551616"
  shows "guard_check a (guard_set a s)"
    and "x < c - 4 \<or> c \<le> x \<and> x < c + k \<or> c + k + 4 \<le> x \<Longrightarrow> mem (guard_set a s) x = mem s x"
    and "\<exists>m. guard_set a s = s\<lparr>mem := m\<rparr>"
proof -
  have g: "guard1 t a = c - 4" "guard2 t a = c + k" if "ads t = ads s" "ma_sizeof t = ma_sizeof s" for t
    using b that
    by (simp_all add: guard1_def guard2_def sizeof_Guard_def u64_id c_def [symmetric] k_def [symmetric] sizeof_dt_def
        k_def [unfolded sizeof_dt_def, symmetric])
  let ?s1 = "guard_write (c - 4) GUARD1 s"
  have w: "ads (guard_write p v t) = ads t" "ma_sizeof (guard_write p v t) = ma_sizeof t" for p v t
    by (simp_all add: guard_write_def)
  have e: "guard_set a s = guard_write (c + k) GUARD2 ?s1"
    using g(1) [of s] g(2) [of ?s1] w by (simp add: guard_set_def)
  show "guard_check a (guard_set a s)" unfolding guard_check_def e
    using g [of "guard_write (c + k) GUARD2 ?s1"] w b(2) guard_read_write [of GUARD2 "c + k" ?s1]
      guard_read_other [of "c - 4" "c + k" GUARD2 ?s1] guard_read_write [of GUARD1 "c - 4" s]
    by (simp add: GUARD1_def GUARD2_def)
  show "mem (guard_set a s) x = mem s x" if "x < c - 4 \<or> c \<le> x \<and> x < c + k \<or> c + k + 4 \<le> x"
    using that b unfolding e by (subst mem_guard_write, force, subst mem_guard_write) auto
  show "\<exists>m. guard_set a s = s\<lparr>mem := m\<rparr>" unfolding e guard_write_def by auto
qed

section \<open>Entering a new block\<close>

lemma upd_ad_simps:
  "ads (upd_ad a f s) = (ads s)(a := f (ads s a))" "mem (upd_ad a f s) = mem s"
  "ma_sizeof (upd_ad a f s) = ma_sizeof s" "ma_base (upd_ad a f s) = ma_base s"
  "get_list l (upd_ad a f s) = get_list l s"
  by (cases l; simp add: upd_ad_def)+

text \<open>Routines that change the segment's contents and the list heads, and nothing else.\<close>

definition body_only :: "ma_state \<Rightarrow> ma_state \<Rightarrow> bool" where
  "body_only s s' \<longleftrightarrow> (\<exists>A m f u k. s' = s\<lparr>ads := A, mem := m, ma_hfree := f, ma_hused := u, ma_sused := k\<rparr>)"

lemma ads_body: "ads_only s s' \<Longrightarrow> body_only s s'"
proof -
  assume "ads_only s s'"
  then obtain A f u k where "s' = s\<lparr>ads := A, ma_hfree := f, ma_hused := u, ma_sused := k\<rparr>"
    unfolding ads_only_def by blast
  then show ?thesis unfolding body_only_def
    by (intro exI [of _ A] exI [of _ "mem s"] exI [of _ f] exI [of _ u] exI [of _ k]) simp
qed

lemma body_only_mem: "body_only s (s\<lparr>mem := m\<rparr>)"
  unfolding body_only_def
  by (intro exI [of _ "ads s"] exI [of _ m] exI [of _ "ma_hfree s"] exI [of _ "ma_hused s"]
      exI [of _ "ma_sused s"]) simp

lemma body_only_trans: "body_only s t \<Longrightarrow> body_only t u \<Longrightarrow> body_only s u"
  unfolding body_only_def by (elim exE, hypsubst) (simp, blast)

lemma body_only_simps:
  assumes "body_only s s'"
  shows "table_map s' = table_map s" "table_inv s' = table_inv s"
    "ma_hp s' = ma_hp s" "ma_sp s' = ma_sp s" "ma_segment s' = ma_segment s" "ma_eos s' = ma_eos s"
    "ma_sizeof s' = ma_sizeof s" "ma_base s' = ma_base s" "ma_numalign s' = ma_numalign s"
    "sizes_ok s' = sizes_ok s" "ma_initialized s' = ma_initialized s" "ma_stats s' = ma_stats s"
    "ma_hard_fail s' = ma_hard_fail s" "ma_partition s' = ma_partition s"
  using assms by (auto simp: body_only_def table_map_def table_inv_def sizes_ok_def)

lemma init_ad_block:
  fixes l :: listref and name :: "string option"
  assumes L: "lists_are s L" and x: "x \<noteq> 0" "\<And>l. x \<notin> set (L l)" "0 \<le> x"
    and sz: "sizes_ok s" and d: "0 \<le> d" "d < 17" "0 \<le> n"
    and c: "x + 84 \<le> ad_client_space (ads s x)"
      "ad_client_space (ads s x) + n * sizeof_dt s d + 4 \<le> x + nbytes_of s x"
      "sizeof_dt s d dvd ad_client_space (ads s x) - base_dt s d"
      "x + nbytes_of s x < 18446744073709551616"
  defines "s' \<equiv> init_ad l x d n name s"
  shows "lists_are s' (L(l := x # L l))" "block_ok s' x" "nbytes_of s' = nbytes_of s" "body_only s s'"
    "a \<noteq> x \<Longrightarrow> a + nbytes_of s a \<le> x \<or> x + nbytes_of s x \<le> a \<Longrightarrow> same_block s s' a"
    "ad_datatype (ads s' x) = d" "ad_nelem (ads s' x) = n"
    "ad_client_space (ads s' x) = ad_client_space (ads s x)"
    "ad_name (ads s' x) = str_ncopy name MA_NAMESIZE"
    "y < x \<or> x + nbytes_of s x \<le> y \<Longrightarrow> mem s' y = mem s y"
proof -
  define A where "A = (ads s x)\<lparr>ad_datatype := d, ad_nelem := n, ad_name := str_ncopy name MA_NAMESIZE\<rparr>"
  define s1 where "s1 = upd_ad x (\<lambda>a. a\<lparr>ad_datatype := d, ad_nelem := n, ad_name := str_ncopy name MA_NAMESIZE\<rparr>) s"
  define s2 where "s2 = list_insert x l s1"
  define s3 where "s3 = upd_ad x (\<lambda>a. a\<lparr>ad_checksum := checksum a\<rparr>) s2"
  have s': "s' = guard_set x s3" by (simp add: s'_def init_ad_def Let_def s3_def s2_def s1_def)
  have L1: "lists_are s1 L" unfolding s1_def
    by (rule lists_are_cong [OF L]) (simp_all add: next_of_def upd_ad_simps)
  note i = list_insert_lists [OF L1 x(1,2), of l, folded s2_def]
  have L3: "lists_are s3 (L(l := x # L l))" unfolding s3_def
    by (rule lists_are_cong [OF i(1)]) (simp_all add: next_of_def upd_ad_simps)
  obtain nx where a2: "ads s2 = (\<lambda>a. (ads s1 a)\<lparr>ad_next := nx a\<rparr>)" "mem s2 = mem s"
    "ma_sizeof s2 = ma_sizeof s" "ma_base s2 = ma_base s"
    using i(2) by (auto simp: links_only_def s1_def upd_ad_simps)
  have x3: "ads s3 x = A\<lparr>ad_next := nx x, ad_checksum := checksum A\<rparr>"
    by (simp add: s3_def upd_ad_simps a2 checksum_def A_def s1_def)
  have o3: "ads s3 a = (ads s a)\<lparr>ad_next := nx a\<rparr>" if "a \<noteq> x" for a
    using that by (simp add: upd_ad_simps a2 s3_def s1_def)
  have f3: "mem s3 = mem s" "ma_sizeof s3 = ma_sizeof s" "ma_base s3 = ma_base s"
    by (simp_all add: s3_def upd_ad_simps a2)
  let ?c = "ad_client_space (ads s x)" and ?k = "n * sizeof_dt s d"
  have ck: "ad_client_space (ads s3 x) = ?c"
    "ad_nelem (ads s3 x) * sizeof_dt s3 (ad_datatype (ads s3 x)) = ?k"
    using x3 f3 by (simp_all add: sizeof_dt_def A_def)
  have k0: "0 \<le> ?k" using d sizeof_dt_ok(1) [OF sz d(1,2)] by simp
  note g = guard_set_block [where a = x and s = s3, unfolded ck]
  have b: "4 \<le> ?c" "0 \<le> ?k" "?c + ?k + 4 \<le> 18446744073709551616" using c x(3) k0 by linarith+
  obtain m where m: "s' = s3\<lparr>mem := m\<rparr>" using g(3) [OF b] s' by auto
  have ads': "ads s' = ads s3" using m by simp
  show "lists_are s' (L(l := x # L l))"
  proof (rule lists_are_cong [OF L3])
    show "get_list l s' = get_list l s3" for l by (cases l) (simp_all add: m)
    show "next_of y s' = next_of y s3" for y by (simp add: next_of_def m)
  qed
  have "ads_only s s1" "ads_only s2 s3" by (simp_all add: s1_def s3_def)
  then have "ads_only s s3" using meta_ads [OF links_meta [OF i(2)]] ads_only_trans by blast
  then show "body_only s s'" unfolding m using ads_body body_only_mem body_only_trans by blast
  show "nbytes_of s' = nbytes_of s"
  proof
    fix a show "nbytes_of s' a = nbytes_of s a"
      by (cases "a = x") (simp_all add: nbytes_of_def ads' x3 o3 A_def)
  qed
  show "ad_datatype (ads s' x) = d" "ad_nelem (ads s' x) = n" "ad_client_space (ads s' x) = ?c"
    "ad_name (ads s' x) = str_ncopy name MA_NAMESIZE" by (simp_all add: ads' x3 A_def)
  show mo: "mem s' y = mem s y" if "y < x \<or> x + nbytes_of s x \<le> y" for y
    using g(2) [OF b, of y] that c f3(1) s' by auto
  show "same_block s s' a" if "a \<noteq> x" "a + nbytes_of s a \<le> x \<or> x + nbytes_of s x \<le> a"
    unfolding same_block_def using that o3 mo by (auto simp: ads')
  have "guard_check x s'" using g(1) [OF b] s' by simp
  then show "block_ok s' x" using d c x3 f3
    by (simp add: block_ok_def ads' Let_def m sizeof_dt_def base_dt_def checksum_def nbytes_of_def A_def)
qed

end
