(* ===== verification/MA_Ops.thy ===== *)
theory MA_Ops
  imports MA_Alloc
begin

text \<open>
  Whole heap allocations, and the release of a heap block (\<open>block_free_heap\<close>), on states that satisfy the
  invariant.
\<close>

section \<open>Re-establishing the invariant\<close>

lemma heap_ok_cong:
  assumes "\<And>a. a \<in> U \<union> set F \<Longrightarrow> len' a = len a"
  shows "heap_ok len' lo hp U F = heap_ok len lo hp U F"
  using assms tiles_cong [of "U \<union> set F" len' len] by (simp add: heap_ok_def heap_cut_def)

lemma stack_ok_cong:
  assumes "\<And>a. a \<in> set S \<Longrightarrow> len' a = len a"
  shows "stack_ok len' sp eos S = stack_ok len sp eos S"
  using assms tiles_cong [of "set S" len' len] by (simp add: stack_ok_def)

text \<open>The parts of the state that no routine but initialization and the settings changes.\<close>

definition fixed_parts :: "ma_state \<Rightarrow> ma_state \<Rightarrow> bool" where
  "fixed_parts s s' \<longleftrightarrow> ma_initialized s' = ma_initialized s \<and> ma_sizeof s' = ma_sizeof s \<and>
     ma_base s' = ma_base s \<and> ma_numalign s' = ma_numalign s \<and> ma_segment s' = ma_segment s \<and>
     ma_eos s' = ma_eos s \<and> ma_partition s' = ma_partition s \<and> ma_hard_fail s' = ma_hard_fail s"

lemma fixed_parts_refl [simp]: "fixed_parts s s"
  by (simp add: fixed_parts_def)

lemma fixed_parts_trans: "fixed_parts s t \<Longrightarrow> fixed_parts t u \<Longrightarrow> fixed_parts s u"
  by (simp add: fixed_parts_def)

lemma fixed_parts_body: "body_only s s' \<Longrightarrow> fixed_parts s s'"
  by (auto simp: fixed_parts_def body_only_def)

lemma fixed_parts_stats: "stats_only s s' \<Longrightarrow> fixed_parts s s'"
  by (auto simp: fixed_parts_def stats_only_def)

lemma fixed_parts_table: "table_frame s s' \<Longrightarrow> fixed_parts s (s' :: ma_state)"
  by (auto simp: fixed_parts_def table_frame_def)

lemma fixed_parts_simps [simp]:
  "fixed_parts s (s\<lparr>ma_hp := x\<rparr>)" "fixed_parts s (s\<lparr>ma_sp := x\<rparr>)" "fixed_parts s (s\<lparr>ma_stats := st\<rparr>)"
  "fixed_parts s (s\<lparr>stderr_log := l\<rparr>)"
  by (simp_all add: fixed_parts_def)

text \<open>A new invariant from the old one: the used blocks are old ones, unchanged, or checked anew.\<close>

lemma ma_wf_step:
  assumes wf: "ma_wf s L" and fx: "fixed_parts s s'" and lists: "lists_are s' L'"
    and le: "ma_hp s' \<le> ma_sp s'"
    and heap: "heap_ok (nbytes_of s') (ma_segment s) (ma_hp s') (set (L' HUsed)) (L' HFree)"
    and stack: "stack_ok (nbytes_of s') (ma_sp s') (ma_eos s) (L' SUsed)"
    and blocks: "\<And>a. a \<in> used_blocks L' \<Longrightarrow> block_ok s' a \<or> a \<in> used_blocks L \<and> same_block s s' a"
    and tab: "table_inv s'" "handles_for (table_map s') (used_blocks L')"
  shows "ma_wf s' L'"
proof -
  have "block_ok s' a" if "a \<in> used_blocks L'" for a
    using blocks [OF that]
  proof
    assume a: "a \<in> used_blocks L \<and> same_block s s' a"
    then obtain l where l: "a \<in> set (L l)" by (auto simp: used_blocks_def)
    show ?thesis
      using block_ok_same [of s a s'] ma_wfD(2,5,9) [OF wf] a ma_wf_block [OF wf l] fx
      by (simp add: fixed_parts_def)
  qed
  then show ?thesis using assms ma_wfD [OF wf] ma_wf_eos [OF wf]
    by (simp add: ma_wf_def fixed_parts_def sizes_ok_def)
qed

text \<open>Two states with the same segment contents, list heads and datatypes.\<close>

definition same_view :: "ma_state \<Rightarrow> ma_state \<Rightarrow> bool" where
  "same_view s s' \<longleftrightarrow> ads s' = ads s \<and> mem s' = mem s \<and> (\<forall>l. get_list l s' = get_list l s) \<and>
     ma_sizeof s' = ma_sizeof s \<and> ma_base s' = ma_base s"

lemma same_view_trans: "same_view s t \<Longrightarrow> same_view t u \<Longrightarrow> same_view s u"
  by (simp add: same_view_def)

lemma same_viewD:
  assumes "same_view s s'"
  shows "lists_are s' L = lists_are s L" "nbytes_of s' = nbytes_of s" "block_ok s' a = block_ok s a"
    "same_block t s' a = same_block t s a" "ads s' = ads s" "mem s' = mem s" "guard_check a s' = guard_check a s"
proof -
  show "guard_check a s' = guard_check a s"
    using assms by (simp add: same_view_def guard_check_def guard1_def guard2_def guard_read_def sizeof_dt_def)
  then show "lists_are s' L = lists_are s L" "block_ok s' a = block_ok s a"
    "same_block t s' a = same_block t s a" "ads s' = ads s" "mem s' = mem s"
    using assms by (simp_all add: same_view_def lists_are_def block_ok_def
        sizeof_dt_def base_dt_def same_block_def)
  show "nbytes_of s' = nbytes_of s" using assms by (auto simp: same_view_def nbytes_of_def)
qed

lemma same_view_simps [simp]:
  "same_view s s" "same_view s (s\<lparr>ma_hp := x\<rparr>)" "same_view s (s\<lparr>ma_sp := x\<rparr>)"
  "same_view s (s\<lparr>ma_stats := st\<rparr>)" "same_view s (s\<lparr>stderr_log := lg\<rparr>)"
  unfolding same_view_def by (auto, (case_tac l; simp)+)

lemma count_simps [simp]:
  "same_view s (count_heap_block k s)" "fixed_parts s (count_heap_block k s)"
  "same_view s (uncount_heap i k s)" "fixed_parts s (uncount_heap i k s)"
  "same_view s (count_stack_block k s)" "fixed_parts s (count_stack_block k s)"
  "same_view s (uncount_stack i k s)" "fixed_parts s (uncount_stack i k s)"
  by (simp_all add: count_heap_block_def uncount_heap_def count_stack_block_def uncount_stack_def Let_def)

lemma same_view_stats: "stats_only s s' \<Longrightarrow> same_view s s'"
  by (auto simp: stats_only_def)

lemma same_view_table: "table_frame s s' \<Longrightarrow> same_view s s'"
proof -
  assume "table_frame s s'"
  moreover have "get_list l s' = get_list l s" if "table_frame s s'" for l
    using that by (cases l) (auto simp: table_frame_def)
  ultimately show ?thesis by (auto simp: table_frame_def same_view_def)
qed

lemma table_hp_simps [simp]:
  "table_map (s\<lparr>ma_hp := x\<rparr>) = table_map s" "table_inv (s\<lparr>ma_hp := x\<rparr>) = table_inv s"
  "table_map (s\<lparr>ma_sp := x\<rparr>) = table_map s" "table_inv (s\<lparr>ma_sp := x\<rparr>) = table_inv s"
  by (simp_all add: table_map_def table_inv_def fun_eq_iff)

section \<open>Allocation\<close>

text \<open>The result of a successful allocation of block \<open>x\<close> under handle \<open>h\<close>.\<close>

definition allocated :: "ma_state \<Rightarrow> (listref \<Rightarrow> int list) \<Rightarrow> int \<Rightarrow> int \<Rightarrow> string option \<Rightarrow> int \<Rightarrow> int \<Rightarrow>
    ma_state \<Rightarrow> (listref \<Rightarrow> int list) \<Rightarrow> bool" where
  "allocated s L d n name h x s' L' \<longleftrightarrow> ma_wf s' L' \<and> fixed_parts s s' \<and>
     table_map s h = None \<and> table_map s' = (table_map s)(h \<mapsto> x) \<and> h \<noteq> TABLE_HANDLE_NONE \<and>
     x \<notin> used_blocks L \<and> used_blocks L' = insert x (used_blocks L) \<and>
     ad_datatype (ads s' x) = d \<and> ad_nelem (ads s' x) = n \<and>
     ad_name (ads s' x) = str_ncopy name MA_NAMESIZE \<and>
     (\<forall>a\<in>used_blocks L. same_block s s' a)"

lemma fixed_parts_frame: "table_frame s s' \<Longrightarrow> ma_hp s' = ma_hp s \<and> ma_sp s' = ma_sp s"
  by (auto simp: table_frame_def)

text \<open>
  Entering the block into the handle table: the state \<open>t\<close> before has every part of the invariant
  but the handle for \<open>x\<close>.
\<close>

lemma allocated_commit:
  assumes wf: "ma_wf s L" and fx: "fixed_parts s t" and lists: "lists_are t L'"
    and le: "ma_hp t \<le> ma_sp t"
    and heap: "heap_ok (nbytes_of t) (ma_segment s) (ma_hp t) (set (L' HUsed)) (L' HFree)"
    and stack: "stack_ok (nbytes_of t) (ma_sp t) (ma_eos s) (L' SUsed)"
    and x: "x \<notin> used_blocks L" "used_blocks L' = insert x (used_blocks L)" "block_ok t x"
    and old: "\<And>a. a \<in> used_blocks L \<Longrightarrow> same_block s t a"
    and tb: "table_map t = table_map s" "table_inv t"
    and ad: "ad_datatype (ads t x) = d" "ad_nelem (ads t x) = n" "ad_name (ads t x) = str_ncopy name MA_NAMESIZE"
    and tab: "ma_table_allocate bytealloc x t = Some (h, s')" "h \<noteq> TABLE_HANDLE_NONE"
  shows "allocated s L d n name h x s' L'"
proof -
  note ti = tab.alloc_inv [OF tb(2) tab(1)] and ts = tab.alloc_some [OF tb(2) tab]
  have v: "same_view t s'" using ti same_view_table by blast
  note vd = same_viewD [OF v]
  have h: "handles_for (table_map s') (used_blocks L')"
    using tab.alloc_handles [OF tb(2) _ x(1) tab] ma_wfD(11) [OF wf] tb(1) x(2) by simp
  have f: "fixed_parts s s'" using fx fixed_parts_table ti fixed_parts_trans by blast
  have "ma_wf s' L'"
    using ti fixed_parts_frame [of t s'] lists le heap stack x old h
    by (intro ma_wf_step [OF wf f]) (auto simp: vd)
  then show ?thesis using f ts tb x ad old tab(2) by (simp add: allocated_def vd)
qed

lemma alloc_heap_commit:
  assumes wf: "ma_wf s L" and r: "request_ok s d n"
    and res: "reserved s L \<lparr>ar_datatype = d, ar_nelem = n\<rparr> x s1 F"
    and s2: "s2 = init_ad HUsed x d n name s1"
    and s3: "s3 = (if u64 (x + nbytes_of s2 x) > ma_hp s2 then s2\<lparr>ma_hp := u64 (x + nbytes_of s2 x)\<rparr> else s2)"
    and tab: "ma_table_allocate bytealloc x (count_heap_block k s3) = Some (h, s')" "h \<noteq> TABLE_HANDLE_NONE"
  shows "allocated s L d n name h x s' (L(HFree := F, HUsed := x # L HUsed))"
proof -
  let ?ar = "\<lparr>ar_datatype = d, ar_nelem = n\<rparr>" and ?L1 = "L(HFree := F)"
  let ?L = "L(HFree := F, HUsed := x # L HUsed)" and ?t = "count_heap_block k s3"
  obtain c kk where b: "balloc_after ?ar x s = (c, kk)" by force
  have R: "ads_only s s1" "lists_are s1 ?L1" "x \<noteq> 0" "\<And>l. x \<notin> set (?L1 l)" "x < 4611686018427387904" "0 \<le> x"
     "heap_ok (nbytes_of s1) (ma_segment s) (max (ma_hp s) (x + nbytes_of s1 x)) (insert x (set (L HUsed))) F"
     "x + nbytes_of s1 x \<le> ma_sp s" "ad_client_space (ads s1 x) = c" "kk \<le> nbytes_of s1 x"
     "\<And>a. a \<in> used_blocks L \<Longrightarrow> a \<noteq> x \<and> same_block s s1 a"
    using res b by (simp_all add: reserved_def)
  note sz = ma_wfD(2) [OF wf] and bb = balloc_after_block [OF ma_wfD(2) [OF wf] r R(6,5) b]
  note o1 = ads_only_simps [OF R(1)]
  have dn: "0 \<le> d" "d < 17" "0 \<le> n" using r by (auto simp: request_ok_def)
  have sp: "ma_sp s < 4611686018427387904" using ma_wf_tiles(4) [OF wf] ma_wfD(5) [OF wf] by simp
  have u: "u64 (x + nbytes_of s1 x) = x + nbytes_of s1 x" using R(6,8) sp bb(1) R(10) by (intro u64_id) auto
  have i: "sizes_ok s1" "x + 84 \<le> ad_client_space (ads s1 x)"
    "ad_client_space (ads s1 x) + n * sizeof_dt s1 d + 4 \<le> x + nbytes_of s1 x"
    "sizeof_dt s1 d dvd ad_client_space (ads s1 x) - base_dt s1 d" "x + nbytes_of s1 x < 18446744073709551616"
    using bb R(8-10) sp o1 sz by (auto simp: sizeof_dt_def base_dt_def)
  note I = init_ad_block [OF R(2,3,4,6) i(1) dn i(2-5), where l = HUsed and name = name, folded s2]
  note o2 = body_only_simps [OF I(4)]
  have "same_view s2 s3" "fixed_parts s2 s3" unfolding s3 by simp_all
  then have v: "same_view s2 ?t" and f2: "fixed_parts s2 ?t"
    using same_view_trans fixed_parts_trans count_simps by blast+
  note vd = same_viewD [OF v]
  have hp: "ma_hp ?t = max (ma_hp s) (x + nbytes_of s1 x)" and spt: "ma_sp ?t = ma_sp s"
    using u I(3) o1 o2 by (auto simp: s3 count_heap_block_def Let_def)
  have fx: "fixed_parts s ?t"
    using fixed_parts_body [OF ads_body [OF R(1)]] fixed_parts_body [OF I(4)] f2 fixed_parts_trans
    by blast
  have xu: "x \<notin> used_blocks L" using R(11) by blast
  have same: "same_block s ?t a" if a: "a \<in> used_blocks L" for a
  proof -
    obtain l where l: "a \<in> set (L l)" "l \<noteq> HFree" using a by (auto simp: used_blocks_def)
    have "a \<in> insert x (set (L HUsed)) \<union> set F \<or> a \<in> set (L SUsed)" using a by (auto simp: used_blocks_def)
    moreover have "tiles (nbytes_of s1) (insert x (set (L HUsed)) \<union> set F) (ma_segment s) (max (ma_hp s) (x + nbytes_of s1 x))"
      using R(7) by (simp add: heap_ok_def heap_cut_def)
    ultimately have "a + nbytes_of s1 a \<le> x \<or> x + nbytes_of s1 x \<le> a"
      using tiles_apart [of "nbytes_of s1" _ _ _ a x] tiles_apart [of "nbytes_of s1" _ _ _ x a] R(8) R(11) [OF a]
        tiles_bounds(1) [OF ma_wf_tiles(2) [OF wf], of a] by (smt (verit) UnCI insertCI)
    then have "same_block s1 s2 a" using I(5) R(11) [OF a] by blast
    then show ?thesis using same_block_trans [of s s1 a s2] R(11) [OF a] vd(4) by blast
  qed
  show ?thesis
  proof (rule allocated_commit [OF wf fx _ _ _ _ xu _ _ same _ _ _ _ _ tab])
    show "lists_are ?t ?L" using I(1) by (simp add: vd fun_upd_def)
    show "ma_hp ?t \<le> ma_sp ?t" using hp spt R(8) ma_wfD(4) [OF wf] by simp
    show "heap_ok (nbytes_of ?t) (ma_segment s) (ma_hp ?t) (set (?L HUsed)) (?L HFree)"
      using R(7) by (simp add: vd hp I(3))
    have "nbytes_of s1 a = nbytes_of s a" if "a \<in> set (L SUsed)" for a
      using R(11) [of a] that same_block_nbytes by (auto simp: used_blocks_def)
    then show "stack_ok (nbytes_of ?t) (ma_sp ?t) (ma_eos s) (?L SUsed)"
      using ma_wfD(8) [OF wf] stack_ok_cong [of "L SUsed" "nbytes_of s1" "nbytes_of s"]
      by (simp add: vd spt I(3))
    show "used_blocks ?L = insert x (used_blocks L)" by (auto simp: used_blocks_def)
    show "block_ok ?t x" using I(2) by (simp add: vd)
    show "table_map ?t = table_map s" "table_inv ?t"
      using o1 o2 ma_wfD(10) [OF wf] by (simp_all add: s3 count_heap_block_def Let_def)
    show "ad_datatype (ads ?t x) = d" "ad_nelem (ads ?t x) = n" "ad_name (ads ?t x) = str_ncopy name MA_NAMESIZE"
      using I(6,7,9) by (simp_all add: vd)
  qed
qed

text \<open>Calls that fail, or only look: the counters and the error log change, nothing else.\<close>

definition quiet :: "ma_state \<Rightarrow> ma_state \<Rightarrow> bool" where
  "quiet s s' \<longleftrightarrow> (\<exists>c l. s' = s\<lparr>ma_stats := (ma_stats s)\<lparr>calls := c\<rparr>, stderr_log := l\<rparr>)"

lemma quiet_trans: "quiet s t \<Longrightarrow> quiet t u \<Longrightarrow> quiet s u"
  unfolding quiet_def by (elim exE, hypsubst) (simp, blast)

lemma quiet_stats: "stats_only s s' \<Longrightarrow> quiet s s'"
  unfolding stats_only_def quiet_def by (metis ma_err.surjective ma_err.update_convs(4))

lemma quiet_log: "quiet s (s\<lparr>stderr_log := l\<rparr>)"
proof -
  have "s\<lparr>stderr_log := l\<rparr> = s\<lparr>ma_stats := (ma_stats s)\<lparr>calls := calls (ma_stats s)\<rparr>, stderr_log := l\<rparr>" by simp
  then show ?thesis unfolding quiet_def by blast
qed

lemma quiet_error: "ma_error e t f s = Some s' \<Longrightarrow> quiet s s'"
  using ma_error_log quiet_log by metis

lemma quiet_wf: "quiet s s' \<Longrightarrow> ma_wf s' L = ma_wf s L"
  unfolding quiet_def by (elim exE, hypsubst) simp

lemma quiet_view: "quiet s s' \<Longrightarrow> same_view s s' \<and> fixed_parts s s' \<and> table_map s' = table_map s"
  unfolding quiet_def by (elim exE, hypsubst)
    (metis fixed_parts_simps(3,4) fixed_parts_trans same_view_simps(4,5) same_view_trans table_map_log table_stats_simps(1))

lemma stats_only_request: "stats_only s s' \<Longrightarrow> request_ok s' d n = request_ok s d n"
  by (simp add: request_ok_def sizeof_dt_def stats_only_simps)

lemma allocated_stats:
  assumes "stats_only s t" "allocated t L d n name h x s' L'"
  shows "allocated s L d n name h x s' L'"
proof -
  have "same_block s s' a" if "same_block t s' a" for a
    using same_block_trans [OF _ that] stats_only_simps(14) [OF assms(1)] by blast
  then show ?thesis using assms fixed_parts_trans [OF fixed_parts_stats [OF assms(1)]]
      stats_only_simps(3) [OF assms(1)] by (auto simp: allocated_def)
qed

text \<open>What a call of \<open>MA_allocate_heap\<close> that comes back has done.\<close>

lemma MA_allocate_heap_cases:
  assumes wf: "ma_wf s L" and run: "MA_allocate_heap bytealloc datatype nelem name s = Some (ok, h, s')"
    and r: "mt_valid datatype \<and> 0 \<le> nelem \<longrightarrow> request_ok s (mt_import datatype) nelem"
  shows "(ok \<and> (\<exists>hh x L'. h = Some hh \<and> x \<in> set (L' HUsed) \<and>
            allocated s L (mt_import datatype) nelem name hh x s' L')) \<or>
    (\<not> ok \<and> h = None \<and> quiet s s') \<or> (\<not> ok \<and> h = Some TABLE_HANDLE_NONE)"
proof -
  let ?d = "mt_import datatype" and ?ar = "\<lparr>ar_datatype = mt_import datatype, ar_nelem = nelem\<rparr>"
  obtain t where t: "auto_verify (bump FID_MA_allocate_heap s) = Some (True, t)" "stats_only s t" "ma_wf t L"
    using prologue_wf [OF wf] by blast
  show ?thesis
  proof (cases "\<not> ma_initialized t \<or> \<not> mt_valid datatype \<or> nelem < 0")
    case True
    then have "\<not> ok \<and> h = None \<and> quiet t s'"
      using run t(1) quiet_error by (auto simp: MA_allocate_heap_def split: Option.bind_splits)
    then show ?thesis using quiet_trans [OF quiet_stats [OF t(2)]] by blast
  next
    case False
    then have rq: "request_ok t ?d nelem" using r stats_only_request [OF t(2)] by simp
    obtain space u where hs: "heap_space ?ar t = Some (space, u)"
      using run t(1) False by (auto simp: MA_allocate_heap_def Let_def split: Option.bind_splits)
    note run' = run [unfolded MA_allocate_heap_def Let_def t(1), simplified, unfolded hs, simplified]
    consider (free) pre x suf where "L HFree = pre @ x # suf"
        "snd (balloc_after ?ar x t) \<le> nbytes_of t x" "\<forall>y\<in>set pre. nbytes_of t y < snd (balloc_after ?ar y t)"
      | (none) "\<forall>y\<in>set (L HFree). nbytes_of t y < snd (balloc_after ?ar y t)"
      using split_list_first_prop [of "L HFree" "\<lambda>x. snd (balloc_after ?ar x t) \<le> nbytes_of t x"]
      by (meson not_le)
    then have "(\<exists>x F. space = Some x \<and> reserved t L ?ar x u F) \<or> space = None \<and> quiet t u"
    proof cases
      case free
      then show ?thesis using heap_space_free [OF t(3) rq free] hs by auto
    next
      case none
      then show ?thesis using heap_space_top [OF t(3) rq none] hs quiet_error
        by (cases "ma_hp t + snd (balloc_after ?ar (ma_hp t) t) \<le> ma_sp t") (auto split: Option.bind_splits)
    qed
    then show ?thesis
    proof
      assume "space = None \<and> quiet t u"
      then show ?thesis using run' False quiet_trans [OF quiet_stats [OF t(2)]] by auto
    next
      assume "\<exists>x F. space = Some x \<and> reserved t L ?ar x u F"
      then obtain x F where x: "space = Some x" "reserved t L ?ar x u F" by blast
      define s2 where "s2 = init_ad HUsed x ?d nelem name u"
      define s3 where "s3 = (if u64 (x + nbytes_of s2 x) > ma_hp s2 then s2\<lparr>ma_hp := u64 (x + nbytes_of s2 x)\<rparr> else s2)"
      obtain hh where hh: "ma_table_allocate bytealloc x (count_heap_block (nbytes_of s3 x) s3) = Some (hh, s')"
        "h = Some hh" "ok = (hh \<noteq> TABLE_HANDLE_NONE)"
        using run' False x(1) unfolding s3_def s2_def
        by (auto simp: Let_def split: Option.bind_splits)
      show ?thesis
      proof (cases "hh = TABLE_HANDLE_NONE")
        case False
        from alloc_heap_commit [OF t(3) rq x(2) s2_def s3_def hh(1) False]
        have "allocated s L ?d nelem name hh x s' (L(HFree := F, HUsed := x # L HUsed))"
          by (rule allocated_stats [OF t(2)])
        moreover have "x \<in> set ((L(HFree := F, HUsed := x # L HUsed)) HUsed)" by simp
        ultimately show ?thesis using hh False by blast
      qed (use hh in simp)
    qed
  qed
qed

section \<open>Freeing\<close>

lemma fold_max_pos:
  fixes xs :: "int list"
  assumes "\<forall>x\<in>set xs. 0 < x" "xs \<noteq> []"
  shows "fold max xs 0 \<in> set xs" "\<forall>x\<in>set xs. x \<le> fold max xs 0" "fold max xs 0 \<noteq> 0"
proof -
  have e: "fold max xs 0 = Max (insert 0 (set xs))" by (metis Max.set_eq_fold list.simps(15))
  have "Max (insert 0 (set xs)) \<in> insert 0 (set xs)" by (rule Max_in) auto
  moreover have le: "\<forall>x\<in>set xs. x \<le> Max (insert 0 (set xs))" by simp
  moreover obtain y where "y \<in> set xs" "0 < y" using assms by (cases xs) auto
  ultimately show "fold max xs 0 \<in> set xs" "\<forall>x\<in>set xs. x \<le> fold max xs 0" "fold max xs 0 \<noteq> 0"
    unfolding e by fastforce+
qed

lemma hp_update_simps [simp]:
  "lists_are (s\<lparr>ma_hp := x\<rparr>) L = lists_are s L" "nbytes_of (s\<lparr>ma_hp := x\<rparr>) = nbytes_of s"
  "lists_are (s\<lparr>ma_sp := x\<rparr>) L = lists_are s L" "nbytes_of (s\<lparr>ma_sp := x\<rparr>) = nbytes_of s"
  by (rule same_viewD(1) [OF same_view_simps(2)], rule same_viewD(2) [OF same_view_simps(2)],
      rule same_viewD(1) [OF same_view_simps(3)], rule same_viewD(2) [OF same_view_simps(3)])

lemma lists_are_clear: "lists_are s L \<Longrightarrow> lists_are (set_list l 0 s) (L(l := []))"
  by (rule lists_are_update) auto

text \<open>
  Returning block \<open>x\<close>, which is on none of the lists, to the heap. The used blocks keep their
  descriptors, and the heap is in order again, its end no further right than before.
\<close>

text \<open>A block goes back to the free list and is joined with its neighbours.\<close>

lemma insert_coalesce:
  assumes L: "lists_are s (L(HFree := F))" and x: "0 < x" "\<And>l. x \<notin> set ((L(HFree := F)) l)" and srt: "sorted_wrt (<) F"
    and pos: "\<And>a. a \<in> insert x (set F) \<Longrightarrow> 0 < a \<and> 0 < nbytes_of s a \<and> a + nbytes_of s a < 18446744073709551616"
    and ap: "\<And>a b. a \<in> insert x (set F) \<Longrightarrow> b \<in> insert x (set F) \<Longrightarrow> a < b \<Longrightarrow> a + nbytes_of s a \<le> b"
  shows "\<exists>s'. (do { s \<leftarrow> list_insert_ordered x HFree ad_lt s; list_coalesce (ma_hfree s) s }) = Some s' \<and> meta_only s s' \<and>
    lists_are s' (L(HFree := fst (coal (nbytes_of s) (ins x F)))) \<and> nbytes_of s' = snd (coal (nbytes_of s) (ins x F))"
proof -
  have "\<exists>s'. list_insert_ordered x HFree ad_lt s = Some s' \<and>
      lists_are s' ((L(HFree := F))(HFree := ins x ((L(HFree := F)) HFree))) \<and> links_only s s'"
    by (rule list_insert_ordered_lists [OF L]) (use x in simp_all)
  then obtain s3 where s3: "list_insert_ordered x HFree ad_lt s = Some s3" "lists_are s3 (L(HFree := ins x F))" "links_only s s3"
    unfolding fun_upd_upd fun_upd_same by blast
  have n3: "nbytes_of s3 = nbytes_of s" using links_only_nbytes [OF s3(3)] by simp
  have i: "sorted_wrt (<) (ins x F)" using srt x(2) [of HFree] by (intro sorted_wrt_ins) simp_all
  obtain s' where s': "list_coalesce (first_of (ins x F)) s3 = Some s'" "meta_only s3 s'"
    "lists_are s' (L(HFree := fst (coal (nbytes_of s) (ins x F))))" "nbytes_of s' = snd (coal (nbytes_of s) (ins x F))"
    using list_coalesce_lists [OF s3(2), of "[]" "ins x F"] pos ap i n3 by (fastforce simp: less_imp_le)
  have "ma_hfree s3 = first_of (ins x F)" using lists_areD(3) [OF s3(2), of HFree] by simp
  then show ?thesis using s3(1) s' meta_only_trans [OF links_meta [OF s3(3)] s'(2)] by simp
qed

lemma block_free_heap_ok:
  assumes L: "lists_are s L" and x: "0 < x" "\<And>l. x \<notin> set (L l)" "88 \<le> nbytes_of s x"
    and cut: "heap_cut (nbytes_of s) (ma_segment s) (ma_hp s) (insert x (set (L HUsed))) (L HFree)"
    and adj: "\<forall>a\<in>set (L HFree). a + nbytes_of s a \<notin> set (L HFree)"
    and b: "0 < ma_segment s" "ma_hp s < 4611686018427387904"
  shows "\<exists>s' F hp. block_free_heap x s = Some s' \<and> meta_only (s\<lparr>ma_hp := hp\<rparr>) s' \<and>
    lists_are s' (L(HFree := F)) \<and> hp \<le> ma_hp s \<and>
    heap_ok (nbytes_of s') (ma_segment s) hp (set (L HUsed)) F \<and>
    (\<forall>a\<in>used_blocks L. nbytes_of s' a = nbytes_of s a)"
proof -
  have t: "tiles (nbytes_of s) (insert x (set (L HUsed)) \<union> set (L HFree)) (ma_segment s) (ma_hp s)"
    using cut by (simp add: heap_cut_def)
  have pos: "0 < a \<and> 0 < nbytes_of s a \<and> a + nbytes_of s a \<le> ma_hp s"
    if "a \<in> insert x (set (L HUsed)) \<union> set (L HFree)" for a
    using tiles_bounds [OF t that] tiles_pos [OF t that] b by simp
  have right: "rightmost 0 (ma_hused s) s = Some (fold max (L HUsed) 0)"
    using rightmost_lists [OF lists_areD(1) [OF L, of HUsed]] by simp
  show ?thesis
  proof (cases "L HUsed = []")
    case True
    let ?s = "s\<lparr>ma_hp := ma_segment s, ma_hfree := 0\<rparr>"
    have s: "?s = set_list HFree 0 (s\<lparr>ma_hp := ma_segment s\<rparr>)" by simp
    have "block_free_heap x s = Some ?s" using right True by (simp add: block_free_heap_def)
    moreover have "lists_are ?s (L(HFree := []))"
      unfolding s by (rule lists_are_clear) (simp add: L)
    moreover have "meta_only (s\<lparr>ma_hp := ma_segment s\<rparr>) ?s" unfolding s
      by (rule links_meta [OF links_only_set_list])
    moreover have "nbytes_of ?s = nbytes_of s" by (auto simp: nbytes_of_def)
    ultimately show ?thesis using True heap_ok_empty tiles_le [OF t]
      by (intro exI [of _ ?s] exI [of _ "[]"] exI [of _ "ma_segment s"]) simp
  next
    case False
    define m where "m = fold max (L HUsed) 0"
    have m: "m \<in> set (L HUsed)" "\<forall>u\<in>set (L HUsed). u \<le> m" "m \<noteq> 0"
      using fold_max_pos [OF _ False] pos unfolding m_def by auto
    have mb: "m + nbytes_of s m \<le> ma_hp s" "0 < m" using pos [of m] m by auto
    define hp where "hp = m + nbytes_of s m"
    have u: "u64 (m + nbytes_of s m) = hp" unfolding hp_def using mb b pos [of m] m by (intro u64_id) auto
    let ?s1 = "s\<lparr>ma_hp := hp\<rparr>" and ?F1 = "filter (\<lambda>a. \<not> m < a) (L HFree)"
    obtain s2 where s2: "list_delete_many HFree (ad_gt m) None ?s1 = Some (int (length (filter (\<lambda>a. m < a) (L HFree))), s2)"
      "lists_are s2 (L(HFree := ?F1))" "links_only ?s1 s2"
      using list_delete_many_lists [of "ad_gt m" "\<lambda>a. m < a" ?s1 L HFree] L by (auto simp: ad_gt_def)
    have n2: "nbytes_of s2 = nbytes_of s" using links_only_nbytes [OF s2(3)] by simp
    have xm: "x \<noteq> m" using m x(2) [of HUsed] by blast
    have run: "block_free_heap x s = (if x < m then do { s \<leftarrow> list_insert_ordered x HFree ad_lt s2;
        list_coalesce (ma_hfree s) s } else Some s2)"
      using right m s2(1) u by (simp add: block_free_heap_def m_def [symmetric])
    have xU: "x \<notin> set (L HUsed)" using x(2) .
    show ?thesis
    proof (cases "x < m")
      case False
      then have "heap_ok (nbytes_of s) (ma_segment s) hp (set (L HUsed)) ?F1"
        using heap_ok_free_last [OF cut xU m(1,2)] xm adj unfolding hp_def by simp
      with run False s2 n2 links_meta mb show ?thesis
        by (intro exI [of _ s2] exI [of _ ?F1] exI [of _ hp]) (simp add: hp_def)
    next
      case True
      have nf: "x \<notin> set ((L(HFree := ?F1)) l)" for l using x(2) [of l] x(2) [of HFree] by simp
      obtain F' len' where c: "coal (nbytes_of s) (ins x ?F1) = (F', len')" by force
      note ok = heap_ok_free_inner [OF cut xU x(3) m(1,2) True c]
      have sub: "a \<in> insert x (set (L HUsed)) \<union> set (L HFree)" if "a \<in> insert x (set ?F1)" for a using that by auto
      have "sorted_wrt (<) ?F1" using cut by (simp add: heap_cut_def sorted_wrt_filter)
      then have "\<exists>s'. (do { s \<leftarrow> list_insert_ordered x HFree ad_lt s2; list_coalesce (ma_hfree s) s }) = Some s' \<and> meta_only s2 s' \<and>
          lists_are s' (L(HFree := fst (coal (nbytes_of s2) (ins x ?F1)))) \<and> nbytes_of s' = snd (coal (nbytes_of s2) (ins x ?F1))"
        by (rule insert_coalesce [OF s2(2) x(1) nf]) (use pos [OF sub] tiles_apart [OF t sub sub] b n2 in fastforce)+
      then obtain s' where s': "(do { s \<leftarrow> list_insert_ordered x HFree ad_lt s2; list_coalesce (ma_hfree s) s }) = Some s'" "meta_only s2 s'"
        "lists_are s' (L(HFree := F'))" "nbytes_of s' = len'" unfolding n2 c fst_conv snd_conv by blast
      have "meta_only ?s1 s'" using meta_only_trans [OF links_meta [OF s2(3)] s'(2)] .
      moreover have "nbytes_of s' a = nbytes_of s a" if "a \<in> used_blocks L" for a
      proof -
        have "a \<notin> set (L HFree)" "a \<noteq> x"
          using that lists_areD(4) [OF L, of HUsed HFree] lists_areD(4) [OF L, of SUsed HFree] x(2)
          by (auto simp: used_blocks_def)
        then have "a \<notin> set (ins x ?F1)" by simp
        then show ?thesis using coal_outside [of a "ins x ?F1" "nbytes_of s"] c s'(4) by simp
      qed
      ultimately show ?thesis using run True s'(1,3,4) ok(1) mb
        by (intro exI [of _ s'] exI [of _ F'] exI [of _ hp]) (simp add: hp_def)
    qed
  qed
qed

end
