(* ===== verification/MA_Release.thy ===== *)
theory MA_Release
  imports MA_Ops
begin

text \<open>
  The calls that release blocks (\<open>MA_free_heap\<close>, \<open>MA_pop_stack\<close>, \<open>MA_chop_stack\<close>) and the push that they undo:
  each keeps the invariant and every block it is not about.
\<close>

section \<open>Releasing blocks\<close>

text \<open>The result of releasing the blocks \<open>X\<close> with their handles.\<close>

definition released :: "ma_state \<Rightarrow> (listref \<Rightarrow> int list) \<Rightarrow> int set \<Rightarrow> ma_state \<Rightarrow> (listref \<Rightarrow> int list) \<Rightarrow> bool" where
  "released s L X s' L' \<longleftrightarrow> ma_wf s' L' \<and> fixed_parts s s' \<and>
     table_map s' = (\<lambda>h. if table_map s h \<in> Some ` X then None else table_map s h) \<and>
     X \<subseteq> used_blocks L \<and> used_blocks L' = used_blocks L - X \<and>
     (\<forall>a\<in>used_blocks L'. same_block s s' a)"

lemma released_stats:
  assumes "stats_only s t" "released t L X s' L'"
  shows "released s L X s' L'"
proof -
  have "same_block s s' a" if "same_block t s' a" for a
    using same_block_trans [OF _ that] stats_only_simps(14) [OF assms(1)] by blast
  then show ?thesis using assms fixed_parts_trans [OF fixed_parts_stats [OF assms(1)]]
      stats_only_simps(3) [OF assms(1)] by (auto simp: released_def)
qed

lemma handles_for_remove:
  assumes "handles_for m B" "m h = Some x"
  shows "m(h := None) = (\<lambda>h. if m h \<in> Some ` {x} then None else m h)"
  using assms by (auto simp: handles_for_def inj_on_def dom_def fun_eq_iff)

lemma meta_same_used:
  assumes "meta_only s s'" "\<forall>a\<in>B. nbytes_of s' a = nbytes_of s a" "a \<in> B"
  shows "same_block s s' a"
  using meta_same_block assms by blast

text \<open>The last step: the handle of \<open>x\<close> is given back; all else is in order.\<close>

lemma released_commit:
  assumes wf: "ma_wf s L" and h: "table_map s h = Some x"
    and fx: "fixed_parts s t" and lists: "lists_are t L'" and le: "ma_hp t \<le> ma_sp t"
    and heap: "heap_ok (nbytes_of t) (ma_segment s) (ma_hp t) (set (L' HUsed)) (L' HFree)"
    and stack: "stack_ok (nbytes_of t) (ma_sp t) (ma_eos s) (L' SUsed)"
    and used: "used_blocks L' = used_blocks L - {x}"
    and old: "\<And>a. a \<in> used_blocks L' \<Longrightarrow> same_block s t a"
    and tb: "table_map t = table_map s" "table_inv t"
  shows "\<exists>s'. ma_table_deallocate h t = Some s' \<and> released s L {x} s' L'"
proof -
  have hf: "handles_for (table_map t) (used_blocks L)" using ma_wfD(11) [OF wf] tb(1) by simp
  obtain s' where s': "ma_table_deallocate h t = Some s'" "table_inv s'" "table_frame t s'"
    "table_map s' = (table_map s)(h := None)"
    using tab.dealloc_law [OF tb(2), of h x] h tb(1) by auto
  have "handles_for (table_map s') (used_blocks L')"
    using handles_for_delete [OF hf, of h x] h tb(1) s'(4) used by simp
  moreover have v: "same_view t s'" using same_view_table [OF s'(3)] .
  moreover have f: "fixed_parts s s'" using fx fixed_parts_table [OF s'(3)] fixed_parts_trans by blast
  ultimately have "ma_wf s' L'"
    using s'(2) fixed_parts_frame [OF s'(3)] lists le heap stack used old same_viewD [OF v]
    by (intro ma_wf_step [OF wf f]) auto
  then have "released s L {x} s' L'"
    using f s'(4) handles_for_remove [OF hf [unfolded tb(1)] h] used old same_viewD(4) [OF v]
      mh2ad_wf(2) [OF wf h] by (simp add: released_def)
  with s'(1) show ?thesis by blast
qed

lemma block_ok_nbytes: "block_ok s a \<Longrightarrow> sizes_ok s \<Longrightarrow> 88 \<le> nbytes_of s a"
  using sizeof_dt_ok(1) [of s "ad_datatype (ads s a)"]
  by (auto simp: block_ok_def Let_def nbytes_of_def) (smt (verit) mult_nonneg_nonneg)

lemma MA_free_heap_ok:
  assumes wf: "ma_wf s L" and h: "table_map s h = Some x" and x: "x \<in> set (L HUsed)"
  shows "\<exists>s' L'. MA_free_heap h s = Some (True, s') \<and> released s L {x} s' L' \<and>
    L' HUsed = remove1 x (L HUsed) \<and> L' SUsed = L SUsed"
proof -
  obtain t where t: "auto_verify (bump FID_MA_free_heap s) = Some (True, t)" "stats_only s t" "ma_wf t L"
    using prologue_wf [OF wf] by blast
  have ht: "table_map t h = Some x" using h stats_only_simps(3) [OF t(2)] by simp
  note L = ma_wfD(6) [OF t(3)]
  have ad: "mh2ad h BL_Heap ''MA_free_heap'' t = Some (Some x, t)"
    using mh2ad_wf(1) [OF t(3) ht] x by (simp add: in_place_def)
  define L1 where "L1 = L(HUsed := remove1 x (L HUsed))"
  have L1: "L1 HUsed = remove1 x (L HUsed)" "L1 HFree = L HFree" "L1 SUsed = L SUsed" by (simp_all add: L1_def)
  obtain s1 where s1: "list_delete x HUsed t = Some (x, s1)" "lists_are s1 L1" "links_only t s1"
    using list_delete_lists [OF L x] unfolding L1_def by blast
  define s2 where "s2 = uncount_heap 1 (nbytes_of s1 x) s1"
  have v2: "same_view s1 s2" by (simp add: s2_def)
  have n2: "nbytes_of s2 = nbytes_of t" using same_viewD(2) [OF v2] links_only_nbytes [OF s1(3)] by simp
  have L2: "lists_are s2 L1" using s1(2) same_viewD(1) [OF v2] by simp
  note o1 = ads_only_simps [OF meta_ads [OF links_meta [OF s1(3)]]]
  have p2: "ma_hp s2 = ma_hp t" "ma_sp s2 = ma_sp t" "ma_segment s2 = ma_segment t"
    "table_map s2 = table_map t" "table_inv s2 = table_inv t"
    using o1 by (simp_all add: s2_def uncount_heap_def)
  have dst: "distinct (L HUsed)" using lists_areD(2) [OF L] .
  have nx: "x \<notin> set (L1 l)" for l
    using dst lists_areD(4) [OF L, of HUsed l] x by (cases "l = HUsed") (auto simp: L1_def)
  have U: "insert x (set (remove1 x (L HUsed))) = set (L HUsed)" using x dst by auto
  note heap = ma_wfD(7) [OF t(3)]
  have hpb: "ma_hp t < 4611686018427387904" using ma_wfD(4,5) [OF t(3)] ma_wf_tiles(4) [OF t(3)] by simp
  have "88 \<le> nbytes_of t x" using block_ok_nbytes ma_wfD(2,9) [OF t(3)] x by (auto simp: used_blocks_def)
  then obtain s3 F hp where s3: "block_free_heap x s2 = Some s3" "meta_only (s2\<lparr>ma_hp := hp\<rparr>) s3"
    "lists_are s3 (L1(HFree := F))" "hp \<le> ma_hp t"
    "heap_ok (nbytes_of s3) (ma_segment t) hp (set (L1 HUsed)) F"
    "\<forall>a\<in>used_blocks L1. nbytes_of s3 a = nbytes_of t a"
    using block_free_heap_ok [OF L2 _ nx] n2 p2 U heap ma_wf_block(2) [OF t(3) x] ma_wfD(3) [OF t(3)] hpb
    unfolding L1 by (auto simp: heap_ok_def)
  let ?L' = "L1(HFree := F)"
  have used: "used_blocks ?L' = used_blocks L - {x}"
    using dst lists_areD(4) [OF L, of HUsed SUsed] x by (auto simp: used_blocks_def L1)
  have used1: "used_blocks L1 = used_blocks ?L'" by (simp add: used_blocks_def)
  note o3 = ads_only_simps [OF meta_ads [OF s3(2)]]
  have same: "same_block t s3 a" if "a \<in> used_blocks ?L'" for a
  proof -
    have "same_block t s1 a" using meta_same_block [OF links_meta [OF s1(3)]] links_only_nbytes [OF s1(3)] by simp
    then have "same_block t (s2\<lparr>ma_hp := hp\<rparr>) a" using same_viewD(4) v2 same_view_simps(2) same_view_trans by blast
    moreover have "same_block (s2\<lparr>ma_hp := hp\<rparr>) s3 a"
      using meta_same_block [OF s3(2)] s3(6) n2 used1 that by simp
    ultimately show ?thesis by (rule same_block_trans)
  qed
  have fx: "fixed_parts t s3"
    using fixed_parts_body [OF ads_body [OF meta_ads [OF links_meta [OF s1(3)]]]]
      fixed_parts_body [OF ads_body [OF meta_ads [OF s3(2)]]] unfolding s2_def
    by (auto simp: fixed_parts_def uncount_heap_def)
  have "\<exists>s'. ma_table_deallocate h s3 = Some s' \<and> released t L {x} s' ?L'"
  proof (rule released_commit [OF t(3) ht fx s3(3) _ _ _ used same])
    show "ma_hp s3 \<le> ma_sp s3" using o3 s3(4) p2 ma_wfD(4) [OF t(3)] by simp
    show "heap_ok (nbytes_of s3) (ma_segment t) (ma_hp s3) (set (?L' HUsed)) (?L' HFree)" using s3(5) o3 by simp
    show "stack_ok (nbytes_of s3) (ma_sp s3) (ma_eos t) (?L' SUsed)"
      using ma_wfD(8) [OF t(3)] stack_ok_cong [of "L SUsed" "nbytes_of s3" "nbytes_of t"] s3(6) o3 p2
      by (simp add: used_blocks_def L1)
  qed (use o3 p2 ma_wfD(10) [OF t(3)] in simp_all)
  then obtain s' where s': "ma_table_deallocate h s3 = Some s'" "released t L {x} s' ?L'" by blast
  have "MA_free_heap h s = Some (True, s')"
    using t(1) ad s1(1) s3(1) s'(1) by (simp add: MA_free_heap_def s2_def Let_def)
  with released_stats [OF t(2) s'(2)] show ?thesis by (intro exI [of _ s'] exI [of _ ?L']) (simp add: L1)
qed

text \<open>With any other handle the call fails and changes nothing.\<close>

lemma mh2ad_fail:
  assumes wf: "ma_wf s L" and no: "\<not> (\<exists>a. table_map s h = Some a \<and> in_place L s a loc)" and hf: "\<not> ma_hard_fail s"
  shows "\<exists>l. mh2ad h loc caller s = Some (None, s\<lparr>stderr_log := l\<rparr>)"
proof (cases "table_map s h")
  case None
  then show ?thesis using mh2ad_invalid hf by blast
next
  case (Some a)
  then have "mh2ad h loc caller s = mh2ad_error caller s" using mh2ad_wf(1) [OF wf Some] no by auto
  moreover obtain l where "ma_error EL_Nonfatal ET_External caller s = Some (s\<lparr>stderr_log := l\<rparr>)"
    using ma_error_nonfatal [OF hf] by blast
  ultimately have "mh2ad h loc caller s = Some (None, s\<lparr>stderr_log := l\<rparr>)" by (simp add: mh2ad_error_def)
  then show ?thesis by blast
qed

section \<open>The stack\<close>

lemma balloc_before_block:
  assumes "sizes_ok s" "request_ok s d n" "0 \<le> sp" "sp < 4611686018427387904"
    and "balloc_before \<lparr>ar_datatype = d, ar_nelem = n\<rparr> sp s = (c, k)"
  shows "88 \<le> k" "k < 4611686018427387904"
    "k \<le> sp \<Longrightarrow> sp - k + 84 \<le> c \<and> c + n * sizeof_dt s d + 4 \<le> sp \<and> sizeof_dt s d dvd c - base_dt s d"
    "8 dvd sp - k"
proof -
  obtain g1 g2 where g: "c = u64 (sp - 4 - g2 - n * sizeof_dt s d)" "k = 88 + g1 + n * sizeof_dt s d + g2"
      "0 \<le> g1" "g1 < 8" "0 \<le> g2" "g2 < 1073741888" "sizeof_dt s d dvd sp - 4 - g2 - n * sizeof_dt s d - base_dt s d"
      "8 dvd sp - (88 + g1 + n * sizeof_dt s d + g2)"
    using balloc_before_spec [OF assms(1-4)] assms(5) by auto
  have n: "0 \<le> n * sizeof_dt s d" "n * sizeof_dt s d \<le> 2305843009213693952"
    using assms(2) sizeof_dt_ok(1) [OF assms(1), of d] by (auto simp: request_ok_def)
  with g show "88 \<le> k" "k < 4611686018427387904" "8 dvd sp - k" by auto
  assume k: "k \<le> sp"
  have "c = sp - 4 - g2 - n * sizeof_dt s d" unfolding g(1) using g k n assms(4) by (intro u64_id) auto
  then show "sp - k + 84 \<le> c \<and> c + n * sizeof_dt s d + 4 \<le> sp \<and> sizeof_dt s d dvd c - base_dt s d"
    using g by auto
qed

lemma push_commit:
  assumes wf: "ma_wf s L" and r: "request_ok s d n"
    and b: "balloc_before \<lparr>ar_datatype = d, ar_nelem = n\<rparr> (ma_sp s) s = (c, k)" "k \<le> ma_sp s - ma_hp s"
    and x: "x = ma_sp s - k"
    and s1: "s1 = upd_ad x (\<lambda>a. a\<lparr>ad_client_space := c, ad_nbytes := k\<rparr>) s"
    and s2: "s2 = init_ad SUsed x d n name s1"
    and tab: "ma_table_allocate bytealloc x (count_stack_block kk (s2\<lparr>ma_sp := x\<rparr>)) = Some (h, s')"
      "h \<noteq> TABLE_HANDLE_NONE"
  shows "allocated s L d n name h x s' (L(SUsed := x # L SUsed))"
proof -
  let ?L = "L(SUsed := x # L SUsed)" and ?t = "count_stack_block kk (s2\<lparr>ma_sp := x\<rparr>)"
  note t = ma_wf_tiles [OF wf] and L = ma_wfD(6) [OF wf] and sz = ma_wfD(2) [OF wf]
  have sp: "0 \<le> ma_sp s" "ma_sp s < 4611686018427387904" "0 < ma_hp s"
    using t(3,4) ma_wfD(3-5) [OF wf] by linarith+
  note bb = balloc_before_block [OF sz r sp(1,2) b(1)]
  have xr: "0 < x" "x < 4611686018427387904" "ma_hp s \<le> x" using b(2) sp bb(1) x by auto
  have lay: "x + 84 \<le> c" "c + n * sizeof_dt s d + 4 \<le> x + k" "sizeof_dt s d dvd c - base_dt s d"
    using bb(3) b(2) sp x by auto
  have n1: "nbytes_of s1 = (nbytes_of s)(x := k)" by (auto simp: nbytes_of_def s1 upd_ad_simps fun_eq_iff)
  have c1: "ad_client_space (ads s1 x) = c" by (simp add: s1 upd_ad_simps)
  have L1: "lists_are s1 L" unfolding s1
    by (rule lists_are_cong [OF L]) (simp_all add: next_of_def upd_ad_simps)
  have o1: "ads_only s s1" by (simp add: s1)
  note o1s = ads_only_simps [OF o1]
  have nx: "x \<notin> set (L l)" and disj: "a \<in> set (L l) \<Longrightarrow> a + nbytes_of s a \<le> x \<or> x + k \<le> a" for l a
  proof -
    have d: "a + nbytes_of s a \<le> x \<or> x + k \<le> a" if "a \<in> set (L l)" for a
    proof -
      have "a \<in> set (L HUsed) \<union> set (L HFree) \<or> a \<in> set (L SUsed)" using that by (cases l) auto
      then show ?thesis using tiles_bounds(2) [OF t(1), of a] tiles_bounds(1) [OF t(2), of a] xr x by auto
    qed
    show "a \<in> set (L l) \<Longrightarrow> a + nbytes_of s a \<le> x \<or> x + k \<le> a" by (rule d)
    show "x \<notin> set (L l)" using d [of x] ma_wf_block(4) [OF wf, of x l] bb(1) by auto
  qed
  have dn: "0 \<le> d" "d < 17" "0 \<le> n" using r by (auto simp: request_ok_def)
  have i: "sizes_ok s1" "x + 84 \<le> ad_client_space (ads s1 x)"
    "ad_client_space (ads s1 x) + n * sizeof_dt s1 d + 4 \<le> x + nbytes_of s1 x"
    "sizeof_dt s1 d dvd ad_client_space (ads s1 x) - base_dt s1 d" "x + nbytes_of s1 x < 18446744073709551616"
    using lay o1s sz c1 n1 xr bb by (auto simp: sizeof_dt_def base_dt_def)
  have x0: "x \<noteq> 0" "0 \<le> x" using xr by auto
  note I = init_ad_block [OF L1 x0(1) nx x0(2) i(1) dn i(2-5), where l = SUsed and name = name, folded s2]
  note o2 = body_only_simps [OF I(4)]
  have v: "same_view s2 ?t" using same_view_trans same_view_simps(3) count_simps(5) by blast
  note vd = same_viewD [OF v]
  have ps: "ma_hp ?t = ma_hp s" "ma_sp ?t = x" "table_map ?t = table_map s" "table_inv ?t"
    using o1s o2 ma_wfD(10) [OF wf] by (simp_all add: count_stack_block_def Let_def)
  have fx: "fixed_parts s ?t"
    using fixed_parts_body [OF ads_body [OF o1]] fixed_parts_body [OF I(4)] fixed_parts_trans
      fixed_parts_simps(2) count_simps(6) by blast
  have same: "same_block s ?t a" if a: "a \<in> used_blocks L" for a
  proof -
    obtain l where l: "a \<in> set (L l)" using a by (auto simp: used_blocks_def)
    then have ax: "a \<noteq> x" using nx by blast
    have "same_block s s1 a" using ax by (simp add: s1 upd_ad_simps same_block_def)
    moreover have "same_block s1 s2 a" using I(5) [OF ax] disj [OF l] n1 ax by simp
    ultimately show ?thesis using same_block_trans vd(4) by blast
  qed
  have xu: "x \<notin> used_blocks L" using nx by (simp add: used_blocks_def)
  show ?thesis
  proof (rule allocated_commit [OF wf fx _ _ _ _ xu _ _ same ps(3,4) _ _ _ tab])
    show "lists_are ?t ?L" using I(1) by (simp add: vd)
    show "ma_hp ?t \<le> ma_sp ?t" using ps xr by simp
    show "heap_ok (nbytes_of ?t) (ma_segment s) (ma_hp ?t) (set (?L HUsed)) (?L HFree)"
    proof -
      have "nbytes_of s1 a = nbytes_of s a" if "a \<in> set (L HUsed) \<union> set (L HFree)" for a using that nx n1 by auto
      then show ?thesis using heap_ok_cong [of _ _ "nbytes_of s1" "nbytes_of s"] ma_wfD(7) [OF wf] I(3) ps
        by (simp add: vd)
    qed
    show "stack_ok (nbytes_of ?t) (ma_sp ?t) (ma_eos s) (?L SUsed)"
      using stack_ok_push [OF ma_wfD(8) [OF wf], of k "nbytes_of s1"] bb(1) unfolding x [symmetric]
      by (simp add: vd I(3) n1 ps(2))
    show "used_blocks ?L = insert x (used_blocks L)" by (auto simp: used_blocks_def)
    show "block_ok ?t x" using I(2) by (simp add: vd)
    show "ad_datatype (ads ?t x) = d" "ad_nelem (ads ?t x) = n" "ad_name (ads ?t x) = str_ncopy name MA_NAMESIZE"
      using I(6,7,9) by (simp_all add: vd)
  qed
qed

lemma MA_push_stack_cases:
  assumes wf: "ma_wf s L" and run: "MA_push_stack bytealloc datatype nelem name s = Some (ok, h, s')"
    and r: "mt_valid datatype \<and> 0 \<le> nelem \<longrightarrow> request_ok s (mt_import datatype) nelem"
  shows "(ok \<and> (\<exists>hh x. h = Some hh \<and>
            allocated s L (mt_import datatype) nelem name hh x s' (L(SUsed := x # L SUsed)))) \<or>
    (\<not> ok \<and> h = None \<and> quiet s s') \<or> (\<not> ok \<and> h = Some TABLE_HANDLE_NONE)"
proof -
  let ?d = "mt_import datatype" and ?ar = "\<lparr>ar_datatype = mt_import datatype, ar_nelem = nelem\<rparr>"
  obtain t where t: "auto_verify (bump FID_MA_push_stack s) = Some (True, t)" "stats_only s t" "ma_wf t L"
    using prologue_wf [OF wf] by blast
  obtain c k where b: "balloc_before ?ar (ma_sp t) t = (c, k)" by force
  note tl = ma_wf_tiles [OF t(3)]
  have sp: "0 \<le> ma_sp t" "ma_sp t < 4611686018427387904" "0 < ma_hp t"
    using tl(3,4) ma_wfD(3-5) [OF t(3)] by linarith+
  have ug: "u64 (ma_sp t - ma_hp t) = ma_sp t - ma_hp t" using sp ma_wfD(4) [OF t(3)] by (intro u64_id) auto
  show ?thesis
  proof (cases "ma_initialized t \<and> mt_valid datatype \<and> 0 \<le> nelem \<and> k \<le> ma_sp t - ma_hp t")
    case False
    then have "\<not> ok \<and> h = None \<and> quiet t s'"
      using run t(1) b ug quiet_error by (auto simp: MA_push_stack_def Let_def split: Option.bind_splits if_splits)
    then show ?thesis using quiet_trans [OF quiet_stats [OF t(2)]] by blast
  next
    case True
    then have rq: "request_ok t ?d nelem" using r stats_only_request [OF t(2)] by simp
    note bb = balloc_before_block [OF ma_wfD(2) [OF t(3)] rq sp(1,2) b]
    define x where "x = ma_sp t - k"
    have ux: "u64 (ma_sp t - k) = x" unfolding x_def using True sp bb(1) by (intro u64_id) auto
    define s1 where "s1 = upd_ad x (\<lambda>a. a\<lparr>ad_client_space := c, ad_nbytes := k\<rparr>) t"
    define s2 where "s2 = init_ad SUsed x ?d nelem name s1"
    obtain hh where hh: "ma_table_allocate bytealloc x
        (count_stack_block (nbytes_of (s2\<lparr>ma_sp := x\<rparr>) x) (s2\<lparr>ma_sp := x\<rparr>)) = Some (hh, s')"
      "h = Some hh" "ok = (hh \<noteq> TABLE_HANDLE_NONE)"
      using run t(1) True b ug ux unfolding s2_def s1_def
      by (auto simp: MA_push_stack_def Let_def split: Option.bind_splits)
    show ?thesis
    proof (cases "hh = TABLE_HANDLE_NONE")
      case False
      from push_commit [OF t(3) rq b _ x_def s1_def s2_def hh(1) False] True
      have "allocated s L ?d nelem name hh x s' (L(SUsed := x # L SUsed))"
        using allocated_stats [OF t(2)] by blast
      then show ?thesis using hh False by blast
    qed (use hh in simp)
  qed
qed

lemma MA_pop_stack_ok:
  assumes wf: "ma_wf s L" and h: "table_map s h = Some (ma_sp s)" and S: "L SUsed \<noteq> []"
  shows "\<exists>s' L'. MA_pop_stack h s = Some (True, s') \<and> released s L {ma_sp s} s' L' \<and>
    L' = L(SUsed := tl (L SUsed))"
proof -
  obtain t where t: "auto_verify (bump FID_MA_pop_stack s) = Some (True, t)" "stats_only s t" "ma_wf t L"
    using prologue_wf [OF wf] by blast
  note st = stats_only_simps [OF t(2)]
  define x where "x = ma_sp t"
  have ht: "table_map t h = Some x" using h st by (simp add: x_def)
  note L = ma_wfD(6) [OF t(3)] and stk = ma_wfD(8) [OF t(3)]
  note top = stack_ok_top [OF stk S]
  obtain rest where l: "L SUsed = x # rest" using top(1) S unfolding x_def by (cases "L SUsed") auto
  have xl: "x \<in> set (L SUsed)" using l by simp
  have ad: "mh2ad h BL_StackTop ''MA_pop_stack'' t = Some (Some x, t)"
    using mh2ad_wf(1) [OF t(3) ht] xl by (simp add: in_place_def x_def)
  define L1 where "L1 = L(SUsed := rest)"
  have L1: "L1 HUsed = L HUsed" "L1 HFree = L HFree" "L1 SUsed = rest" by (simp_all add: L1_def)
  obtain s1 where s1: "list_delete x SUsed t = Some (x, s1)" "lists_are s1 L1" "links_only t s1"
    using list_delete_lists [OF L xl] l unfolding L1_def by auto
  note n1 = links_only_nbytes [OF s1(3)]
  have u: "u64 (ma_sp s1 + nbytes_of s1 x) = x + nbytes_of t x"
    using ma_wf_block(5) [OF t(3) xl] s1(3) n1 by (auto simp: links_only_def x_def)
  define s2 where "s2 = s1\<lparr>ma_sp := u64 (ma_sp s1 + nbytes_of s1 x)\<rparr>"
  define s3 where "s3 = uncount_stack 1 (nbytes_of s2 x) s2"
  have v: "same_view s1 s3" unfolding s3_def s2_def using same_view_trans same_view_simps(3) count_simps(7) by blast
  note vd = same_viewD [OF v] and o1 = ads_only_simps [OF meta_ads [OF links_meta [OF s1(3)]]]
  have p: "ma_hp s3 = ma_hp t" "ma_sp s3 = x + nbytes_of t x" "table_map s3 = table_map t" "table_inv s3 = table_inv t"
    using o1 u by (simp_all add: s3_def s2_def uncount_stack_def)
  have fx: "fixed_parts t s3"
    using fixed_parts_body [OF ads_body [OF meta_ads [OF links_meta [OF s1(3)]]]] unfolding s3_def s2_def
    by (auto simp: fixed_parts_def uncount_stack_def)
  have used: "used_blocks L1 = used_blocks L - {x}"
    using lists_areD(2) [OF L, of SUsed] lists_areD(4) [OF L, of SUsed HUsed] l by (auto simp: used_blocks_def L1)
  have same: "same_block t s3 a" for a
    using meta_same_block [OF links_meta [OF s1(3)]] n1 vd(4) by simp
  have "\<exists>s'. ma_table_deallocate h s3 = Some s' \<and> released t L {x} s' L1"
  proof (rule released_commit [OF t(3) ht fx _ _ _ _ used same])
    show "lists_are s3 L1" using s1(2) vd by simp
    show "ma_hp s3 \<le> ma_sp s3" using p ma_wfD(4) [OF t(3)] ma_wf_block(4) [OF t(3) xl] by (simp add: x_def)
    show "heap_ok (nbytes_of s3) (ma_segment t) (ma_hp s3) (set (L1 HUsed)) (L1 HFree)"
      using ma_wfD(7) [OF t(3)] vd n1 p L1 by simp
    show "stack_ok (nbytes_of s3) (ma_sp s3) (ma_eos t) (L1 SUsed)"
      using top(2) vd n1 p l by (simp add: L1 x_def)
  qed (use p ma_wfD(10) [OF t(3)] in simp_all)
  then obtain s' where s': "ma_table_deallocate h s3 = Some s'" "released t L {x} s' L1" by blast
  have "MA_pop_stack h s = Some (True, s')"
    using t(1) ad s1(1) s'(1) by (simp add: MA_pop_stack_def s3_def s2_def Let_def)
  moreover have "x = ma_sp s" using st by (simp add: x_def)
  ultimately show ?thesis using released_stats [OF t(2) s'(2)] l by (simp add: L1_def)
qed

text \<open>Changes of links and of the handle table commute.\<close>

definition chop_frame :: "ma_state \<Rightarrow> ma_state \<Rightarrow> bool" where
  "chop_frame s s' \<longleftrightarrow> (\<exists>t. links_only s t \<and> table_frame t s')"

lemma table_links_commute:
  assumes "table_frame s t" "links_only t u"
  shows "chop_frame s u"
proof -
  obtain l tb c e n where t: "t = s\<lparr>stderr_log := l, ma_table := tb, ma_table_capacity := c,
      ma_table_entries := e, ma_table_next_slot := n\<rparr>" using assms(1) by (auto simp: table_frame_def)
  obtain nx f uu k where u: "u = t\<lparr>ads := (\<lambda>a. (ads t a)\<lparr>ad_next := nx a\<rparr>), ma_hfree := f,
      ma_hused := uu, ma_sused := k\<rparr>" using assms(2) by (auto simp: links_only_def)
  let ?m = "s\<lparr>ads := (\<lambda>a. (ads s a)\<lparr>ad_next := nx a\<rparr>), ma_hfree := f, ma_hused := uu, ma_sused := k\<rparr>"
  have "links_only s ?m" unfolding links_only_def by blast
  moreover have "u = ?m\<lparr>stderr_log := l, ma_table := tb, ma_table_capacity := c,
      ma_table_entries := e, ma_table_next_slot := n\<rparr>" by (simp add: u t)
  then have "table_frame ?m u" unfolding table_frame_def by blast
  ultimately show ?thesis by (auto simp: chop_frame_def)
qed

lemma chop_frame_refl: "chop_frame s s"
  unfolding chop_frame_def by (intro exI [of _ s]) simp

lemma chop_frame_trans:
  assumes "chop_frame s t" "chop_frame t u"
  shows "chop_frame s u"
proof -
  obtain a where a: "links_only s a" "table_frame a t" using assms(1) by (auto simp: chop_frame_def)
  obtain b where b: "links_only t b" "table_frame b u" using assms(2) by (auto simp: chop_frame_def)
  obtain c where c: "links_only a c" "table_frame c b"
    using table_links_commute [OF a(2) b(1)] by (auto simp: chop_frame_def)
  have "links_only s c" "table_frame c u" using links_only_trans [OF a(1) c(1)] table_frame_trans [OF c(2) b(2)] .
  then show ?thesis by (auto simp: chop_frame_def)
qed

lemma mh_free_ok:
  assumes "table_inv s" "handles_for (table_map s) B" "x \<in> B"
  shows "\<exists>s'. mh_free x s = Some s' \<and> table_frame s s' \<and> table_inv s' \<and>
    handles_for (table_map s') (B - {x}) \<and>
    table_map s' = (\<lambda>h. if table_map s h \<in> Some ` {x} then None else table_map s h)"
proof -
  let ?h = "ma_table_lookup_assoc x s"
  have h: "?h \<noteq> TABLE_HANDLE_NONE" "table_map s ?h = Some x" using tab.assoc_handles [OF assms] by auto
  obtain s' where "ma_table_deallocate ?h s = Some s'" "table_inv s'"
    "table_map s' = (table_map s)(?h := None)" "table_frame s s'"
    using tab.dealloc_law [OF assms(1) h(2)] by blast
  then show ?thesis using h handles_for_delete [OF assms(2) h(2)] handles_for_remove [OF assms(2) h(2)]
    by (simp add: mh_free_def)
qed

lemma delete_many_free:
  assumes pred: "\<And>x t. pred x t = Some (P x, t)"
    and "lists_are s L" "L l = pre @ suf" "table_inv s" "handles_for (table_map s) B" "set (filter P suf) \<subseteq> B"
  shows "\<exists>s'. delete_many_loop l pred (Some mh_free) (last_of pre) (first_of suf) n s =
      Some (n + int (length (filter P suf)), s') \<and>
    lists_are s' (L(l := pre @ filter (\<lambda>x. \<not> P x) suf)) \<and> chop_frame s s' \<and> table_inv s' \<and>
    handles_for (table_map s') (B - set (filter P suf)) \<and>
    table_map s' = (\<lambda>h. if table_map s h \<in> Some ` set (filter P suf) then None else table_map s h)"
  using assms(2-)
proof (induction suf arbitrary: pre n s L B)
  case Nil
  have "L(l := pre) = L" using Nil by auto
  then show ?case using Nil chop_frame_refl by (subst delete_many_loop.simps) simp
next
  case (Cons x suf)
  note L = Cons.prems(1) and l = Cons.prems(2)
  have x: "x \<noteq> 0" "next_of x s = first_of suf"
    using lists_are_nonzero [OF L, of x l] lists_are_next [OF L l] l by auto
  show ?case
  proof (cases "P x")
    case False
    then have "delete_many_loop l pred (Some mh_free) (last_of pre) (first_of (x # suf)) n s =
        delete_many_loop l pred (Some mh_free) x (first_of suf) n s"
      using x by (subst delete_many_loop.simps) (simp add: pred)
    then show ?thesis using Cons.IH [of s L "pre @ [x]" B n] Cons.prems False by simp
  next
    case True
    obtain s1 where s1: "mh_free x s = Some s1" "table_frame s s1" "table_inv s1"
      "handles_for (table_map s1) (B - {x})"
      "table_map s1 = (\<lambda>h. if table_map s h \<in> Some ` {x} then None else table_map s h)"
      using mh_free_ok [of s B x] Cons.prems True by auto
    have L1: "lists_are s1 L" using L same_viewD(1) [OF same_view_table [OF s1(2)]] by simp
    let ?s = "unlink l (last_of pre) x s1"
    note u = unlink_lists [OF L1 l]
    note ut = ads_only_simps(2,3) [OF meta_ads [OF links_meta [OF u(2)]]]
    have step: "delete_many_loop l pred (Some mh_free) (last_of pre) (first_of (x # suf)) n s =
        delete_many_loop l pred (Some mh_free) (last_of pre) (first_of suf) (n + 1) ?s"
      using x True u(3) s1(1) by (subst delete_many_loop.simps) (simp add: pred)
    have dst: "x \<notin> set suf" using lists_areD(2) [OF L, of l] l by simp
    then have sub: "set (filter P suf) \<subseteq> B - {x}" using Cons.prems(5) by auto
    obtain s' where s': "delete_many_loop l pred (Some mh_free) (last_of pre) (first_of suf) (n + 1) ?s =
        Some (n + 1 + int (length (filter P suf)), s')"
      "lists_are s' (L(l := pre @ filter (\<lambda>x. \<not> P x) suf))" "chop_frame ?s s'" "table_inv s'"
      "handles_for (table_map s') (B - {x} - set (filter P suf))"
      "table_map s' = (\<lambda>h. if table_map ?s h \<in> Some ` set (filter P suf) then None else table_map ?s h)"
      using Cons.IH [OF u(1), of pre "B - {x}" "n + 1"] ut s1(3,4) sub unfolding fun_upd_upd by fastforce
    have "B - {x} - set (filter P suf) = B - set (filter P (x # suf))" using True by auto
    moreover have "table_map s' = (\<lambda>h. if table_map s h \<in> Some ` set (filter P (x # suf)) then None else table_map s h)"
      using s'(6) ut s1(5) True by (auto simp: fun_eq_iff)
    moreover have "chop_frame s s'"
      using chop_frame_trans [OF table_links_commute [OF s1(2) u(2)] s'(3)] .
    ultimately show ?thesis using step s'(1,2,4,5) True by (auto simp: fun_upd_def)
  qed
qed

section \<open>Chopping the stack\<close>

lemma list_delete_many_free:
  assumes "\<And>x t. pred x t = Some (P x, t)" "lists_are s L"
    and "table_inv s" "handles_for (table_map s) B" "set (filter P (L l)) \<subseteq> B"
  shows "\<exists>s'. list_delete_many l pred (Some mh_free) s = Some (int (length (filter P (L l))), s') \<and>
    lists_are s' (L(l := filter (\<lambda>x. \<not> P x) (L l))) \<and> chop_frame s s' \<and> table_inv s' \<and>
    handles_for (table_map s') (B - set (filter P (L l))) \<and>
    table_map s' = (\<lambda>h. if table_map s h \<in> Some ` set (filter P (L l)) then None else table_map s h)"
  using delete_many_free [OF assms(1,2) _ assms(3-5), where pre = "[]" and n = 0]
    lists_areD(3) [OF assms(2), of l] by (simp add: list_delete_many_def)

lemma MA_chop_stack_ok:
  assumes wf: "ma_wf s L" and h: "table_map s h = Some x" and x: "x \<in> set (L SUsed)"
  shows "\<exists>s' L'. MA_chop_stack h s = Some (True, s') \<and> released s L {a \<in> set (L SUsed). a \<le> x} s' L' \<and>
    L' = L(SUsed := filter (\<lambda>a. \<not> a \<le> x) (L SUsed)) \<and> ma_sp s' = x + nbytes_of s x"
proof -
  obtain t where t: "auto_verify (bump FID_MA_chop_stack s) = Some (True, t)" "stats_only s t" "ma_wf t L"
    using prologue_wf [OF wf] by blast
  note st = stats_only_simps [OF t(2)]
  have ht: "table_map t h = Some x" using h st by simp
  note L = ma_wfD(6) [OF t(3)] and stk = ma_wfD(8) [OF t(3)]
  have ad: "mh2ad h BL_Stack ''MA_chop_stack'' t = Some (Some x, t)"
    using mh2ad_wf(1) [OF t(3) ht] x by (simp add: in_place_def)
  define L1 where "L1 = L(SUsed := filter (\<lambda>a. \<not> a \<le> x) (L SUsed))"
  have L1: "L1 HUsed = L HUsed" "L1 HFree = L HFree" "L1 SUsed = filter (\<lambda>a. \<not> a \<le> x) (L SUsed)"
    by (simp_all add: L1_def)
  let ?X = "set (filter (\<lambda>a. a \<le> x) (L SUsed))"
  have sub: "?X \<subseteq> used_blocks L" by (auto simp: used_blocks_def)
  obtain s1 k where s1: "list_delete_many SUsed (ad_le x) (Some mh_free) t = Some (k, s1)"
    "lists_are s1 L1" "chop_frame t s1" "table_inv s1" "handles_for (table_map s1) (used_blocks L - ?X)"
    "table_map s1 = (\<lambda>h. if table_map t h \<in> Some ` ?X then None else table_map t h)"
    using list_delete_many_free [of "ad_le x" "\<lambda>a. a \<le> x", OF ad_le_def L ma_wfD(10,11) [OF t(3)] sub]
    unfolding L1_def by blast
  obtain m where m: "links_only t m" "table_frame m s1" using s1(3) by (auto simp: chop_frame_def)
  have n1: "nbytes_of s1 = nbytes_of t"
    using links_only_nbytes [OF m(1)] same_viewD(2) [OF same_view_table [OF m(2)]] by simp
  have u: "u64 (x + nbytes_of s1 x) = x + nbytes_of t x" using ma_wf_block(5) [OF t(3) x] n1 by simp
  define s2 where "s2 = uncount_stack k (u64 (x + nbytes_of s1 x) - ma_sp s1) s1"
  define s' where "s' = s2\<lparr>ma_sp := u64 (x + nbytes_of s2 x)\<rparr>"
  have v: "same_view s1 s'" unfolding s'_def s2_def using same_view_trans same_view_simps(3) count_simps(7) by blast
  note vd = same_viewD [OF v]
  have n2: "nbytes_of s2 = nbytes_of s1" unfolding s2_def by (rule same_viewD(2)) simp
  have p: "ma_hp s' = ma_hp t" "ma_sp s' = x + nbytes_of t x" "table_map s' = table_map s1" "table_inv s' = table_inv s1"
    using ads_only_simps(4) [OF meta_ads [OF links_meta [OF m(1)]]] fixed_parts_frame [OF m(2)] u n2
    by (simp_all add: s'_def s2_def uncount_stack_def)
  have fx: "fixed_parts t s'"
    using fixed_parts_body [OF ads_body [OF meta_ads [OF links_meta [OF m(1)]]]] fixed_parts_table [OF m(2)]
    unfolding s'_def s2_def by (auto simp: fixed_parts_def uncount_stack_def)
  have used: "used_blocks L1 = used_blocks L - ?X"
    using lists_areD(4) [OF L, of SUsed HUsed] by (auto simp: used_blocks_def L1)
  have same: "same_block t s' a" for a
    using meta_same_block [OF links_meta [OF m(1)], of a] links_only_nbytes [OF m(1)]
      same_viewD(4) [OF same_view_table [OF m(2)]] vd(4) by simp
  have "ma_wf s' L1"
  proof (rule ma_wf_step [OF t(3) fx])
    show "lists_are s' L1" using s1(2) vd by simp
    show "ma_hp s' \<le> ma_sp s'"
      using p ma_wfD(4) [OF t(3)] ma_wf_block(4) [OF t(3) x] tiles_bounds(1) [OF ma_wf_tiles(2) [OF t(3)] x] by simp
    show "heap_ok (nbytes_of s') (ma_segment t) (ma_hp s') (set (L1 HUsed)) (L1 HFree)"
      using ma_wfD(7) [OF t(3)] vd n1 p L1 by simp
    show "stack_ok (nbytes_of s') (ma_sp s') (ma_eos t) (L1 SUsed)"
      using stack_ok_drop [OF stk x] vd n1 p L1 by simp
    show "block_ok s' a \<or> a \<in> used_blocks L \<and> same_block t s' a" if "a \<in> used_blocks L1" for a
      using that used same by blast
    show "table_inv s'" "handles_for (table_map s') (used_blocks L1)" using p s1 used by simp_all
  qed
  then have "released t L ?X s' L1"
    using fx p s1(6) used same by (auto simp: released_def used_blocks_def)
  moreover have "MA_chop_stack h s = Some (True, s')"
    using t(1) ad s1(1) by (simp add: MA_chop_stack_def s'_def s2_def Let_def)
  moreover have "ma_sp s' = x + nbytes_of s x" using p st by simp
  moreover have "?X = {a \<in> set (L SUsed). a \<le> x}" by simp
  ultimately show ?thesis using released_stats [OF t(2)] unfolding L1_def by auto
qed

section \<open>Shrinking a block\<close>

lemma resize_block:
  assumes L: "lists_are s L" and sz: "sizes_ok s" and x: "0 \<le> x" "x + nbytes_of s x < 18446744073709551616"
    and d: "0 \<le> ad_datatype (ads s x)" "ad_datatype (ads s x) < 17" "0 \<le> n"
    and c: "x + 84 \<le> ad_client_space (ads s x)"
      "ad_client_space (ads s x) + n * sizeof_dt s (ad_datatype (ads s x)) + 4 \<le> x + nbytes_of s x"
      "sizeof_dt s (ad_datatype (ads s x)) dvd ad_client_space (ads s x) - base_dt s (ad_datatype (ads s x))"
  defines "s' \<equiv> guard_set x (upd_ad x (\<lambda>a. a\<lparr>ad_checksum := checksum a\<rparr>) (upd_ad x (ad_nelem_update (\<lambda>_. n)) s))"
  shows "lists_are s' L" "block_ok s' x" "nbytes_of s' = nbytes_of s" "body_only s s'"
    "a \<noteq> x \<Longrightarrow> a + nbytes_of s a \<le> x \<or> x + nbytes_of s x \<le> a \<Longrightarrow> same_block s s' a"
    "ad_nelem (ads s' x) = n" "ad_datatype (ads s' x) = ad_datatype (ads s x)"
    "ad_client_space (ads s' x) = ad_client_space (ads s x)"
    "ad_client_space (ads s x) \<le> y \<Longrightarrow>
      y < ad_client_space (ads s x) + n * sizeof_dt s (ad_datatype (ads s x)) \<Longrightarrow> mem s' y = mem s y"
proof -
  define A where "A = (ads s x)\<lparr>ad_nelem := n\<rparr>"
  define s1 where "s1 = upd_ad x (ad_nelem_update (\<lambda>_. n)) s"
  define s3 where "s3 = upd_ad x (\<lambda>a. a\<lparr>ad_checksum := checksum a\<rparr>) s1"
  have s': "s' = guard_set x s3" by (simp add: s'_def s3_def s1_def)
  have x3: "ads s3 x = A\<lparr>ad_checksum := checksum A\<rparr>" by (simp add: s3_def upd_ad_simps A_def s1_def)
  have o3: "ads s3 a = ads s a" if "a \<noteq> x" for a using that by (simp add: upd_ad_simps s3_def s1_def)
  have f3: "mem s3 = mem s" "ma_sizeof s3 = ma_sizeof s" "ma_base s3 = ma_base s"
    by (simp_all add: s3_def upd_ad_simps s1_def)
  let ?c = "ad_client_space (ads s x)" and ?k = "n * sizeof_dt s (ad_datatype (ads s x))"
  have ck: "ad_client_space (ads s3 x) = ?c"
    "ad_nelem (ads s3 x) * sizeof_dt s3 (ad_datatype (ads s3 x)) = ?k"
    using x3 f3 by (simp_all add: sizeof_dt_def A_def)
  have k0: "0 \<le> ?k" using d sizeof_dt_ok(1) [OF sz d(1,2)] by simp
  note g = guard_set_block [where a = x and s = s3, unfolded ck]
  have b: "4 \<le> ?c" "0 \<le> ?k" "?c + ?k + 4 \<le> 18446744073709551616" using c x k0 by linarith+
  obtain m where m: "s' = s3\<lparr>mem := m\<rparr>" using g(3) [OF b] s' by auto
  have ads': "ads s' = ads s3" using m by simp
  show "lists_are s' L"
  proof (rule lists_are_cong [OF L])
    show "get_list l s' = get_list l s" for l by (cases l) (simp_all add: m s3_def s1_def upd_ad_def)
    show "next_of y s' = next_of y s" for y
      by (cases "y = x") (simp_all add: next_of_def ads' x3 o3 A_def)
  qed
  have "ads_only s s1" "ads_only s1 s3" by (simp_all add: s1_def s3_def)
  then have "ads_only s s3" using ads_only_trans by blast
  then show "body_only s s'" unfolding m using ads_body body_only_mem body_only_trans by blast
  show "nbytes_of s' = nbytes_of s"
  proof
    fix a show "nbytes_of s' a = nbytes_of s a"
      by (cases "a = x") (simp_all add: nbytes_of_def ads' x3 o3 A_def)
  qed
  show "ad_nelem (ads s' x) = n" "ad_datatype (ads s' x) = ad_datatype (ads s x)"
    "ad_client_space (ads s' x) = ?c" by (simp_all add: ads' x3 A_def)
  have mo: "mem s' y = mem s y" if "y < x \<or> x + nbytes_of s x \<le> y" for y
    using g(2) [OF b, of y] that c f3(1) s' by auto
  show "mem s' y = mem s y" if "?c \<le> y" "y < ?c + ?k" using g(2) [OF b, of y] that f3(1) s' by auto
  show "same_block s s' a" if "a \<noteq> x" "a + nbytes_of s a \<le> x \<or> x + nbytes_of s x \<le> a"
    unfolding same_block_def using that o3 mo by (auto simp: ads')
  have "guard_check x s'" using g(1) [OF b] s' by simp
  then show "block_ok s' x" using d c x3 f3
    by (simp add: block_ok_def ads' Let_def m sizeof_dt_def base_dt_def checksum_def nbytes_of_def A_def)
qed

end
