(* ===== verification/MA_Piece.thy ===== *)
theory MA_Piece
  imports MA_Release
begin

text \<open>
  \<open>MA_free_heap_piece\<close>: a block is shortened in place, its tail returns to the free list or to the gap.
\<close>

text \<open>The result of shrinking block \<open>x\<close> to \<open>n\<close> elements: what is kept of its data is unchanged.\<close>

definition shrunk :: "ma_state \<Rightarrow> (listref \<Rightarrow> int list) \<Rightarrow> int \<Rightarrow> int \<Rightarrow> ma_state \<Rightarrow> (listref \<Rightarrow> int list) \<Rightarrow> bool" where
  "shrunk s L x n s' L' \<longleftrightarrow> ma_wf s' L' \<and> fixed_parts s s' \<and> table_map s' = table_map s \<and>
     used_blocks L' = used_blocks L \<and> ad_nelem (ads s' x) = n \<and>
     ad_datatype (ads s' x) = ad_datatype (ads s x) \<and>
     ad_client_space (ads s' x) = ad_client_space (ads s x) \<and>
     nbytes_of s' x \<le> nbytes_of s x \<and>
     (\<forall>y. ad_client_space (ads s x) \<le> y \<and>
        y < ad_client_space (ads s x) + n * sizeof_dt s (ad_datatype (ads s x)) \<longrightarrow> mem s' y = mem s y) \<and>
     (\<forall>a\<in>used_blocks L - {x}. same_block s s' a)"

text \<open>Cutting the tail off a used block and returning it to the heap.\<close>

lemma carve_free:
  assumes wf: "ma_wf s L" and x: "x \<in> set (L HUsed)" and k: "0 < k" "nbytes_of s x - k \<ge> 96"
  shows "\<exists>s' F hp. do { (r, t) \<leftarrow> block_split x k False s; block_free_heap r (uncount_heap 0 (nbytes_of t r) t) } = Some s' \<and>
    block_split x k False s = Some (x + k, set_nbytes x k (set_nbytes (x + k) (nbytes_of s x - k) s)) \<and>
    lists_are s' (L(HFree := F)) \<and> ma_hp s' = hp \<and> hp \<le> ma_hp s \<and>
    heap_ok (nbytes_of s') (ma_segment s) hp (set (L HUsed)) F \<and>
    nbytes_of s' x = k \<and> (\<forall>a\<in>used_blocks L - {x}. same_block s s' a) \<and>
    (\<exists>nx b. ads s' x = (ads s x)\<lparr>ad_next := nx, ad_nbytes := b\<rparr>) \<and>
    mem s' = mem s \<and> fixed_parts s s' \<and> table_map s' = table_map s \<and> table_inv s' = table_inv s \<and> ma_sp s' = ma_sp s"
proof -
  note L = ma_wfD(6) [OF wf] and xb = ma_wf_block [OF wf x]
  have eos: "ma_eos s < 18446744073709551616" using ma_wfD(5) [OF wf] by simp
  define y where "y = x + k"
  define t where "t = set_nbytes x k (set_nbytes y (nbytes_of s x - k) s)"
  have bs: "block_split x k False s = Some (y, t)"
    using block_split_cases [of k s x False] k xb eos by (simp add: y_def t_def)
  have nt: "nbytes_of t = (nbytes_of s)(x := k, y := nbytes_of s x - k)"
    using k by (auto simp: t_def y_def fun_eq_iff)
  have mt: "meta_only s t" unfolding t_def using meta_only_trans meta_only_set_nbytes by blast
  define u where "u = uncount_heap 0 (nbytes_of t y) t"
  have vu: "same_view t u" by (simp add: u_def)
  have nu: "nbytes_of u = nbytes_of t" using same_viewD(2) [OF vu] .
  note ot = ads_only_simps [OF meta_ads [OF mt]]
  have pu: "ma_hp u = ma_hp s" "ma_segment u = ma_segment s" "ma_sp u = ma_sp s" "table_map u = table_map s"
    "table_inv u = table_inv s" "mem u = mem s" "ads u = ads t"
    using ot by (simp_all add: u_def uncount_heap_def)
  have Lu: "lists_are u L" using same_viewD(1) [OF vu] lists_are_set_nbytes L unfolding t_def by blast
  have ny: "y \<notin> set (L l)" for l using ma_wf_apart [OF wf x, of y l] k unfolding y_def by auto
  have yx: "y \<noteq> x" using k by (simp add: y_def)
  have cut: "heap_cut (nbytes_of u) (ma_segment u) (ma_hp u) (insert y (set (L HUsed))) (L HFree)"
    using heap_cut_carve(1) [of "nbytes_of s" _ _ _ _ x k "nbytes_of u"] ma_wfD(7) [OF wf] x k nu nt pu
    unfolding heap_ok_def y_def by auto
  have free: "nbytes_of u a = nbytes_of s a" if "a \<in> set (L HFree)" for a
    using that ny [of HFree] lists_areD(4) [OF L, of HUsed HFree] x nu nt by auto
  have adj: "\<forall>a\<in>set (L HFree). a + nbytes_of u a \<notin> set (L HFree)"
    using ma_wfD(7) [OF wf] free by (simp add: heap_ok_def)
  have y: "0 < y" "88 \<le> nbytes_of u y" using xb k nu nt by (auto simp: y_def)
  have hpb: "ma_hp u < 4611686018427387904" using ma_wfD(4,5) [OF wf] ma_wf_tiles(4) [OF wf] pu by simp
  obtain s' F hp where s': "block_free_heap y u = Some s'" "meta_only (u\<lparr>ma_hp := hp\<rparr>) s'"
    "lists_are s' (L(HFree := F))" "hp \<le> ma_hp u"
    "heap_ok (nbytes_of s') (ma_segment u) hp (set (L HUsed)) F"
    "\<forall>a\<in>used_blocks L. nbytes_of s' a = nbytes_of u a"
    using block_free_heap_ok [OF Lu y(1) ny y(2) cut adj _ hpb] ma_wfD(3) [OF wf] pu by auto
  note o' = ads_only_simps [OF meta_ads [OF s'(2)]]
  have xu: "x \<in> used_blocks L" using x by (simp add: used_blocks_def)
  have same: "same_block s s' a" if "a \<in> used_blocks L - {x}" for a
  proof -
    have "a \<noteq> y" using that ny by (auto simp: used_blocks_def)
    then have "nbytes_of t a = nbytes_of s a" using that nt by simp
    then have "same_block s (u\<lparr>ma_hp := hp\<rparr>) a"
      using meta_same_block [OF mt] same_viewD(4) vu same_view_simps(2) same_view_trans by blast
    moreover have "same_block (u\<lparr>ma_hp := hp\<rparr>) s' a" using meta_same_block [OF s'(2)] s'(6) that by simp
    ultimately show ?thesis by (rule same_block_trans)
  qed
  have adx: "\<exists>nx b. ads s' x = (ads s x)\<lparr>ad_next := nx, ad_nbytes := b\<rparr>"
    using s'(2) mt pu(7) by (auto simp: meta_only_def) blast
  have fx: "fixed_parts s s'"
    using fixed_parts_body [OF ads_body [OF meta_ads [OF mt]]] fixed_parts_body [OF ads_body [OF meta_ads [OF s'(2)]]]
    unfolding u_def by (auto simp: fixed_parts_def uncount_heap_def)
  show ?thesis
    using bs s' same adx fx o' pu nu nt yx xu unfolding u_def t_def y_def
    by (intro exI [of _ s'] exI [of _ F] exI [of _ hp]) simp
qed

lemma shrunk_stats:
  assumes "stats_only s t" "shrunk t L x n s' L'"
  shows "shrunk s L x n s' L'"
proof -
  note st = stats_only_simps [OF assms(1)]
  have "same_block s s' a" if "same_block t s' a" for a
    using same_block_trans [OF _ that] st(14) by blast
  then show ?thesis using assms(2) fixed_parts_trans [OF fixed_parts_stats [OF assms(1)]] st
    by (auto simp: shrunk_def sizeof_dt_def)
qed

text \<open>The last step of shrinking: writing the new element count, checksum and guards.\<close>

lemma shrunk_commit:
  assumes wf: "ma_wf s L" and x: "x \<in> set (L HUsed)" and n: "0 \<le> n"
    and t: "lists_are t (L(HFree := F))" "ma_hp t \<le> ma_hp s" "ma_sp t = ma_sp s"
      "heap_ok (nbytes_of t) (ma_segment s) (ma_hp t) (set (L HUsed)) F"
      "\<forall>a\<in>used_blocks L - {x}. same_block s t a" "ads t x = (ads s x)\<lparr>ad_next := nx, ad_nbytes := b\<rparr>"
      "mem t = mem s" "fixed_parts s t" "table_map t = table_map s" "table_inv t"
    and lay: "ad_client_space (ads s x) + n * sizeof_dt s (ad_datatype (ads s x)) + 4 \<le> x + nbytes_of t x"
      "nbytes_of t x \<le> nbytes_of s x"
  shows "shrunk s L x n
    (guard_set x (upd_ad x (\<lambda>a. a\<lparr>ad_checksum := checksum a\<rparr>) (upd_ad x (ad_nelem_update (\<lambda>_. n)) t)))
    (L(HFree := F))"
proof -
  let ?s' = "guard_set x (upd_ad x (\<lambda>a. a\<lparr>ad_checksum := checksum a\<rparr>) (upd_ad x (ad_nelem_update (\<lambda>_. n)) t))"
  let ?L = "L(HFree := F)"
  have xu: "x \<in> used_blocks L" using x by (simp add: used_blocks_def)
  note bx = ma_wfD(9) [OF wf xu] and xb = ma_wf_block [OF wf x]
  have sz: "sizes_ok t" "ma_sizeof t = ma_sizeof s" "ma_base t = ma_base s"
    using t(8) ma_wfD(2) [OF wf] by (auto simp: fixed_parts_def sizes_ok_def)
  have d: "0 \<le> ad_datatype (ads t x)" "ad_datatype (ads t x) < 17" "x + 84 \<le> ad_client_space (ads t x)"
    "sizeof_dt t (ad_datatype (ads t x)) dvd ad_client_space (ads t x) - base_dt t (ad_datatype (ads t x))"
    using bx t(6) sz by (auto simp: block_ok_def Let_def sizeof_dt_def base_dt_def)
  have x2: "0 \<le> x" "x + nbytes_of t x < 18446744073709551616" using xb lay(2) ma_wfD(5) [OF wf] by linarith+
  have l2: "ad_client_space (ads t x) + n * sizeof_dt t (ad_datatype (ads t x)) + 4 \<le> x + nbytes_of t x"
    using lay t(6) sz by (simp add: sizeof_dt_def)
  note R = resize_block [OF t(1) sz(1) x2 d(1,2) n d(3) l2 d(4)]
  note o = body_only_simps [OF R(4)]
  have used: "used_blocks ?L = used_blocks L" by (simp add: used_blocks_def)
  have same: "same_block s ?s' a" if a: "a \<in> used_blocks L - {x}" for a
  proof -
    obtain l where l: "a \<in> set (L l)" using a by (auto simp: used_blocks_def)
    have st: "same_block s t a" using t(5) a by blast
    have "a + nbytes_of s a \<le> x \<or> x + nbytes_of s x \<le> a"
      using ma_wf_apart [OF wf l x] ma_wf_apart [OF wf x l] a by (cases "a < x") auto
    then have "a + nbytes_of t a \<le> x \<or> x + nbytes_of t x \<le> a" using same_block_nbytes [OF st] lay(2) by auto
    with R(5) a have "same_block t ?s' a" by blast
    with st show ?thesis by (rule same_block_trans)
  qed
  have fx: "fixed_parts s ?s'" using fixed_parts_trans [OF t(8) fixed_parts_body [OF R(4)]] .
  have stk: "nbytes_of t a = nbytes_of s a" if "a \<in> set (L SUsed)" for a
  proof (rule same_block_nbytes)
    have "a \<in> used_blocks L - {x}"
      using that x lists_areD(4) [OF ma_wfD(6) [OF wf], of HUsed SUsed] by (auto simp: used_blocks_def)
    then show "same_block s t a" using t(5) by blast
  qed
  have "ma_wf ?s' ?L"
  proof (rule ma_wf_step [OF wf fx R(1)])
    show "ma_hp ?s' \<le> ma_sp ?s'" using o t(2,3) ma_wfD(4) [OF wf] by simp
    show "heap_ok (nbytes_of ?s') (ma_segment s) (ma_hp ?s') (set (?L HUsed)) (?L HFree)" using o t(4) R(3) by simp
    show "stack_ok (nbytes_of ?s') (ma_sp ?s') (ma_eos s) (?L SUsed)"
      using ma_wfD(8) [OF wf] stack_ok_cong [of "L SUsed" "nbytes_of t" "nbytes_of s"] stk R(3) o t(3) by simp
    show "block_ok ?s' a \<or> a \<in> used_blocks L \<and> same_block s ?s' a" if "a \<in> used_blocks ?L" for a
      using that used R(2) same by (cases "a = x") auto
    show "table_inv ?s'" "handles_for (table_map ?s') (used_blocks ?L)"
      using o t(9,10) used ma_wfD(11) [OF wf] by simp_all
  qed
  moreover have "mem ?s' y = mem s y"
    if "ad_client_space (ads s x) \<le> y" "y < ad_client_space (ads s x) + n * sizeof_dt s (ad_datatype (ads s x))" for y
    using R(9) [of y] that t(6,7) sz by (simp add: sizeof_dt_def)
  ultimately show ?thesis unfolding shrunk_def
    using fx o(1) t(9) used R(3,6,7,8) t(6) same lay(2) by simp
qed

lemma MA_free_heap_piece_shrink:
  assumes wf: "ma_wf s L" and h: "table_map s h = Some x" and x: "x \<in> set (L HUsed)"
    and n: "0 \<le> nelem" "nelem < ad_nelem (ads s x)"
    and pl: "fst (balloc_after \<lparr>ar_datatype = ad_datatype (ads s x), ar_nelem = ad_nelem (ads s x) - nelem\<rparr> x s) =
      ad_client_space (ads s x)"
  shows "\<exists>s' L'. MA_free_heap_piece h nelem s = Some (True, s') \<and>
    shrunk s L x (ad_nelem (ads s x) - nelem) s' L' \<and> L' HUsed = L HUsed \<and> L' SUsed = L SUsed"
proof -
  obtain t where t: "auto_verify (bump FID_MA_free_heap_piece s) = Some (True, t)" "stats_only s t" "ma_wf t L"
    using prologue_wf [OF wf] by blast
  note st = stats_only_simps [OF t(2)]
  have ht: "table_map t h = Some x" using h st by simp
  have ad: "mh2ad h BL_Heap ''MA_free_heap_piece'' t = Some (Some x, t)"
    using mh2ad_wf(1) [OF t(3) ht] x by (simp add: in_place_def)
  have xu: "x \<in> used_blocks L" using x by (simp add: used_blocks_def)
  note bx = ma_wfD(9) [OF t(3) xu] and xb = ma_wf_block [OF t(3) x]
  define d m where "d = ad_datatype (ads t x)" and "m = ad_nelem (ads t x) - nelem"
  have m: "0 < m" "m \<le> ad_nelem (ads t x)" using n st by (auto simp: m_def)
  obtain c k where b: "balloc_after \<lparr>ar_datatype = d, ar_nelem = m\<rparr> x t = (c, k)" by force
  have c: "c = ad_client_space (ads t x)"
    using pl b st balloc_after_cong [of t s] by (simp add: d_def m_def)
  have dd: "0 \<le> d" "d < 17" "c + ad_nelem (ads t x) * sizeof_dt t d + 4 \<le> x + nbytes_of t x" "x + 84 \<le> c"
    using bx c by (auto simp: block_ok_def Let_def d_def nbytes_of_def)
  have z: "0 < sizeof_dt t d" using sizeof_dt_ok(1) [OF ma_wfD(2) [OF t(3)] dd(1,2)] .
  have "m * sizeof_dt t d \<le> ad_nelem (ads t x) * sizeof_dt t d" using m z by simp
  then have ms: "c + m * sizeof_dt t d + 4 \<le> x + nbytes_of t x" using dd(3) by linarith
  have rq: "request_ok t d m"
    using dd(1,2,4) m ms xb ma_wf_eos [OF t(3)] unfolding request_ok_def by linarith
  have xx: "0 \<le> x" "x < 4611686018427387904" using xb ma_wfD(5) [OF t(3)] by linarith+
  note bb = balloc_after_block [OF ma_wfD(2) [OF t(3)] rq xx b]
  let ?fin = "\<lambda>u. guard_set x (upd_ad x (\<lambda>a. a\<lparr>ad_checksum := checksum a\<rparr>) (upd_ad x (ad_nelem_update (\<lambda>_. m)) u))"
  have run: "MA_free_heap_piece h nelem s = do {
      u \<leftarrow> (if k < nbytes_of t x
        then do { (r, u) \<leftarrow> block_split x k False t;
                  if r \<noteq> 0 then block_free_heap r (uncount_heap 0 (nbytes_of u r) u) else Some u }
        else Some t);
      Some (True, ?fin u) }"
    using t(1) ad n st b by (simp add: MA_free_heap_piece_def Let_def d_def m_def)
  have eos: "ma_eos t < 18446744073709551616" using ma_wfD(5) [OF t(3)] by simp
  have split: "block_split x k False t = Some (0, t)" if "k < nbytes_of t x" "\<not> nbytes_of t x - k \<ge> 96"
    using block_split_cases [of k t x False] that bb(1) xb eos by simp
  have "\<exists>s' L'. MA_free_heap_piece h nelem s = Some (True, s') \<and> shrunk t L x m s' L' \<and>
      L' HUsed = L HUsed \<and> L' SUsed = L SUsed"
  proof (cases "nbytes_of t x - k \<ge> 96")
    case True
    have k0: "0 < k" using bb(1) by simp
    obtain u F hp where u: "do { (r, t) \<leftarrow> block_split x k False t; block_free_heap r (uncount_heap 0 (nbytes_of t r) t) } = Some u"
      and bs: "block_split x k False t = Some (x + k, set_nbytes x k (set_nbytes (x + k) (nbytes_of t x - k) t))"
      and hp: "ma_hp u = hp"
      and f: "lists_are u (L(HFree := F))" "hp \<le> ma_hp t"
        "heap_ok (nbytes_of u) (ma_segment t) hp (set (L HUsed)) F" "nbytes_of u x = k"
        "\<forall>a\<in>used_blocks L - {x}. same_block t u a" "\<exists>nx b. ads u x = (ads t x)\<lparr>ad_next := nx, ad_nbytes := b\<rparr>"
        "mem u = mem t" "fixed_parts t u" "table_map u = table_map t" "table_inv u = table_inv t" "ma_sp u = ma_sp t"
      using carve_free [OF t(3) x k0 True] by blast
    obtain nx bn where nx: "ads u x = (ads t x)\<lparr>ad_next := nx, ad_nbytes := bn\<rparr>" using f(6) by blast
    have "shrunk t L x m (?fin u) (L(HFree := F))"
    proof (rule shrunk_commit [OF t(3) x _ f(1) f(2) [folded hp] f(11) f(3) [folded hp] f(5) nx f(7,8,9)])
      show "0 \<le> m" using m by simp
      show "table_inv u" using f(10) ma_wfD(10) [OF t(3)] by simp
      show "ad_client_space (ads t x) + m * sizeof_dt t (ad_datatype (ads t x)) + 4 \<le> x + nbytes_of u x"
        using bb(4) c f(4) by (simp add: d_def)
      show "nbytes_of u x \<le> nbytes_of t x" using f(4) True by simp
    qed
    moreover have "MA_free_heap_piece h nelem s = Some (True, ?fin u)"
      using run u bs True xb bb(1) by simp
    ultimately show ?thesis by (intro exI [of _ "?fin u"] exI [of _ "L(HFree := F)"]) simp
  next
    case False
    have e: "L(HFree := L HFree) = L" by simp
    have "shrunk t L x m (?fin t) (L(HFree := L HFree))"
      by (rule shrunk_commit [OF t(3) x, where nx = "ad_next (ads t x)" and b = "ad_nbytes (ads t x)"])
        (use ma_wfD [OF t(3)] m ms c d_def in auto)
    moreover have "MA_free_heap_piece h nelem s = Some (True, ?fin t)" using run split False by auto
    ultimately show ?thesis unfolding e by blast
  qed
  moreover have "m = ad_nelem (ads s x) - nelem" using st by (simp add: m_def)
  ultimately show ?thesis using shrunk_stats [OF t(2)] by blast
qed

text \<open>Giving back all the elements is \<open>MA_free_heap\<close>; with a bad handle or count nothing changes.\<close>

lemma MA_free_heap_piece_all:
  assumes wf: "ma_wf s L" and h: "table_map s h = Some x" and x: "x \<in> set (L HUsed)"
    and n: "ad_nelem (ads s x) \<le> nelem"
  shows "\<exists>s' L'. MA_free_heap_piece h nelem s = Some (True, s') \<and> released s L {x} s' L' \<and>
    L' HUsed = remove1 x (L HUsed) \<and> L' SUsed = L SUsed"
proof -
  obtain t where t: "auto_verify (bump FID_MA_free_heap_piece s) = Some (True, t)" "stats_only s t" "ma_wf t L"
    using prologue_wf [OF wf] by blast
  note st = stats_only_simps [OF t(2)]
  have ht: "table_map t h = Some x" using h st by simp
  have ad: "mh2ad h BL_Heap ''MA_free_heap_piece'' t = Some (Some x, t)"
    using mh2ad_wf(1) [OF t(3) ht] x by (simp add: in_place_def)
  have "0 \<le> ad_nelem (ads t x)"
    using ma_wfD(9) [OF t(3), of x] x by (auto simp: block_ok_def Let_def used_blocks_def)
  then have "MA_free_heap_piece h nelem s = MA_free_heap h t"
    using t(1) ad n st by (simp add: MA_free_heap_piece_def)
  with MA_free_heap_ok [OF t(3) ht x] released_stats [OF t(2)] show ?thesis by metis
qed

end
