(* ===== verification/MA_Calls.thy ===== *)
theory MA_Calls
  imports MA_Piece
begin

text \<open>
  The calls that are refused, which change nothing but the counters and the error log, and the lookups of the
  pointer and the index of a block.
\<close>

section \<open>Calls that fail\<close>

lemma mh2ad_error_quiet: "mh2ad_error caller s = Some (r, s') \<Longrightarrow> r = None \<and> quiet s s'"
  using quiet_error by (auto simp: mh2ad_error_def split: Option.bind_splits)

lemma ma_table_verify_none:
  assumes "table_map s h = None" "ma_table_verify h caller s = Some (b, s')"
  shows "\<not> b \<and> (\<exists>l. s' = s\<lparr>stderr_log := l\<rparr>)"
proof -
  have "h < 0 \<or> h \<ge> ma_table_capacity s \<or> te_state (ma_table s ! nat h) \<noteq> TES_Allocated"
    using assms(1) by (auto simp: table_map_def split: if_splits)
  then have "h < 0 \<or> h \<ge> ma_table_capacity s \<or> te_state (ma_table s ! nat h) = TES_Unused \<or>
      te_state (ma_table s ! nat h) = TES_Deallocated"
    by (cases "te_state (ma_table s ! nat h)") auto
  then obtain t where "ma_error EL_Nonfatal ET_External caller s = Some t" "b = False" "s' = t"
    using assms(2) by (auto simp: ma_table_verify_def split: Option.bind_splits)
  then show ?thesis using ma_error_log by blast
qed

lemma mh2ad_quiet:
  assumes wf: "ma_wf s L" and run: "mh2ad h loc caller s = Some (r, s')"
    and no: "\<not> (\<exists>a. table_map s h = Some a \<and> in_place L s a loc)"
  shows "r = None \<and> quiet s s'"
proof (cases "table_map s h")
  case None
  then obtain b t where v: "ma_table_verify h caller s = Some (b, t)"
    using run by (auto simp: mh2ad_def split: Option.bind_splits)
  from ma_table_verify_none [OF None v] obtain l where "\<not> b" "t = s\<lparr>stderr_log := l\<rparr>" by blast
  with run v have "r = None" "s' = s\<lparr>stderr_log := l\<rparr>" by (simp_all add: mh2ad_def)
  then show ?thesis using quiet_log by blast
next
  case (Some a)
  then have "mh2ad_error caller s = Some (r, s')" using mh2ad_wf(1) [OF wf Some] no run by auto
  then show ?thesis by (rule mh2ad_error_quiet)
qed

text \<open>A routine that begins with the prologue and the checks of a handle, and whose handle is bad.\<close>

lemma prologue_fail:
  assumes wf: "ma_wf s L"
    and run: "do { (ok, s) \<leftarrow> auto_verify (bump f s);
        if \<not> ok then Some (False, s)
        else do { (ad, s) \<leftarrow> mh2ad h loc caller s;
                  case ad of None \<Rightarrow> Some (False, s) | Some ad \<Rightarrow> k ad s } } = Some (r, s')"
    and no: "\<not> (\<exists>a. table_map s h = Some a \<and> in_place L s a loc)"
  shows "\<not> r \<and> quiet s s'"
proof -
  obtain t where t: "auto_verify (bump f s) = Some (True, t)" "stats_only s t" "ma_wf t L"
    using prologue_wf [OF wf] by blast
  have no': "\<not> (\<exists>a. table_map t h = Some a \<and> in_place L t a loc)"
    using no stats_only_simps [OF t(2)] by (auto simp: in_place_def split: BlockLocation.splits)
  obtain ad u where u: "mh2ad h loc caller t = Some (ad, u)"
    using run t(1) by (auto split: Option.bind_splits)
  from mh2ad_quiet [OF t(3) u no'] have "ad = None" "quiet t u" by auto
  then show ?thesis using run t(1) u quiet_trans [OF quiet_stats [OF t(2)]] by simp
qed

lemma MA_free_heap_fail:
  assumes "ma_wf s L" "MA_free_heap h s = Some (r, s')" "\<not> (\<exists>a. table_map s h = Some a \<and> a \<in> set (L HUsed))"
  shows "\<not> r \<and> quiet s s'"
  by (rule prologue_fail [OF assms(1), where loc = BL_Heap])
    (use assms(2,3) in \<open>auto simp: MA_free_heap_def in_place_def\<close>)

lemma MA_pop_stack_fail:
  assumes "ma_wf s L" "MA_pop_stack h s = Some (r, s')"
    and "\<not> (table_map s h = Some (ma_sp s) \<and> ma_sp s \<in> set (L SUsed))"
  shows "\<not> r \<and> quiet s s'"
  by (rule prologue_fail [OF assms(1), where loc = BL_StackTop])
    (use assms(2,3) in \<open>auto simp: MA_pop_stack_def in_place_def\<close>)

lemma MA_chop_stack_fail:
  assumes "ma_wf s L" "MA_chop_stack h s = Some (r, s')" "\<not> (\<exists>a. table_map s h = Some a \<and> a \<in> set (L SUsed))"
  shows "\<not> r \<and> quiet s s'"
  by (rule prologue_fail [OF assms(1), where loc = BL_Stack])
    (use assms(2,3) in \<open>auto simp: MA_chop_stack_def in_place_def\<close>)

lemma MA_free_heap_piece_fail:
  assumes wf: "ma_wf s L" and run: "MA_free_heap_piece h n s = Some (r, s')"
    and no: "n < 0 \<or> \<not> (\<exists>a. table_map s h = Some a \<and> a \<in> set (L HUsed))"
  shows "\<not> r \<and> quiet s s'"
proof (cases "\<exists>a. table_map s h = Some a \<and> a \<in> set (L HUsed)")
  case False
  then show ?thesis
    by (intro prologue_fail [OF wf, where loc = BL_Heap])
      (use run in \<open>auto simp: MA_free_heap_piece_def in_place_def\<close>)
next
  case True
  then obtain x where x: "table_map s h = Some x" "x \<in> set (L HUsed)" and n: "n < 0" using no by auto
  obtain t where t: "auto_verify (bump FID_MA_free_heap_piece s) = Some (True, t)" "stats_only s t" "ma_wf t L"
    using prologue_wf [OF wf] by blast
  have ht: "table_map t h = Some x" using x stats_only_simps(3) [OF t(2)] by simp
  have "mh2ad h BL_Heap ''MA_free_heap_piece'' t = Some (Some x, t)"
    using mh2ad_wf(1) [OF t(3) ht] x by (simp add: in_place_def)
  then have "\<not> r \<and> quiet t s'"
    using run t(1) n quiet_error by (auto simp: MA_free_heap_piece_def split: Option.bind_splits)
  then show ?thesis using quiet_trans [OF quiet_stats [OF t(2)]] by blast
qed

section \<open>Looking up a block\<close>

lemma MA_get_pointer_ok:
  assumes wf: "ma_wf s L" and h: "table_map s h = Some x"
  shows "\<exists>s'. MA_get_pointer h s = Some (True, Some (ad_client_space (ads s x)), s') \<and> quiet s s'"
proof -
  obtain t where t: "auto_verify (bump FID_MA_get_pointer s) = Some (True, t)" "stats_only s t" "ma_wf t L"
    using prologue_wf [OF wf] by blast
  have "table_map t h = Some x" using h stats_only_simps(3) [OF t(2)] by simp
  then have "mh2ad h BL_HeapOrStack ''MA_get_pointer'' t = Some (Some x, t)"
    using mh2ad_wf(1) [OF t(3)] by (simp add: in_place_def)
  then show ?thesis using t(1) quiet_stats [OF t(2)] stats_only_simps(1) [OF t(2)] by (simp add: MA_get_pointer_def)
qed

lemma MA_get_index_ok:
  assumes wf: "ma_wf s L" and h: "table_map s h = Some x"
  shows "\<exists>s'. MA_get_index h s = Some (True, Some (client_space_index s x), s') \<and> quiet s s'"
proof -
  obtain t where t: "auto_verify (bump FID_MA_get_index s) = Some (True, t)" "stats_only s t" "ma_wf t L"
    using prologue_wf [OF wf] by blast
  have "table_map t h = Some x" using h stats_only_simps(3) [OF t(2)] by simp
  then have "mh2ad h BL_HeapOrStack ''MA_get_index'' t = Some (Some x, t)"
    using mh2ad_wf(1) [OF t(3)] by (simp add: in_place_def)
  then show ?thesis using t(1) quiet_stats [OF t(2)] stats_only_simps [OF t(2)]
    by (simp add: MA_get_index_def client_space_index_def sizeof_dt_def base_dt_def)
qed

text \<open>
  The index of a block is exact: indexing the datatype's base array with it gives the first byte
  of the client space, in the 64-bit arithmetic of the client's array access.
\<close>

lemma client_space_index_exact:
  assumes wf: "ma_wf s L" and x: "x \<in> used_blocks L"
  shows "u64 (base_dt s (ad_datatype (ads s x)) +
      client_space_index s x * sizeof_dt s (ad_datatype (ads s x))) = ad_client_space (ads s x)"
proof -
  define d where "d = ad_datatype (ads s x)"
  define c z b where "c = ad_client_space (ads s x)" and "z = sizeof_dt s d" and "b = base_dt s d"
  have B: "block_ok s x" using ma_wfD(9) [OF wf x] .
  have d: "0 \<le> d" "d < 17" using B by (auto simp: block_ok_def Let_def d_def)
  note zz = sizeof_dt_ok [OF ma_wfD(2) [OF wf] d, folded z_def]
  obtain l where l: "x \<in> set (L l)" using x by (auto simp: used_blocks_def)
  have dv: "z dvd c - b" and c84: "x + 84 \<le> c"
    and cl: "c + ad_nelem (ads s x) * z + 4 \<le> x + nbytes_of s x" "0 \<le> ad_nelem (ads s x)"
    using B by (auto simp: block_ok_def Let_def c_def z_def b_def d_def nbytes_of_def)
  have "0 \<le> ad_nelem (ads s x) * z" using cl zz(1) by simp
  then have cr: "0 \<le> c" "c < 18446744073709551616"
    using c84 cl ma_wf_block [OF wf l] ma_wfD(5) [OF wf] by linarith+
  define q where "q = u64 (c - b) div z"
  have "z dvd u64 (c - b)" using dv zz(4) by (simp add: u64_def dvd_mod)
  then have q: "q * z = u64 (c - b)" by (simp add: q_def)
  have "u64 (b + s64 q * z) = u64 (b + q * z)"
  proof -
    obtain e where e: "s64 q = q + e * 18446744073709551616"
    proof -
      have "(s64 q - q) mod 18446744073709551616 = 0"
        using u64_s64 [of q] by (simp add: u64_def mod_eq_dvd_iff)
      then obtain e where "s64 q - q = e * 18446744073709551616" by (metis dvd_div_mult_self dvd_eq_mod_eq_0)
      then have "s64 q = q + e * 18446744073709551616" by simp
      then show thesis by (rule that)
    qed
    have "b + s64 q * z = (b + q * z) + (e * z) * 18446744073709551616" unfolding e by (simp add: algebra_simps)
    then show ?thesis unfolding u64_def by (simp only: mod_mult_self1)
  qed
  also have "\<dots> = u64 c" unfolding q by simp
  also have "\<dots> = c" using cr by (rule u64_id)
  finally show ?thesis unfolding client_space_index_def d_def [symmetric] c_def [symmetric] z_def [symmetric]
      b_def [symmetric] q_def .
qed

end
