(* ===== verification/MA_Queries.thy ===== *)
theory MA_Queries
  imports MA_Calls
begin

text \<open>
  The inquiry routines of the memory allocator (src/ma/ma.c): how many elements could be allocated
  now. They share their checks (\<open>inquire\<close>), and differ in the gap they measure and in whether they
  look at the free blocks of the heap. Gaps are computed in \<open>size_t\<close>, so the distance to a partition that
  has been overgrown wraps around. They change nothing but counters and the error log.
\<close>

section \<open>The routines\<close>

definition inquire ::
  "FID \<Rightarrow> string \<Rightarrow> (int \<Rightarrow> ma_state \<Rightarrow> int option) \<Rightarrow> int \<Rightarrow> ma_state \<Rightarrow> (int \<times> ma_state) option" where
  "inquire fid caller body datatype s =
     do { let s = bump fid s;
          (ok, s) \<leftarrow> auto_verify s;
          if \<not> ok then Some (0, s)
          else if \<not> ma_initialized s
          then do { s \<leftarrow> ma_error EL_Nonfatal ET_External caller s; Some (0, s) }
          else if \<not> mt_valid datatype
          then do { s \<leftarrow> ma_error EL_Fatal ET_External caller s; Some (0, s) }
          else do { n \<leftarrow> body (mt_import datatype) s; Some (n, s) } }"

definition nelem_gap :: "int \<Rightarrow> int \<Rightarrow> int \<Rightarrow> ma_state \<Rightarrow> int" where
  "nelem_gap address gap_length d s = (if gap_length > 0 then ma_nelem address gap_length d s else 0)"

definition gap_or_frag :: "int \<Rightarrow> int \<Rightarrow> ma_state \<Rightarrow> int option" where
  "gap_or_frag gap d s = do { nelem_frag \<leftarrow> ma_max_heap_frag_nelem d gap s; Some (max gap nelem_frag) }"

definition MA_inquire_avail :: "int \<Rightarrow> ma_state \<Rightarrow> (int \<times> ma_state) option" where
  "MA_inquire_avail = inquire FID_MA_inquire_avail ''MA_inquire_avail''
     (\<lambda>d s. Some (nelem_gap (ma_hp s) (u64 (ma_sp s - ma_hp s)) d s))"

definition MA_inquire_heap :: "int \<Rightarrow> ma_state \<Rightarrow> (int \<times> ma_state) option" where
  "MA_inquire_heap = inquire FID_MA_inquire_heap ''MA_inquire_heap''
     (\<lambda>d s. gap_or_frag (if ma_partition s > ma_hp s
        then ma_nelem (ma_hp s) (u64 (ma_partition s - ma_hp s)) d s else 0) d s)"

definition MA_inquire_heap_check_stack :: "int \<Rightarrow> ma_state \<Rightarrow> (int \<times> ma_state) option" where
  "MA_inquire_heap_check_stack = inquire FID_MA_inquire_heap_check_stack ''MA_inquire_heap_check_stack''
     (\<lambda>d s. gap_or_frag (nelem_gap (ma_hp s)
        (min (u64 (ma_partition s - ma_hp s)) (u64 (ma_sp s - ma_hp s))) d s) d s)"

definition MA_inquire_heap_no_partition :: "int \<Rightarrow> ma_state \<Rightarrow> (int \<times> ma_state) option" where
  "MA_inquire_heap_no_partition = inquire FID_MA_inquire_heap_no_partition ''MA_inquire_heap_no_partition''
     (\<lambda>d s. gap_or_frag (nelem_gap (ma_hp s) (u64 (ma_sp s - ma_hp s)) d s) d s)"

definition MA_inquire_stack :: "int \<Rightarrow> ma_state \<Rightarrow> (int \<times> ma_state) option" where
  "MA_inquire_stack = inquire FID_MA_inquire_stack ''MA_inquire_stack''
     (\<lambda>d s. Some (nelem_gap (ma_partition s) (u64 (ma_sp s - ma_partition s)) d s))"

definition MA_inquire_stack_check_heap :: "int \<Rightarrow> ma_state \<Rightarrow> (int \<times> ma_state) option" where
  "MA_inquire_stack_check_heap = inquire FID_MA_inquire_stack_check_heap ''MA_inquire_stack_check_heap''
     (\<lambda>d s. Some (nelem_gap (ma_partition s)
        (min (u64 (ma_sp s - ma_partition s)) (u64 (ma_sp s - ma_hp s))) d s))"

definition MA_inquire_stack_no_partition :: "int \<Rightarrow> ma_state \<Rightarrow> (int \<times> ma_state) option" where
  "MA_inquire_stack_no_partition = inquire FID_MA_inquire_stack_no_partition ''MA_inquire_stack_no_partition''
     (\<lambda>d s. Some (nelem_gap (ma_hp s) (u64 (ma_sp s - ma_hp s)) d s))"

section \<open>Nothing changes\<close>

lemma inquire_wf:
  assumes wf: "ma_wf s L" and v: "mt_valid datatype"
  shows "\<exists>t. ma_wf t L \<and> stats_only s t \<and>
    inquire fid caller body datatype s = do { n \<leftarrow> body (mt_import datatype) t; Some (n, t) }"
proof -
  obtain t where t: "auto_verify (bump fid s) = Some (True, t)" "stats_only s t" "ma_wf t L"
    using prologue_wf [OF wf] by blast
  then show ?thesis using v ma_wfD(1) [OF t(3)] by (intro exI [of _ t]) (simp add: inquire_def)
qed

lemma inquire_quiet:
  assumes wf: "ma_wf s L" and run: "inquire fid caller body datatype s = Some (n, s')"
  shows "quiet s s'"
proof -
  obtain t where t: "auto_verify (bump fid s) = Some (True, t)" "stats_only s t" "ma_wf t L"
    using prologue_wf [OF wf] by blast
  have "s' = t \<or> quiet t s'"
    using run t(1) ma_wfD(1) [OF t(3)] quiet_error by (auto simp: inquire_def split: Option.bind_splits if_splits)
  then show ?thesis using quiet_stats [OF t(2)] quiet_trans by blast
qed

end
