(* ===== verification/MA_Steps.thy ===== *)
theory MA_Steps
  imports MA_Queries
begin

text \<open>
  Whole executions of the allocator: the calls a client can make, in any order and with any
  arguments, and the client's own writes. The calls are those of the library, unrestricted. What a client has to
  observe for its blocks to stay intact is stated apart (\<open>in_contract\<close>), call by call. The invariant holds after
  \<open>MA_init\<close> and is kept by every call within the contract.
\<close>

section \<open>Calls\<close>

text \<open>
  A heap block is where a request for it would be laid out now. A block is allocated this way;
  changing \<open>ma_numalign\<close> afterwards is what can end it.
\<close>

definition laid_out :: "ma_state \<Rightarrow> int \<Rightarrow> bool" where
  "laid_out s x \<longleftrightarrow> ad_client_space (ads s x) =
     fst (balloc_after \<lparr>ar_datatype = ad_datatype (ads s x), ar_nelem = ad_nelem (ads s x)\<rparr> x s)"

text \<open>A byte the client stores at an address of the client space of a live block.\<close>

definition in_client_space :: "ma_state \<Rightarrow> int \<Rightarrow> int \<Rightarrow> bool" where
  "in_client_space s x y \<longleftrightarrow> ad_client_space (ads s x) \<le> y \<and>
     y < ad_client_space (ads s x) + ad_nelem (ads s x) * sizeof_dt s (ad_datatype (ads s x))"

definition client_store :: "int \<Rightarrow> int \<Rightarrow> ma_state \<Rightarrow> ma_state" where
  "client_store y v s = s\<lparr>mem := (mem s)(y := v)\<rparr>"

datatype ma_call =
  Allocate_heap "int \<Rightarrow> bool" int int "string option"
| Alloc_get "int \<Rightarrow> bool" int int "string option"
| Push_stack "int \<Rightarrow> bool" int int "string option"
| Push_get "int \<Rightarrow> bool" int int "string option"
| Free_heap int
| Free_heap_piece int int
| Pop_stack int
| Chop_stack int
| Get_pointer int
| Get_index int
| Get_next_memhandle
| Init_memhandle_iterator
| Verify_allocator_stuff
| Inquire "int \<Rightarrow> ma_state \<Rightarrow> (int \<times> ma_state) option" int
| Init "int \<Rightarrow> int" int int int
| Initialized
| Sizeof int int int
| Sizeof_overhead int
| Get_mbase int
| Set_auto_verify bool
| Set_error_print bool
| Set_hard_fail bool
| Set_numalign int
| Get_numalign
| Trace bool
| Store int int

definition inquiries :: "(int \<Rightarrow> ma_state \<Rightarrow> (int \<times> ma_state) option) list" where
  "inquiries = [MA_inquire_avail, MA_inquire_heap, MA_inquire_heap_check_stack, MA_inquire_heap_no_partition,
     MA_inquire_stack, MA_inquire_stack_check_heap, MA_inquire_stack_no_partition]"

text \<open>
  A call that comes back takes one state to the next. The first argument of the allocations is \<open>malloc\<close> for the
  handle table, that of \<open>Init\<close> is \<open>malloc\<close> for the segment; \<open>Store\<close> is a write of one byte at any address.
\<close>

inductive ma_call_step :: "ma_call \<Rightarrow> ma_state \<Rightarrow> ma_state \<Rightarrow> bool" where
  allocate: "MA_allocate_heap f d n nm s = Some (ok, h, t) \<Longrightarrow> ma_call_step (Allocate_heap f d n nm) s t"
| alloc_get: "MA_alloc_get f d n nm s = Some (ok, h, i, t) \<Longrightarrow> ma_call_step (Alloc_get f d n nm) s t"
| push: "MA_push_stack f d n nm s = Some (ok, h, t) \<Longrightarrow> ma_call_step (Push_stack f d n nm) s t"
| push_get: "MA_push_get f d n nm s = Some (ok, h, i, t) \<Longrightarrow> ma_call_step (Push_get f d n nm) s t"
| free: "MA_free_heap h s = Some (ok, t) \<Longrightarrow> ma_call_step (Free_heap h) s t"
| piece: "MA_free_heap_piece h n s = Some (ok, t) \<Longrightarrow> ma_call_step (Free_heap_piece h n) s t"
| pop: "MA_pop_stack h s = Some (ok, t) \<Longrightarrow> ma_call_step (Pop_stack h) s t"
| chop: "MA_chop_stack h s = Some (ok, t) \<Longrightarrow> ma_call_step (Chop_stack h) s t"
| pointer: "MA_get_pointer h s = Some (ok, p, t) \<Longrightarrow> ma_call_step (Get_pointer h) s t"
| index: "MA_get_index h s = Some (ok, i, t) \<Longrightarrow> ma_call_step (Get_index h) s t"
| next_memhandle: "MA_get_next_memhandle s = Some (ok, t) \<Longrightarrow> ma_call_step Get_next_memhandle s t"
| iterator: "MA_init_memhandle_iterator s = Some (ok, t) \<Longrightarrow> ma_call_step Init_memhandle_iterator s t"
| verify: "MA_verify_allocator_stuff s = Some (ok, t) \<Longrightarrow> ma_call_step Verify_allocator_stuff s t"
| inquire: "f \<in> set inquiries \<Longrightarrow> f d s = Some (n, t) \<Longrightarrow> ma_call_step (Inquire f d) s t"
| init: "MA_init g d ns nh s = Some (ok, t) \<Longrightarrow> ma_call_step (Init g d ns nh) s t"
| initialized: "ma_call_step Initialized s (snd (MA_initialized s))"
| sizeof: "MA_sizeof d n e s = Some (k, t) \<Longrightarrow> ma_call_step (Sizeof d n e) s t"
| sizeof_overhead: "MA_sizeof_overhead d s = Some (k, t) \<Longrightarrow> ma_call_step (Sizeof_overhead d) s t"
| mbase: "MA_get_mbase d s = Some (k, t) \<Longrightarrow> ma_call_step (Get_mbase d) s t"
| set_auto_verify: "ma_call_step (Set_auto_verify v) s (snd (MA_set_auto_verify v s))"
| set_error_print: "ma_call_step (Set_error_print v) s (snd (MA_set_error_print v s))"
| set_hard_fail: "ma_call_step (Set_hard_fail v) s (snd (MA_set_hard_fail v s))"
| set_numalign: "MA_set_numalign n s = Some (ok, t) \<Longrightarrow> ma_call_step (Set_numalign n) s t"
| get_numalign: "ma_call_step Get_numalign s (snd (MA_get_numalign s))"
| trace: "ma_call_step (Trace v) s (MA_trace v s)"
| store: "ma_call_step (Store y v) s (client_store y v s)"

inductive_cases ma_call_stepE: "ma_call_step c s t"

text \<open>A run, with its calls and the states they were made in.\<close>

inductive ma_run :: "(ma_state \<times> ma_call) list \<Rightarrow> ma_state \<Rightarrow> ma_state \<Rightarrow> bool" where
  start: "ma_run [] s s"
| call: "ma_run tr s t \<Longrightarrow> ma_call_step c t u \<Longrightarrow> ma_run (tr @ [(t, c)]) s u"

text \<open>
  The contract of a call. A valid request is for at most \<open>2^61\<close> bytes (\<open>request_ok\<close>), and the handle table has a
  handle for it, growing if need be. A piece is returned from a block that is laid out as the present alignment
  would lay it out. A byte is stored in the client space of a live block. All other calls are free of conditions.
  The program does not check the first two, and goes wrong without them: \<open>MA_allocate_heap_wraps\<close> shows a request
  that is too large; without a handle the block stays in use for good.
\<close>

definition grants :: "ma_state \<Rightarrow> int \<Rightarrow> int \<Rightarrow> bool" where
  "grants s d n \<longleftrightarrow> (mt_valid d \<and> 0 \<le> n \<longrightarrow> request_ok s (mt_import d) n)"

fun in_contract :: "ma_state \<Rightarrow> ma_call \<Rightarrow> bool" where
  "in_contract s (Allocate_heap f d n nm) \<longleftrightarrow> grants s d n \<and>
     (\<forall>ok h t. MA_allocate_heap f d n nm s = Some (ok, h, t) \<longrightarrow> h \<noteq> Some TABLE_HANDLE_NONE)"
| "in_contract s (Alloc_get f d n nm) \<longleftrightarrow> grants s d n \<and>
     (\<forall>ok h i t. MA_alloc_get f d n nm s = Some (ok, h, i, t) \<longrightarrow> h \<noteq> Some TABLE_HANDLE_NONE)"
| "in_contract s (Push_stack f d n nm) \<longleftrightarrow> grants s d n \<and>
     (\<forall>ok h t. MA_push_stack f d n nm s = Some (ok, h, t) \<longrightarrow> h \<noteq> Some TABLE_HANDLE_NONE)"
| "in_contract s (Push_get f d n nm) \<longleftrightarrow> grants s d n \<and>
     (\<forall>ok h i t. MA_push_get f d n nm s = Some (ok, h, i, t) \<longrightarrow> h \<noteq> Some TABLE_HANDLE_NONE)"
| "in_contract s (Free_heap_piece h n) \<longleftrightarrow> (\<forall>x. table_map s h = Some x \<longrightarrow> laid_out s x)"
| "in_contract s (Store y v) \<longleftrightarrow> (\<exists>h x. table_map s h = Some x \<and> in_client_space s x y)"
| "in_contract s _ \<longleftrightarrow> True"

definition contract_run :: "(ma_state \<times> ma_call) list \<Rightarrow> bool" where
  "contract_run tr \<longleftrightarrow> (\<forall>(s, c)\<in>set tr. in_contract s c)"

section \<open>Every step keeps the invariant\<close>

lemma balloc_after_fst:
  "fst (balloc_after \<lparr>ar_datatype = d, ar_nelem = n\<rparr> a s) = fst (balloc_after \<lparr>ar_datatype = d, ar_nelem = n'\<rparr> a s)"
  by (simp add: balloc_after_def Let_def)

lemma table_upd_simps [simp]:
  "table_map (s\<lparr>mem := m\<rparr>) = table_map s" "table_inv (s\<lparr>mem := m\<rparr>) = table_inv s"
  "table_map (s\<lparr>ma_auto_verify := v\<rparr>) = table_map s" "table_inv (s\<lparr>ma_auto_verify := v\<rparr>) = table_inv s"
  "table_map (s\<lparr>ma_error_print := v\<rparr>) = table_map s" "table_inv (s\<lparr>ma_error_print := v\<rparr>) = table_inv s"
  "table_map (s\<lparr>ma_hard_fail := v\<rparr>) = table_map s" "table_inv (s\<lparr>ma_hard_fail := v\<rparr>) = table_inv s"
  "table_map (s\<lparr>ma_numalign := n\<rparr>) = table_map s" "table_inv (s\<lparr>ma_numalign := n\<rparr>) = table_inv s"
  "table_map (s\<lparr>ma_preinitialized := v\<rparr>) = table_map s" "table_inv (s\<lparr>ma_preinitialized := v\<rparr>) = table_inv s"
  "table_map (s\<lparr>ma_trace := v\<rparr>) = table_map s" "table_inv (s\<lparr>ma_trace := v\<rparr>) = table_inv s"
  by (simp_all add: table_map_def table_inv_def fun_eq_iff)

text \<open>A setting changes nothing that the invariant reads, but the alignment, which must be in range.\<close>

lemma ma_wf_setting:
  assumes wf: "ma_wf s L" and v: "same_view s s'" and tb: "table_map s' = table_map s" "table_inv s' = table_inv s"
    and p: "ma_initialized s' = ma_initialized s" "ma_segment s' = ma_segment s" "ma_eos s' = ma_eos s"
      "ma_hp s' = ma_hp s" "ma_sp s' = ma_sp s" and n: "0 \<le> ma_numalign s'" "ma_numalign s' \<le> 30"
  shows "ma_wf s' L"
proof -
  have "sizes_ok s'" using ma_wfD(2) [OF wf] v n by (simp add: sizes_ok_def same_view_def)
  then show ?thesis using ma_wfD [OF wf] ma_wf_eos [OF wf] tb p same_viewD [OF v] by (simp add: ma_wf_def)
qed

lemma same_view_settings [simp]:
  "same_view s (s\<lparr>ma_auto_verify := v\<rparr>)" "same_view s (s\<lparr>ma_error_print := v\<rparr>)"
  "same_view s (s\<lparr>ma_hard_fail := v\<rparr>)" "same_view s (s\<lparr>ma_numalign := n\<rparr>)"
  "same_view s (s\<lparr>ma_preinitialized := v\<rparr>)" "same_view s (s\<lparr>ma_trace := v\<rparr>)"
  unfolding same_view_def by (auto, (case_tac l; simp)+)

lemma ma_wf_settings [simp]:
  assumes "ma_wf s L"
  shows "ma_wf (s\<lparr>ma_auto_verify := v\<rparr>) L" "ma_wf (s\<lparr>ma_error_print := v\<rparr>) L"
    "ma_wf (s\<lparr>ma_hard_fail := v\<rparr>) L" "0 \<le> n \<Longrightarrow> n \<le> 30 \<Longrightarrow> ma_wf (s\<lparr>ma_numalign := n\<rparr>) L"
    "ma_wf (s\<lparr>ma_preinitialized := v\<rparr>) L" "ma_wf (s\<lparr>ma_trace := v\<rparr>) L"
  using ma_wfD(2) [OF assms] by (auto intro!: ma_wf_setting [OF assms] simp: sizes_ok_def)

lemma ma_wf_store:
  assumes wf: "ma_wf s L" and x: "x \<in> used_blocks L" and y: "in_client_space s x y"
  shows "ma_wf (client_store y v s) L"
    and "a \<in> used_blocks L \<Longrightarrow> a \<noteq> x \<Longrightarrow> same_block s (client_store y v s) a"
proof -
  let ?s = "client_store y v s"
  obtain l where l: "x \<in> set (L l)" using x by (auto simp: used_blocks_def)
  have B: "block_ok s x" using ma_wfD(9) [OF wf x] .
  let ?c = "ad_client_space (ads s x)" and ?k = "ad_nelem (ads s x) * sizeof_dt s (ad_datatype (ads s x))"
  have b: "x + 84 \<le> ?c" "?c + ?k + 4 \<le> x + nbytes_of s x" "?c \<le> y" "y < ?c + ?k"
    using B y by (auto simp: block_ok_def Let_def nbytes_of_def in_client_space_def)
  have r: "x + nbytes_of s x < 18446744073709551616" "0 < x"
    using ma_wf_block [OF wf l] ma_wfD(5) [OF wf] by auto
  show same: "same_block s ?s a" if a: "a \<in> used_blocks L" "a \<noteq> x" for a
  proof -
    obtain l' where l': "a \<in> set (L l')" using a by (auto simp: used_blocks_def)
    have "a + nbytes_of s a \<le> x \<or> x + nbytes_of s x \<le> a"
      using ma_wf_apart [OF wf l l'] ma_wf_apart [OF wf l' l] a by (cases "a < x") auto
    then show ?thesis using b by (auto simp: same_block_def client_store_def)
  qed
  have g: "guard1 s x = ?c - 4" "guard2 s x = ?c + ?k"
    using b r by (auto simp: guard1_def guard2_def sizeof_Guard_def intro!: u64_id)
  have g': "guard1 ?s x = guard1 s x" "guard2 ?s x = guard2 s x"
    by (simp_all add: guard1_def guard2_def client_store_def sizeof_dt_def)
  have "guard_check x ?s = guard_check x s" unfolding guard_check_def g' g guard_read_def
    using b by (auto simp: client_store_def)
  then have Bx: "block_ok ?s x" using B
    by (simp add: block_ok_def Let_def client_store_def sizeof_dt_def base_dt_def)
  have fx: "fixed_parts s ?s" by (simp add: fixed_parts_def client_store_def)
  have n: "nbytes_of ?s = nbytes_of s" by (auto simp: nbytes_of_def client_store_def)
  show "ma_wf ?s L"
  proof (rule ma_wf_step [OF wf fx])
    show "lists_are ?s L"
    proof (rule lists_are_cong [OF ma_wfD(6) [OF wf]])
      show "get_list l ?s = get_list l s" for l by (cases l) (simp_all add: client_store_def)
      show "next_of y ?s = next_of y s" for y by (simp add: next_of_def client_store_def)
    qed
    show "block_ok ?s a \<or> a \<in> used_blocks L \<and> same_block s ?s a" if "a \<in> used_blocks L" for a
      using Bx same that by (cases "a = x") auto
  qed (use ma_wfD [OF wf] n in \<open>simp_all add: client_store_def\<close>)
qed

definition ma_inv :: "ma_state \<Rightarrow> bool" where
  "ma_inv s \<longleftrightarrow> (\<exists>L. ma_wf s L)"

lemma quiet_inv: "quiet s s' \<Longrightarrow> ma_wf s L \<Longrightarrow> ma_inv s'"
  using quiet_wf by (auto simp: ma_inv_def)

lemma lookup_quiet:
  assumes wf: "ma_wf s L"
    and run: "do { (ok, s) \<leftarrow> auto_verify (bump f s);
        if \<not> ok then Some (False, None, s)
        else do { (ad, s) \<leftarrow> mh2ad h BL_HeapOrStack caller s;
                  case ad of None \<Rightarrow> Some (False, None, s) | Some ad \<Rightarrow> Some (True, Some (g s ad), s) } } = Some (r, p, s')"
  shows "quiet s s'"
proof -
  obtain t where t: "auto_verify (bump f s) = Some (True, t)" "stats_only s t" "ma_wf t L"
    using prologue_wf [OF wf] by blast
  obtain ad u where u: "mh2ad h BL_HeapOrStack caller t = Some (ad, u)"
    using run t(1) by (auto split: Option.bind_splits)
  have "s' = u" using run t(1) u by (cases ad) auto
  moreover have "quiet t u"
  proof (cases "table_map t h")
    case None
    then show ?thesis using mh2ad_quiet [OF t(3) u] by auto
  next
    case (Some a)
    then have "u = t" using mh2ad_wf(1) [OF t(3) Some] u by (simp add: in_place_def)
    then show ?thesis using quiet_log [of t "stderr_log t"] by simp
  qed
  ultimately show ?thesis using quiet_trans [OF quiet_stats [OF t(2)]] by blast
qed

lemma free_heap_piece_inv:
  assumes wf: "ma_wf s L" and run: "MA_free_heap_piece h n s = Some (ok, s')" and lay: "\<forall>x. table_map s h = Some x \<longrightarrow> laid_out s x"
  shows "ma_inv s'"
proof (cases "0 \<le> n \<and> (\<exists>a. table_map s h = Some a \<and> a \<in> set (L HUsed))")
  case False
  then show ?thesis using MA_free_heap_piece_fail [OF wf run] quiet_inv [OF _ wf] by auto
next
  case True
  then obtain x where x: "0 \<le> n" "table_map s h = Some x" "x \<in> set (L HUsed)" by blast
  show ?thesis
  proof (cases "n < ad_nelem (ads s x)")
    case True
    then show ?thesis
      using MA_free_heap_piece_shrink [OF wf x(2,3,1) True] run lay x
        balloc_after_fst [of "ad_datatype (ads s x)" "ad_nelem (ads s x) - n" x s "ad_nelem (ads s x)"]
      by (auto simp: laid_out_def shrunk_def ma_inv_def)
  next
    case False
    then show ?thesis using MA_free_heap_piece_all [OF wf x(2,3), of n] run by (auto simp: released_def ma_inv_def)
  qed
qed

lemma pop_stack_inv:
  assumes wf: "ma_wf s L" and run: "MA_pop_stack h s = Some (ok, s')"
  shows "ma_inv s'"
proof (cases "table_map s h = Some (ma_sp s) \<and> ma_sp s \<in> set (L SUsed)")
  case True
  then have "table_map s h = Some (ma_sp s)" "L SUsed \<noteq> []" by auto
  from MA_pop_stack_ok [OF wf this] run show ?thesis by (auto simp: released_def ma_inv_def)
qed (use MA_pop_stack_fail [OF wf run] quiet_inv [OF _ wf] in auto)

lemma settings_inv:
  assumes "ma_wf s L"
  shows "ma_inv (snd (MA_set_auto_verify v s))" "ma_inv (snd (MA_set_error_print v s))" "ma_inv (snd (MA_set_hard_fail v s))"
proof -
  have wb: "ma_wf (bump f s) L" for f using assms by simp
  show "ma_inv (snd (MA_set_auto_verify v s))" using ma_wf_settings(1) [OF wb] unfolding MA_set_auto_verify_def ma_inv_def snd_conv by blast
  show "ma_inv (snd (MA_set_error_print v s))" using ma_wf_settings(2) [OF wb] unfolding MA_set_error_print_def ma_inv_def snd_conv by blast
  show "ma_inv (snd (MA_set_hard_fail v s))" using ma_wf_settings(3) [OF wb] unfolding MA_set_hard_fail_def ma_inv_def snd_conv by blast
qed

lemma set_numalign_inv:
  assumes "ma_wf s L" and run: "MA_set_numalign v s = Some (ok, s')"
  shows "ma_inv s'"
proof -
  have wb: "ma_wf (bump FID_MA_set_numalign s) L" using assms(1) by simp
  show ?thesis
  proof (cases "v < 0 \<or> v > 30")
    case True
    then have "quiet (bump FID_MA_set_numalign s) s'"
      using run quiet_error by (auto simp: MA_set_numalign_def split: Option.bind_splits)
    then show ?thesis using quiet_inv wb by blast
  next
    case False
    then show ?thesis using run ma_wf_settings(4) [OF wb, of v] by (auto simp: MA_set_numalign_def ma_inv_def)
  qed
qed

text \<open>The sizes of the datatypes are determined once; in an initialized allocator nothing else happens then.\<close>

lemma inform_bases_quiet: "ma_initialized s \<Longrightarrow> inform_bases d fb s = Some t \<Longrightarrow> quiet s t"
proof (induction d fb s rule: inform_bases.induct)
  case (1 d s)
  then show ?case using quiet_log [of s "stderr_log s"] by simp
next
  case (2 d a1 a2 rest s)
  then obtain u where u: "ma_error EL_Nonfatal ET_Internal ''MAi_inform_base'' s = Some u" "inform_bases (d + 1) rest u = Some t"
    by (auto simp: MAi_inform_base_def split: Option.bind_splits)
  have q: "quiet s u" using quiet_error u(1) .
  then have "ma_initialized u" using "2.prems"(1) by (auto simp: quiet_def)
  then have "quiet u t" using "2.IH" [of "(False, u)" False u] u "2.prems"(1) by (simp add: MAi_inform_base_def)
  then show ?case using q quiet_trans by blast
qed

lemma ma_preinitialize_wf:
  assumes wf: "ma_wf s L" and run: "ma_preinitialize caller s = Some t"
  shows "ma_wf t L"
proof (cases "ma_preinitialized s")
  case False
  then obtain u where u: "inform_bases (MT_BASE + 9) (take 7 (ma_fb s)) s = Some u" "t = u\<lparr>ma_preinitialized := True\<rparr>"
    using run by (auto simp: ma_preinitialize_def ma_set_sizes_def split: Option.bind_splits)
  have "ma_wf u L" using inform_bases_quiet [OF ma_wfD(1) [OF wf] u(1)] quiet_wf wf by blast
  then show ?thesis unfolding u(2) by (rule ma_wf_settings(5))
qed (use assms in \<open>simp add: ma_preinitialize_def\<close>)

lemma sizing_inv:
  assumes wf: "ma_wf s L"
  shows "MA_init g d ns nh s = Some (ok, t) \<Longrightarrow> ma_inv t" "MA_sizeof d n e s = Some (k, t) \<Longrightarrow> ma_inv t"
    "MA_sizeof_overhead d s = Some (k, t) \<Longrightarrow> ma_inv t" "MA_get_mbase d s = Some (k, t) \<Longrightarrow> ma_inv t"
proof -
  obtain p :: "FID \<Rightarrow> ma_state" where p: "auto_verify (bump f s) = Some (True, p f)" "ma_wf (p f) L" for f
    using prologue_wf [OF wf] by metis
  have err: "ma_inv v" if "ma_error l e c u = Some v" "ma_wf u L" for u v :: ma_state and l e c
    using that quiet_inv quiet_error by blast
  have wfi: "ma_inv u" "ma_initialized u" if "ma_wf u L" for u using that ma_wfD(1) by (auto simp: ma_inv_def)
  have wb: "ma_wf (bump f s) L" for f using wf by simp
  note pre = ma_preinitialize_wf [OF p(2)] and b = ma_preinitialize_wf [OF wb]
  show "ma_inv t" if "MA_init g d ns nh s = Some (ok, t)"
    using that p(1) wfi by (auto dest!: pre err simp: MA_init_def split: Option.bind_splits if_splits)
  show "ma_inv t" if "MA_sizeof d n e s = Some (k, t)"
    using that p(1) wfi by (auto dest!: pre err simp: MA_sizeof_def Let_def split: Option.bind_splits if_splits)
  show "ma_inv t" if "MA_sizeof_overhead d s = Some (k, t)"
    using that p(1) wfi by (auto dest!: pre err simp: MA_sizeof_overhead_def Let_def split: Option.bind_splits if_splits)
  show "ma_inv t" if "MA_get_mbase d s = Some (k, t)"
    using that wf wfi by (auto dest!: b err simp: MA_get_mbase_def split: Option.bind_splits if_splits)
qed

text \<open>The iterators over handles are not available in this version: the calls fail.\<close>

lemma handle_iterators_inv:
  assumes wf: "ma_wf s L"
  shows "MA_get_next_memhandle s = Some (ok, t) \<Longrightarrow> ma_inv t" "MA_init_memhandle_iterator s = Some (ok, t) \<Longrightarrow> ma_inv t"
proof -
  obtain p :: "FID \<Rightarrow> ma_state" where p: "auto_verify (bump f s) = Some (True, p f)" "ma_wf (p f) L" for f
    using prologue_wf [OF wf] by metis
  have err: "ma_inv v" if "ma_error l e c u = Some v" "ma_wf u L" for u v :: ma_state and l e c
    using that quiet_inv quiet_error by blast
  show "ma_inv t" if "MA_get_next_memhandle s = Some (ok, t)"
    using that p by (auto dest!: err simp: MA_get_next_memhandle_def split: Option.bind_splits)
  show "ma_inv t" if "MA_init_memhandle_iterator s = Some (ok, t)"
    using that p by (auto dest!: err simp: MA_init_memhandle_iterator_def split: Option.bind_splits)
qed

lemma inquiries_inv:
  assumes "ma_wf s L" "f \<in> set inquiries" "f d s = Some (n, t)"
  shows "ma_inv t"
proof -
  obtain fid caller body where "f = inquire fid caller body"
    using assms(2) unfolding inquiries_def MA_inquire_avail_def MA_inquire_heap_def MA_inquire_heap_check_stack_def
      MA_inquire_heap_no_partition_def MA_inquire_stack_def MA_inquire_stack_check_heap_def MA_inquire_stack_no_partition_def by auto
  then show ?thesis using inquire_quiet [OF assms(1)] assms(3) quiet_inv [OF _ assms(1)] by blast
qed

lemma lookups_inv:
  assumes wf: "ma_wf s L"
  shows "MA_get_pointer h s = Some (ok, p, t) \<Longrightarrow> ma_inv t" "MA_get_index h s = Some (ok, p, t) \<Longrightarrow> ma_inv t"
proof -
  show "ma_inv t" if "MA_get_pointer h s = Some (ok, p, t)"
  proof -
    have "quiet s t" by (intro lookup_quiet [OF wf]) (use that in \<open>simp add: MA_get_pointer_def\<close>)
    then show ?thesis using quiet_inv wf by blast
  qed
  show "ma_inv t" if "MA_get_index h s = Some (ok, p, t)"
  proof -
    have "quiet s t" by (intro lookup_quiet [OF wf]) (use that in \<open>simp add: MA_get_index_def\<close>)
    then show ?thesis using quiet_inv wf by blast
  qed
qed

text \<open>Allocation, alone or with the index of the new block.\<close>

lemma allocate_inv:
  assumes wf: "ma_wf s L" and g: "grants s d n" and h: "h \<noteq> Some TABLE_HANDLE_NONE"
  shows "MA_allocate_heap f d n nm s = Some (ok, h, t) \<Longrightarrow> ma_inv t" "MA_push_stack f d n nm s = Some (ok, h, t) \<Longrightarrow> ma_inv t"
proof -
  note r = g [unfolded grants_def]
  show "ma_inv t" if "MA_allocate_heap f d n nm s = Some (ok, h, t)"
    using MA_allocate_heap_cases [OF wf that r] h quiet_inv [OF _ wf] by (auto simp: ma_inv_def allocated_def)
  show "ma_inv t" if "MA_push_stack f d n nm s = Some (ok, h, t)"
    using MA_push_stack_cases [OF wf that r] h quiet_inv [OF _ wf] by (auto simp: ma_inv_def allocated_def)
qed

lemma with_index:
  assumes "do { (ok, hh, s) \<leftarrow> m; case (ok, hh) of (True, Some k) \<Rightarrow> do { (ok, i, s) \<leftarrow> MA_get_index k s; Some (ok, hh, i, s) }
      | _ \<Rightarrow> Some (False, hh, None, s) } = Some (ok, h, i, t)"
  obtains ok' u where "m = Some (ok', h, u)" "u = t \<or> (\<exists>k ok. MA_get_index k u = Some (ok, i, t))"
proof -
  from assms obtain ok' hh u where m: "m = Some (ok', hh, u)" by (cases m) auto
  show thesis
  proof (cases "ok' \<and> hh \<noteq> None")
    case True
    then have "hh = h \<and> (\<exists>k ok. MA_get_index k u = Some (ok, i, t))"
      using assms m by (auto simp: case_prod_beta bind_eq_Some_conv simp del: ex_bool_eq) (cases ok; blast)
    then show thesis using that m by blast
  next
    case False
    then have "hh = h \<and> u = t" using assms m by (cases ok'; cases hh) auto
    then show thesis using that m by blast
  qed
qed

lemma allocate_get_inv:
  assumes wf: "ma_wf s L" and g: "grants s d n" and h: "h \<noteq> Some TABLE_HANDLE_NONE"
  shows "MA_alloc_get f d n nm s = Some (ok, h, i, t) \<Longrightarrow> ma_inv t" "MA_push_get f d n nm s = Some (ok, h, i, t) \<Longrightarrow> ma_inv t"
proof -
  have wb: "ma_wf (bump fid s) L" "grants (bump fid s) d n" for fid using wf g by (simp_all add: grants_def request_ok_def sizeof_dt_def bump_def)
  show "ma_inv t" if a: "MA_alloc_get f d n nm s = Some (ok, h, i, t)"
  proof -
    obtain ok' u where u: "MA_allocate_heap f d n nm (bump FID_MA_alloc_get s) = Some (ok', h, u)"
      "u = t \<or> (\<exists>hh ok. MA_get_index hh u = Some (ok, i, t))"
      using a unfolding MA_alloc_get_def by (rule with_index)
    then have "ma_inv u" using allocate_inv(1) [OF wb h] by blast
    then show ?thesis using u(2) lookups_inv(2) by (auto simp: ma_inv_def)
  qed
  show "ma_inv t" if a: "MA_push_get f d n nm s = Some (ok, h, i, t)"
  proof -
    obtain ok' u where u: "MA_push_stack f d n nm (bump FID_MA_push_get s) = Some (ok', h, u)"
      "u = t \<or> (\<exists>hh ok. MA_get_index hh u = Some (ok, i, t))"
      using a unfolding MA_push_get_def by (rule with_index)
    then have "ma_inv u" using allocate_inv(2) [OF wb h] by blast
    then show ?thesis using u(2) lookups_inv(2) by (auto simp: ma_inv_def)
  qed
qed

lemma free_heap_inv:
  assumes wf: "ma_wf s L" and run: "MA_free_heap h s = Some (ok, t)"
  shows "ma_inv t"
  using MA_free_heap_ok [OF wf, of h] MA_free_heap_fail [OF wf run] quiet_inv [OF _ wf] run
  by (cases "\<exists>a. table_map s h = Some a \<and> a \<in> set (L HUsed)") (auto simp: ma_inv_def released_def)

lemma chop_stack_inv:
  assumes wf: "ma_wf s L" and run: "MA_chop_stack h s = Some (ok, t)"
  shows "ma_inv t"
  using MA_chop_stack_ok [OF wf, of h] MA_chop_stack_fail [OF wf run] quiet_inv [OF _ wf] run
  by (cases "\<exists>a. table_map s h = Some a \<and> a \<in> set (L SUsed)") (auto simp: ma_inv_def released_def)

lemma ma_call_inv:
  assumes "ma_call_step c s t" "in_contract s c" "ma_inv s"
  shows "ma_inv t"
proof -
  obtain L where wf: "ma_wf s L" using assms(3) by (auto simp: ma_inv_def)
  from assms(1) show ?thesis
  proof cases
    case (allocate f d n nm ok h)
    then show ?thesis using allocate_inv(1) [OF wf] assms(2) by auto
  next
    case (alloc_get f d n nm ok h i)
    then show ?thesis using allocate_get_inv(1) [OF wf] assms(2) by auto
  next
    case (push f d n nm ok h)
    then show ?thesis using allocate_inv(2) [OF wf] assms(2) by auto
  next
    case (push_get f d n nm ok h i)
    then show ?thesis using allocate_get_inv(2) [OF wf] assms(2) by auto
  next
    case (piece h n ok)
    then show ?thesis using free_heap_piece_inv [OF wf piece(2)] assms(2) by simp
  next
    case (free h ok)
    then show ?thesis by (intro free_heap_inv [OF wf])
  next
    case (pop h ok)
    then show ?thesis by (intro pop_stack_inv [OF wf])
  next
    case (chop h ok)
    then show ?thesis by (intro chop_stack_inv [OF wf])
  next
    case (pointer h ok p)
    then show ?thesis by (intro lookups_inv(1) [OF wf])
  next
    case (index h ok i)
    then show ?thesis by (intro lookups_inv(2) [OF wf])
  next
    case (next_memhandle ok)
    then show ?thesis by (intro handle_iterators_inv(1) [OF wf])
  next
    case (iterator ok)
    then show ?thesis by (intro handle_iterators_inv(2) [OF wf])
  next
    case (init g d ns nh ok)
    then show ?thesis by (intro sizing_inv(1) [OF wf])
  next
    case (sizeof d n e k)
    then show ?thesis by (intro sizing_inv(2) [OF wf])
  next
    case (sizeof_overhead d k)
    then show ?thesis by (intro sizing_inv(3) [OF wf])
  next
    case (mbase d k)
    then show ?thesis by (intro sizing_inv(4) [OF wf])
  next
    case (set_numalign n ok)
    then show ?thesis by (intro set_numalign_inv [OF wf])
  next
    case (inquire f d n)
    then show ?thesis by (intro inquiries_inv [OF wf])
  next
    case (set_auto_verify v)
    then show ?thesis using settings_inv(1) [OF wf] by simp
  next
    case (set_error_print v)
    then show ?thesis using settings_inv(2) [OF wf] by simp
  next
    case (set_hard_fail v)
    then show ?thesis using settings_inv(3) [OF wf] by simp
  next
    case (verify ok)
    then show ?thesis using verify_wf [OF wf] wf by (auto simp: ma_inv_def)
  next
    case initialized
    then show ?thesis using wf by (auto simp: ma_inv_def MA_initialized_def)
  next
    case get_numalign
    then show ?thesis using wf by (auto simp: ma_inv_def MA_get_numalign_def)
  next
    case (trace v)
    then show ?thesis using ma_wf_settings(6) [OF wf] unfolding ma_inv_def MA_trace_def by blast
  next
    case (store y v)
    then obtain h x where x: "table_map s h = Some x" "in_client_space s x y" using assms(2) by auto
    then have "x \<in> used_blocks L" using mh2ad_wf(2) [OF wf] by blast
    with store(2) x(2) ma_wf_store(1) [OF wf] show ?thesis by (auto simp: ma_inv_def)
  qed
qed

lemma ma_run_inv: "ma_run tr s t \<Longrightarrow> contract_run tr \<Longrightarrow> ma_inv s \<Longrightarrow> ma_inv t"
  by (induction rule: ma_run.induct) (auto simp: contract_run_def intro: ma_call_inv)

section \<open>Initialization\<close>

text \<open>
  What the allocator relies on: the FORTRAN base arrays, whose element sizes the addresses of their
  first two elements give, and the system's allocator, which gives memory inside the address space
  of a process or none (a block of \<open>n\<close> bytes ends below \<open>2^61\<close>; processes have \<open>2^57\<close> bytes at most).
\<close>

definition fortran_bases_ok :: "(int \<times> int) list \<Rightarrow> bool" where
  "fortran_bases_ok fb \<longleftrightarrow> length fb = 7 \<and> (\<forall>(a, b)\<in>set fb. 0 < b - a \<and> (b - a) dvd 64)"

definition segment_ok :: "(int \<Rightarrow> int) \<Rightarrow> bool" where
  "segment_ok get_segment \<longleftrightarrow> (\<forall>n. 0 \<le> n \<and> get_segment n \<noteq> 0 \<longrightarrow>
     0 < get_segment n \<and> get_segment n + n < 2305843009213693952)"

lemma inform_step:
  assumes "\<not> ma_initialized s" "mt_valid d" "0 < b - a" "(b - a) dvd 64"
  shows "MAi_inform_base d a b s = Some (True, s\<lparr>ma_base := (ma_base s)[nat (mt_import d) := a],
     ma_sizeof := (ma_sizeof s)[nat (mt_import d) := b - a]\<rparr>)"
proof -
  have "b - a \<le> 64" using assms(4) by (rule zdvd_imp_le) simp
  then have "s32 (b - a) = b - a" using assms(3) by (intro s32_id) auto
  then show ?thesis using assms(1,2) by (simp add: MAi_inform_base_def Let_def)
qed

lemma inform_bases_ok:
  assumes "\<not> ma_initialized s" "\<forall>(a, b)\<in>set fb. 0 < b - a \<and> (b - a) dvd 64"
    and "1000 \<le> d" "d + int (length fb) \<le> 1017" "length (ma_sizeof s) = 17"
  shows "\<exists>B Z. inform_bases d fb s = Some (s\<lparr>ma_base := B, ma_sizeof := Z\<rparr>) \<and>
    length B = length (ma_base s) \<and> length Z = 17 \<and>
    (\<forall>i<17. 0 < Z ! i \<and> Z ! i dvd 64 \<or>
       Z ! i = ma_sizeof s ! i \<and> (int i < d - 1000 \<or> d - 1000 + int (length fb) \<le> int i))"
  using assms
proof (induction fb arbitrary: d s)
  case Nil
  then show ?case by (intro exI [of _ "ma_base s"] exI [of _ "ma_sizeof s"]) auto
next
  case (Cons p fb)
  obtain a b where p: "p = (a, b)" by force
  let ?i = "nat (mt_import d)"
  let ?s = "s\<lparr>ma_base := (ma_base s)[?i := a], ma_sizeof := (ma_sizeof s)[?i := b - a]\<rparr>"
  have v: "mt_valid d" using Cons.prems by (simp add: mt_valid_def MT_FIRST_def MT_LAST_def MT_BASE_def)
  have ab: "0 < b - a" "(b - a) dvd 64" using Cons.prems p by auto
  have 1: "MAi_inform_base d a b s = Some (True, ?s)" using Cons.prems ab by (intro inform_step v) auto
  obtain B Z where Z: "inform_bases (d + 1) fb ?s = Some (?s\<lparr>ma_base := B, ma_sizeof := Z\<rparr>)"
    "length B = length (ma_base s)" "length Z = 17"
    "\<And>i. i < 17 \<Longrightarrow> 0 < Z ! i \<and> Z ! i dvd 64 \<or> Z ! i = (ma_sizeof s)[?i := b - a] ! i \<and>
       (int i < d + 1 - 1000 \<or> d + 1 - 1000 + int (length fb) \<le> int i)"
    using Cons.IH [of ?s "d + 1"] Cons.prems by fastforce
  have "0 < Z ! i \<and> Z ! i dvd 64 \<or> Z ! i = ma_sizeof s ! i \<and>
      (int i < d - 1000 \<or> d - 1000 + int (length (p # fb)) \<le> int i)" if "i < 17" for i
    using Z(4) [OF that] ab Cons.prems(3,5) that
    by (cases "i = ?i") (auto simp: mt_import_def MT_BASE_def)
  moreover have "inform_bases d (p # fb) s = Some (s\<lparr>ma_base := B, ma_sizeof := Z\<rparr>)" using 1 Z(1) p by simp
  ultimately show ?case using Z(2,3) by blast
qed

lemma MA_init_inv:
  assumes fb: "fortran_bases_ok fb" and cb: "length cb = 10" and seg: "segment_ok get_segment"
    and run: "MA_init get_segment datatype nominal_stack nominal_heap (ma_static cb fb A m) = Some (True, s)"
  shows "ma_wf s (\<lambda>_. [])"
proof -
  let ?s0 = "bump FID_MA_init (ma_static cb fb A m)"
  have v: "auto_verify ?s0 = Some (True, ?s0)" by (simp add: auto_verify_def bump_def ma_static_def)
  have i0: "\<not> ma_initialized ?s0" "ma_fb ?s0 = fb" "\<not> ma_preinitialized ?s0" "length (ma_sizeof ?s0) = 17"
    "length (ma_base ?s0) = 17" "ma_numalign ?s0 = 0"
    using cb by (simp_all add: bump_def ma_static_def)
  obtain B Z where Z: "inform_bases 1009 fb ?s0 = Some (?s0\<lparr>ma_base := B, ma_sizeof := Z\<rparr>)"
    "length B = 17" "length Z = 17"
    "\<And>i. i < 17 \<Longrightarrow> 0 < Z ! i \<and> Z ! i dvd 64 \<or> Z ! i = ma_sizeof ?s0 ! i \<and> (int i < 9 \<or> 16 \<le> int i)"
    using inform_bases_ok [OF i0(1) _ _ _ i0(4), of fb 1009] fb i0(5) by (auto simp: fortran_bases_ok_def)
  define t where "t = ?s0\<lparr>ma_base := B, ma_sizeof := Z, ma_preinitialized := True\<rparr>"
  have "take 7 fb = fb" using fb by (simp add: fortran_bases_ok_def)
  then have pre: "ma_preinitialize ''MA_init'' ?s0 = Some t"
    using i0 Z(1) by (simp add: ma_preinitialize_def ma_set_sizes_def t_def MT_BASE_def)
  have "0 < Z ! i \<and> Z ! i dvd 64" if "i < 17" for i
  proof -
    have "i \<in> {0, 1, 2, 3, 4, 5, 6, 7, 8, 16}" if "i < 9 \<or> 16 \<le> i" using that \<open>i < 17\<close> by auto
    then show ?thesis using Z(4) [OF that] by (auto simp: bump_def ma_static_def)
  qed
  then have sz: "sizes_ok t" unfolding sizes_ok_def using Z(2,3) i0(6)
    by (auto simp: t_def in_set_conv_nth)
  have t: "\<not> ma_initialized t" "table_inv t"
    by (simp_all add: t_def bump_def ma_static_def table_inv_def num_allocated_def)
  define hb sb where "hb = region_bytes nominal_heap DEFAULT_TOTAL_HEAP (mt_import datatype) t"
    and "sb = region_bytes nominal_stack DEFAULT_TOTAL_STACK (mt_import datatype) t"
  define n g where "n = u64 (hb + sb)" and "g = get_segment n"
  have g0: "g \<noteq> 0" and s: "s = t\<lparr>ma_segment := g, ma_partition := u64 (g + hb), ma_eos := u64 (g + n), ma_hp := g,
      ma_sp := u64 (g + n), ma_hfree := 0, ma_hused := 0, ma_sused := 0, ma_initialized := True\<rparr>"
    using run pre v t(1)
    by (auto simp: MA_init_def Let_def g_def n_def hb_def sb_def split: if_splits Option.bind_splits)
  have n: "0 \<le> n" by (simp add: n_def)
  have g: "0 < g" "g + n < 2305843009213693952" using seg n g0 by (auto simp: segment_ok_def g_def)
  have u: "u64 (g + n) = g + n" using g n by (intro u64_id) auto
  have "lists_are s (\<lambda>_. [])"
  proof -
    have "get_list l s = 0" for l by (cases l) (simp_all add: s)
    then show ?thesis by (simp add: lists_are_def)
  qed
  moreover have "ma_table_capacity t = 0" by (simp add: t_def bump_def ma_static_def)
  then have "table_inv s" "table_map s = Map.empty"
    using t(2) by (auto simp: s table_inv_def table_map_def fun_eq_iff)
  moreover have "sizes_ok s" using sz by (simp add: s sizes_ok_def)
  ultimately show ?thesis using g n u heap_ok_empty
    by (simp add: ma_wf_def s stack_ok_def used_blocks_def handles_for_def)
qed

end
