(* ===== verification/MA_FirstFit.thy ===== *)
theory MA_FirstFit
  imports MA_Steps
begin

text \<open>
  What an allocation does on every branch: which block a request gets, and that the call comes back
  with it; and that an allocation and its release cancel out, down to the shape of the heap.
\<close>

section \<open>First fit\<close>

text \<open>
  The block a request gets: the first block of the free list, in address order, in which it fits
  (a block fits if the request laid out at its start needs no more bytes than it has), else the
  unused space at the end of the heap, if that is large enough.
\<close>

definition need :: "ma_state \<Rightarrow> int \<Rightarrow> int \<Rightarrow> int \<Rightarrow> int" where
  "need s d n a = snd (balloc_after \<lparr>ar_datatype = d, ar_nelem = n\<rparr> a s)"

definition first_fit :: "ma_state \<Rightarrow> (listref \<Rightarrow> int list) \<Rightarrow> int \<Rightarrow> int \<Rightarrow> int option" where
  "first_fit s L d n = (case find (\<lambda>a. need s d n a \<le> nbytes_of s a) (L HFree) of
     Some a \<Rightarrow> Some a
   | None \<Rightarrow> if ma_hp s + need s d n (ma_hp s) \<le> ma_sp s then Some (ma_hp s) else None)"

lemma first_fit_stats: "stats_only s t \<Longrightarrow> first_fit t L d n = first_fit s L d n"
proof -
  assume "stats_only s t"
  note st = stats_only_simps [OF this]
  have "need t d n = need s d n" using balloc_after_cong [of t s] st by (auto simp: need_def fun_eq_iff)
  moreover have "nbytes_of t = nbytes_of s" using same_viewD(2) [OF same_view_stats [OF \<open>stats_only s t\<close>]] .
  ultimately show ?thesis unfolding first_fit_def st by simp
qed

lemma heap_space_first_fit:
  assumes wf: "ma_wf s L" and r: "request_ok s d n"
  shows "case first_fit s L d n of
      Some x \<Rightarrow> \<exists>u F. heap_space \<lparr>ar_datatype = d, ar_nelem = n\<rparr> s = Some (Some x, u) \<and>
        reserved s L \<lparr>ar_datatype = d, ar_nelem = n\<rparr> x u F
    | None \<Rightarrow> heap_space \<lparr>ar_datatype = d, ar_nelem = n\<rparr> s =
        do { s \<leftarrow> ma_error EL_Nonfatal ET_External ''MA_allocate_heap'' s; Some (None, s) }"
proof (cases "find (\<lambda>a. need s d n a \<le> nbytes_of s a) (L HFree)")
  case (Some x)
  then obtain i where i: "i < length (L HFree)" "x = L HFree ! i" "need s d n x \<le> nbytes_of s x"
    "\<And>j. j < i \<Longrightarrow> \<not> need s d n (L HFree ! j) \<le> nbytes_of s (L HFree ! j)"
    by (auto simp: find_Some_iff)
  have l: "L HFree = take i (L HFree) @ x # drop (Suc i) (L HFree)" using i by (simp add: id_take_nth_drop)
  have "\<forall>y\<in>set (take i (L HFree)). nbytes_of s y < snd (balloc_after \<lparr>ar_datatype = d, ar_nelem = n\<rparr> y s)"
    using i(1,4) by (auto simp: in_set_conv_nth need_def not_le)
  from heap_space_free [OF wf r l _ this] i(3) Some show ?thesis by (simp add: first_fit_def need_def)
next
  case None
  then have "\<forall>y\<in>set (L HFree). nbytes_of s y < snd (balloc_after \<lparr>ar_datatype = d, ar_nelem = n\<rparr> y s)"
    by (auto simp: find_None_iff need_def not_le)
  from heap_space_top [OF wf r this] None show ?thesis
    by (cases "ma_hp s + need s d n (ma_hp s) \<le> ma_sp s") (auto simp: first_fit_def need_def)
qed

lemma init_ad_space:
  "ad_client_space (ads (init_ad l x d n name s) x) = ad_client_space (ads s x)"
  by (cases l) (auto simp: init_ad_def Let_def guard_set_def guard_write_def upd_ad_def list_insert_def)

lemma init_ad_body: "body_only s (init_ad l x d n name s)"
proof -
  have l: "body_only s (list_insert x l s)" for s
    unfolding list_insert_def Let_def
    by (intro ads_body meta_ads links_meta links_only_trans [OF links_only_set_next links_only_set_list])
  have u: "body_only s (upd_ad x f s)" for f s by (intro ads_body ads_only_upd_ad)
  have g: "body_only s (guard_set x s)" for s
    unfolding guard_set_def guard_write_def Let_def by (rule body_only_trans) (rule body_only_mem)+
  show ?thesis unfolding init_ad_def Let_def
    by (rule body_only_trans [OF body_only_trans [OF body_only_trans [OF u l] u] g])
qed

text \<open>The whole of \<open>MA_allocate_heap\<close>, for a valid request.\<close>

lemma MA_allocate_heap_some:
  assumes wf: "ma_wf s L" and v: "mt_valid datatype" "0 \<le> nelem" and r: "request_ok s (mt_import datatype) nelem"
    and x: "first_fit s L (mt_import datatype) nelem = Some x"
  shows "\<exists>t. table_inv t \<and> ma_table_capacity t = ma_table_capacity s \<and>
    MA_allocate_heap bytealloc datatype nelem name s =
      map_option (\<lambda>(h, s'). (h \<noteq> TABLE_HANDLE_NONE, Some h, s')) (ma_table_allocate bytealloc x t) \<and>
    (\<forall>h s'. ma_table_allocate bytealloc x t = Some (h, s') \<and> h \<noteq> TABLE_HANDLE_NONE \<longrightarrow>
       (\<exists>L'. allocated s L (mt_import datatype) nelem name h x s' L' \<and>
         L' HUsed = x # L HUsed \<and> L' SUsed = L SUsed \<and> laid_out s' x))"
proof -
  let ?d = "mt_import datatype" and ?ar = "\<lparr>ar_datatype = mt_import datatype, ar_nelem = nelem\<rparr>"
  obtain t where t: "auto_verify (bump FID_MA_allocate_heap s) = Some (True, t)" "stats_only s t" "ma_wf t L"
    using prologue_wf [OF wf] by blast
  have rq: "request_ok t ?d nelem" using r stats_only_request [OF t(2)] by simp
  have "first_fit t L ?d nelem = Some x" using x first_fit_stats [OF t(2)] by simp
  then obtain u F where u: "heap_space ?ar t = Some (Some x, u)" "reserved t L ?ar x u F"
    using heap_space_first_fit [OF t(3) rq] by auto
  define s2 where "s2 = init_ad HUsed x ?d nelem name u"
  define s3 where "s3 = (if u64 (x + nbytes_of s2 x) > ma_hp s2 then s2\<lparr>ma_hp := u64 (x + nbytes_of s2 x)\<rparr> else s2)"
  let ?t = "count_heap_block (nbytes_of s3 x) s3"
  have i: "ma_initialized t" using ma_wfD(1) [OF t(3)] .
  have run: "MA_allocate_heap bytealloc datatype nelem name s =
      map_option (\<lambda>(h, s'). (h \<noteq> TABLE_HANDLE_NONE, Some h, s')) (ma_table_allocate bytealloc x ?t)"
    using t(1) i v u(1) unfolding s3_def s2_def
    by (cases "ma_table_allocate bytealloc x ?t") (auto simp: MA_allocate_heap_def Let_def s3_def s2_def split: Option.bind_splits)
  have R: "ads_only t u" using u(2) by (simp add: reserved_def)
  have B: "body_only u s2" by (simp add: s2_def init_ad_body)
  have T: "table_inv ?t" "ma_table_capacity ?t = ma_table_capacity s" "ma_sizeof ?t = ma_sizeof s"
    "ma_base ?t = ma_base s" "ma_numalign ?t = ma_numalign s"
    using ma_wfD(10) [OF t(3)] ads_only_simps [OF R] body_only_simps [OF B] stats_only_simps [OF t(2)]
      R B t(2) by (auto simp: s3_def count_heap_block_def Let_def ads_only_def body_only_def stats_only_def)
  have "\<exists>L'. allocated s L ?d nelem name h x s' L' \<and> L' HUsed = x # L HUsed \<and> L' SUsed = L SUsed \<and> laid_out s' x"
    if a: "ma_table_allocate bytealloc x ?t = Some (h, s')" "h \<noteq> TABLE_HANDLE_NONE" for h s'
  proof -
    note c = alloc_heap_commit [OF t(3) rq u(2) s2_def s3_def a]
    have v: "same_view ?t s'" "table_frame ?t s'" using tab.alloc_inv [OF T(1) a(1)] same_view_table by blast+
    have "ad_client_space (ads s' x) = ad_client_space (ads u x)"
      using same_viewD(5) [OF v(1)] by (simp add: s3_def count_heap_block_def Let_def s2_def init_ad_space)
    moreover have "ad_client_space (ads u x) = fst (balloc_after ?ar x t)"
      using u(2) by (simp add: reserved_def)
    moreover have "balloc_after ar x s' = balloc_after ar x t" for ar
      using v(2) T(3-5) stats_only_simps(9-11) [OF t(2)] by (intro balloc_after_cong) (auto simp: table_frame_def)
    ultimately have "laid_out s' x" using c by (simp add: laid_out_def allocated_def)
    then show ?thesis using allocated_stats [OF t(2) c] by (intro exI [of _ "L(HFree := F, HUsed := x # L HUsed)"]) simp
  qed
  with run T(1,2) show ?thesis by blast
qed

text \<open>A valid request is served if and only if it fits somewhere, and refused with nothing changed otherwise.\<close>

lemma ma_table_allocate_capacity:
  assumes "ma_table_allocate bytealloc x t = Some (h, s')"
  shows "ma_table_capacity s' \<le> max 32 (2 * ma_table_capacity t) \<or> ma_table_capacity s' = ma_table_capacity t"
proof -
  obtain ok u where u: "(if ma_table_entries t \<ge> ma_table_capacity t
      then ma_table_grow bytealloc t else Some (True, t)) = Some (ok, u)"
    using assms by (auto simp: ma_table_allocate_def split: Option.bind_splits)
  have "ma_table_capacity u \<le> max 32 (2 * ma_table_capacity t) \<or> ma_table_capacity u = ma_table_capacity t"
    using u by (auto simp: ma_table_grow_def Let_def DEFAULT_TABLE_ENTRIES_def ma_error_def
        split: if_splits option.splits Option.bind_splits)
  moreover have "ma_table_capacity s' = ma_table_capacity u"
    using assms u by (auto simp: ma_table_allocate_def ma_error_def Let_def split: if_splits option.splits Option.bind_splits)
  ultimately show ?thesis by simp
qed

lemma MA_allocate_heap_total:
  assumes wf: "ma_wf s L" and v: "mt_valid datatype" "0 \<le> nelem" and r: "request_ok s (mt_import datatype) nelem"
    and m: "\<And>n. bytealloc n" "ma_table_capacity s < 134217728"
  shows "case first_fit s L (mt_import datatype) nelem of
      Some x \<Rightarrow> \<exists>h s' L'. MA_allocate_heap bytealloc datatype nelem name s = Some (True, Some h, s') \<and>
        allocated s L (mt_import datatype) nelem name h x s' L' \<and>
        L' HUsed = x # L HUsed \<and> L' SUsed = L SUsed \<and> laid_out s' x \<and>
        ma_table_capacity s' \<le> max 32 (2 * ma_table_capacity s)
    | None \<Rightarrow> \<not> ma_hard_fail s \<longrightarrow>
        (\<exists>s'. MA_allocate_heap bytealloc datatype nelem name s = Some (False, None, s') \<and> quiet s s')"
proof (cases "first_fit s L (mt_import datatype) nelem")
  case (Some x)
  from MA_allocate_heap_some [OF wf v r Some, of bytealloc name] obtain t where
    t: "table_inv t" "ma_table_capacity t = ma_table_capacity s"
      "MA_allocate_heap bytealloc datatype nelem name s =
        map_option (\<lambda>(h, s'). (h \<noteq> TABLE_HANDLE_NONE, Some h, s')) (ma_table_allocate bytealloc x t)"
      "\<And>h s'. ma_table_allocate bytealloc x t = Some (h, s') \<Longrightarrow> h \<noteq> TABLE_HANDLE_NONE \<Longrightarrow>
         \<exists>L'. allocated s L (mt_import datatype) nelem name h x s' L' \<and>
           L' HUsed = x # L HUsed \<and> L' SUsed = L SUsed \<and> laid_out s' x"
    by blast
  obtain h s' where h: "ma_table_allocate bytealloc x t = Some (h, s')" "h \<noteq> TABLE_HANDLE_NONE"
    using ma_table_allocate_ok [OF t(1), of bytealloc x] m t(2) by auto
  have "0 \<le> ma_table_capacity s" using t(1,2) by (auto simp: table_inv_def)
  then have "ma_table_capacity s' \<le> max 32 (2 * ma_table_capacity s)"
    using ma_table_allocate_capacity [OF h(1)] t(2) by auto
  then show ?thesis using t(3) t(4) [OF h] h Some by simp
next
  case None
  obtain t where t: "auto_verify (bump FID_MA_allocate_heap s) = Some (True, t)" "stats_only s t" "ma_wf t L"
    using prologue_wf [OF wf] by blast
  let ?ar = "\<lparr>ar_datatype = mt_import datatype, ar_nelem = nelem\<rparr>"
  have "request_ok t (mt_import datatype) nelem" using r stats_only_request [OF t(2)] by simp
  from heap_space_first_fit [OF t(3) this] None first_fit_stats [OF t(2)]
  have hs: "heap_space ?ar t =
      do { s \<leftarrow> ma_error EL_Nonfatal ET_External ''MA_allocate_heap'' t; Some (None, s) }" by simp
  have "\<exists>s'. MA_allocate_heap bytealloc datatype nelem name s = Some (False, None, s') \<and> quiet s s'"
    if "\<not> ma_hard_fail s"
  proof -
    have "\<not> ma_hard_fail t" using that stats_only_simps(13) [OF t(2)] by simp
    then obtain u where u: "ma_error EL_Nonfatal ET_External ''MA_allocate_heap'' t = Some u"
      by (simp add: ma_error_def Let_def)
    have "quiet s u" using quiet_trans [OF quiet_stats [OF t(2)] quiet_error [OF u]] .
    then show ?thesis using t(1) ma_wfD(1) [OF t(3)] v hs u by (simp add: MA_allocate_heap_def Let_def)
  qed
  then show ?thesis using None by simp
qed

text \<open>The same for a push: the block is laid out downwards from the top of the stack.\<close>

lemma MA_push_stack_total:
  assumes wf: "ma_wf s L" and v: "mt_valid datatype" "0 \<le> nelem" and r: "request_ok s (mt_import datatype) nelem"
    and m: "\<And>n. bytealloc n" "ma_table_capacity s < 134217728"
  defines "k \<equiv> snd (balloc_before \<lparr>ar_datatype = mt_import datatype, ar_nelem = nelem\<rparr> (ma_sp s) s)"
  shows "k \<le> ma_sp s - ma_hp s \<Longrightarrow>
      \<exists>h s'. MA_push_stack bytealloc datatype nelem name s = Some (True, Some h, s') \<and>
        allocated s L (mt_import datatype) nelem name h (ma_sp s - k) s' (L(SUsed := (ma_sp s - k) # L SUsed)) \<and>
        ma_sp s' = ma_sp s - k \<and> ma_table_capacity s' \<le> max 32 (2 * ma_table_capacity s)"
    and "ma_sp s - ma_hp s < k \<Longrightarrow> \<not> ma_hard_fail s \<Longrightarrow>
      \<exists>s'. MA_push_stack bytealloc datatype nelem name s = Some (False, None, s') \<and> quiet s s'"
proof -
  let ?d = "mt_import datatype" and ?ar = "\<lparr>ar_datatype = mt_import datatype, ar_nelem = nelem\<rparr>"
  obtain t where t: "auto_verify (bump FID_MA_push_stack s) = Some (True, t)" "stats_only s t" "ma_wf t L"
    using prologue_wf [OF wf] by blast
  note st = stats_only_simps [OF t(2)]
  have rq: "request_ok t ?d nelem" using r stats_only_request [OF t(2)] by simp
  have "balloc_before ?ar (ma_sp t) t = balloc_before ?ar (ma_sp s) s"
    unfolding balloc_before_def align_down_def sizeof_dt_def base_dt_def st(6,9-11) ..
  then obtain c where b: "balloc_before ?ar (ma_sp t) t = (c, k)" by (metis k_def prod.collapse)
  note tl = ma_wf_tiles [OF t(3)]
  have sp: "0 \<le> ma_sp t" "ma_sp t < 4611686018427387904" "0 < ma_hp t"
    using tl(3,4) ma_wfD(3-5) [OF t(3)] by linarith+
  have ug: "u64 (ma_sp t - ma_hp t) = ma_sp t - ma_hp t" using sp ma_wfD(4) [OF t(3)] by (intro u64_id) auto
  note bb = balloc_before_block [OF ma_wfD(2) [OF t(3)] rq sp(1,2) b]
  have i: "ma_initialized t" using ma_wfD(1) [OF t(3)] .
  show "\<exists>s'. MA_push_stack bytealloc datatype nelem name s = Some (False, None, s') \<and> quiet s s'"
    if q: "ma_sp s - ma_hp s < k" "\<not> ma_hard_fail s"
  proof -
    obtain u where u: "ma_error EL_Nonfatal ET_External ''MA_push_stack'' t = Some u"
      using q(2) st(13) by (simp add: ma_error_def Let_def)
    have "quiet s u" using quiet_trans [OF quiet_stats [OF t(2)] quiet_error [OF u]] .
    then show ?thesis using t(1) i v b u ug q(1) st(5,6) by (simp add: MA_push_stack_def Let_def)
  qed
  assume k: "k \<le> ma_sp s - ma_hp s"
  define x where "x = ma_sp t - k"
  have ux: "u64 (ma_sp t - k) = x" unfolding x_def using k st(5,6) sp bb(1) by (intro u64_id) auto
  define s1 where "s1 = upd_ad x (\<lambda>a. a\<lparr>ad_client_space := c, ad_nbytes := k\<rparr>) t"
  define s2 where "s2 = init_ad SUsed x ?d nelem name s1"
  define s3 where "s3 = count_stack_block (nbytes_of (s2\<lparr>ma_sp := x\<rparr>) x) (s2\<lparr>ma_sp := x\<rparr>)"
  have B: "body_only t s2"
    using body_only_trans [OF ads_body [OF ads_only_upd_ad] init_ad_body] unfolding s2_def s1_def .
  have T: "table_inv s3" "ma_table_capacity s3 = ma_table_capacity s" "ma_sp s3 = x"
    using ma_wfD(10) [OF t(3)] body_only_simps [OF B] B t(2)
    by (auto simp: s3_def count_stack_block_def Let_def body_only_def stats_only_def)
  obtain h s' where h: "ma_table_allocate bytealloc x s3 = Some (h, s')" "h \<noteq> TABLE_HANDLE_NONE"
    using ma_table_allocate_ok [OF T(1), of bytealloc x] m T(2) by auto
  have run: "MA_push_stack bytealloc datatype nelem name s = Some (True, Some h, s')"
    using t(1) i v b ug ux k st(5,6) h by (simp add: MA_push_stack_def Let_def s3_def s2_def s1_def)
  have "allocated t L ?d nelem name h x s' (L(SUsed := x # L SUsed))"
    using push_commit [OF t(3) rq b _ x_def s1_def s2_def h(1)[unfolded s3_def] h(2)] k st(5,6) by simp
  moreover have "0 \<le> ma_table_capacity s3" using T(1) by (auto simp: table_inv_def)
  then have cap: "ma_table_capacity s' \<le> max 32 (2 * ma_table_capacity s)"
    using ma_table_allocate_capacity [OF h(1)] T(2) by auto
  moreover have "ma_sp s' = x" using tab.alloc_inv [OF T(1) h(1)] fixed_parts_frame T(3) by metis
  ultimately show "\<exists>h s'. MA_push_stack bytealloc datatype nelem name s = Some (True, Some h, s') \<and>
      allocated s L ?d nelem name h (ma_sp s - k) s' (L(SUsed := (ma_sp s - k) # L SUsed)) \<and> ma_sp s' = ma_sp s - k \<and> ma_table_capacity s' \<le> max 32 (2 * ma_table_capacity s)"
    using run cap allocated_stats [OF t(2)] st(6) unfolding x_def by (intro exI [of _ h] exI [of _ s']) auto
qed

section \<open>The heap's shape is determined by the blocks in use\<close>

lemma tiles_start:
  assumes t: "tiles len B lo hi" and a: "a \<in> B" "a \<noteq> lo"
  shows "\<exists>p\<in>B. p + len p = a"
proof -
  have "lo \<le> a - 1" "a - 1 < hi" using tiles_bounds [OF t a(1)] tiles_pos [OF t a(1)] a(2) by auto
  then obtain p where p: "p \<in> B" "p \<le> a - 1" "a - 1 < p + len p" using tiles_cover [OF t] by blast
  then show ?thesis using tiles_apart [OF t p(1) a(1)] by (intro bexI [of _ p]) auto
qed

lemma tiles_first: "tiles len B lo hi \<Longrightarrow> lo < hi \<Longrightarrow> lo \<in> B"
  using tiles_cover [of len B lo hi lo] tiles_bounds(1) [of len B lo hi] by (metis order_antisym order_refl)

lemma heap_ok_free_iff:
  assumes h: "heap_ok len lo hp U F"
  shows "a \<in> set F \<longleftrightarrow> a \<notin> U \<and> (\<exists>b\<in>U. a < b) \<and> (a = lo \<or> (\<exists>u\<in>U. u + len u = a))"
proof -
  have t: "tiles len (U \<union> set F) lo hp" and d: "U \<inter> set F = {}"
    and n: "\<And>a. a \<in> set F \<Longrightarrow> a + len a \<notin> set F \<and> (\<exists>b\<in>U. a < b)"
    using h by (auto simp: heap_ok_def heap_cut_def)
  show ?thesis
  proof
    assume a: "a \<in> set F"
    then show "a \<notin> U \<and> (\<exists>b\<in>U. a < b) \<and> (a = lo \<or> (\<exists>u\<in>U. u + len u = a))"
      using tiles_start [OF t, of a] n d by blast
  next
    assume a: "a \<notin> U \<and> (\<exists>b\<in>U. a < b) \<and> (a = lo \<or> (\<exists>u\<in>U. u + len u = a))"
    then obtain b where b: "b \<in> U" "a < b" by blast
    have "a < hp" using tiles_bounds(2) [OF t, of b] tiles_pos [OF t, of b] b by auto
    then have "a \<in> U \<union> set F" using a tiles_first [OF t] tiles_next [OF t] by blast
    then show "a \<in> set F" using a by simp
  qed
qed

lemma heap_ok_hp:
  assumes h: "heap_ok len lo hp U F"
  shows "hp = (if U = {} then lo else Max ((\<lambda>u. u + len u) ` U))"
proof -
  have t: "tiles len (U \<union> set F) lo hp" and n: "\<And>a. a \<in> set F \<Longrightarrow> (\<exists>b\<in>U. a < b)"
    using h by (auto simp: heap_ok_def heap_cut_def)
  show ?thesis
  proof (cases "U = {}")
    case True
    then show ?thesis using n t by (cases F) auto
  next
    case False
    then have "lo < hp" using tiles_bounds [OF t] tiles_pos [OF t] by fastforce
    then obtain u where u: "u \<in> U \<union> set F" "u \<le> hp - 1" "hp - 1 < u + len u"
      using tiles_cover [OF t, of "hp - 1"] by auto
    then have e: "u + len u = hp" using tiles_bounds(2) [OF t u(1)] by simp
    have "u \<in> U"
    proof (rule ccontr)
      assume "u \<notin> U"
      then obtain b where "b \<in> U" "u < b" using n u(1) by blast
      then show False using tiles_apart [OF t u(1), of b] tiles_bounds(2) [OF t, of b] tiles_pos [OF t, of b] e by auto
    qed
    moreover have "finite U" using tiles_finite [OF t] by simp
    moreover have "\<And>a. a \<in> U \<Longrightarrow> a + len a \<le> hp" using tiles_bounds(2) [OF t] by simp
    ultimately have "Max ((\<lambda>u. u + len u) ` U) = hp" using e by (intro Max_eqI) auto
    then show ?thesis using False by simp
  qed
qed

lemma heap_ok_free_len:
  assumes h: "heap_ok len lo hp U F" and a: "a \<in> set F"
  shows "len a = Min {b \<in> U. a < b} - a"
proof -
  have t: "tiles len (U \<union> set F) lo hp" and n: "a + len a \<notin> set F" "\<exists>b\<in>U. a < b"
    using h a by (auto simp: heap_ok_def heap_cut_def)
  obtain b where b: "b \<in> U" "a < b" using n(2) by blast
  have p: "0 < len a" using tiles_pos [OF t] a by simp
  have "a + len a < hp"
    using tiles_apart [OF t, of a b] tiles_bounds(2) [OF t, of b] tiles_pos [OF t, of b] a b by auto
  then have "a + len a \<in> U" using tiles_next [OF t, of a] a n(1) by auto
  moreover have "finite {b \<in> U. a < b}" using tiles_finite [OF t] by simp
  ultimately have "Min {b \<in> U. a < b} = a + len a"
    using p tiles_apart [OF t, of a] a by (intro Min_eqI) auto
  then show ?thesis by simp
qed

lemma heap_ok_unique:
  assumes h: "heap_ok len lo hp U F" "heap_ok len' lo hp' U F'" and l: "\<And>a. a \<in> U \<Longrightarrow> len' a = len a"
  shows "hp' = hp" "F' = F" "a \<in> set F \<Longrightarrow> len' a = len a"
proof -
  have "(\<lambda>u. u + len' u) ` U = (\<lambda>u. u + len u) ` U" using l by (intro image_cong) auto
  then show "hp' = hp" using heap_ok_hp [OF h(1)] heap_ok_hp [OF h(2)] by simp
  have "a \<in> set F' \<longleftrightarrow> a \<in> set F" for a
    unfolding heap_ok_free_iff [OF h(1)] heap_ok_free_iff [OF h(2)] using l by auto
  then have "set F' = set F" by blast
  moreover have "sorted_wrt (<) F" "sorted_wrt (<) F'" using h by (auto simp: heap_ok_def heap_cut_def)
  ultimately show F: "F' = F" by (simp add: strict_sorted_equal)
  show "len' a = len a" if "a \<in> set F" using heap_ok_free_len [OF h(1)] heap_ok_free_len [OF h(2)] F that by simp
qed

lemma stack_ok_sp: "stack_ok len sp eos S \<Longrightarrow> sp = eos - sum len (set S)"
  using tiles_sum by (fastforce simp: stack_ok_def)


section \<open>Round trips\<close>

lemma same_blocks_trans:
  "(\<And>a. a \<in> U \<Longrightarrow> same_block s t a) \<Longrightarrow> (\<And>a. a \<in> U \<Longrightarrow> same_block t u a) \<Longrightarrow> a \<in> U \<Longrightarrow> same_block s u a"
  using same_block_trans by blast

text \<open>Two well-formed states with the same blocks in use, of the same sizes, have the same free blocks.\<close>

lemma ma_wf_shape:
  assumes wf: "ma_wf s L" "ma_wf s' L'" and fx: "fixed_parts s s'"
    and U: "L' HUsed = L HUsed" "L' SUsed = L SUsed" and same: "\<And>a. a \<in> used_blocks L \<Longrightarrow> same_block s s' a"
  shows "L' HFree = L HFree" "ma_hp s' = ma_hp s" "ma_sp s' = ma_sp s" "a \<in> set (L HFree) \<Longrightarrow> nbytes_of s' a = nbytes_of s a"
proof -
  have n: "nbytes_of s' a = nbytes_of s a" if "a \<in> set (L HUsed) \<union> set (L SUsed)" for a
    using same_block_nbytes same that unfolding used_blocks_def by blast
  have h': "heap_ok (nbytes_of s') (ma_segment s) (ma_hp s') (set (L HUsed)) (L' HFree)"
    using ma_wfD(7) [OF wf(2)] U fx by (simp add: fixed_parts_def)
  note un = heap_ok_unique [OF ma_wfD(7) [OF wf(1)] h']
  show "L' HFree = L HFree" "ma_hp s' = ma_hp s" "a \<in> set (L HFree) \<Longrightarrow> nbytes_of s' a = nbytes_of s a"
    using un n by blast+
  have "sum (nbytes_of s') (set (L SUsed)) = sum (nbytes_of s) (set (L SUsed))" using n by (intro sum.cong) auto
  then show "ma_sp s' = ma_sp s"
    using stack_ok_sp [OF ma_wfD(8) [OF wf(1)]] stack_ok_sp [OF ma_wfD(8) [OF wf(2)]] U fx by (simp add: fixed_parts_def)
qed

lemma wf_L_ext: "L' HFree = L HFree \<Longrightarrow> L' HUsed = L HUsed \<Longrightarrow> L' SUsed = L SUsed \<Longrightarrow> L' = L"
  by (rule ext) (metis listref.exhaust)

lemma allocated_released:
  assumes wf: "ma_wf s L" and a: "allocated s L d n name h x t M" and r: "released t M {x} u L'"
    and U: "L' HUsed = L HUsed" "L' SUsed = L SUsed"
  shows "ma_wf u L" "table_map u = table_map s" "ma_hp u = ma_hp s" "ma_sp u = ma_sp s"
    "b \<in> used_blocks L \<Longrightarrow> same_block s u b" "b \<in> set (L HFree) \<Longrightarrow> nbytes_of u b = nbytes_of s b"
proof -
  have A: "ma_wf t M" "fixed_parts s t" "table_map s h = None" "table_map t = (table_map s)(h \<mapsto> x)"
      "x \<notin> used_blocks L" "used_blocks M = insert x (used_blocks L)" "\<forall>a\<in>used_blocks L. same_block s t a"
    using a by (simp_all add: allocated_def)
  have R: "ma_wf u L'" "fixed_parts t u" "table_map u = (\<lambda>h. if table_map t h \<in> Some ` {x} then None else table_map t h)"
      "used_blocks L' = used_blocks M - {x}" "\<forall>a\<in>used_blocks L'. same_block t u a"
    using r by (simp_all add: released_def)
  have used: "used_blocks L' = used_blocks L" using A R by auto
  show same: "same_block s u b" if "b \<in> used_blocks L" for b
    using A(7) R(5) used that same_block_trans by blast
  note sh = ma_wf_shape [OF wf R(1) fixed_parts_trans [OF A(2) R(2)] U same]
  show "ma_hp u = ma_hp s" "ma_sp u = ma_sp s" "b \<in> set (L HFree) \<Longrightarrow> nbytes_of u b = nbytes_of s b" using sh by blast+
  show "ma_wf u L" using R(1) wf_L_ext [OF sh(1) U] by simp
  have "table_map s g \<noteq> Some x" for g using A(5) ma_wfD(11) [OF wf] by (auto simp: handles_for_def ran_def)
  then show "table_map u = table_map s" using R(3) A(3,4) by (auto simp: fun_eq_iff)
qed

end
