(* ===== verification/MA_Theorems.thy ===== *)
theory MA_Theorems
  imports MA_FirstFit
begin

text \<open>
  The properties of the memory allocator, over the states a client can reach and over whole calls,
  and a concrete run that shows their hypotheses can hold.
\<close>

section \<open>A concrete run\<close>

definition demo_cb :: "int list" where
  "demo_cb = [1048576, 1048640, 1048704, 1048768, 1048832, 1048896, 1048960, 1049024, 1049088, 1049152]"

definition demo_fb :: "(int \<times> int) list" where
  "demo_fb = [(2097152, 2097153), (2097216, 2097224), (2097280, 2097288), (2097344, 2097348),
     (2097408, 2097416), (2097472, 2097480), (2097536, 2097552)]"

definition demo_malloc :: "int \<Rightarrow> int" where
  "demo_malloc n = (if n < 1152921504606846976 then 4194304 else 0)"

definition demo_static :: ma_state where
  "demo_static = ma_static demo_cb demo_fb (\<lambda>_. \<lparr>ad_datatype = 0, ad_nelem = 0, ad_name = [],
     ad_client_space = 0, ad_nbytes = 0, ad_next = 0, ad_checksum = 0\<rparr>) (\<lambda>_. 0)"

definition demo :: ma_state where
  "demo = (case MA_init demo_malloc 1000 1000 1000 demo_static of Some (ok, s) \<Rightarrow> s | None \<Rightarrow> demo_static)"

text \<open>The end of the client space of a block.\<close>

definition client_end :: "ma_state \<Rightarrow> int \<Rightarrow> int" where
  "client_end s x = ad_client_space (ads s x) + ad_nelem (ads s x) * sizeof_dt s (ad_datatype (ads s x))"

text \<open>A block whose descriptor and guards are intact.\<close>

definition intact :: "ma_state \<Rightarrow> int \<Rightarrow> bool" where
  "intact s a \<longleftrightarrow> checksum (ads s a) = ad_checksum (ads s a) \<and> guard_check a s"

lemma demo_ok: "fortran_bases_ok demo_fb" "length demo_cb = 10" "segment_ok demo_malloc"
  by (auto simp: fortran_bases_ok_def demo_fb_def demo_cb_def segment_ok_def demo_malloc_def)

lemma demo_init: "MA_init demo_malloc 1000 1000 1000 demo_static = Some (True, demo)"
proof -
  have "case MA_init demo_malloc 1000 1000 1000 demo_static of None \<Rightarrow> False | Some (ok, s) \<Rightarrow> ok" by code_simp
  then show ?thesis by (auto simp: demo_def split: option.splits)
qed

lemma demo_wf: "ma_wf demo (\<lambda>_. [])"
  using MA_init_inv [OF demo_ok demo_init [unfolded demo_static_def]] .

lemma demo_parts:
  "ma_hp demo = 4194304" "ma_sp demo = 4196496" "\<not> ma_hard_fail demo" "ma_table_capacity demo = 0"
  "ma_sizeof demo = [1, 4, 8, 4, 8, 16, 8, 16, 32, 1, 8, 8, 4, 8, 8, 16, 8]"
  "ma_numalign demo = 0"
  by code_simp+

lemma demo_layout:
  "snd (balloc_after \<lparr>ar_datatype = 4, ar_nelem = 10\<rparr> 4194304 demo) = 176"
  "snd (balloc_before \<lparr>ar_datatype = 4, ar_nelem = 10\<rparr> 4196496 demo) = 176"
  by code_simp+

definition demo_calls :: "ma_state \<Rightarrow> (ma_state \<times> ma_call) list" where
  "demo_calls s = [(demo, Push_stack (\<lambda>_. True) 1004 10 None), (s, Allocate_heap (\<lambda>_. True) 1004 10 None)]"

text \<open>A push and then an allocation, of ten doubles each, in the initial state.\<close>

lemma demo_run:
  obtains h1 s1 h2 s2 L where
    "MA_push_stack (\<lambda>_. True) 1004 10 None demo = Some (True, Some h1, s1)"
    "MA_allocate_heap (\<lambda>_. True) 1004 10 None s1 = Some (True, Some h2, s2)"
    "ma_wf s1 ((\<lambda>_. [])(SUsed := [4196320]))" "ma_wf s2 L" "L HUsed = [4194304]" "L SUsed = [4196320]"
    "table_map s1 = [h1 \<mapsto> 4196320]" "table_map s2 = [h1 \<mapsto> 4196320, h2 \<mapsto> 4194304]" "h1 \<noteq> h2"
    "laid_out s2 4194304" "ad_nelem (ads s2 4194304) = 10"
    "ma_run (demo_calls s1) demo s2" "contract_run (demo_calls s1)"
    "fixed_parts demo s1" "ma_sp s1 = 4196320" "ma_hp s1 = 4194304" "ma_table_capacity s1 \<le> 32"
proof -
  have m: "mt_import 1004 = 4" "mt_valid 1004" by code_simp+
  have sz: "sizeof_dt s 4 = 8" if "ma_sizeof s = ma_sizeof demo" for s
    using that by (simp add: sizeof_dt_def demo_parts)
  have rq: "request_ok s 4 10" if "ma_sizeof s = ma_sizeof demo" for s
    using sz [OF that] by (simp add: request_ok_def)
  have e: "table_map demo = Map.empty" using ma_wfD(11) [OF demo_wf] by (auto simp: handles_for_def used_blocks_def ran_def fun_eq_iff) (metis option.exhaust)
  from MA_push_stack_total(1) [OF demo_wf m(2), of 10 "\<lambda>_. True" None] rq obtain h1 s1 where
    p: "MA_push_stack (\<lambda>_. True) 1004 10 None demo = Some (True, Some h1, s1)"
      "allocated demo (\<lambda>_. []) 4 10 None h1 4196320 s1 ((\<lambda>_. [])(SUsed := [4196320]))"
      "ma_sp s1 = 4196320" "ma_table_capacity s1 \<le> 32"
    by (auto simp: m demo_parts demo_layout)
  let ?L = "(\<lambda>_. [])(SUsed := [4196320])"
  have P: "ma_wf s1 ?L" "fixed_parts demo s1" "table_map s1 = [h1 \<mapsto> 4196320]" "h1 \<noteq> TABLE_HANDLE_NONE"
    using p(2) e by (simp_all add: allocated_def)
  have hp: "ma_hp s1 = 4194304"
    using heap_ok_hp [OF ma_wfD(7) [OF P(1)]] heap_ok_hp [OF ma_wfD(7) [OF demo_wf]] P(2) demo_parts(1)
    by (simp add: fixed_parts_def)
  have "need s1 4 10 4194304 = 176" unfolding need_def
    using balloc_after_cong [of s1 demo] P(2) demo_layout(1) by (simp add: fixed_parts_def)
  then have ff: "first_fit s1 ?L 4 10 = Some 4194304" by (simp add: first_fit_def hp p(3))
  have "request_ok s1 4 10" using rq P(2) by (simp add: fixed_parts_def)
  with MA_allocate_heap_total [OF P(1) m(2), of 10 "\<lambda>_. True" None] p(4) ff obtain h2 s2 L where
    a: "MA_allocate_heap (\<lambda>_. True) 1004 10 None s1 = Some (True, Some h2, s2)"
      "allocated s1 ?L 4 10 None h2 4194304 s2 L" "L HUsed = [4194304]" "L SUsed = [4196320]" "laid_out s2 4194304"
    by (auto simp: m)
  have A: "ma_wf s2 L" "table_map s2 = (table_map s1)(h2 \<mapsto> 4194304)" "h2 \<noteq> TABLE_HANDLE_NONE"
      "table_map s1 h2 = None" "ad_nelem (ads s2 4194304) = 10"
    using a(2) by (simp_all add: allocated_def)
  have "ma_run (demo_calls s1) demo s2"
    unfolding demo_calls_def using ma_run.call [OF ma_run.call [OF ma_run.start ma_call_step.push [OF p(1)]] ma_call_step.allocate [OF a(1)]] by simp
  moreover have "contract_run (demo_calls s1)"
    unfolding demo_calls_def contract_run_def using p(1) a(1) rq \<open>request_ok s1 4 10\<close> P(4) A(3) by (simp add: grants_def m)
  moreover have "h1 \<noteq> h2" using A(4) P(3) by auto
  ultimately show ?thesis using that p a P A hp by auto
qed

section \<open>Reachable states\<close>

text \<open>
  C1. Once \<open>MA_init\<close> has succeeded, every state that a sequence of calls of the library within the contract
  (\<open>in_contract\<close>) can reach is well formed: the three lists are linked and hold exactly
  the blocks of the segment, heap and stack are cut into blocks without gaps, descriptors and
  guards are intact, and the handle table names exactly the blocks in use. The calls come in any order and with any
  arguments, bad ones included, but for what the library does not check (\<open>malloc\<close> and the base arrays are as
  in \<open>segment_ok\<close> and \<open>fortran_bases_ok\<close>): a request is for at most \<open>2^61\<close> bytes, the
  handle table has a handle for the new block (it fails to grow only when \<open>malloc\<close> fails), a piece is returned
  from a block that is laid out as the alignment in force would lay it out, and the client writes inside the client
  spaces of its live blocks only. Without the first the claim is false (C14), and so it is without the others.
\<close>

theorem MA_reachable_wf:
  assumes "fortran_bases_ok fb" "length cb = 10" "segment_ok get_segment"
    and "MA_init get_segment datatype nominal_stack nominal_heap (ma_static cb fb A m) = Some (True, s0)"
    and "ma_run tr s0 s" "contract_run tr"
  shows "\<exists>L. ma_wf s L"
  using ma_run_inv [OF assms(5,6)] MA_init_inv [OF assms(1-4)] by (auto simp: ma_inv_def)

theorem MA_reachable_wf_witness:
  "\<exists>h1 s1 h2 s2 L. MA_push_stack (\<lambda>_. True) 1004 10 None demo = Some (True, Some h1, s1) \<and>
     MA_allocate_heap (\<lambda>_. True) 1004 10 None s1 = Some (True, Some h2, s2) \<and>
     ma_run (demo_calls s1) demo s2 \<and> contract_run (demo_calls s1) \<and> ma_wf s2 L"
  by (rule demo_run)
    (use MA_reachable_wf [OF demo_ok demo_init [unfolded demo_static_def]] in blast)

text \<open>
  C2. In every state that calls within the contract (the four conditions of C1) reach after \<open>MA_init\<close>, the client
  spaces of two live handles, with the guards around them
  and the descriptors in front of them, do not overlap, and they are inside the segment. So a client
  that stays inside its client space never changes another client's data.
\<close>

theorem MA_client_spaces_disjoint:
  assumes "fortran_bases_ok fb" "length cb = 10" "segment_ok get_segment"
    and "MA_init get_segment datatype nominal_stack nominal_heap (ma_static cb fb A m) = Some (True, s0)"
    and "ma_run tr s0 s" "contract_run tr" and h: "table_map s h1 = Some x1" "table_map s h2 = Some x2" "h1 \<noteq> h2"
  shows "(client_end s x1 + 88 \<le> ad_client_space (ads s x2) \<or> client_end s x2 + 88 \<le> ad_client_space (ads s x1)) \<and>
    ma_segment s + 84 \<le> ad_client_space (ads s x1) \<and> client_end s x1 + 4 \<le> ma_eos s"
proof -
  obtain L where wf: "ma_wf s L"
    using ma_run_inv [OF assms(5,6)] MA_init_inv [OF assms(1-4)] by (auto simp: ma_inv_def)
  have u: "x1 \<in> used_blocks L" "x2 \<in> used_blocks L" using mh2ad_wf(2) [OF wf] h by blast+
  then obtain l1 l2 where l: "x1 \<in> set (L l1)" "x2 \<in> set (L l2)" by (auto simp: used_blocks_def)
  have "x1 \<noteq> x2" using ma_wfD(11) [OF wf] h unfolding handles_for_def inj_on_def by (metis domI)
  then have ap: "x1 + nbytes_of s x1 \<le> x2 \<or> x2 + nbytes_of s x2 \<le> x1"
    using ma_wf_apart [OF wf l] ma_wf_apart [OF wf l(2,1)] by linarith
  have b: "x + 84 \<le> ad_client_space (ads s x)" "client_end s x + 4 \<le> x + nbytes_of s x" if "x \<in> used_blocks L" for x
    using ma_wfD(9) [OF wf that] by (auto simp: block_ok_def Let_def client_end_def nbytes_of_def)
  show ?thesis using ap b [OF u(1)] b [OF u(2)] ma_wf_block [OF wf l(1)] by linarith
qed

theorem MA_client_spaces_disjoint_witness:
  "\<exists>s h1 h2. h1 \<noteq> h2 \<and> table_map s h1 = Some 4196320 \<and> table_map s h2 = Some 4194304 \<and>
     (client_end s 4196320 + 88 \<le> ad_client_space (ads s 4194304) \<or>
      client_end s 4194304 + 88 \<le> ad_client_space (ads s 4196320))"
proof (rule demo_run)
  fix h1 s1 h2 s2 L
  assume "ma_run (demo_calls s1) demo s2" "contract_run (demo_calls s1)"
    "table_map s2 = [h1 \<mapsto> 4196320, h2 \<mapsto> 4194304]" "h1 \<noteq> h2"
  then show ?thesis
    using MA_client_spaces_disjoint [OF demo_ok demo_init [unfolded demo_static_def], of "demo_calls s1" s2 h1 4196320 h2 4194304]
    by (intro exI [of _ s2] exI [of _ h1] exI [of _ h2]) simp
qed


text \<open>
  C3. In every state that calls within the contract (the four conditions of C1) reach after \<open>MA_init\<close>, the segment
  is accounted for to the byte: the blocks in use and the
  free blocks of the heap cover the addresses from the start of the segment to the heap pointer,
  each address once; the stack blocks cover those from the stack pointer to the end; the live
  handles name exactly the blocks in use; no two free blocks are adjacent and no free block is last.
\<close>

theorem MA_segment_tiled:
  assumes "fortran_bases_ok fb" "length cb = 10" "segment_ok get_segment"
    and "MA_init get_segment datatype nominal_stack nominal_heap (ma_static cb fb A m) = Some (True, s0)"
    and "ma_run tr s0 s" "contract_run tr"
  shows "\<exists>U F S. tiles (nbytes_of s) (U \<union> F) (ma_segment s) (ma_hp s) \<and> U \<inter> F = {} \<and>
    tiles (nbytes_of s) S (ma_sp s) (ma_eos s) \<and> ma_hp s \<le> ma_sp s \<and> ran (table_map s) = U \<union> S \<and>
    sum (nbytes_of s) U + sum (nbytes_of s) F = ma_hp s - ma_segment s \<and>
    (\<forall>a\<in>F. a + nbytes_of s a \<in> U)"
proof -
  obtain L where wf: "ma_wf s L"
    using ma_run_inv [OF assms(5,6)] MA_init_inv [OF assms(1-4)] by (auto simp: ma_inv_def)
  let ?U = "set (L HUsed)" and ?F = "set (L HFree)" and ?S = "set (L SUsed)"
  have h: "tiles (nbytes_of s) (?U \<union> ?F) (ma_segment s) (ma_hp s)" "?U \<inter> ?F = {}"
    "\<And>a. a \<in> ?F \<Longrightarrow> a + nbytes_of s a \<notin> ?F \<and> (\<exists>b\<in>?U. a < b)"
    using ma_wfD(7) [OF wf] by (auto simp: heap_ok_def heap_cut_def)
  have "sum (nbytes_of s) ?U + sum (nbytes_of s) ?F = sum (nbytes_of s) (?U \<union> ?F)"
    using h(2) by (intro sum.union_disjoint [symmetric]) auto
  moreover have "a + nbytes_of s a \<in> ?U" if a: "a \<in> ?F" for a
  proof -
    obtain b where b: "b \<in> ?U" "a < b" using h(3) [OF a] by blast
    then have "a + nbytes_of s a < ma_hp s" using tiles_apart [OF h(1), of a b] tiles_bounds(2) [OF h(1), of b]
        tiles_pos [OF h(1), of b] a by auto
    then show ?thesis using tiles_next [OF h(1), of a] h(3) a by blast
  qed
  moreover have "tiles (nbytes_of s) ?S (ma_sp s) (ma_eos s)" using ma_wfD(8) [OF wf] by (simp add: stack_ok_def)
  moreover have "ran (table_map s) = ?U \<union> ?S" using ma_wfD(11) [OF wf] by (simp add: handles_for_def used_blocks_def)
  ultimately show ?thesis using h(1,2) ma_wfD(4) [OF wf] tiles_sum [OF h(1)]
    by (intro exI [of _ ?U] exI [of _ ?F] exI [of _ ?S]) auto
qed

theorem MA_segment_tiled_witness:
  "\<exists>tr s U F S. ma_run tr demo s \<and> contract_run tr \<and> ran (table_map s) = {4196320, 4194304} \<and>
     tiles (nbytes_of s) (U \<union> F) (ma_segment s) (ma_hp s) \<and> tiles (nbytes_of s) S (ma_sp s) (ma_eos s) \<and>
     ran (table_map s) = U \<union> S"
proof (rule demo_run)
  fix h1 s1 h2 s2 L
  assume a: "ma_run (demo_calls s1) demo s2" "contract_run (demo_calls s1)"
    "table_map s2 = [h1 \<mapsto> 4196320, h2 \<mapsto> 4194304]" "h1 \<noteq> h2"
  then have "ran (table_map s2) = {4196320, 4194304}" by (auto simp: ran_def)
  then show ?thesis
    using MA_segment_tiled [OF demo_ok demo_init [unfolded demo_static_def] a(1,2)] a(1,2) by metis
qed

section \<open>The heap\<close>

text \<open>
  C4. A valid request to the heap is served first fit: it gets the first block of the free list, in
  address order, that is large enough, or else the space at the top of the heap, and then the call
  succeeds with a fresh handle for a block with the request's type, length and name, and no
  other block's data changes; when it fits nowhere the call fails and nothing changes. The size of the request
  does not wrap (\<open>request_ok\<close>) and \<open>malloc\<close> gives memory for the handle table.
\<close>

theorem MA_allocate_heap_first_fit:
  assumes "ma_wf s L" "mt_valid datatype" "0 \<le> nelem" "request_ok s (mt_import datatype) nelem"
    and "\<And>n. bytealloc n" "ma_table_capacity s < 134217728"
  shows "case first_fit s L (mt_import datatype) nelem of
      Some x \<Rightarrow> \<exists>h s' L'. MA_allocate_heap bytealloc datatype nelem name s = Some (True, Some h, s') \<and>
        allocated s L (mt_import datatype) nelem name h x s' L' \<and> L' HUsed = x # L HUsed \<and> L' SUsed = L SUsed
    | None \<Rightarrow> \<not> ma_hard_fail s \<longrightarrow>
        (\<exists>s'. MA_allocate_heap bytealloc datatype nelem name s = Some (False, None, s') \<and> quiet s s')"
  using MA_allocate_heap_total [where bytealloc = bytealloc and name = name, OF assms] by (cases "first_fit s L (mt_import datatype) nelem") auto

lemma demo_request: "ma_sizeof s = ma_sizeof demo \<Longrightarrow> 0 \<le> n \<Longrightarrow> n \<le> 10000 \<Longrightarrow> request_ok s (mt_import 1004) n"
  by (simp add: request_ok_def mt_import_def MT_BASE_def sizeof_dt_def demo_parts)

lemma demo_valid: "mt_valid 1004" "mt_import 1004 = 4"
  by (simp_all add: mt_valid_def MT_FIRST_def MT_LAST_def MT_BASE_def mt_import_def)

theorem MA_allocate_heap_first_fit_witness:
  "\<exists>h s L. MA_allocate_heap (\<lambda>_. True) 1004 10 (Some ''x'') demo = Some (True, Some h, s) \<and>
     allocated demo (\<lambda>_. []) 4 10 (Some ''x'') h 4194304 s L"
proof -
  have "first_fit demo (\<lambda>_. []) 4 10 = Some 4194304"
    by (simp add: first_fit_def need_def demo_parts demo_layout)
  then show ?thesis
    using MA_allocate_heap_first_fit [OF demo_wf demo_valid(1), of 10 "\<lambda>_. True" "Some ''x''"] demo_request [of demo 10]
    by (auto simp: demo_valid demo_parts)
qed

text \<open>
  C5. Freeing a heap handle takes exactly its block out of use and its handle out of the table, keeps the data of
  every other block, and gives the space back; freeing anything else (a handle that is not live, or
  one of the stack) fails and changes nothing.
\<close>

theorem MA_free_heap_effect:
  assumes "ma_wf s L"
  shows "(\<forall>x. table_map s h = Some x \<and> x \<in> set (L HUsed) \<longrightarrow>
      (\<exists>s' L'. MA_free_heap h s = Some (True, s') \<and> released s L {x} s' L' \<and>
         L' HUsed = remove1 x (L HUsed) \<and> L' SUsed = L SUsed)) \<and>
    (\<forall>r s'. MA_free_heap h s = Some (r, s') \<and> \<not> (\<exists>x. table_map s h = Some x \<and> x \<in> set (L HUsed)) \<longrightarrow>
      \<not> r \<and> quiet s s')"
  using MA_free_heap_ok [OF assms, of h] MA_free_heap_fail [OF assms, of h] by blast

theorem MA_free_heap_effect_witness:
  "\<exists>s h L s' L'. table_map s h = Some 4194304 \<and> MA_free_heap h s = Some (True, s') \<and> released s L {4194304} s' L'"
proof (rule demo_run)
  fix h1 s1 h2 s2 L
  assume "ma_wf s2 L" "L HUsed = [4194304]" "table_map s2 = [h1 \<mapsto> 4196320, h2 \<mapsto> 4194304]"
  then show ?thesis using MA_free_heap_effect [of s2 L h2] by (metis fun_upd_same list.set_intros(1))
qed

text \<open>
  C6. An allocation and the free of its handle cancel out: the heap and stack pointers, the free
  list, the sizes of the free blocks, the handles and the data of every block in use are what they
  were before.
\<close>

theorem MA_allocate_free_roundtrip:
  assumes "ma_wf s L" "mt_valid datatype" "0 \<le> nelem" "request_ok s (mt_import datatype) nelem"
    and "\<And>n. bytealloc n" "ma_table_capacity s < 134217728" "first_fit s L (mt_import datatype) nelem \<noteq> None"
  shows "\<exists>h t u. MA_allocate_heap bytealloc datatype nelem name s = Some (True, Some h, t) \<and>
    MA_free_heap h t = Some (True, u) \<and> ma_wf u L \<and> table_map u = table_map s \<and>
    ma_hp u = ma_hp s \<and> ma_sp u = ma_sp s \<and>
    (\<forall>a\<in>set (L HFree). nbytes_of u a = nbytes_of s a) \<and> (\<forall>a\<in>used_blocks L. same_block s u a)"
proof -
  obtain x h t L1 where a: "MA_allocate_heap bytealloc datatype nelem name s = Some (True, Some h, t)"
      "allocated s L (mt_import datatype) nelem name h x t L1" "L1 HUsed = x # L HUsed" "L1 SUsed = L SUsed"
    using MA_allocate_heap_total [where bytealloc = bytealloc and name = name, OF assms(1-6)] assms(7) by (auto split: option.splits)
  then have "ma_wf t L1" "table_map t h = Some x" "x \<in> set (L1 HUsed)" by (simp_all add: allocated_def)
  from MA_free_heap_ok [OF this] obtain u L2 where u: "MA_free_heap h t = Some (True, u)" "released t L1 {x} u L2"
      "L2 HUsed = L HUsed" "L2 SUsed = L SUsed"
    using a by auto
  show ?thesis using allocated_released [OF assms(1) a(2) u(2,3,4)] a(1) u(1) by blast
qed

theorem MA_allocate_free_roundtrip_witness:
  "\<exists>h t u. MA_allocate_heap (\<lambda>_. True) 1004 10 None demo = Some (True, Some h, t) \<and>
     MA_free_heap h t = Some (True, u) \<and> ma_hp u = 4194304 \<and> table_map u = table_map demo"
proof -
  have "first_fit demo (\<lambda>_. []) (mt_import 1004) 10 \<noteq> None"
    by (simp add: first_fit_def need_def demo_parts demo_layout demo_valid)
  then show ?thesis
    using MA_allocate_free_roundtrip [OF demo_wf demo_valid(1), of 10 "\<lambda>_. True" None] demo_request [of demo 10] demo_parts(1,4)
    by auto
qed

text \<open>
  C7. Giving back part of a heap block whose client space is where a request for it would be laid out now (so it was
  when the block was allocated; \<open>MA_set_numalign\<close> since then may have ended it, and then the routine computes a wrong
  client space and nothing is claimed): with at least as many
  elements as the block has it is a free; otherwise the block keeps its client space, shortened, with the data that stays, and no
  other block changes. A negative number of elements, or a handle that is not of the heap, changes nothing.
\<close>

theorem MA_free_heap_piece_effect:
  assumes "ma_wf s L"
  shows "(\<forall>x. 0 \<le> nelem \<and> table_map s h = Some x \<and> x \<in> set (L HUsed) \<and> laid_out s x \<longrightarrow>
      (\<exists>s' L'. MA_free_heap_piece h nelem s = Some (True, s') \<and>
         (if nelem < ad_nelem (ads s x) then shrunk s L x (ad_nelem (ads s x) - nelem) s' L'
          else released s L {x} s' L'))) \<and>
    (\<forall>r s'. MA_free_heap_piece h nelem s = Some (r, s') \<and>
        (nelem < 0 \<or> \<not> (\<exists>x. table_map s h = Some x \<and> x \<in> set (L HUsed))) \<longrightarrow> \<not> r \<and> quiet s s')"
proof (intro conjI allI impI)
  fix x assume x: "0 \<le> nelem \<and> table_map s h = Some x \<and> x \<in> set (L HUsed) \<and> laid_out s x"
  show "\<exists>s' L'. MA_free_heap_piece h nelem s = Some (True, s') \<and>
         (if nelem < ad_nelem (ads s x) then shrunk s L x (ad_nelem (ads s x) - nelem) s' L'
          else released s L {x} s' L')"
  proof (cases "nelem < ad_nelem (ads s x)")
    case True
    then show ?thesis using MA_free_heap_piece_shrink [OF assms, of h x nelem] x
        balloc_after_fst [of "ad_datatype (ads s x)" "ad_nelem (ads s x) - nelem" x s "ad_nelem (ads s x)"]
      by (auto simp: laid_out_def)
  next
    case False
    then show ?thesis using MA_free_heap_piece_all [OF assms, of h x nelem] x by auto
  qed
next
  fix r s' assume "MA_free_heap_piece h nelem s = Some (r, s') \<and>
        (nelem < 0 \<or> \<not> (\<exists>x. table_map s h = Some x \<and> x \<in> set (L HUsed)))"
  then show "\<not> r" "quiet s s'" using MA_free_heap_piece_fail [OF assms, of h nelem r s'] by blast+
qed

theorem MA_free_heap_piece_effect_witness:
  "\<exists>s h L s' L'. table_map s h = Some 4194304 \<and> MA_free_heap_piece h 4 s = Some (True, s') \<and> shrunk s L 4194304 6 s' L'"
proof (rule demo_run)
  fix h1 s1 h2 s2 L
  assume a: "ma_wf s2 L" "L HUsed = [4194304]" "table_map s2 = [h1 \<mapsto> 4196320, h2 \<mapsto> 4194304]"
    "laid_out s2 4194304" "ad_nelem (ads s2 4194304) = 10"
  have h: "table_map s2 h2 = Some 4194304" "4194304 \<in> set (L HUsed)" using a(2,3) by simp_all
  then obtain s' L' where "MA_free_heap_piece h2 4 s2 = Some (True, s')" "shrunk s2 L 4194304 6 s' L'"
    using MA_free_heap_piece_effect [OF a(1), of 4 h2, THEN conjunct1, rule_format, of 4194304] a(4,5) by auto
  with h show ?thesis by blast
qed

section \<open>The stack\<close>

text \<open>
  C8. A valid push gets the block that ends at the stack pointer, laid out downwards, if the gap
  between heap and stack has room for it, and the stack pointer moves to that block; no other block's
  data changes. Otherwise the push fails and nothing changes.
\<close>

theorem MA_push_stack_effect:
  assumes "ma_wf s L" "mt_valid datatype" "0 \<le> nelem" "request_ok s (mt_import datatype) nelem"
    and "\<And>n. bytealloc n" "ma_table_capacity s < 134217728" "\<not> ma_hard_fail s"
    and k: "k = snd (balloc_before \<lparr>ar_datatype = mt_import datatype, ar_nelem = nelem\<rparr> (ma_sp s) s)"
  shows "if k \<le> ma_sp s - ma_hp s
    then \<exists>h s'. MA_push_stack bytealloc datatype nelem name s = Some (True, Some h, s') \<and>
        allocated s L (mt_import datatype) nelem name h (ma_sp s - k) s' (L(SUsed := (ma_sp s - k) # L SUsed)) \<and>
        ma_sp s' = ma_sp s - k
    else \<exists>s'. MA_push_stack bytealloc datatype nelem name s = Some (False, None, s') \<and> quiet s s'"
  using MA_push_stack_total [where bytealloc = bytealloc and name = name, OF assms(1-6), folded k] assms(7)
  by (cases "k \<le> ma_sp s - ma_hp s") auto

theorem MA_push_stack_effect_witness:
  "\<exists>h s. MA_push_stack (\<lambda>_. True) 1004 10 None demo = Some (True, Some h, s) \<and> ma_sp s = 4196320 \<and>
     allocated demo (\<lambda>_. []) 4 10 None h 4196320 s ((\<lambda>_. [])(SUsed := [4196320]))"
  using MA_push_stack_effect [OF demo_wf demo_valid(1), of 10 "\<lambda>_. True" 176 None] demo_request [of demo 10]
  by (auto simp: demo_valid demo_parts demo_layout)

text \<open>
  C9. The stack is a stack: only the handle of the block at the stack pointer can be popped (any other
  call fails and changes nothing), and popping right after a push restores the stack pointer, the
  heap pointer, the handles, the lists and the data of every block.
\<close>

theorem MA_push_pop_roundtrip:
  assumes "ma_wf s L" "mt_valid datatype" "0 \<le> nelem" "request_ok s (mt_import datatype) nelem"
    and "\<And>n. bytealloc n" "ma_table_capacity s < 134217728"
    and "snd (balloc_before \<lparr>ar_datatype = mt_import datatype, ar_nelem = nelem\<rparr> (ma_sp s) s) \<le> ma_sp s - ma_hp s"
  shows "\<exists>h t u. MA_push_stack bytealloc datatype nelem name s = Some (True, Some h, t) \<and>
    MA_pop_stack h t = Some (True, u) \<and> ma_wf u L \<and> table_map u = table_map s \<and>
    ma_hp u = ma_hp s \<and> ma_sp u = ma_sp s \<and> (\<forall>a\<in>used_blocks L. same_block s u a) \<and>
    (\<forall>g r v. g \<noteq> h \<and> MA_pop_stack g t = Some (r, v) \<longrightarrow> \<not> r \<and> quiet t v)"
proof -
  define x where "x = ma_sp s - snd (balloc_before \<lparr>ar_datatype = mt_import datatype, ar_nelem = nelem\<rparr> (ma_sp s) s)"
  obtain h t where a: "MA_push_stack bytealloc datatype nelem name s = Some (True, Some h, t)"
      "allocated s L (mt_import datatype) nelem name h x t (L(SUsed := x # L SUsed))" "ma_sp t = x"
    using MA_push_stack_total(1) [where bytealloc = bytealloc and name = name, OF assms] unfolding x_def by blast
  then have t: "ma_wf t (L(SUsed := x # L SUsed))" "table_map t h = Some x" by (simp_all add: allocated_def)
  obtain u L2 where u: "MA_pop_stack h t = Some (True, u)" "released t (L(SUsed := x # L SUsed)) {x} u L2"
      "L2 HUsed = L HUsed" "L2 SUsed = L SUsed"
    using MA_pop_stack_ok [OF t(1), of h] t(2) a(3) by auto
  have "\<not> r \<and> quiet t v" if "g \<noteq> h" "MA_pop_stack g t = Some (r, v)" for g r v
  proof (rule MA_pop_stack_fail [OF t(1) that(2)])
    have "table_map t g \<noteq> Some x" using ma_wfD(11) [OF t(1)] t(2) that(1) unfolding handles_for_def inj_on_def
      by (metis domI)
    then show "\<not> (table_map t g = Some (ma_sp t) \<and> ma_sp t \<in> set ((L(SUsed := x # L SUsed)) SUsed))"
      using a(3) by simp
  qed
  then show ?thesis using allocated_released [OF assms(1) a(2) u(2,3,4)] a(1) u(1) by blast
qed

theorem MA_push_pop_roundtrip_witness:
  "\<exists>h t u. MA_push_stack (\<lambda>_. True) 1004 10 None demo = Some (True, Some h, t) \<and>
     MA_pop_stack h t = Some (True, u) \<and> ma_sp u = 4196496 \<and> table_map u = table_map demo"
  using MA_push_pop_roundtrip [OF demo_wf demo_valid(1), of 10 "\<lambda>_. True" None] demo_request [of demo 10]
  by (auto simp: demo_valid demo_parts demo_layout)

text \<open>
  C10. Chopping the stack at a handle pops that block and every block pushed after it, with their
  handles, and leaves the older blocks and the heap as they are; the stack pointer is then the end
  of the handle's block. For any other handle the call fails and changes nothing.
\<close>

theorem MA_chop_stack_effect:
  assumes "ma_wf s L"
  shows "(\<forall>x. table_map s h = Some x \<and> x \<in> set (L SUsed) \<longrightarrow>
      (\<exists>s'. MA_chop_stack h s = Some (True, s') \<and> ma_sp s' = x + nbytes_of s x \<and>
         released s L {a \<in> set (L SUsed). a \<le> x} s' (L(SUsed := filter (\<lambda>a. x < a) (L SUsed))))) \<and>
    (\<forall>r s'. MA_chop_stack h s = Some (r, s') \<and> \<not> (\<exists>x. table_map s h = Some x \<and> x \<in> set (L SUsed)) \<longrightarrow>
      \<not> r \<and> quiet s s')"
  using MA_chop_stack_ok [OF assms, of h] MA_chop_stack_fail [OF assms, of h] unfolding not_le by blast

theorem MA_chop_stack_effect_witness:
  "\<exists>s h s' L. table_map s h = Some 4196320 \<and> MA_chop_stack h s = Some (True, s') \<and>
     released s L {4196320} s' (L(SUsed := []))"
proof (rule demo_run)
  fix h1 s1 h2 s2 L
  assume a: "ma_wf s2 L" "L SUsed = [4196320]" "table_map s2 = [h1 \<mapsto> 4196320, h2 \<mapsto> 4194304]" "h1 \<noteq> h2"
  then have h: "table_map s2 h1 = Some 4196320 \<and> 4196320 \<in> set (L SUsed)" by simp
  have "{a \<in> set (L SUsed). a \<le> 4196320} = {4196320}" using a(2) by auto
  with MA_chop_stack_effect [OF a(1), of h1, THEN conjunct1, rule_format, OF h] h a(2) show ?thesis by auto
qed

section \<open>Handles and checks\<close>

text \<open>
  C11. For a live handle \<open>MA_get_pointer\<close> gives the block's client space and \<open>MA_get_index\<close> the
  index with which the base array of the block's datatype reaches the same address: the base address
  plus the index times the element size is exactly the pointer. Neither call changes a block.
\<close>

theorem MA_pointer_index_agree:
  assumes "ma_wf s L" "table_map s h = Some x"
  shows "\<exists>p i s1 s2. MA_get_pointer h s = Some (True, Some p, s1) \<and> MA_get_index h s = Some (True, Some i, s2) \<and>
    p = ad_client_space (ads s x) \<and>
    u64 (base_dt s (ad_datatype (ads s x)) + i * sizeof_dt s (ad_datatype (ads s x))) = p \<and>
    quiet s s1 \<and> quiet s s2"
  using MA_get_pointer_ok [OF assms] MA_get_index_ok [OF assms]
    client_space_index_exact [OF assms(1), of x] mh2ad_wf(2) [OF assms] by blast

theorem MA_pointer_index_agree_witness:
  "\<exists>s h p i s1 s2. MA_get_pointer h s = Some (True, Some p, s1) \<and> MA_get_index h s = Some (True, Some i, s2) \<and>
     table_map s h = Some 4194304 \<and>
     u64 (base_dt s (ad_datatype (ads s 4194304)) + i * sizeof_dt s (ad_datatype (ads s 4194304))) = p"
proof (rule demo_run)
  fix h1 s1 h2 s2 L
  assume a: "ma_wf s2 L" "table_map s2 = [h1 \<mapsto> 4196320, h2 \<mapsto> 4194304]"
  then have h: "table_map s2 h2 = Some 4194304" by simp
  from MA_pointer_index_agree [OF a(1) h] h show ?thesis by blast
qed

lemma list_verify_run:
  assumes "linked (ads s) p xs" "0 \<le> b"
  shows "\<exists>b' c' l' r'. list_verify p s (n, b, c, l, r) = Some (n + int (length xs), b', c', l', r') \<and>
    b \<le> b' \<and> (b' = b \<longleftrightarrow> (\<forall>a\<in>set xs. intact s a))"
  using assms
proof (induction xs arbitrary: p n b c l r)
  case Nil
  then show ?case by (subst list_verify.simps) simp
next
  case (Cons x xs)
  have p: "p = x" "x \<noteq> 0" "linked (ads s) (next_of x s) xs" using Cons.prems by (auto simp: next_of_def)
  define b1 c1 l1 r1 where "b1 = b + of_bool (\<not> intact s x)"
    and "c1 = c + of_bool (checksum (ads s x) \<noteq> ad_checksum (ads s x))"
    and "l1 = l + of_bool (guard_read (guard1 s x) s \<noteq> GUARD1)" and "r1 = r + of_bool (guard_read (guard2 s x) s \<noteq> GUARD2)"
  have "list_verify p s (n, b, c, l, r) = list_verify (next_of x s) s (n + 1, b1, c1, l1, r1)"
    by (subst list_verify.simps) (auto simp: p b1_def c1_def l1_def r1_def intact_def guard_check_def Let_def)
  moreover have "0 \<le> b1" using Cons.prems(2) by (simp add: b1_def)
  ultimately show ?case using Cons.IH [OF p(3), of b1 "n + 1" c1 l1 r1] by (auto simp: b1_def algebra_simps)
qed

lemma MA_verify_run:
  assumes L: "lists_are s L" and f: "\<not> ma_hard_fail s"
  shows "\<exists>s'. MA_verify_allocator_stuff s = Some (\<forall>a\<in>used_blocks L. intact s a, s') \<and> quiet s s'"
proof -
  define t where "t = bump FID_MA_verify_allocator_stuff s"
  have qt: "quiet s t" unfolding t_def by (rule quiet_stats [OF stats_only_bump])
  have v: "same_view s t" using quiet_view [OF qt] by blast
  have i: "intact t = intact s" using same_viewD(5,7) [OF v] by (simp add: fun_eq_iff intact_def)
  have Lt: "lists_are t L" using L same_viewD(1) [OF v] by simp
  note lk = lists_areD(1) [OF Lt]
  obtain bh ch lh rh where h: "list_verify (ma_hused t) t (0, 0, 0, 0, 0) = Some (int (length (L HUsed)), bh, ch, lh, rh)"
      "0 \<le> bh" "bh = 0 \<longleftrightarrow> (\<forall>a\<in>set (L HUsed). intact s a)"
    using list_verify_run [OF lk [of HUsed], of 0 0 0 0 0] unfolding i by auto metis
  obtain bs cs ls rs where k: "list_verify (ma_sused t) t (0, 0, 0, 0, 0) = Some (int (length (L SUsed)), bs, cs, ls, rs)"
      "0 \<le> bs" "bs = 0 \<longleftrightarrow> (\<forall>a\<in>set (L SUsed). intact s a)"
    using list_verify_run [OF lk [of SUsed], of 0 0 0 0 0] unfolding i by auto metis
  have all: "(\<forall>a\<in>used_blocks L. intact s a) \<longleftrightarrow> \<not> (bh > 0 \<or> bs > 0)"
    using h(2,3) k(2,3) by (auto simp: used_blocks_def)
  show ?thesis
  proof (cases "bh > 0 \<or> bs > 0")
    case False
    then show ?thesis using h(1) k(1) qt all 
      by (simp add: MA_verify_allocator_stuff_def flip: t_def)
  next
    case True
    have "\<not> ma_hard_fail t" using f quiet_view [OF qt] by (simp add: fixed_parts_def)
    then obtain l where "ma_error EL_Nonfatal ET_External ''MA_verify_allocator_stuff'' (t\<lparr>ma_error_print := True\<rparr>) =
        Some (t\<lparr>ma_error_print := True, stderr_log := l\<rparr>)"
      using ma_error_nonfatal [of "t\<lparr>ma_error_print := True\<rparr>"] by auto
    then have "MA_verify_allocator_stuff s = Some (False, t\<lparr>stderr_log := l\<rparr>)"
      using True h(1) k(1) by (simp add: MA_verify_allocator_stuff_def flip: t_def)
    then show ?thesis using True all quiet_trans [OF qt quiet_log] by auto
  qed
qed

text \<open>
  C12. \<open>MA_verify_allocator_stuff\<close> is exact: on linked lists it comes back, it reports true exactly when
  the descriptor and both guards of every block in use are intact, and it changes nothing but the
  call counter and the error log.
\<close>

theorem MA_verify_exact:
  assumes "lists_are s L" "\<not> ma_hard_fail s"
  shows "\<exists>s'. MA_verify_allocator_stuff s = Some (\<forall>a\<in>used_blocks L. intact s a, s') \<and> quiet s s'"
  by (rule MA_verify_run [OF assms])

theorem MA_verify_exact_witness:
  "\<exists>s h s'. table_map s = [h \<mapsto> 4196320] \<and> MA_verify_allocator_stuff s = Some (True, s') \<and> quiet s s' \<and> intact s 4196320"
proof (rule demo_run)
  fix h1 s1
  assume s: "ma_wf s1 ((\<lambda>_. [])(SUsed := [4196320]))" "fixed_parts demo s1" "table_map s1 = [h1 \<mapsto> 4196320]"
  have "\<not> ma_hard_fail s1" using s(2) demo_parts(3) by (simp add: fixed_parts_def)
  moreover have "used_blocks ((\<lambda>_. [])(SUsed := [4196320])) = {4196320}" by (auto simp: used_blocks_def)
  moreover have "intact s1 4196320"
    using ma_wfD(9) [OF s(1), of 4196320] by (auto simp: used_blocks_def block_ok_def Let_def intact_def)
  ultimately show ?thesis using MA_verify_exact [OF ma_wfD(6) [OF s(1)]] s(3) by fastforce
qed

lemma mh2ad_corrupt:
  assumes "table_map s h = Some x" "\<not> intact s x" "\<not> ma_hard_fail s"
  shows "\<exists>s'. mh2ad h loc caller s = Some (None, s') \<and> quiet s s'"
proof -
  obtain l where e: "ma_error EL_Nonfatal ET_External caller s = Some (s\<lparr>stderr_log := l\<rparr>)"
    using ma_error_nonfatal [OF assms(3)] by blast
  have "mh2ad h loc caller s = mh2ad_error caller s"
    using assms(2) by (auto simp: mh2ad_def ma_table_verify_valid [OF assms(1)] ma_table_lookup_valid [OF assms(1)] intact_def)
  then show ?thesis using e quiet_log by (simp add: mh2ad_error_def)
qed

text \<open>The way every routine that takes a handle begins.\<close>

lemma corrupt_prologue:
  assumes L: "lists_are s L" and f: "\<not> ma_hard_fail s" and h: "table_map s h = Some x" "x \<in> used_blocks L"
    and bad: "\<not> intact s x"
  shows "\<exists>s'. do { (ok, s) \<leftarrow> auto_verify (bump fid s);
        if \<not> ok then Some (F s)
        else do { (ad, s) \<leftarrow> mh2ad h loc caller s;
                  case ad of None \<Rightarrow> Some (F s) | Some ad \<Rightarrow> k ad s } } = Some (F s') \<and> quiet s s'"
proof -
  define t where "t = bump fid s"
  have q: "quiet s t" unfolding t_def by (rule quiet_stats [OF stats_only_bump])
  note v = quiet_view [OF q]
  have vt: "same_view s t" using v by blast
  have i: "intact t = intact s" using same_viewD(5,7) [OF vt] by (simp add: fun_eq_iff intact_def)
  have T: "lists_are t L" "\<not> ma_hard_fail t" "table_map t h = Some x" "\<not> intact t x"
    using v L f h(1) bad same_viewD(1) [OF vt] i by (simp_all add: fixed_parts_def)
  show ?thesis
  proof (cases "ma_auto_verify t")
    case True
    have "(\<forall>a\<in>used_blocks L. intact t a) = False" using h(2) T(4) by blast
    then obtain s' where "MA_verify_allocator_stuff t = Some (False, s')" "quiet t s'"
      using MA_verify_run [OF T(1,2)] by (simp only:) blast
    then show ?thesis using True quiet_trans [OF q] by (auto simp: auto_verify_def simp flip: t_def)
  next
    case False
    then show ?thesis using mh2ad_corrupt [OF T(3,4,2), of loc caller] quiet_trans [OF q]
      by (auto simp: auto_verify_def simp flip: t_def)
  qed
qed

text \<open>
  C13. A block whose guard or descriptor was overwritten is never freed, popped, chopped or given
  out: every routine that takes its handle reports failure and changes no block, no list and no handle.
\<close>

theorem MA_corrupt_block_refused:
  assumes "lists_are s L" "\<not> ma_hard_fail s" "table_map s h = Some x" "x \<in> used_blocks L" "\<not> intact s x"
  shows "(\<exists>s'. MA_free_heap h s = Some (False, s') \<and> quiet s s') \<and>
    (\<exists>s'. MA_free_heap_piece h n s = Some (False, s') \<and> quiet s s') \<and>
    (\<exists>s'. MA_pop_stack h s = Some (False, s') \<and> quiet s s') \<and>
    (\<exists>s'. MA_chop_stack h s = Some (False, s') \<and> quiet s s') \<and>
    (\<exists>s'. MA_get_pointer h s = Some (False, None, s') \<and> quiet s s') \<and>
    (\<exists>s'. MA_get_index h s = Some (False, None, s') \<and> quiet s s')"
  unfolding MA_free_heap_def MA_free_heap_piece_def MA_pop_stack_def MA_chop_stack_def MA_get_pointer_def
    MA_get_index_def Let_def
  by (intro conjI corrupt_prologue [OF assms, where F = "\<lambda>s. (False, s)"]
      corrupt_prologue [OF assms, where F = "\<lambda>s. (False, None, s)"])

lemma demo_corrupt:
  obtains s L h where "lists_are s L" "\<not> ma_hard_fail s" "table_map s h = Some 4194304" "4194304 \<in> used_blocks L"
    "\<not> intact s 4194304"
proof (rule demo_run)
  fix h1 s1 h2 s2 L
  assume a: "ma_wf s2 L" "L HUsed = [4194304]" "table_map s2 = [h1 \<mapsto> 4196320, h2 \<mapsto> 4194304]"
    "fixed_parts demo s1" "MA_allocate_heap (\<lambda>_. True) 1004 10 None s1 = Some (True, Some h2, s2)"
  let ?s = "s2\<lparr>mem := \<lambda>_. 0, ma_hard_fail := False\<rparr>"
  have "lists_are ?s L"
    by (rule lists_are_cong [OF ma_wfD(6) [OF a(1)]]) ((case_tac l; simp), simp add: next_of_def)
  moreover have "\<not> intact ?s 4194304" by (simp add: intact_def guard_check_def guard_read_def GUARD1_def)
  moreover have "table_map ?s h2 = Some 4194304" using a(3) by simp
  ultimately show ?thesis using that [of ?s L h2] a(2) by (simp add: used_blocks_def)
qed

theorem MA_corrupt_block_refused_witness:
  "\<exists>s h s'. table_map s h = Some 4194304 \<and> MA_free_heap h s = Some (False, s') \<and> quiet s s'"
  by (rule demo_corrupt) (use MA_corrupt_block_refused in blast)

section \<open>Where the size computation wraps\<close>

lemma init_ad_fields:
  "ad_nelem (ads (init_ad l x d n name s) x) = n" "ad_datatype (ads (init_ad l x d n name s) x) = d"
  by (cases l, auto simp: init_ad_def Let_def guard_set_def guard_write_def upd_ad_def list_insert_def set_next_def)+

lemma demo_layout0: "snd (balloc_after \<lparr>ar_datatype = 4, ar_nelem = 0\<rparr> 4194304 demo) = 96"
  by code_simp

lemma balloc_after_wrap:
  assumes "u64 (n * sizeof_dt s d) = u64 (n' * sizeof_dt s d)"
  shows "balloc_after \<lparr>ar_datatype = d, ar_nelem = n\<rparr> a s = balloc_after \<lparr>ar_datatype = d, ar_nelem = n'\<rparr> a s"
  using assms by (simp add: balloc_after_def Let_def)

lemma delete_one_loop_cong:
  assumes "linked (ads s) p xs" "\<And>y. pred y s = pred' y s" "\<And>y t. pred' y s = Some (False, t) \<Longrightarrow> t = s"
  shows "delete_one_loop l pred q p s = delete_one_loop l pred' q p s \<and>
    (\<forall>s'. delete_one_loop l pred' q p s = Some (0, s') \<longrightarrow> s' = s)"
  using assms
proof (induction xs arbitrary: p q)
  case Nil
  then have "p = 0" by simp
  then show ?case by (simp add: delete_one_loop.simps)
next
  case (Cons x xs)
  have p: "p = x" "linked (ads s) (next_of x s) xs" using Cons.prems(1) by (auto simp: next_of_def)
  have "x \<noteq> 0" using Cons.prems(1) by auto
  moreover have "delete_one_loop l pred x (next_of x s) s = delete_one_loop l pred' x (next_of x s) s \<and>
    (\<forall>s'. delete_one_loop l pred' x (next_of x s) s = Some (0, s') \<longrightarrow> s' = s)"
    using Cons.IH [OF p(2) Cons.prems(2,3)] .
  moreover have "t = s" if "pred' x s = Some (False, t)" for t using Cons.prems(3) that .
  ultimately show ?case using Cons.prems(2) [of x] p(1)
    by (subst (1 2 3) delete_one_loop.simps) (auto split: prod.splits Option.bind_splits)
qed

lemma heap_space_wrap:
  assumes L: "lists_are s L" and e: "u64 (n * sizeof_dt s d) = u64 (n' * sizeof_dt s d)"
  shows "heap_space \<lparr>ar_datatype = d, ar_nelem = n\<rparr> s = heap_space \<lparr>ar_datatype = d, ar_nelem = n'\<rparr> s"
proof -
  let ?a = "\<lparr>ar_datatype = d, ar_nelem = n\<rparr>" and ?b = "\<lparr>ar_datatype = d, ar_nelem = n'\<rparr>"
  have "list_delete_one HFree (ad_big_enough ?a) s = list_delete_one HFree (ad_big_enough ?b) s \<and>
      (\<forall>s'. list_delete_one HFree (ad_big_enough ?b) s = Some (0, s') \<longrightarrow> s' = s)"
    unfolding list_delete_one_def
  proof (rule delete_one_loop_cong [OF lists_areD(1) [OF L]])
    show "ad_big_enough ?a y s = ad_big_enough ?b y s" for y
      by (simp add: ad_big_enough_def balloc_after_wrap [OF e])
    show "t = s" if "ad_big_enough ?b y s = Some (False, t)" for y t
      using that by (auto simp: ad_big_enough_def split: prod.splits if_splits Option.bind_splits)
  qed
  then show ?thesis unfolding heap_space_def
    by (cases "list_delete_one HFree (ad_big_enough ?b) s") (auto simp: balloc_after_wrap [OF e])
qed

text \<open>
  C14. A request whose size in bytes does not fit \<open>size_t\<close> is not refused: \<open>2^61\<close> elements of eight
  bytes are taken for none. The allocation succeeds as soon as an empty block fits, with a block that
  claims more elements than the whole segment has bytes.
\<close>

theorem MA_allocate_heap_wraps:
  assumes wf: "ma_wf s L" and v: "mt_valid datatype" "sizeof_dt s (mt_import datatype) = 8"
    and m: "\<And>n. bytealloc n" "ma_table_capacity s < 134217728"
    and fit: "first_fit s L (mt_import datatype) 0 = Some x"
  shows "\<exists>h s'. MA_allocate_heap bytealloc datatype (2 ^ 61) name s = Some (True, Some h, s') \<and>
    table_map s' h = Some x \<and> ad_nelem (ads s' x) = 2 ^ 61 \<and> ma_eos s' < 2 ^ 61 \<and> ma_eos s' < client_end s' x"
proof -
  let ?d = "mt_import datatype" and ?n = "2 ^ 61 :: int"
  obtain t where t: "auto_verify (bump FID_MA_allocate_heap s) = Some (True, t)" "stats_only s t" "ma_wf t L"
    using prologue_wf [OF wf] by blast
  note st = stats_only_simps [OF t(2)]
  have d: "0 \<le> ?d" "?d < 17" using v(1) by (auto simp: mt_valid_def MT_FIRST_def MT_LAST_def MT_BASE_def mt_import_def)
  have z: "sizeof_dt t ?d = 8" using v(2) st(9) by (simp add: sizeof_dt_def)
  have "request_ok t ?d 0" using d by (simp add: request_ok_def)
  moreover have "first_fit t L ?d 0 = Some x" using fit first_fit_stats [OF t(2)] by simp
  ultimately obtain u F where u: "heap_space \<lparr>ar_datatype = ?d, ar_nelem = 0\<rparr> t = Some (Some x, u)"
      "reserved t L \<lparr>ar_datatype = ?d, ar_nelem = 0\<rparr> x u F"
    using heap_space_first_fit [OF t(3)] by fastforce
  have w: "heap_space \<lparr>ar_datatype = ?d, ar_nelem = ?n\<rparr> t = Some (Some x, u)"
    using u(1) heap_space_wrap [OF ma_wfD(6) [OF t(3)], of ?n ?d 0] z by (simp add: u64_def)
  define s2 where "s2 = init_ad HUsed x ?d ?n name u"
  define s3 where "s3 = (if u64 (x + nbytes_of s2 x) > ma_hp s2 then s2\<lparr>ma_hp := u64 (x + nbytes_of s2 x)\<rparr> else s2)"
  define t3 where "t3 = count_heap_block (nbytes_of s3 x) s3"
  have B: "body_only t s2" unfolding s2_def
    using body_only_trans [OF ads_body init_ad_body] u(2) by (auto simp: reserved_def)
  have T: "table_inv t3" "ma_table_capacity t3 = ma_table_capacity s" "ma_sizeof t3 = ma_sizeof s" "ma_eos t3 = ma_eos s"
    using ma_wfD(10) [OF t(3)] body_only_simps [OF B] st B t(2)
    by (auto simp: t3_def s3_def count_heap_block_def Let_def body_only_def stats_only_def)
  obtain h s' where h: "ma_table_allocate bytealloc x t3 = Some (h, s')" "h \<noteq> TABLE_HANDLE_NONE"
    using ma_table_allocate_ok [OF T(1), of bytealloc x] m T(2) by auto
  have run: "MA_allocate_heap bytealloc datatype ?n name s = Some (True, Some h, s')"
    using t(1) ma_wfD(1) [OF t(3)] v(1) w h unfolding t3_def s3_def s2_def
    by (auto simp: MA_allocate_heap_def Let_def)
  have fr: "table_frame t3 s'" "table_map s' h = Some x"
    using tab.alloc_inv [OF T(1) h(1)] tab.alloc_some [OF T(1) h] by auto
  have "ads s' = ads s2" using same_viewD(5) [OF same_view_table [OF fr(1)]]
    by (simp add: t3_def s3_def count_heap_block_def Let_def)
  then have A: "ad_nelem (ads s' x) = ?n" "ad_datatype (ads s' x) = ?d"
      "ad_client_space (ads s' x) = fst (balloc_after \<lparr>ar_datatype = ?d, ar_nelem = 0\<rparr> x t)"
    using u(2) by (simp_all add: s2_def init_ad_space init_ad_fields reserved_def)
  have S: "ma_sizeof s' = ma_sizeof s" "ma_eos s' = ma_eos s" using fr(1) T(3,4) by (auto simp: table_frame_def)
  have "0 \<le> x" "x < 4611686018427387904" using u(2) by (auto simp: reserved_def)
  then have "0 \<le> fst (balloc_after \<lparr>ar_datatype = ?d, ar_nelem = 0\<rparr> x t)"
    using balloc_after_spec [OF ma_wfD(2) [OF t(3)] \<open>request_ok t ?d 0\<close>, of x] by auto
  then show ?thesis using run fr(2) A S v(2) ma_wf_eos [OF wf] by (auto simp: client_end_def sizeof_dt_def)
qed

theorem MA_allocate_heap_wraps_witness:
  "\<exists>h s. MA_allocate_heap (\<lambda>_. True) 1004 (2 ^ 61) None demo = Some (True, Some h, s) \<and>
     table_map s h = Some 4194304 \<and> ma_eos s < client_end s 4194304"
proof -
  have "first_fit demo (\<lambda>_. []) (mt_import 1004) 0 = Some 4194304"
    by (simp add: first_fit_def need_def demo_parts demo_valid demo_layout0)
  moreover have "sizeof_dt demo (mt_import 1004) = 8" by (simp add: sizeof_dt_def demo_parts demo_valid)
  ultimately show ?thesis
    using MA_allocate_heap_wraps [OF demo_wf demo_valid(1), of "\<lambda>_. True" 4194304 None] demo_parts(4) by auto
qed

end
