(* ===== verification/MA_Inquire.thy ===== *)
theory MA_Inquire
  imports MA_Theorems
begin

text \<open>
  What the inquiry routines of the memory allocator answer (src/ma/ma.c, modelled in \<open>MA_Queries\<close>): the largest
  number of elements for which a block fits.
\<close>

section \<open>How many elements fit\<close>

text \<open>The space a request takes does not shrink when more elements are asked for.\<close>

lemma need_spec:
  assumes "sizes_ok s" "request_ok s d n" "0 \<le> a" "a < 4611686018427387904"
  shows "\<exists>g. need s d n a = fst (balloc_after \<lparr>ar_datatype = d, ar_nelem = 0\<rparr> a s) - a + 4 + n * sizeof_dt s d + g \<and>
    0 \<le> g \<and> g < 8 \<and> 8 dvd need s d n a \<and> 88 + n * sizeof_dt s d \<le> need s d n a"
proof -
  obtain g1 g2 where g: "balloc_after \<lparr>ar_datatype = d, ar_nelem = n\<rparr> a s = (a + 84 + g1, 88 + g1 + n * sizeof_dt s d + g2)"
      "0 \<le> g1" "0 \<le> g2" "g2 < 8" "8 dvd 88 + g1 + n * sizeof_dt s d + g2"
    using balloc_after_spec [OF assms] by blast
  then have "fst (balloc_after \<lparr>ar_datatype = d, ar_nelem = 0\<rparr> a s) = a + 84 + g1"
    using balloc_after_fst [of d 0 a s n] by simp
  then show ?thesis using g by (intro exI [of _ g2]) (simp add: need_def)
qed

lemma round8_mono:
  "x \<le> y \<Longrightarrow> 8 dvd p \<Longrightarrow> 8 dvd q \<Longrightarrow> p = x + g \<Longrightarrow> q = y + g' \<Longrightarrow> 0 \<le> g' \<Longrightarrow> g < 8 \<Longrightarrow> p \<le> q" for p q :: int
  by (elim dvdE) presburger

lemma need_mono:
  assumes "sizes_ok s" "request_ok s d n" "0 \<le> m" "m \<le> n" "0 \<le> a" "a < 4611686018427387904"
  shows "need s d m a \<le> need s d n a"
proof -
  have d: "0 < sizeof_dt s d" using assms(1,2) sizeof_dt_ok(1) [of s d] by (auto simp: request_ok_def)
  then have le: "m * sizeof_dt s d \<le> n * sizeof_dt s d" using assms(4) by simp
  then have "request_ok s d m" using assms(2,3) by (auto simp: request_ok_def)
  from need_spec [OF assms(1) this assms(5,6)] need_spec [OF assms(1,2,5,6)] le show ?thesis
    by (elim exE conjE) (rule round8_mono, auto)
qed

lemma ma_nelem_loop_spec:
  "let r = ma_nelem_loop s a len d n in r \<le> n \<and> (0 < r \<longrightarrow> need s d (int r) a \<le> len) \<and>
     (\<forall>m. r < m \<and> m \<le> n \<longrightarrow> len < need s d (int m) a)"
proof (induction n)
  case (Suc n)
  then show ?case by (auto simp: Let_def need_def le_Suc_eq)
qed simp

text \<open>\<open>ma_nelem\<close> is the largest number of elements for which a block fits in \<open>len\<close> bytes.\<close>

lemma ma_nelem_spec:
  assumes sz: "sizes_ok s" and d: "0 \<le> d" "d < 17" and a: "0 \<le> a" "a < 4611686018427387904"
    and len: "0 \<le> len" "len \<le> 2305843009213693952"
  shows "0 \<le> ma_nelem a len d s" "request_ok s d (ma_nelem a len d s)"
    "0 < m \<Longrightarrow> request_ok s d m \<Longrightarrow> need s d m a \<le> len \<longleftrightarrow> m \<le> ma_nelem a len d s"
proof -
  let ?z = "sizeof_dt s d" and ?N = "ma_nelem a len d s"
  have z: "0 < ?z" using sizeof_dt_ok(1) [OF sz d] .
  define q where "q = (len - 88) div ?z"
  have lt: "len < 88 + m * ?z" if "q < m" for m
  proof -
    have "(q + 1) * ?z \<le> m * ?z" using that z by simp
    moreover have "len - 88 < q * ?z + ?z"
      unfolding q_def using div_mult_mod_eq [of "len - 88" ?z] pos_mod_bound [OF z, of "len - 88"] by linarith
    ultimately show ?thesis by (simp add: distrib_right)
  qed
  have qz: "q * ?z \<le> len - 88"
    unfolding q_def using div_mult_mod_eq [of "len - 88" ?z] pos_mod_sign [OF z, of "len - 88"] by linarith
  have N: "0 \<le> ?N \<and> ?N \<le> max 0 q \<and> (0 < ?N \<longrightarrow> need s d ?N a \<le> len) \<and>
      (\<forall>m. ?N < m \<and> m \<le> q \<longrightarrow> len < need s d m a)"
  proof (cases "len \<le> 88")
    case True
    then have "q \<le> 0" unfolding q_def using z by (simp add: div_nonpos_pos_le0)
    then show ?thesis using True by (auto simp: ma_nelem_def BLOCK_OVERHEAD_FIXED_def sizeof_AD_def sizeof_Guard_def)
  next
    case False
    then have q0: "0 \<le> q" unfolding q_def using z by (simp add: pos_imp_zdiv_nonneg_iff)
    then have "q * 1 \<le> q * ?z" using z by (intro mult_left_mono) auto
    then have "s64 q = q" using q0 qz len by (intro s64_id) auto
    then have e: "?N = (if q > 0 then int (ma_nelem_loop s a len d (nat q)) else q)"
      using False unfolding q_def by (simp add: ma_nelem_def BLOCK_OVERHEAD_FIXED_def sizeof_AD_def sizeof_Guard_def Let_def)
    show ?thesis
    proof (cases "q > 0")
      case True
      have "int (ma_nelem_loop s a len d (nat q)) < m \<Longrightarrow> m \<le> q \<Longrightarrow> len < need s d m a" for m
        using ma_nelem_loop_spec [of s a len d "nat q"] unfolding Let_def
        by (cases m) (auto simp: le_nat_iff)
      then show ?thesis using ma_nelem_loop_spec [of s a len d "nat q"] True unfolding e Let_def by auto
    qed (use e q0 in auto)
  qed
  show N0: "0 \<le> ?N" using N by blast
  have "?N * ?z \<le> max 0 q * ?z" using N z by (intro mult_right_mono) auto
  also have "\<dots> \<le> 2305843009213693952" using qz len by (cases "0 \<le> q") auto
  finally show rN: "request_ok s d ?N" using N0 d by (simp add: request_ok_def)
  show "need s d m a \<le> len \<longleftrightarrow> m \<le> ?N" if m: "0 < m" "request_ok s d m"
  proof
    assume "m \<le> ?N"
    then show "need s d m a \<le> len" using need_mono [OF sz rN _ _ a, of m] m N by auto
  next
    assume n: "need s d m a \<le> len"
    show "m \<le> ?N"
    proof (rule ccontr)
      assume "\<not> m \<le> ?N"
      moreover have "88 + m * ?z \<le> need s d m a" using need_spec [OF sz m(2) a] by blast
      ultimately show False using N lt [of m] n by (cases "m \<le> q") force+
    qed
  qed
qed


text \<open>
  The part of a free block that is below the partition, and whether a request fits in this part.
\<close>

definition within :: "ma_state \<Rightarrow> int \<Rightarrow> int" where
  "within s a = min (nbytes_of s a) (ma_partition s - a)"

definition usable :: "ma_state \<Rightarrow> int \<Rightarrow> int \<Rightarrow> int \<Rightarrow> bool" where
  "usable s d n a \<longleftrightarrow> a < ma_partition s \<and> need s d n a \<le> within s a"

text \<open>The largest fragment: the search ends, and what it reports fits in one of the free blocks and is
  at least what fits in any of those with \<open>k\<close> bytes or more.\<close>

lemma max_heap_frag_loop_spec:
  assumes "linked (ads s) p xs" "sizes_ok s" "0 \<le> d" "d < 17"
    and "\<And>a. a \<in> set xs \<Longrightarrow> 0 \<le> a \<and> 0 \<le> nbytes_of s a \<and> a + nbytes_of s a < 2305843009213693952"
    and "0 \<le> m"
  shows "\<exists>r. max_heap_frag_loop d k p m s = Some r \<and> m \<le> r \<and>
    (m < r \<longrightarrow> request_ok s d r \<and> (\<exists>a\<in>set xs. need s d r a \<le> nbytes_of s a)) \<and>
    (\<forall>a\<in>set xs. \<forall>n. 0 < n \<and> request_ok s d n \<and> usable s d n a \<and> k \<le> within s a \<longrightarrow> n \<le> r)"
  using assms(1,5,6)
proof (induction xs arbitrary: p m)
  case Nil
  then show ?case by (subst max_heap_frag_loop.simps) simp
next
  case (Cons x xs)
  have p: "p = x" "x \<noteq> 0" "linked (ads s) (next_of x s) xs" using Cons.prems(1) by (auto simp: next_of_def)
  have x: "0 \<le> x" "0 \<le> nbytes_of s x" "x + nbytes_of s x < 2305843009213693952" using Cons.prems(2) [of x] by simp_all
  have ux: "u64 (x + nbytes_of s x) = x + nbytes_of s x" using x by (intro u64_id) auto
  define b where "b = (if x + nbytes_of s x \<ge> ma_partition s then u64 (ma_partition s - x) else nbytes_of s x)"
  define m' where "m' = (if x \<ge> ma_partition s then m else if b \<ge> k then max m (ma_nelem x b d s) else m)"
  have run: "max_heap_frag_loop d k p m s = max_heap_frag_loop d k (next_of x s) m' s"
    by (subst max_heap_frag_loop.simps) (simp add: p m'_def b_def ux Let_def)
  have b: "b = within s x" "0 \<le> b" "b \<le> nbytes_of s x" if "\<not> x \<ge> ma_partition s"
    using that x by (auto simp: b_def within_def u64_id)
  have m': "m \<le> m'" "m < m' \<Longrightarrow> request_ok s d m' \<and> need s d m' x \<le> nbytes_of s x"
    "0 < n \<Longrightarrow> request_ok s d n \<Longrightarrow> usable s d n x \<Longrightarrow> k \<le> within s x \<Longrightarrow> n \<le> m'" for n
  proof -
    show "m \<le> m'" by (simp add: m'_def)
    show "request_ok s d m' \<and> need s d m' x \<le> nbytes_of s x" if lt: "m < m'"
    proof -
      have e: "m' = ma_nelem x b d s" "\<not> x \<ge> ma_partition s" using lt by (auto simp: m'_def split: if_splits)
      have bb: "b \<le> 2305843009213693952" using b [OF e(2)] x by linarith
      note sp = ma_nelem_spec [OF assms(2-4) x(1) _ b(2) [OF e(2)] bb]
      have r: "request_ok s d m'" using sp(2) e(1) x by simp
      moreover have "need s d m' x \<le> b" using sp(3) [of m'] e(1) x lt Cons.prems(3) r by simp
      ultimately show ?thesis using b [OF e(2)] by simp
    qed
    show "n \<le> m'" if n: "0 < n" "request_ok s d n" "usable s d n x" "k \<le> within s x"
    proof -
      have e: "\<not> x \<ge> ma_partition s" "need s d n x \<le> within s x" using n(3) by (auto simp: usable_def)
      have bb: "b \<le> 2305843009213693952" using b [OF e(1)] x by linarith
      note sp = ma_nelem_spec [OF assms(2-4) x(1) _ b(2) [OF e(1)] bb]
      have "n \<le> ma_nelem x b d s" using sp(3) [OF _ n(1,2)] b(1) [OF e(1)] e(2) x by simp
      then show ?thesis using e(1) b(1) [OF e(1)] n(4) by (simp add: m'_def)
    qed
  qed
  obtain r where r: "max_heap_frag_loop d k (next_of x s) m' s = Some r" "m' \<le> r"
      "m' < r \<longrightarrow> request_ok s d r \<and> (\<exists>a\<in>set xs. need s d r a \<le> nbytes_of s a)"
      "\<forall>a\<in>set xs. \<forall>n. 0 < n \<and> request_ok s d n \<and> usable s d n a \<and> k \<le> within s a \<longrightarrow> n \<le> r"
    using Cons.IH [OF p(3), of m'] Cons.prems(2,3) m'(1) by auto
  have "n \<le> r" if "0 < n \<and> request_ok s d n \<and> usable s d n x \<and> k \<le> within s x" for n
    using m'(3) [of n] that r(2) by linarith
  then show ?case using run r m' by (cases "m' < r") auto
qed


lemma valid_import: "mt_valid datatype \<Longrightarrow> 0 \<le> mt_import datatype \<and> mt_import datatype < 17"
  by (auto simp: mt_valid_def mt_import_def MT_FIRST_def MT_LAST_def MT_BASE_def)

lemma need_stats: "stats_only s t \<Longrightarrow> need t = need s"
  using balloc_after_cong [of t s] stats_only_simps(9-11) [of s t] by (auto simp: need_def fun_eq_iff)

text \<open>The gap between heap and stack, measured at the end of the heap.\<close>

lemma gap_spec:
  assumes wf: "ma_wf s L" and d: "0 \<le> d" "d < 17"
  defines "n \<equiv> nelem_gap (ma_hp s) (u64 (ma_sp s - ma_hp s)) d s"
  shows "0 \<le> n" "request_ok s d n"
    "0 < m \<Longrightarrow> request_ok s d m \<Longrightarrow> need s d m (ma_hp s) \<le> ma_sp s - ma_hp s \<longleftrightarrow> m \<le> n"
proof -
  note t = ma_wf_tiles [OF wf]
  have r: "0 < ma_hp s" "ma_hp s \<le> ma_sp s" "ma_sp s < 2305843009213693952"
    using t(3,4) ma_wfD(3,4) [OF wf] ma_wf_eos [OF wf] by linarith+
  have u: "u64 (ma_sp s - ma_hp s) = ma_sp s - ma_hp s" using r by (intro u64_id) auto
  note sz = ma_wfD(2) [OF wf]
  note sp = ma_nelem_spec [OF sz d, of "ma_hp s" "ma_sp s - ma_hp s"]
  have z: "88 + m * sizeof_dt s d \<le> need s d m (ma_hp s)" if "request_ok s d m" for m
    using need_spec [OF sz that, of "ma_hp s"] r by auto
  have zp: "0 < sizeof_dt s d" using sizeof_dt_ok(1) [OF sz d] .
  show "0 \<le> n" using sp(1) r u by (simp add: n_def nelem_gap_def)
  show "request_ok s d n" using sp(2) r u d by (auto simp: n_def nelem_gap_def request_ok_def)
  show "need s d m (ma_hp s) \<le> ma_sp s - ma_hp s \<longleftrightarrow> m \<le> n" if m: "0 < m" "request_ok s d m"
  proof (cases "ma_sp s - ma_hp s = 0")
    case True
    have "0 < m * sizeof_dt s d" using m zp by simp
    then show ?thesis using True z [OF m(2)] m u by (simp add: n_def nelem_gap_def)
  next
    case False
    then show ?thesis using sp(3) [OF _ _ _ _ m] r u by (simp add: n_def nelem_gap_def)
  qed
qed

lemma gap_sound:
  assumes wf: "ma_wf s L" and d: "0 \<le> d" "d < 17" and l: "0 \<le> len" "len \<le> ma_sp s - ma_hp s"
  defines "n \<equiv> nelem_gap (ma_hp s) len d s"
  shows "0 \<le> n" "request_ok s d n" "0 < m \<Longrightarrow> request_ok s d m \<Longrightarrow> need s d m (ma_hp s) \<le> len \<longleftrightarrow> m \<le> n"
proof -
  note t = ma_wf_tiles [OF wf]
  have r: "0 < ma_hp s" "ma_hp s \<le> ma_sp s" "ma_sp s < 2305843009213693952"
    using t(3,4) ma_wfD(3,4) [OF wf] ma_wf_eos [OF wf] by linarith+
  have ll: "len \<le> 2305843009213693952" using l r by linarith
  note sz = ma_wfD(2) [OF wf]
  note sp = ma_nelem_spec [OF sz d _ _ l(1) ll, of "ma_hp s"]
  have zp: "0 < sizeof_dt s d" using sizeof_dt_ok(1) [OF sz d] .
  show "0 \<le> n" using sp(1) r by (simp add: n_def nelem_gap_def)
  show "request_ok s d n" using sp(2) r d by (auto simp: n_def nelem_gap_def request_ok_def)
  show "need s d m (ma_hp s) \<le> len \<longleftrightarrow> m \<le> n" if m: "0 < m" "request_ok s d m"
  proof (cases "len = 0")
    case True
    have "0 < m * sizeof_dt s d" using m zp by simp
    moreover have "88 + m * sizeof_dt s d \<le> need s d m (ma_hp s)" using need_spec [OF sz m(2), of "ma_hp s"] r by auto
    ultimately show ?thesis using True m by (simp add: n_def nelem_gap_def)
  next
    case False
    then show ?thesis using sp(3) [OF _ _ m] r l by (simp add: n_def nelem_gap_def)
  qed
qed

text \<open>A block with more room than \<open>g\<close> elements need passes the threshold of the search.\<close>

lemma above_threshold:
  assumes "sizes_ok s" "request_ok s d g" "request_ok s d n" "g < n" "0 \<le> a" "a < 4611686018427387904" "need s d n a \<le> w"
  shows "u64 (g * sizeof_dt s d + BLOCK_OVERHEAD_FIXED) \<le> w"
proof -
  have d: "0 \<le> d" "d < 17" "0 \<le> g" "g * sizeof_dt s d \<le> 2305843009213693952" using assms(2) by (auto simp: request_ok_def)
  have z: "0 < sizeof_dt s d" using sizeof_dt_ok(1) [OF assms(1) d(1,2)] .
  have "0 \<le> g * sizeof_dt s d" using z d(3) by simp
  then have "u64 (g * sizeof_dt s d + BLOCK_OVERHEAD_FIXED) = g * sizeof_dt s d + BLOCK_OVERHEAD_FIXED"
    using d(4) by (intro u64_id) (auto simp: BLOCK_OVERHEAD_FIXED_def sizeof_AD_def sizeof_Guard_def)
  moreover have "g * sizeof_dt s d \<le> n * sizeof_dt s d" using assms(4) z by (intro mult_right_mono) auto
  moreover have "88 + n * sizeof_dt s d \<le> need s d n a" using need_spec [OF assms(1,3,5,6)] by blast
  ultimately show ?thesis using assms(7) by (simp add: BLOCK_OVERHEAD_FIXED_def sizeof_AD_def sizeof_Guard_def)
qed

lemma first_fit_gap: "need s d n (ma_hp s) \<le> ma_sp s - ma_hp s \<Longrightarrow> first_fit s L d n \<noteq> None"
  by (auto simp: first_fit_def split: option.splits)

lemma first_fit_frag: "a \<in> set (L HFree) \<Longrightarrow> need s d n a \<le> nbytes_of s a \<Longrightarrow> first_fit s L d n \<noteq> None"
  by (auto simp: first_fit_def find_None_iff split: option.splits)

lemma gap_or_frag_sound:
  assumes wf: "ma_wf s L" and d: "0 \<le> d" "d < 17" and l: "0 \<le> len" "len \<le> ma_sp s - ma_hp s"
  shows "\<exists>n. gap_or_frag (nelem_gap (ma_hp s) len d s) d s = Some n \<and> 0 \<le> n \<and>
    (0 < n \<longrightarrow> request_ok s d n \<and> first_fit s L d n \<noteq> None) \<and>
    (\<forall>m. 0 < m \<and> request_ok s d m \<and> (need s d m (ma_hp s) \<le> len \<or> (\<exists>a\<in>set (L HFree). usable s d m a)) \<longrightarrow> m \<le> n)"
proof -
  let ?g = "nelem_gap (ma_hp s) len d s" let ?k = "u64 (?g * sizeof_dt s d + BLOCK_OVERHEAD_FIXED)"
  have b: "0 \<le> a \<and> 0 \<le> nbytes_of s a \<and> a + nbytes_of s a < 2305843009213693952" if "a \<in> set (L HFree)" for a
    using ma_wf_block [OF wf that] ma_wf_eos [OF wf] tiles_pos [OF ma_wf_tiles(1) [OF wf], of a] that by auto
  obtain r where r: "ma_max_heap_frag_nelem d ?g s = Some r" "0 \<le> r"
      "0 < r \<longrightarrow> request_ok s d r \<and> (\<exists>a\<in>set (L HFree). need s d r a \<le> nbytes_of s a)"
      "\<forall>a\<in>set (L HFree). \<forall>n. 0 < n \<and> request_ok s d n \<and> usable s d n a \<and> ?k \<le> within s a \<longrightarrow> n \<le> r"
    using max_heap_frag_loop_spec [OF lists_areD(1) [OF ma_wfD(6) [OF wf], of HFree] ma_wfD(2) [OF wf] d b, of 0 ?k]
    by (auto simp: ma_max_heap_frag_nelem_def)
  note g = gap_sound [OF wf d l] and sz = ma_wfD(2) [OF wf]
  have most: "m \<le> max ?g r" if m: "0 < m" "request_ok s d m" "need s d m (ma_hp s) \<le> len \<or> (\<exists>a\<in>set (L HFree). usable s d m a)" for m
  proof (rule ccontr)
    assume n: "\<not> m \<le> max ?g r"
    then obtain a where a: "a \<in> set (L HFree)" "usable s d m a" using g(3) [OF m(1,2)] m(3) by auto
    have "?k \<le> within s a"
      by (rule above_threshold [OF sz g(2) m(2)]) (use n b [OF a(1)] a(2) in \<open>auto simp: usable_def\<close>)
    then show False using r(4) a m(1,2) n by fastforce
  qed
  have "0 < max ?g r \<longrightarrow> request_ok s d (max ?g r) \<and> first_fit s L d (max ?g r) \<noteq> None"
  proof (cases "r \<le> ?g")
    case True
    have "first_fit s L d ?g \<noteq> None" if "0 < ?g"
      by (rule first_fit_gap) (use g(2) g(3) [of ?g] l(2) that in linarith)
    then show ?thesis using g(2) True by (simp add: max_absorb1)
  next
    case False
    then show ?thesis using r(2,3) first_fit_frag [of _ L s d r] by (auto simp: max_absorb2)
  qed
  moreover have "gap_or_frag ?g d s = Some (max ?g r)" using r(1) by (simp add: gap_or_frag_def)
  ultimately show ?thesis using g(1) most by (intro exI [of _ "max ?g r"]) simp
qed

section \<open>The answers\<close>

text \<open>
  C15. \<open>MA_inquire_avail\<close> answers exactly: a block of \<open>m > 0\<close> elements fits in the space between heap and stack
  if and only if \<open>m\<close> is at most the answer. The inquiry changes nothing.
\<close>

theorem MA_inquire_avail_exact:
  assumes wf: "ma_wf s L" and v: "mt_valid datatype"
  shows "\<exists>n s'. MA_inquire_avail datatype s = Some (n, s') \<and> quiet s s' \<and> 0 \<le> n \<and>
    (\<forall>m. 0 < m \<and> request_ok s (mt_import datatype) m \<longrightarrow>
       (need s (mt_import datatype) m (ma_hp s) \<le> ma_sp s - ma_hp s \<longleftrightarrow> m \<le> n))"
proof -
  let ?d = "mt_import datatype"
  obtain t where t: "ma_wf t L" "stats_only s t"
      "MA_inquire_avail datatype s = Some (nelem_gap (ma_hp t) (u64 (ma_sp t - ma_hp t)) ?d t, t)"
    using inquire_wf [OF wf v, of FID_MA_inquire_avail "''MA_inquire_avail''"
      "\<lambda>d s. Some (nelem_gap (ma_hp s) (u64 (ma_sp s - ma_hp s)) d s)"] unfolding MA_inquire_avail_def by auto
  have d: "0 \<le> ?d" "?d < 17" using valid_import [OF v] by simp_all
  note g = gap_spec [OF t(1) d]
  have e: "need t = need s" "ma_hp t = ma_hp s" "ma_sp t = ma_sp s" "request_ok t ?d = request_ok s ?d"
    using need_stats [OF t(2)] stats_only_simps(5,6) [OF t(2)] stats_only_request [OF t(2)] by (auto simp: fun_eq_iff)
  show ?thesis using t(3) g quiet_stats [OF t(2)] unfolding e by blast
qed

theorem MA_inquire_avail_exact_witness:
  "\<exists>n s'. MA_inquire_avail 1004 demo = Some (n, s') \<and> (need demo 4 10 4194304 \<le> 2192 \<longleftrightarrow> 10 \<le> n)"
proof -
  have "request_ok demo (mt_import 1004) 10" using demo_request [of demo 10] by simp
  then show ?thesis using MA_inquire_avail_exact [OF demo_wf demo_valid(1)]
    by (auto simp: demo_valid demo_parts)
qed

text \<open>
  C16. \<open>MA_inquire_heap_no_partition\<close> and \<open>MA_inquire_heap_check_stack\<close> answer what can be had from the heap. What they
  promise can be allocated: if the answer is positive, a heap request for that many elements succeeds right after. And
  they find all the room they are to look at: the answer is at least any number of elements that fit in the
  space after the heap (up to the stack; \<open>check_stack\<close> also stops at the partition if the heap has not passed it), or in a
  free block, of which both count only the part below the partition. The inquiry changes nothing.
\<close>

theorem MA_inquire_heap_sound:
  assumes wf: "ma_wf s L" and v: "mt_valid datatype"
    and m: "\<And>n. bytealloc n" "ma_table_capacity s < 134217728"
    and f: "(f, len) = (MA_inquire_heap_no_partition, ma_sp s - ma_hp s) \<or>
      (f, len) = (MA_inquire_heap_check_stack, min (u64 (ma_partition s - ma_hp s)) (ma_sp s - ma_hp s))"
  shows "\<exists>n s'. f datatype s = Some (n, s') \<and> quiet s s' \<and> 0 \<le> n \<and>
    (0 < n \<longrightarrow> (\<exists>h t. MA_allocate_heap bytealloc datatype n name s' = Some (True, Some h, t))) \<and>
    (\<forall>m. 0 < m \<and> request_ok s (mt_import datatype) m \<and> (need s (mt_import datatype) m (ma_hp s) \<le> len \<or>
       (\<exists>a\<in>set (L HFree). usable s (mt_import datatype) m a)) \<longrightarrow> m \<le> n)"
proof -
  let ?d = "mt_import datatype"
  define gap where "gap = (\<lambda>s :: ma_state. if f = MA_inquire_heap_no_partition then u64 (ma_sp s - ma_hp s)
    else min (u64 (ma_partition s - ma_hp s)) (u64 (ma_sp s - ma_hp s)))"
  have "\<exists>fid caller. f = inquire fid caller (\<lambda>d s. gap_or_frag (nelem_gap (ma_hp s) (gap s) d s) d s)"
  proof (cases "f = MA_inquire_heap_no_partition")
    case True
    then have "gap = (\<lambda>s. u64 (ma_sp s - ma_hp s))" by (simp add: gap_def)
    then show ?thesis using True unfolding MA_inquire_heap_no_partition_def by blast
  next
    case False
    then have "gap = (\<lambda>s. min (u64 (ma_partition s - ma_hp s)) (u64 (ma_sp s - ma_hp s)))" by (simp add: gap_def)
    then show ?thesis using False f unfolding MA_inquire_heap_check_stack_def by blast
  qed
  then obtain t where t: "ma_wf t L" "stats_only s t"
      "f datatype s = do { n \<leftarrow> gap_or_frag (nelem_gap (ma_hp t) (gap t) ?d t) ?d t; Some (n, t) }"
    using inquire_wf [OF wf v, where body = "\<lambda>d s. gap_or_frag (nelem_gap (ma_hp s) (gap s) d s) d s"] by blast
  have r: "0 < ma_hp t" "ma_hp t \<le> ma_sp t" "ma_sp t < 2305843009213693952"
    using ma_wf_tiles(3,4) [OF t(1)] ma_wfD(3,4) [OF t(1)] ma_wf_eos [OF t(1)] by linarith+
  then have u: "u64 (ma_sp t - ma_hp t) = ma_sp t - ma_hp t" by (intro u64_id) auto
  have l: "0 \<le> gap t" "gap t \<le> ma_sp t - ma_hp t" using r by (auto simp: gap_def u u64_def)
  note so = stats_only_simps [OF t(2)] and rq = stats_only_request [OF t(2)] and nd = need_stats [OF t(2)]
  have "len \<le> gap t" using f u so(5,6,12) by (auto simp: gap_def)
  moreover have us: "usable t d n a = usable s d n a" for d n a using so(4,12) nd by (simp add: usable_def within_def)
  moreover obtain n where n: "f datatype s = Some (n, t)" "0 \<le> n" "0 < n \<longrightarrow> request_ok t ?d n \<and> first_fit t L ?d n \<noteq> None"
    "\<forall>m. 0 < m \<and> request_ok t ?d m \<and> (need t ?d m (ma_hp t) \<le> gap t \<or> (\<exists>a\<in>set (L HFree). usable t ?d m a)) \<longrightarrow> m \<le> n"
    using gap_or_frag_sound [OF t(1) _ _ l, of ?d] valid_import [OF v] t(3) by auto
  ultimately have most: "m \<le> n" if "0 < m \<and> request_ok s ?d m \<and> (need s ?d m (ma_hp s) \<le> len \<or> (\<exists>a\<in>set (L HFree). usable s ?d m a))" for m
    using that n(4) so(5) by (simp add: nd rq us) (metis order_trans)
  have c: "ma_table_capacity t < 134217728" using m(2) t(2) by (auto simp: stats_only_def)
  have "\<exists>h u. MA_allocate_heap bytealloc datatype n name t = Some (True, Some h, u)" if "0 < n"
    using MA_allocate_heap_total [where bytealloc = bytealloc and name = name, OF t(1) v _ _ m(1) c, of n] n that
    by (auto split: option.splits)
  then show ?thesis using n(1,2) most quiet_stats [OF t(2)] by blast
qed

text \<open>In the initial state of the example ten doubles fit, so the answer is positive and is had.\<close>

theorem MA_inquire_heap_sound_witness:
  "\<exists>n s' h t. MA_inquire_heap_no_partition 1004 demo = Some (n, s') \<and> 10 \<le> n \<and>
     MA_allocate_heap (\<lambda>_. True) 1004 n None s' = Some (True, Some h, t)"
proof -
  have "need demo 4 10 4194304 \<le> 2192" by (simp add: need_def demo_layout)
  moreover have "request_ok demo 4 10" using demo_request [of demo 10] demo_valid by simp
  ultimately show ?thesis
    using MA_inquire_heap_sound [OF demo_wf demo_valid(1), of "\<lambda>_. True" MA_inquire_heap_no_partition 2192 None]
    by (fastforce simp: demo_parts demo_valid)
qed

end
