(* ===== verification/Reg_Cache.thy ===== *)
theory Reg_Cache
  imports GA_Prelude
begin

text \<open>
  The registration cache of the COMEX runtime (src/comex/src-mpi-pr/reg_cache.c): for every process
  a linked list of the memory segments it has registered. The nodes live in a store from addresses
  to entries, so that the lists are the linked lists of the code; NULL is 0. \<open>malloc\<close> is the
  argument \<open>node\<close> of \<open>reg_cache_insert\<close> and \<open>block\<close> of \<open>reg_cache_init\<close>, the address it returns. A failed \<open>COMEX_ASSERT\<close> ends
  the program and is the result \<open>None\<close>, as is a dereference of an address with no node. The optional
  members of the entries (SYSV keys, SICM devices) are not configured.
\<close>

section \<open>Data\<close>

datatype reg_return_t = RR_SUCCESS | RR_FAILURE

record reg_entry_t =
  re_next :: int
  re_buf :: int
  re_len :: int
  re_mapped :: int
  re_rank :: int
  re_use_dev :: int
  re_name :: string

record reg_state =
  reg_cache :: "int list option"
  reg_nprocs :: int
  nodes :: "int \<rightharpoonup> reg_entry_t"

definition SHM_NAME_SIZE :: nat where
  "SHM_NAME_SIZE = 31"

definition TEST_FOR_INTERSECTION :: int where
  "TEST_FOR_INTERSECTION = 0"

definition TEST_FOR_CONTAINMENT :: int where
  "TEST_FOR_CONTAINMENT = 1"

definition COMEX_ASSERT :: "bool \<Rightarrow> unit option" where
  "COMEX_ASSERT b = (if b then Some () else None)"

section \<open>Comparing segments\<close>

definition seg_cmp :: "int \<Rightarrow> int \<Rightarrow> int \<Rightarrow> int \<Rightarrow> int \<Rightarrow> reg_return_t option" where
  "seg_cmp reg_addr reg_len oth_addr oth_len op =
     do { COMEX_ASSERT (reg_addr \<noteq> 0);
          COMEX_ASSERT (oth_addr \<noteq> 0);
          let reg_beg = s64 reg_addr;
          let reg_end = s64 (reg_beg + s64 reg_len);
          let oth_beg = s64 oth_addr;
          let oth_end = s64 (oth_beg + s64 oth_len);
          let oth_end = (if oth_beg = oth_end then s64 (oth_end + 1) else oth_end);
          result \<leftarrow> (if op = TEST_FOR_INTERSECTION
                     then Some (reg_beg \<ge> oth_beg \<and> reg_beg < oth_end \<or> reg_end > oth_beg \<and> reg_end \<le> oth_end)
                     else if op = TEST_FOR_CONTAINMENT
                     then Some (reg_beg \<le> oth_beg \<and> reg_end \<ge> oth_end)
                     else None);
          Some (if result then RR_SUCCESS else RR_FAILURE) }"

definition seg_intersects :: "int \<Rightarrow> int \<Rightarrow> int \<Rightarrow> int \<Rightarrow> reg_return_t option" where
  "seg_intersects reg_addr reg_len oth_addr oth_len =
     do { COMEX_ASSERT (reg_addr \<noteq> 0);
          COMEX_ASSERT (oth_addr \<noteq> 0);
          seg_cmp reg_addr reg_len oth_addr oth_len TEST_FOR_INTERSECTION }"

definition seg_contains :: "int \<Rightarrow> int \<Rightarrow> int \<Rightarrow> int \<Rightarrow> reg_return_t option" where
  "seg_contains reg_addr reg_len oth_addr oth_len =
     do { COMEX_ASSERT (reg_addr \<noteq> 0);
          COMEX_ASSERT (oth_addr \<noteq> 0);
          seg_cmp reg_addr reg_len oth_addr oth_len TEST_FOR_CONTAINMENT }"

definition reg_entry_intersects :: "reg_entry_t \<Rightarrow> int \<Rightarrow> int \<Rightarrow> reg_return_t option" where
  "reg_entry_intersects reg_entry buf len =
     do { COMEX_ASSERT (buf \<noteq> 0);
          COMEX_ASSERT (len \<ge> 0);
          seg_intersects (re_buf reg_entry) (re_len reg_entry) buf len }"

definition reg_entry_contains :: "reg_entry_t \<Rightarrow> int \<Rightarrow> int \<Rightarrow> reg_return_t option" where
  "reg_entry_contains reg_entry buf len =
     do { COMEX_ASSERT (buf \<noteq> 0);
          COMEX_ASSERT (len \<ge> 0);
          seg_contains (re_buf reg_entry) (re_len reg_entry) buf len }"

section \<open>The cache\<close>

definition reg_entry_destroy :: "int \<Rightarrow> int \<Rightarrow> reg_state \<Rightarrow> (reg_return_t \<times> reg_state) option" where
  "reg_entry_destroy rank reg_entry s =
     do { COMEX_ASSERT (reg_entry \<noteq> 0);
          COMEX_ASSERT (0 \<le> rank \<and> rank < reg_nprocs s);
          Some (RR_SUCCESS, s\<lparr>nodes := (nodes s)(reg_entry := None)\<rparr>) }"

definition reg_cache_init :: "int \<Rightarrow> int \<Rightarrow> reg_state \<Rightarrow> (reg_return_t \<times> reg_state) option" where
  "reg_cache_init block nprocs s =
     do { COMEX_ASSERT (reg_cache s = None);
          COMEX_ASSERT (reg_nprocs s = 0);
          COMEX_ASSERT (block \<noteq> 0);
          Some (RR_SUCCESS, s\<lparr>reg_nprocs := nprocs, reg_cache := Some (replicate (nat nprocs) 0)\<rparr>) }"

partial_function (option) destroy_list :: "int \<Rightarrow> int \<Rightarrow> reg_state \<Rightarrow> reg_state option" where
  [code]: "destroy_list i runner s =
     (if runner = 0 then Some s
      else do { e \<leftarrow> nodes s runner;
                (_, s) \<leftarrow> reg_entry_destroy i runner s;
                destroy_list i (re_next e) s })"

fun destroy_lists :: "int \<Rightarrow> int list \<Rightarrow> reg_state \<Rightarrow> reg_state option" where
  "destroy_lists i [] s = Some s"
| "destroy_lists i (p # ps) s = do { s \<leftarrow> destroy_list i p s; destroy_lists (i + 1) ps s }"

definition reg_cache_destroy :: "reg_state \<Rightarrow> (reg_return_t \<times> reg_state) option" where
  "reg_cache_destroy s =
     do { heads \<leftarrow> reg_cache s;
          COMEX_ASSERT (reg_nprocs s \<noteq> 0);
          s \<leftarrow> destroy_lists 0 (take (nat (reg_nprocs s)) heads) s;
          Some (RR_SUCCESS, s\<lparr>reg_cache := None, reg_nprocs := 0\<rparr>) }"

text \<open>
  The search for the first entry that passes a test: the entry (0 if none) and the next one; and the loop that
  asserts that none of the following ones passes it.
\<close>

partial_function (option) find_loop ::
  "(reg_entry_t \<Rightarrow> reg_return_t option) \<Rightarrow> int \<Rightarrow> reg_state \<Rightarrow> (int \<times> int) option" where
  [code]: "find_loop test runner s =
     (if runner = 0 then Some (0, 0)
      else do { e \<leftarrow> nodes s runner;
                r \<leftarrow> test e;
                if r = RR_SUCCESS then Some (runner, re_next e) else find_loop test (re_next e) s })"

partial_function (option) unique_loop ::
  "(reg_entry_t \<Rightarrow> reg_return_t option) \<Rightarrow> int \<Rightarrow> reg_state \<Rightarrow> unit option" where
  [code]: "unique_loop test runner s =
     (if runner = 0 then Some ()
      else do { e \<leftarrow> nodes s runner;
                r \<leftarrow> test e;
                COMEX_ASSERT (r \<noteq> RR_SUCCESS);
                unique_loop test (re_next e) s })"

definition reg_cache_find :: "int \<Rightarrow> int \<Rightarrow> int \<Rightarrow> reg_state \<Rightarrow> int option" where
  "reg_cache_find rank buf len s =
     do { heads \<leftarrow> reg_cache s;
          COMEX_ASSERT (0 \<le> rank \<and> rank < reg_nprocs s);
          (entry, runner) \<leftarrow> find_loop (\<lambda>e. reg_entry_contains e buf len) (heads ! nat rank) s;
          unique_loop (\<lambda>e. reg_entry_contains e buf len) runner s;
          Some entry }"

definition reg_cache_find_intersection :: "int \<Rightarrow> int \<Rightarrow> int \<Rightarrow> reg_state \<Rightarrow> int option" where
  "reg_cache_find_intersection rank buf len s =
     do { heads \<leftarrow> reg_cache s;
          COMEX_ASSERT (0 \<le> rank \<and> rank < reg_nprocs s);
          (entry, runner) \<leftarrow> find_loop (\<lambda>e. reg_entry_intersects e buf len) (heads ! nat rank) s;
          unique_loop (\<lambda>e. reg_entry_contains e buf len) runner s;
          Some entry }"

partial_function (option) last_node :: "int \<Rightarrow> reg_state \<Rightarrow> int option" where
  [code]: "last_node runner s =
     do { e \<leftarrow> nodes s runner;
          if re_next e \<noteq> 0 then last_node (re_next e) s else Some runner }"

definition reg_cache_insert ::
  "int \<Rightarrow> int \<Rightarrow> int \<Rightarrow> int \<Rightarrow> string \<Rightarrow> int \<Rightarrow> int \<Rightarrow> reg_state \<Rightarrow> (int \<times> reg_state) option" where
  "reg_cache_insert node rank buf len name mapped use_dev s =
     do { heads \<leftarrow> reg_cache s;
          COMEX_ASSERT (0 \<le> rank \<and> rank < reg_nprocs s);
          COMEX_ASSERT (buf \<noteq> 0);
          COMEX_ASSERT (len \<ge> 0);
          entry \<leftarrow> reg_cache_find rank buf len s;
          COMEX_ASSERT (entry = 0);
          entry \<leftarrow> reg_cache_find_intersection rank buf len s;
          COMEX_ASSERT (entry = 0);
          COMEX_ASSERT (node \<noteq> 0);
          let s = s\<lparr>nodes := (nodes s)(node \<mapsto> \<lparr>re_next = 0, re_buf = buf, re_len = len,
                     re_mapped = mapped, re_rank = rank, re_use_dev = use_dev,
                     re_name = take SHM_NAME_SIZE name\<rparr>)\<rparr>;
          s \<leftarrow> (if heads ! nat rank = 0 then Some (s\<lparr>reg_cache := Some (heads[nat rank := node])\<rparr>)
                else do { runner \<leftarrow> last_node (heads ! nat rank) s;
                          e \<leftarrow> nodes s runner;
                          Some (s\<lparr>nodes := (nodes s)(runner \<mapsto> e\<lparr>re_next := node\<rparr>)\<rparr>) });
          Some (node, s) }"

text \<open>The entry with the given starting address and the one before it.\<close>

partial_function (option) find_buf :: "int \<Rightarrow> int \<Rightarrow> int \<Rightarrow> reg_state \<Rightarrow> (int \<times> int) option" where
  [code]: "find_buf buf previous_runner runner s =
     (if runner = 0 then Some (previous_runner, 0)
      else do { e \<leftarrow> nodes s runner;
                if re_buf e = buf then Some (previous_runner, runner)
                else find_buf buf runner (re_next e) s })"

definition reg_cache_delete :: "int \<Rightarrow> int \<Rightarrow> reg_state \<Rightarrow> (reg_return_t \<times> reg_state) option" where
  "reg_cache_delete rank buf s =
     do { heads \<leftarrow> reg_cache s;
          COMEX_ASSERT (0 \<le> rank \<and> rank < reg_nprocs s);
          COMEX_ASSERT (buf \<noteq> 0);
          entry \<leftarrow> reg_cache_find rank buf 0 s;
          COMEX_ASSERT (entry \<noteq> 0);
          (previous_runner, runner) \<leftarrow> find_buf buf 0 (heads ! nat rank) s;
          COMEX_ASSERT (runner \<noteq> 0);
          e \<leftarrow> nodes s runner;
          s \<leftarrow> (if previous_runner \<noteq> 0
                then do { p \<leftarrow> nodes s previous_runner;
                          Some (s\<lparr>nodes := (nodes s)(previous_runner \<mapsto> p\<lparr>re_next := re_next e\<rparr>)\<rparr>) }
                else Some (s\<lparr>reg_cache := Some (heads[nat rank := re_next e])\<rparr>));
          reg_entry_destroy rank runner s }"

definition reg_cache_nullify :: "reg_entry_t \<Rightarrow> reg_return_t \<times> reg_entry_t" where
  "reg_cache_nullify node = (RR_SUCCESS, node\<lparr>re_next := 0, re_buf := 0, re_len := 0, re_mapped := 0,
     re_rank := -1, re_use_dev := 0, re_name := replicate SHM_NAME_SIZE (CHR 0x00)\<rparr>)"

end
