(* ===== verification/Reg_Lists.thy ===== *)
theory Reg_Lists
  imports Reg_Cache
begin

text \<open>
  The operations of the registration cache on well-formed states: what the segment tests decide, the
  linked lists as lists of nodes, the invariant, and the effect of every operation on it.
\<close>

section \<open>Segments\<close>

text \<open>The segment of an entry covers a query (an empty query counts as one byte); two segments are apart.\<close>

definition covers :: "reg_entry_t \<Rightarrow> int \<Rightarrow> int \<Rightarrow> bool" where
  "covers e b l \<longleftrightarrow> re_buf e \<le> b \<and> b + max 1 l \<le> re_buf e + re_len e"

definition apart :: "reg_entry_t \<Rightarrow> int \<Rightarrow> int \<Rightarrow> bool" where
  "apart e b l \<longleftrightarrow> re_buf e + re_len e \<le> b \<or> b + l \<le> re_buf e"

definition seg_ok :: "int \<Rightarrow> int \<Rightarrow> bool" where
  "seg_ok b l \<longleftrightarrow> 0 < b \<and> 0 \<le> l \<and> b + l < 9223372036854775807"

definition entry_ok :: "reg_entry_t \<Rightarrow> bool" where
  "entry_ok e \<longleftrightarrow> seg_ok (re_buf e) (re_len e) \<and> 0 < re_len e"

lemma contains_spec:
  assumes "entry_ok e" "seg_ok b l"
  shows "reg_entry_contains e b l = Some (if covers e b l then RR_SUCCESS else RR_FAILURE)"
  using assms by (cases "l = 0") (auto simp: reg_entry_contains_def seg_contains_def seg_cmp_def COMEX_ASSERT_def
      entry_ok_def seg_ok_def covers_def TEST_FOR_INTERSECTION_def TEST_FOR_CONTAINMENT_def Let_def s64_id max_def)

text \<open>The intersection test sees an overlap only when an end of the entry's segment is in the other segment.\<close>

lemma intersects_spec:
  assumes "entry_ok e" "seg_ok b l" "0 < l"
  shows "reg_entry_intersects e b l =
    Some (if \<not> apart e b l \<and> \<not> (re_buf e < b \<and> b + l < re_buf e + re_len e) then RR_SUCCESS else RR_FAILURE)"
  using assms by (auto simp: reg_entry_intersects_def seg_intersects_def seg_cmp_def COMEX_ASSERT_def entry_ok_def seg_ok_def
      apart_def TEST_FOR_INTERSECTION_def TEST_FOR_CONTAINMENT_def Let_def s64_id)

lemma covers_unique:
  assumes "covers e b l" "covers e' b l" "apart e (re_buf e') (re_len e')"
  shows False
  using assms by (auto simp: covers_def apart_def)

section \<open>Linked lists\<close>

fun path :: "(int \<rightharpoonup> reg_entry_t) \<Rightarrow> int \<Rightarrow> int list \<Rightarrow> bool" where
  "path N p [] \<longleftrightarrow> p = 0"
| "path N p (x # xs) \<longleftrightarrow> p = x \<and> x \<noteq> 0 \<and> (\<exists>e. N x = Some e \<and> path N (re_next e) xs)"

abbreviation ent :: "reg_state \<Rightarrow> int \<Rightarrow> reg_entry_t" where
  "ent s x \<equiv> the (nodes s x)"

lemma path_cong: "(\<And>x. x \<in> set xs \<Longrightarrow> N' x = N x) \<Longrightarrow> path N' p xs = path N p xs"
  by (induction xs arbitrary: p) auto

lemma path_dom: "path N p xs \<Longrightarrow> x \<in> set xs \<Longrightarrow> x \<noteq> 0 \<and> (\<exists>e. N x = Some e)"
  by (induction xs arbitrary: p) auto

lemma path_distinct_hd: "path N p xs \<Longrightarrow> path N p ys \<Longrightarrow> xs = ys"
proof (induction xs arbitrary: p ys)
  case Nil
  then show ?case by (cases ys) auto
next
  case (Cons x xs)
  then show ?case by (cases ys) auto
qed

lemma path_split:
  "path N p (pre @ x # ys) \<Longrightarrow> x \<noteq> 0 \<and> (\<exists>e. N x = Some e \<and> path N (re_next e) ys)"
  by (induction pre arbitrary: p) auto

lemma path_snoc:
  assumes "path N p xs" "x \<notin> set xs" "x \<noteq> 0" "re_next e = 0" "distinct xs"
  shows "path (if xs = [] then N(x \<mapsto> e) else N(x \<mapsto> e, last xs \<mapsto> (the (N (last xs)))\<lparr>re_next := x\<rparr>))
    (if xs = [] then x else p) (xs @ [x])"
  using assms
proof (induction xs arbitrary: p)
  case (Cons y ys)
  from Cons.prems obtain f where f: "p = y" "y \<noteq> 0" "N y = Some f" "path N (re_next f) ys" by auto
  show ?case
  proof (cases "ys = []")
    case True
    then show ?thesis using Cons.prems f by auto
  next
    case False
    have "y \<noteq> last ys" using Cons.prems(5) False by auto
    then show ?thesis using Cons.IH [OF f(4)] Cons.prems f False by auto
  qed
qed simp

lemma path_remove:
  assumes "path N p (pre @ x # ys)" "distinct (pre @ x # ys)"
  shows "(pre = [] \<longrightarrow> path (N(x := None)) (re_next (the (N x))) ys) \<and>
    (pre \<noteq> [] \<longrightarrow> path (N(last pre \<mapsto> (the (N (last pre)))\<lparr>re_next := re_next (the (N x))\<rparr>, x := None)) p (pre @ ys))"
  using assms
proof (induction pre arbitrary: p)
  case Nil
  then have n: "path N (re_next (the (N x))) ys" "x \<notin> set ys" by auto
  have "path (N(x := None)) (re_next (the (N x))) ys = path N (re_next (the (N x))) ys"
    by (rule path_cong) (use n(2) in auto)
  with n(1) show ?case by (simp add: fun_upd_def)
next
  case (Cons y pre)
  from Cons.prems obtain f where f: "p = y" "y \<noteq> 0" "N y = Some f" "path N (re_next f) (pre @ x # ys)" by auto
  show ?case
  proof (cases "pre = []")
    case True
    have "path ((N(y \<mapsto> f\<lparr>re_next := re_next (the (N x))\<rparr>))(x := None)) (re_next (the (N x))) ys =
        path N (re_next (the (N x))) ys"
      by (rule path_cong) (use Cons.prems(2) in auto)
    moreover have "path N (re_next (the (N x))) ys" using f(4) True by auto
    ultimately have "path ((N(y \<mapsto> f\<lparr>re_next := re_next (the (N x))\<rparr>))(x := None)) (re_next (the (N x))) ys" by simp
    then show ?thesis using f Cons.prems True by (simp add: fun_upd_def)
  next
    case False
    have "y \<noteq> last pre" "y \<noteq> x" using Cons.prems(2) False by auto
    then show ?thesis using Cons.IH [OF f(4)] Cons.prems f False by auto
  qed
qed

lemma find_loop_spec:
  assumes "path (nodes s) p xs" "\<And>x. x \<in> set xs \<Longrightarrow> test (ent s x) = Some (if P (ent s x) then RR_SUCCESS else RR_FAILURE)"
  shows "find_loop test p s = Some (case List.find (\<lambda>x. P (ent s x)) xs of None \<Rightarrow> (0, 0) | Some x \<Rightarrow> (x, re_next (ent s x)))"
  using assms
proof (induction xs arbitrary: p)
  case Nil
  then show ?case by (subst find_loop.simps) simp
next
  case (Cons x xs)
  then obtain e where e: "p = x" "x \<noteq> 0" "nodes s x = Some e" "path (nodes s) (re_next e) xs" by auto
  have "test e = Some (if P e then RR_SUCCESS else RR_FAILURE)" using Cons.prems(2) [of x] e by simp
  then show ?case using Cons.IH [OF e(4)] Cons.prems(2) e by (subst find_loop.simps) auto
qed

lemma unique_loop_spec:
  assumes "path (nodes s) p xs" "\<And>x. x \<in> set xs \<Longrightarrow> test (ent s x) = Some (if P (ent s x) then RR_SUCCESS else RR_FAILURE)"
  shows "unique_loop test p s = (if \<exists>x\<in>set xs. P (ent s x) then None else Some ())"
  using assms
proof (induction xs arbitrary: p)
  case Nil
  then show ?case by (subst unique_loop.simps) simp
next
  case (Cons x xs)
  then obtain e where e: "p = x" "x \<noteq> 0" "nodes s x = Some e" "path (nodes s) (re_next e) xs" by auto
  have "test e = Some (if P e then RR_SUCCESS else RR_FAILURE)" using Cons.prems(2) [of x] e by simp
  then show ?case using Cons.IH [OF e(4)] Cons.prems(2) e by (subst unique_loop.simps) (auto simp: COMEX_ASSERT_def)
qed

lemma last_node_spec: "path (nodes s) p xs \<Longrightarrow> xs \<noteq> [] \<Longrightarrow> last_node p s = Some (last xs)"
proof (induction xs arbitrary: p)
  case (Cons x xs)
  then obtain e where e: "p = x" "nodes s x = Some e" "path (nodes s) (re_next e) xs" by auto
  show ?case
  proof (cases "xs = []")
    case True
    then show ?thesis using e by (subst last_node.simps) simp
  next
    case False
    then have "re_next e \<noteq> 0" using e(3) by (cases xs) auto
    then show ?thesis using Cons.IH [OF e(3)] e False by (subst last_node.simps) simp
  qed
qed simp

lemma find_buf_spec:
  assumes "path (nodes s) p xs"
  shows "find_buf b q p s = Some (case List.find (\<lambda>x. re_buf (ent s x) = b) xs of None \<Rightarrow> (last (q # xs), 0)
    | Some x \<Rightarrow> (last (q # takeWhile (\<lambda>x. re_buf (ent s x) \<noteq> b) xs), x))"
  using assms
proof (induction xs arbitrary: p q)
  case Nil
  then show ?case by (subst find_buf.simps) simp
next
  case (Cons x xs)
  then obtain e where e: "p = x" "x \<noteq> 0" "nodes s x = Some e" "path (nodes s) (re_next e) xs" by auto
  show ?case using Cons.IH [OF e(4), of x] e by (subst find_buf.simps) (auto split: option.splits)
qed

section \<open>The invariant\<close>

text \<open>
  \<open>A r\<close> are the nodes of process \<open>r\<close> in list order. Lists of different processes share no node,
  and the segments of one process are non-empty and pairwise apart.
\<close>

definition list_ok :: "reg_state \<Rightarrow> int \<Rightarrow> int \<Rightarrow> int list \<Rightarrow> bool" where
  "list_ok s r p xs \<longleftrightarrow> path (nodes s) p xs \<and> distinct xs \<and>
     (\<forall>x\<in>set xs. entry_ok (ent s x) \<and> re_rank (ent s x) = r) \<and>
     (\<forall>x\<in>set xs. \<forall>y\<in>set xs. x \<noteq> y \<longrightarrow> apart (ent s x) (re_buf (ent s y)) (re_len (ent s y)))"

definition reg_ok :: "reg_state \<Rightarrow> (int \<Rightarrow> int list) \<Rightarrow> bool" where
  "reg_ok s A \<longleftrightarrow> (\<exists>heads. reg_cache s = Some heads \<and> length heads = nat (reg_nprocs s) \<and>
     (\<forall>r. 0 \<le> r \<and> r < reg_nprocs s \<longrightarrow> list_ok s r (heads ! nat r) (A r)) \<and>
     (\<forall>r. \<not> (0 \<le> r \<and> r < reg_nprocs s) \<longrightarrow> A r = []) \<and>
     (\<forall>r r'. r \<noteq> r' \<longrightarrow> set (A r) \<inter> set (A r') = {}))"

lemma apart_sym: "apart e (re_buf f) (re_len f) \<longleftrightarrow> apart f (re_buf e) (re_len e)"
  by (auto simp: apart_def)

lemma apart_next [simp]: "apart (e\<lparr>re_next := n\<rparr>) b l = apart e b l"
  by (simp add: apart_def)

lemma covers_next [simp]: "covers (e\<lparr>re_next := n\<rparr>) b l = covers e b l"
  by (simp add: covers_def)

lemma entry_ok_next [simp]: "entry_ok (e\<lparr>re_next := n\<rparr>) = entry_ok e"
  by (simp add: entry_ok_def)

text \<open>Nodes whose entries differ in their links only.\<close>

definition seg_frame :: "reg_state \<Rightarrow> reg_state \<Rightarrow> int set \<Rightarrow> bool" where
  "seg_frame s s' X \<longleftrightarrow> (\<forall>x\<in>X. \<exists>n. nodes s' x = Some ((ent s x)\<lparr>re_next := n\<rparr>))"

lemma seg_frameD:
  assumes "seg_frame s s' X" "x \<in> X"
  shows "re_buf (ent s' x) = re_buf (ent s x)" "re_len (ent s' x) = re_len (ent s x)"
    "re_rank (ent s' x) = re_rank (ent s x)" "re_mapped (ent s' x) = re_mapped (ent s x)"
    "covers (ent s' x) b l = covers (ent s x) b l" "apart (ent s' x) b l = apart (ent s x) b l"
    "entry_ok (ent s' x) = entry_ok (ent s x)"
  using assms by (auto simp: seg_frame_def)

lemma list_ok_frame:
  assumes "list_ok s r p xs" "path (nodes s') p' xs" "seg_frame s s' (set xs)"
  shows "list_ok s' r p' xs"
  using assms(1,2) seg_frameD [OF assms(3)] unfolding list_ok_def by metis

lemma list_ok_same:
  assumes "list_ok s r p xs" "\<And>x. x \<in> set xs \<Longrightarrow> nodes s' x = nodes s x"
  shows "list_ok s' r p xs"
  using assms path_cong [of xs "nodes s'" "nodes s" p] by (auto simp: list_ok_def)

lemma reg_okD:
  assumes "reg_ok s A" "0 \<le> r" "r < reg_nprocs s"
  obtains heads where "reg_cache s = Some heads" "length heads = nat (reg_nprocs s)" "nat r < length heads"
    "list_ok s r (heads ! nat r) (A r)"
  using assms unfolding reg_ok_def by auto

section \<open>Lookup\<close>

lemma find_spec:
  assumes ok: "reg_ok s A" and r: "0 \<le> r" "r < reg_nprocs s" and q: "seg_ok b l"
  shows "reg_cache_find r b l s =
    Some (case List.find (\<lambda>x. covers (ent s x) b l) (A r) of None \<Rightarrow> 0 | Some x \<Rightarrow> x)"
proof -
  obtain heads where h: "reg_cache s = Some heads" "list_ok s r (heads ! nat r) (A r)" using reg_okD [OF ok r] .
  let ?t = "\<lambda>e. reg_entry_contains e b l"
  have p: "path (nodes s) (heads ! nat r) (A r)" and e: "\<And>x. x \<in> set (A r) \<Longrightarrow> entry_ok (ent s x)"
    and ap: "\<And>x y. x \<in> set (A r) \<Longrightarrow> y \<in> set (A r) \<Longrightarrow> x \<noteq> y \<Longrightarrow> apart (ent s x) (re_buf (ent s y)) (re_len (ent s y))"
    and ds: "distinct (A r)"
    using h(2) by (auto simp: list_ok_def)
  have t: "?t (ent s x) = Some (if covers (ent s x) b l then RR_SUCCESS else RR_FAILURE)" if "x \<in> set (A r)" for x
    using contains_spec [OF e [OF that] q] .
  have f: "find_loop ?t (heads ! nat r) s = Some (case List.find (\<lambda>x. covers (ent s x) b l) (A r) of
      None \<Rightarrow> (0, 0) | Some x \<Rightarrow> (x, re_next (ent s x)))"
    by (rule find_loop_spec [OF p]) (rule t)
  show ?thesis
  proof (cases "List.find (\<lambda>x. covers (ent s x) b l) (A r)")
    case None
    then show ?thesis using h(1) f r by (simp add: reg_cache_find_def COMEX_ASSERT_def unique_loop.simps)
  next
    case (Some x)
    then obtain i where i: "i < length (A r)" "covers (ent s x) b l" "x = A r ! i" by (auto simp: find_Some_iff)
    let ?ys = "drop (Suc i) (A r)"
    have l: "A r = take i (A r) @ x # ?ys" using i by (simp add: id_take_nth_drop)
    have py: "path (nodes s) (re_next (ent s x)) ?ys"
      using path_split [of "nodes s" "heads ! nat r" "take i (A r)" x ?ys] p l [symmetric] by auto
    have sub: "set ?ys \<subseteq> set (A r)" by (rule set_drop_subset)
    have "\<not> covers (ent s y) b l" if "y \<in> set ?ys" for y
    proof -
      have "y \<noteq> x" using that ds l by (metis distinct.simps(2) distinct_append)
      moreover have "x \<in> set (A r)" "y \<in> set (A r)" using i that sub by auto
      ultimately show ?thesis using covers_unique [OF i(2), of "ent s y"] ap by blast
    qed
    moreover have "unique_loop ?t (re_next (ent s x)) s = (if \<exists>x\<in>set ?ys. covers (ent s x) b l then None else Some ())"
      by (rule unique_loop_spec [OF py]) (use t sub in blast)
    ultimately have "unique_loop ?t (re_next (ent s x)) s = Some ()" by auto
    then show ?thesis using h(1) f r Some by (simp add: reg_cache_find_def COMEX_ASSERT_def)
  qed
qed

lemma find_none: "reg_ok s A \<Longrightarrow> 0 \<le> r \<Longrightarrow> r < reg_nprocs s \<Longrightarrow> seg_ok b l \<Longrightarrow>
    reg_cache_find r b l s = Some 0 \<longleftrightarrow> (\<forall>x\<in>set (A r). \<not> covers (ent s x) b l)"
proof -
  assume a: "reg_ok s A" "0 \<le> r" "r < reg_nprocs s" "seg_ok b l"
  obtain heads where h: "list_ok s r (heads ! nat r) (A r)" using reg_okD [OF a(1-3)] .
  have "0 \<notin> set (A r)" using path_dom h by (auto simp: list_ok_def)
  show ?thesis
  proof (cases "List.find (\<lambda>x. covers (ent s x) b l) (A r)")
    case None
    then have "\<forall>x\<in>set (A r). \<not> covers (ent s x) b l" by (auto simp: find_None_iff)
    then show ?thesis using find_spec [OF a] None by simp
  next
    case (Some x)
    then have "x \<in> set (A r)" "covers (ent s x) b l" by (auto simp: find_Some_iff)
    then show ?thesis using find_spec [OF a] Some \<open>0 \<notin> set (A r)\<close> by auto
  qed
qed

section \<open>Insertion\<close>

text \<open>
  The two assertions together admit a segment exactly when it is apart from all the registered
  ones: the overlaps that the intersection test does not see are those where the entry contains the segment.
\<close>

lemma insert_checks:
  assumes ok: "reg_ok s A" and r: "0 \<le> r" "r < reg_nprocs s" and q: "seg_ok b l" "0 < l"
  shows "(do { entry \<leftarrow> reg_cache_find r b l s; COMEX_ASSERT (entry = 0);
               entry \<leftarrow> reg_cache_find_intersection r b l s; COMEX_ASSERT (entry = 0); k }) =
    (if \<forall>x\<in>set (A r). apart (ent s x) b l then k else None)"
proof -
  obtain heads where h: "reg_cache s = Some heads" "list_ok s r (heads ! nat r) (A r)" using reg_okD [OF ok r] .
  have p: "path (nodes s) (heads ! nat r) (A r)" and e: "\<And>x. x \<in> set (A r) \<Longrightarrow> entry_ok (ent s x)"
    using h(2) by (auto simp: list_ok_def)
  let ?P = "\<lambda>e. \<not> apart e b l \<and> \<not> (re_buf e < b \<and> b + l < re_buf e + re_len e)"
  have f: "find_loop (\<lambda>e. reg_entry_intersects e b l) (heads ! nat r) s = Some (case List.find (\<lambda>x. ?P (ent s x)) (A r) of
      None \<Rightarrow> (0, 0) | Some x \<Rightarrow> (x, re_next (ent s x)))"
    by (rule find_loop_spec [OF p]) (rule intersects_spec [OF e q])
  have cov: "covers (ent s x) b l \<Longrightarrow> \<not> apart (ent s x) b l" for x
    using q by (auto simp: covers_def apart_def)
  have vis: "apart (ent s x) b l" if "\<not> covers (ent s x) b l" "\<not> ?P (ent s x)" for x
    using that q by (auto simp: covers_def apart_def)
  show ?thesis
  proof (cases "\<exists>x\<in>set (A r). covers (ent s x) b l")
    case True
    then have "reg_cache_find r b l s \<noteq> Some 0" using find_none [OF ok r q(1)] by blast
    moreover obtain n where "reg_cache_find r b l s = Some n" using find_spec [OF ok r q(1)] by blast
    ultimately show ?thesis using True cov by (auto simp: COMEX_ASSERT_def)
  next
    case no: False
    then have 1: "reg_cache_find r b l s = Some 0" using find_none [OF ok r q(1)] by blast
    show ?thesis
    proof (cases "List.find (\<lambda>x. ?P (ent s x)) (A r)")
      case None
      then have "reg_cache_find_intersection r b l s = Some 0"
        using h(1) f r by (simp add: reg_cache_find_intersection_def COMEX_ASSERT_def unique_loop.simps)
      then show ?thesis using 1 vis no None by (auto simp: COMEX_ASSERT_def find_None_iff)
    next
      case (Some x)
      then have x: "x \<in> set (A r)" "?P (ent s x)" by (auto simp: find_Some_iff)
      then have "x \<noteq> 0" using path_dom [OF p] by blast
      then have "reg_cache_find_intersection r b l s \<noteq> Some 0"
        using h(1) f r Some by (auto simp: reg_cache_find_intersection_def COMEX_ASSERT_def split: Option.bind_splits)
      then show ?thesis using 1 x by (cases "reg_cache_find_intersection r b l s") (auto simp: COMEX_ASSERT_def)
    qed
  qed
qed

lemma COMEX_ASSERT_simps [simp]: "COMEX_ASSERT True = Some ()" "COMEX_ASSERT False = None"
  by (simp_all add: COMEX_ASSERT_def)

text \<open>A change of one process's list.\<close>

lemma reg_ok_update:
  assumes ok: "reg_ok s A" and r: "0 \<le> r" "r < reg_nprocs s" and h: "reg_cache s = Some heads"
    and s': "reg_cache s' = Some (heads[nat r := p])" "reg_nprocs s' = reg_nprocs s" "list_ok s' r p xs"
    and same: "\<And>r' x. r' \<noteq> r \<Longrightarrow> x \<in> set (A r') \<Longrightarrow> x \<notin> set xs \<and> nodes s' x = nodes s x"
  shows "reg_ok s' (A(r := xs))"
proof -
  have o: "length heads = nat (reg_nprocs s)" "\<And>r. 0 \<le> r \<Longrightarrow> r < reg_nprocs s \<Longrightarrow> list_ok s r (heads ! nat r) (A r)"
     "\<And>r. \<not> (0 \<le> r \<and> r < reg_nprocs s) \<Longrightarrow> A r = []" "\<And>r r'. r \<noteq> r' \<Longrightarrow> set (A r) \<inter> set (A r') = {}"
    using ok h by (auto simp: reg_ok_def)
  have l: "list_ok s' q (heads[nat r := p] ! nat q) ((A(r := xs)) q)" if q: "0 \<le> q" "q < reg_nprocs s" for q
  proof (cases "q = r")
    case True
    then show ?thesis using s'(3) r o(1) by simp
  next
    case False
    then have "nat q \<noteq> nat r" using q r by simp
    then show ?thesis using list_ok_same [OF o(2) [OF q]] same [OF False] False by simp
  qed
  have d: "set ((A(r := xs)) q) \<inter> set ((A(r := xs)) q') = {}" if "q \<noteq> q'" for q q'
    using that o(4) [OF that] same by (cases "q = r"; cases "q' = r") auto
  have e: "(A(r := xs)) q = []" if "\<not> (0 \<le> q \<and> q < reg_nprocs s)" for q using that o(3) r by auto
  show ?thesis unfolding reg_ok_def s'(2)
    using s'(1) o(1) l d e by (intro exI [of _ "heads[nat r := p]"]) (simp only: length_list_update, blast)
qed

lemma reg_ok_node:
  assumes ok: "reg_ok s A" and x: "x \<in> set (A q)"
  shows "0 \<le> q" "q < reg_nprocs s" "x \<noteq> 0" "\<exists>e. nodes s x = Some e"
proof -
  show q: "0 \<le> q" "q < reg_nprocs s" using ok x unfolding reg_ok_def by (metis empty_iff empty_set)+
  obtain heads where "list_ok s q (heads ! nat q) (A q)" using reg_okD [OF ok q] .
  then have "path (nodes s) (heads ! nat q) (A q)" by (simp add: list_ok_def)
  from path_dom [OF this x] show "x \<noteq> 0" "\<exists>e. nodes s x = Some e" by blast+
qed

definition new_entry :: "int \<Rightarrow> int \<Rightarrow> int \<Rightarrow> string \<Rightarrow> int \<Rightarrow> int \<Rightarrow> reg_entry_t" where
  "new_entry r b l name mapped use_dev = \<lparr>re_next = 0, re_buf = b, re_len = l, re_mapped = mapped,
     re_rank = r, re_use_dev = use_dev, re_name = take SHM_NAME_SIZE name\<rparr>"

lemma list_ok_snoc:
  assumes ok: "list_ok s r p xs" and fr: "seg_frame s s' (set xs)" and path: "path (nodes s') p' (xs @ [node])" and n: "node \<notin> set xs"
    and new: "entry_ok (ent s' node)" "re_rank (ent s' node) = r"
    and ap: "\<forall>x\<in>set xs. apart (ent s x) (re_buf (ent s' node)) (re_len (ent s' node))"
  shows "list_ok s' r p' (xs @ [node])"
proof -
  note f = seg_frameD [OF fr]
  have x: "entry_ok (ent s' x) \<and> re_rank (ent s' x) = r" if "x \<in> set xs" for x using f that ok by (auto simp: list_ok_def)
  have to: "apart (ent s' x) (re_buf (ent s' node)) (re_len (ent s' node))" if "x \<in> set xs" for x using f that ap by simp
  moreover have "apart (ent s' node) (re_buf (ent s' x)) (re_len (ent s' x))" if "x \<in> set xs" for x
    using to [OF that] apart_sym by metis
  moreover have "apart (ent s' x) (re_buf (ent s' y)) (re_len (ent s' y))" if "x \<in> set xs" "y \<in> set xs" "x \<noteq> y" for x y
    using f that ok by (auto simp: list_ok_def)
  moreover have "distinct xs" using ok by (simp add: list_ok_def)
  ultimately show ?thesis using path n x new unfolding list_ok_def by (simp add: ball_Un)
qed

lemma insert_spec:
  assumes ok: "reg_ok s A" and r: "0 \<le> r" "r < reg_nprocs s" and q: "seg_ok b l" "0 < l"
    and n: "node \<noteq> 0" "nodes s node = None" and ap: "\<forall>x\<in>set (A r). apart (ent s x) b l"
  shows "\<exists>s'. reg_cache_insert node r b l name mapped use_dev s = Some (node, s') \<and>
    reg_ok s' (A(r := A r @ [node])) \<and> reg_nprocs s' = reg_nprocs s \<and>
    seg_frame s s' (\<Union>r. set (A r)) \<and> nodes s' node = Some (new_entry r b l name mapped use_dev)"
proof -
  obtain heads where h: "reg_cache s = Some heads" "length heads = nat (reg_nprocs s)" "nat r < length heads"
    "list_ok s r (heads ! nat r) (A r)" using reg_okD [OF ok r] .
  let ?e = "new_entry r b l name mapped use_dev" and ?p = "heads ! nat r"
  define N1 where "N1 = (nodes s)(node \<mapsto> ?e)"
  define s1 where "s1 = s\<lparr>nodes := N1\<rparr>"
  have p: "path (nodes s) ?p (A r)" "distinct (A r)" using h(4) by (auto simp: list_ok_def)
  have fresh: "node \<notin> set (A q)" for q using reg_ok_node(4) [OF ok, of node q] n(2) by auto
  have run: "reg_cache_insert node r b l name mapped use_dev s =
      do { s \<leftarrow> (if ?p = 0 then Some (s1\<lparr>reg_cache := Some (heads[nat r := node])\<rparr>)
                else do { runner \<leftarrow> last_node ?p s1; e \<leftarrow> nodes s1 runner;
                          Some (s1\<lparr>nodes := (nodes s1)(runner \<mapsto> e\<lparr>re_next := node\<rparr>)\<rparr>) });
           Some (node, s) }"
    using ap r q n h(1)
    by (simp add: reg_cache_insert_def insert_checks [OF ok r q] seg_ok_def s1_def N1_def new_entry_def Let_def)
  define s' where "s' = (if A r = [] then s1\<lparr>reg_cache := Some (heads[nat r := node])\<rparr>
    else s1\<lparr>nodes := (nodes s1)(last (A r) \<mapsto> (ent s (last (A r)))\<lparr>re_next := node\<rparr>)\<rparr>)"
  have z: "?p = 0 \<longleftrightarrow> A r = []" using p(1) by (cases "A r") auto
  have lst: "last_node ?p s1 = Some (last (A r))" "nodes s1 (last (A r)) = Some (ent s (last (A r)))" if "A r \<noteq> []"
  proof -
    have "nodes s1 x = nodes s x" if "x \<in> set (A r)" for x using that fresh [of r] by (auto simp: s1_def N1_def)
    then have "path (nodes s1) ?p (A r)" using p(1) path_cong [of "A r" "nodes s1" "nodes s" ?p] by simp
    then show "last_node ?p s1 = Some (last (A r))" using last_node_spec that by blast
    have "last (A r) \<in> set (A r)" using that by simp
    then show "nodes s1 (last (A r)) = Some (ent s (last (A r)))" using path_dom [OF p(1), of "last (A r)"] fresh
      by (auto simp: s1_def N1_def)
  qed
  have run': "reg_cache_insert node r b l name mapped use_dev s = Some (node, s')"
    unfolding run s'_def using z lst by auto
  have N': "nodes s' = (if A r = [] then N1 else N1(last (A r) \<mapsto> (ent s (last (A r)))\<lparr>re_next := node\<rparr>))"
    by (simp add: s'_def s1_def)
  have path': "path (nodes s') (if A r = [] then node else ?p) (A r @ [node])"
    using path_snoc [OF p(1) fresh n(1) _ p(2), of ?e] unfolding N' N1_def by (simp add: new_entry_def)
  have nn: "nodes s' node = Some ?e" using fresh [of r] last_in_set [of "A r"] unfolding N' N1_def by auto
  have other: "nodes s' x = nodes s x" if "x \<noteq> node" "x \<notin> set (A r)" for x
    using that last_in_set [of "A r"] unfolding N' N1_def by auto
  have fr: "seg_frame s s' (set (A q))" for q
  proof -
    have "\<exists>m. nodes s' x = Some ((ent s x)\<lparr>re_next := m\<rparr>)" if x: "x \<in> set (A q)" for x
    proof -
      obtain e where e: "nodes s x = Some e" using reg_ok_node(4) [OF ok x] by blast
      have "x \<noteq> node" using fresh x by blast
      then show ?thesis using e unfolding N' N1_def
        by (cases "A r \<noteq> [] \<and> x = last (A r)") (auto intro: exI [of _ "re_next e"])
    qed
    then show ?thesis by (simp add: seg_frame_def)
  qed
  have "list_ok s' r (if A r = [] then node else ?p) (A r @ [node])"
    by (rule list_ok_snoc [OF h(4) fr path' fresh]) (use nn q ap in \<open>simp_all add: entry_ok_def new_entry_def\<close>)
  moreover have "reg_cache s' = Some (heads[nat r := (if A r = [] then node else ?p)])" "reg_nprocs s' = reg_nprocs s"
    using h(1) by (simp_all add: s'_def s1_def)
  moreover have "x \<notin> set (A r @ [node]) \<and> nodes s' x = nodes s x" if "r' \<noteq> r" "x \<in> set (A r')" for r' x
  proof -
    have "x \<notin> set (A r)" using ok that unfolding reg_ok_def by blast
    moreover have "x \<noteq> node" using that fresh by blast
    ultimately show ?thesis using other by simp
  qed
  ultimately have "reg_ok s' (A(r := A r @ [node]))" by (intro reg_ok_update [OF ok r h(1)]) auto
  moreover have "seg_frame s s' (\<Union>r. set (A r))" using fr by (auto simp: seg_frame_def)
  ultimately show ?thesis using run' nn by (auto simp: s'_def s1_def)
qed

section \<open>Deletion\<close>

lemma start_unique:
  assumes ok: "reg_ok s A" and x: "x \<in> set (A r)" "y \<in> set (A r)" "re_buf (ent s x) = re_buf (ent s y)"
  shows "x = y"
proof (rule ccontr)
  assume "x \<noteq> y"
  obtain heads where "list_ok s r (heads ! nat r) (A r)" using reg_okD [OF ok reg_ok_node(1,2) [OF ok x(1)]] .
  then have "entry_ok (ent s x)" "entry_ok (ent s y)" "apart (ent s x) (re_buf (ent s y)) (re_len (ent s y))"
    using x \<open>x \<noteq> y\<close> by (auto simp: list_ok_def)
  then show False using x(3) by (auto simp: apart_def entry_ok_def)
qed

lemma find_first: "(\<And>y. y \<in> set xs \<Longrightarrow> \<not> P y) \<Longrightarrow> P x \<Longrightarrow> List.find P (xs @ x # ys) = Some x"
  by (induction xs) auto

lemma split_at_start:
  assumes ok: "reg_ok s A" and x: "x \<in> set (A r)" "re_buf (ent s x) = b"
  obtains ys where "A r = takeWhile (\<lambda>y. re_buf (ent s y) \<noteq> b) (A r) @ x # ys"
proof -
  let ?P = "\<lambda>y. re_buf (ent s y) \<noteq> b"
  have "dropWhile ?P (A r) \<noteq> []" using x by (simp add: dropWhile_eq_Nil_conv) blast
  then obtain z zs where z: "dropWhile ?P (A r) = z # zs" by (meson neq_Nil_conv)
  then have a: "A r = takeWhile ?P (A r) @ z # zs" using takeWhile_dropWhile_id [of ?P "A r"] by simp
  have "re_buf (ent s z) = b" using hd_dropWhile [of ?P "A r"] z by simp
  moreover have "z \<in> set (A r)" by (subst a) simp
  ultimately have "z = x" using start_unique [OF ok, of z r x] x by simp
  then show ?thesis using that a by blast
qed

lemma delete_spec:
  assumes ok: "reg_ok s A" and x: "x \<in> set (A r)" "re_buf (ent s x) = b"
  shows "\<exists>s'. reg_cache_delete r b s = Some (RR_SUCCESS, s') \<and> reg_ok s' (A(r := remove1 x (A r))) \<and>
    reg_nprocs s' = reg_nprocs s \<and> seg_frame s s' ((\<Union>q. set (A q)) - {x}) \<and> nodes s' x = None"
proof -
  note r = reg_ok_node(1,2) [OF ok x(1)]
  obtain heads where h: "reg_cache s = Some heads" "length heads = nat (reg_nprocs s)" "nat r < length heads"
    "list_ok s r (heads ! nat r) (A r)" using reg_okD [OF ok r] .
  let ?p = "heads ! nat r"
  have p: "path (nodes s) ?p (A r)" "distinct (A r)" "entry_ok (ent s x)" using h(4) x(1) by (auto simp: list_ok_def)
  have b: "seg_ok b 0" "b \<noteq> 0" "covers (ent s x) b 0" using p(3) x(2) by (auto simp: entry_ok_def seg_ok_def covers_def)
  have "reg_cache_find r b 0 s \<noteq> Some 0" using find_none [OF ok r b(1)] x(1) b(3) by blast
  then obtain n where fnd: "reg_cache_find r b 0 s = Some n" "n \<noteq> 0" using find_spec [OF ok r b(1)] by auto
  define pre where "pre = takeWhile (\<lambda>y. re_buf (ent s y) \<noteq> b) (A r)"
  obtain ys where l: "A r = pre @ x # ys" using split_at_start [OF ok x] unfolding pre_def .
  have npre: "re_buf (ent s y) \<noteq> b" if "y \<in> set pre" for y using that by (auto simp: pre_def dest: set_takeWhileD)
  have "List.find (\<lambda>y. re_buf (ent s y) = b) (A r) = Some x"
    unfolding l by (rule find_first) (use npre x(2) in auto)
  then have fb: "find_buf b 0 ?p s = Some (last (0 # pre), x)" using find_buf_spec [OF p(1), of b 0] by (simp add: pre_def)
  obtain e where e: "nodes s x = Some e" "x \<noteq> 0" using reg_ok_node(3,4) [OF ok x(1)] by blast
  have xp: "x \<notin> set pre" "x \<notin> set ys" "distinct pre" using p(2) l by auto
  have lp: "last pre \<noteq> 0 \<and> (\<exists>f. nodes s (last pre) = Some f) \<and> last pre \<in> set (A r)" if "pre \<noteq> []"
  proof -
    have "last pre \<in> set (A r)" using that l by simp
    then show ?thesis using reg_ok_node(3,4) [OF ok, of "last pre" r] by auto
  qed
  define s' where "s' = (if pre = [] then s\<lparr>reg_cache := Some (heads[nat r := re_next e]), nodes := (nodes s)(x := None)\<rparr>
    else s\<lparr>nodes := (nodes s)(last pre \<mapsto> (ent s (last pre))\<lparr>re_next := re_next e\<rparr>, x := None)\<rparr>)"
  have run: "reg_cache_delete r b s = Some (RR_SUCCESS, s')"
    using h(1) r b(2) fnd fb e lp by (auto simp: reg_cache_delete_def reg_entry_destroy_def s'_def)
  have rm: "remove1 x (A r) = pre @ ys" using l xp by (simp add: remove1_append)
  have path': "path (nodes s') (if pre = [] then re_next e else ?p) (pre @ ys)"
    using path_remove [of "nodes s" ?p pre x ys] p(1,2) l e(1) by (auto simp: s'_def)
  have other: "nodes s' y = nodes s y" if "y \<notin> set (A r)" for y using that lp x(1) by (auto simp: s'_def)
  have fr: "seg_frame s s' ((\<Union>q. set (A q)) - {x})"
    unfolding seg_frame_def
  proof
    fix y assume y: "y \<in> (\<Union>q. set (A q)) - {x}"
    then obtain f where f: "nodes s y = Some f" using reg_ok_node(4) [OF ok] by blast
    show "\<exists>m. nodes s' y = Some ((ent s y)\<lparr>re_next := m\<rparr>)"
      using y f by (cases "pre \<noteq> [] \<and> y = last pre") (auto simp: s'_def intro: exI [of _ "re_next f"])
  qed
  have "list_ok s' r (if pre = [] then re_next e else ?p) (pre @ ys)"
  proof -
    have sub: "set (pre @ ys) \<subseteq> set (A r)" using l by auto
    have "x \<notin> set (pre @ ys)" using xp by simp
    then have "set (pre @ ys) \<subseteq> (\<Union>q. set (A q)) - {x}" using sub by blast
    then have f: "seg_frame s s' (set (pre @ ys))" using fr by (auto simp: seg_frame_def)
    note fd = seg_frameD [OF f]
    have "distinct (pre @ ys)" using p(2) l by auto
    then show ?thesis using path' fd sub h(4) unfolding list_ok_def by (metis subsetD)
  qed
  moreover have "reg_cache s' = Some (heads[nat r := (if pre = [] then re_next e else ?p)])" "reg_nprocs s' = reg_nprocs s"
    using h(1) by (simp_all add: s'_def)
  moreover have "y \<notin> set (pre @ ys) \<and> nodes s' y = nodes s y" if "r' \<noteq> r" "y \<in> set (A r')" for r' y
  proof -
    have "y \<notin> set (A r)" using ok that unfolding reg_ok_def by blast
    then show ?thesis using other l by auto
  qed
  ultimately have "reg_ok s' (A(r := pre @ ys))" by (intro reg_ok_update [OF ok r h(1)]) auto
  moreover have "nodes s' x = None" by (simp add: s'_def)
  ultimately show ?thesis using run fr rm by (auto simp: s'_def)
qed

lemma delete_fail:
  assumes ok: "reg_ok s A" and r: "0 \<le> r" "r < reg_nprocs s" and b: "seg_ok b 0"
    and no: "\<forall>x\<in>set (A r). re_buf (ent s x) \<noteq> b"
  shows "reg_cache_delete r b s = None"
proof -
  obtain heads where h: "reg_cache s = Some heads" "list_ok s r (heads ! nat r) (A r)" using reg_okD [OF ok r] .
  have "List.find (\<lambda>x. re_buf (ent s x) = b) (A r) = None" using no by (simp add: find_None_iff)
  then have "find_buf b 0 (heads ! nat r) s = Some (last (0 # A r), 0)"
    using find_buf_spec [of s "heads ! nat r" "A r" b 0] h(2) by (simp add: list_ok_def)
  then show ?thesis using h(1) r find_spec [OF ok r b]
    by (auto simp: reg_cache_delete_def COMEX_ASSERT_def split: Option.bind_splits if_splits)
qed

section \<open>Creation and destruction\<close>

lemma init_spec:
  assumes "reg_cache s = None" "reg_nprocs s = 0" "0 \<le> nprocs" "block \<noteq> 0"
  shows "\<exists>s'. reg_cache_init block nprocs s = Some (RR_SUCCESS, s') \<and> reg_ok s' (\<lambda>_. []) \<and> reg_nprocs s' = nprocs \<and> nodes s' = nodes s"
  using assms by (auto simp: reg_cache_init_def COMEX_ASSERT_def reg_ok_def list_ok_def)

lemma destroy_list_spec:
  assumes "path (nodes s) p xs" "distinct xs" "0 \<le> i" "i < reg_nprocs s"
  shows "destroy_list i p s = Some (s\<lparr>nodes := (nodes s) |` (- set xs)\<rparr>)"
  using assms
proof (induction xs arbitrary: p s)
  case Nil
  then show ?case by (subst destroy_list.simps) (simp add: restrict_map_def)
next
  case (Cons x xs)
  then obtain e where e: "p = x" "x \<noteq> 0" "nodes s x = Some e" "path (nodes s) (re_next e) xs" by auto
  define t where "t = s\<lparr>nodes := (nodes s)(x := None)\<rparr>"
  have "nodes t y = nodes s y" if "y \<in> set xs" for y using that Cons.prems(2) by (auto simp: t_def)
  then have pt: "path (nodes t) (re_next e) xs" using e(4) path_cong [of xs "nodes t" "nodes s"] by simp
  have "reg_nprocs t = reg_nprocs s" by (simp add: t_def)
  then have "destroy_list i (re_next e) t = Some (t\<lparr>nodes := (nodes t) |` (- set xs)\<rparr>)"
    using Cons.IH [OF pt] Cons.prems by simp
  moreover have "(nodes t) |` (- set xs) = (nodes s) |` (- set (x # xs))" by (auto simp: t_def restrict_map_def)
  ultimately show ?case using e Cons.prems by (subst destroy_list.simps) (simp add: reg_entry_destroy_def t_def)
qed

lemma destroy_lists_spec:
  assumes "length ps = length xss" "\<And>k. k < length ps \<Longrightarrow> path (nodes s) (ps ! k) (xss ! k) \<and> distinct (xss ! k)"
    and "\<And>j k. j < k \<Longrightarrow> k < length ps \<Longrightarrow> set (xss ! j) \<inter> set (xss ! k) = {}" "0 \<le> i" "i + int (length ps) \<le> reg_nprocs s"
  shows "destroy_lists i ps s = Some (s\<lparr>nodes := (nodes s) |` (- (\<Union>xs\<in>set xss. set xs))\<rparr>)"
  using assms
proof (induction ps xss arbitrary: i s rule: list_induct2')
  case 1
  then show ?case by simp
next
  case (4 p ps xs xss)
  define t where "t = s\<lparr>nodes := (nodes s) |` (- set xs)\<rparr>"
  have p: "path (nodes s) p xs" "distinct xs" using "4.prems"(2) [of 0] by simp_all
  have d: "set xs \<inter> set (xss ! k) = {}" if "k < length ps" for k using "4.prems"(3) [of 0 "Suc k"] that by simp
  have ih: "destroy_lists (i + 1) ps t = Some (t\<lparr>nodes := (nodes t) |` (- (\<Union>xs\<in>set xss. set xs))\<rparr>)"
  proof (rule "4.IH")
    show "length ps = length xss" using "4.prems"(1) by simp
    show "path (nodes t) (ps ! k) (xss ! k) \<and> distinct (xss ! k)" if "k < length ps" for k
    proof -
      have "nodes t y = nodes s y" if "y \<in> set (xss ! k)" for y
        using that d [OF \<open>k < length ps\<close>] by (auto simp: t_def restrict_map_def)
      then show ?thesis using "4.prems"(2) [of "Suc k"] that path_cong [of "xss ! k" "nodes t" "nodes s"] by simp
    qed
    show "set (xss ! j) \<inter> set (xss ! k) = {}" if "j < k" "k < length ps" for j k
      using "4.prems"(3) [of "Suc j" "Suc k"] that by simp
  qed (use "4.prems" in \<open>simp_all add: t_def\<close>)
  have "(nodes t) |` (- (\<Union>xs\<in>set xss. set xs)) = (nodes s) |` (- (\<Union>xs\<in>set (xs # xss). set xs))"
    by (auto simp: t_def restrict_map_def)
  then show ?case using destroy_list_spec [OF p, of i] ih "4.prems"(4,5) by (simp add: t_def)
qed simp_all

lemma destroy_spec:
  assumes ok: "reg_ok s A" and n: "0 < reg_nprocs s"
  shows "reg_cache_destroy s = Some (RR_SUCCESS,
    s\<lparr>nodes := (nodes s) |` (- (\<Union>r. set (A r))), reg_cache := None, reg_nprocs := 0\<rparr>)"
proof -
  obtain heads where h: "reg_cache s = Some heads" "length heads = nat (reg_nprocs s)"
     "\<And>r. 0 \<le> r \<Longrightarrow> r < reg_nprocs s \<Longrightarrow> list_ok s r (heads ! nat r) (A r)"
     "\<And>r. \<not> (0 \<le> r \<and> r < reg_nprocs s) \<Longrightarrow> A r = []" "\<And>r r'. r \<noteq> r' \<Longrightarrow> set (A r) \<inter> set (A r') = {}"
    using ok by (auto simp: reg_ok_def)
  define xss where "xss = map (\<lambda>k. A (int k)) [0..<length heads]"
  have u: "(\<Union>xs\<in>set xss. set xs) = (\<Union>r. set (A r))"
  proof -
    have "x \<in> (\<Union>xs\<in>set xss. set xs)" if "x \<in> set (A r)" for x r
    proof -
      have "0 \<le> r" "r < reg_nprocs s" using h(4) that by force+
      then have "nat r < length heads" "A r = A (int (nat r))" using h(2) by simp_all
      then show ?thesis using that unfolding xss_def by fastforce
    qed
    then show ?thesis by (auto simp: xss_def)
  qed
  have "destroy_lists 0 heads s = Some (s\<lparr>nodes := (nodes s) |` (- (\<Union>xs\<in>set xss. set xs))\<rparr>)"
  proof (rule destroy_lists_spec)
    show "path (nodes s) (heads ! k) (xss ! k) \<and> distinct (xss ! k)" if "k < length heads" for k
      using h(3) [of "int k"] that h(2) by (simp add: xss_def list_ok_def)
    show "set (xss ! j) \<inter> set (xss ! k) = {}" if "j < k" "k < length heads" for j k
      using h(5) [of "int j" "int k"] that by (simp add: xss_def)
  qed (use h(2) n in \<open>simp_all add: xss_def\<close>)
  then show ?thesis using h(1,2) n u by (simp add: reg_cache_destroy_def)
qed

end
