(* ===== verification/Reg_Theorems.thy ===== *)
theory Reg_Theorems
  imports Reg_Lists
begin

text \<open>
  The contract of the registration cache, as an interface that its client lemmas are proved from and
  that the model of the code implements, and the properties of the cache.
\<close>

section \<open>The contract of a segment cache\<close>

text \<open>
  What the runtime relies on: for every process the cache is a list of (entry, start, length). The
  lookup gives the entry whose segment covers the query, an insertion appends a segment that is
  apart from the others, a deletion removes the segment with the given start.
\<close>

locale segment_cache =
  fixes rep :: "'s \<Rightarrow> (int \<Rightarrow> (int \<times> int \<times> int) list) \<Rightarrow> bool"
    and ranks :: "'s \<Rightarrow> int"
    and unused :: "int \<Rightarrow> 's \<Rightarrow> bool"
    and lookup :: "int \<Rightarrow> int \<Rightarrow> int \<Rightarrow> 's \<Rightarrow> int option"
    and ins :: "int \<Rightarrow> int \<Rightarrow> int \<Rightarrow> int \<Rightarrow> 's \<Rightarrow> (int \<times> 's) option"
    and del :: "int \<Rightarrow> int \<Rightarrow> 's \<Rightarrow> 's option"
  assumes lookup_law: "rep s M \<Longrightarrow> 0 \<le> r \<Longrightarrow> r < ranks s \<Longrightarrow> seg_ok b l \<Longrightarrow>
      lookup r b l s = Some (case List.find (\<lambda>(x, c, k). c \<le> b \<and> b + max 1 l \<le> c + k) (M r) of
        None \<Rightarrow> 0 | Some y \<Rightarrow> fst y)"
    and ins_law: "rep s M \<Longrightarrow> 0 \<le> r \<Longrightarrow> r < ranks s \<Longrightarrow> seg_ok b l \<Longrightarrow> 0 < l \<Longrightarrow> unused x s \<Longrightarrow>
      \<forall>(y, c, k)\<in>set (M r). c + k \<le> b \<or> b + l \<le> c \<Longrightarrow>
      \<exists>s'. ins x r b l s = Some (x, s') \<and> rep s' (M(r := M r @ [(x, b, l)])) \<and> ranks s' = ranks s"
    and del_law: "rep s M \<Longrightarrow> (x, b, l) \<in> set (M r) \<Longrightarrow>
      \<exists>s'. del r b s = Some s' \<and> rep s' (M(r := remove1 (x, b, l) (M r))) \<and> ranks s' = ranks s"
    and apart_law: "rep s M \<Longrightarrow> (x, c, k) \<in> set (M r) \<Longrightarrow> (y, d, j) \<in> set (M r) \<Longrightarrow> (x, c, k) \<noteq> (y, d, j) \<Longrightarrow>
      c + k \<le> d \<or> d + j \<le> c"
    and distinct_law: "rep s M \<Longrightarrow> distinct (M r)"
begin

lemma lookup_covered:
  assumes rep: "rep s M" and r: "0 \<le> r" "r < ranks s" and q: "seg_ok b l"
    and x: "(x, c, k) \<in> set (M r)" "c \<le> b" "b + max 1 l \<le> c + k"
  shows "lookup r b l s = Some x"
proof -
  let ?P = "\<lambda>(x, c, k). c \<le> b \<and> b + max 1 l \<le> c + k"
  obtain pre post where l: "M r = pre @ (x, c, k) # post" using x(1) by (meson split_list)
  have "\<not> ?P y" if y: "y \<in> set pre" for y
  proof -
    obtain x' c' k' where e: "y = (x', c', k')" by (cases y)
    have "y \<noteq> (x, c, k)" using distinct_law [OF rep, of r] l y by auto
    moreover have "(x', c', k') \<in> set (M r)" using l y e by simp
    ultimately have "c + k \<le> c' \<or> c' + k' \<le> c" using apart_law [OF rep x(1), of x' c' k'] e by metis
    then show ?thesis using x(2,3) by (auto simp: e)
  qed
  then have "List.find ?P (M r) = Some (x, c, k)" unfolding l using x(2,3) by (intro find_first) auto
  then show ?thesis using lookup_law [OF rep r q] by simp
qed

lemma lookup_uncovered:
  assumes "rep s M" "0 \<le> r" "r < ranks s" "seg_ok b l" "\<forall>(x, c, k)\<in>set (M r). \<not> (c \<le> b \<and> b + max 1 l \<le> c + k)"
  shows "lookup r b l s = Some 0"
proof -
  have "List.find (\<lambda>(x, c, k). c \<le> b \<and> b + max 1 l \<le> c + k) (M r) = None"
    using assms(5) by (auto simp: find_None_iff)
  then show ?thesis using lookup_law [OF assms(1-4)] by simp
qed

lemma ins_lookup_del:
  assumes rep: "rep s M" and r: "0 \<le> r" "r < ranks s" and q: "seg_ok b l" "0 < l" and x: "unused x s"
    and ap: "\<forall>(y, c, k)\<in>set (M r). c + k \<le> b \<or> b + l \<le> c"
  shows "\<exists>s' s''. ins x r b l s = Some (x, s') \<and>
    (\<forall>b' l'. b \<le> b' \<and> 0 \<le> l' \<and> b' + max 1 l' \<le> b + l \<longrightarrow> lookup r b' l' s' = Some x) \<and>
    del r b s' = Some s'' \<and> rep s'' M \<and>
    (\<forall>b' l'. b \<le> b' \<and> 0 \<le> l' \<and> b' + max 1 l' \<le> b + l \<longrightarrow> lookup r b' l' s'' = Some 0)"
proof -
  let ?M = "M(r := M r @ [(x, b, l)])"
  obtain s' where s': "ins x r b l s = Some (x, s')" "rep s' ?M" "ranks s' = ranks s" using ins_law [OF rep r q x ap] by blast
  have new: "(x, b, l) \<in> set (?M r)" by simp
  obtain s'' where s'': "del r b s' = Some s''" "rep s'' (?M(r := remove1 (x, b, l) (?M r)))" "ranks s'' = ranks s'"
    using del_law [OF s'(2) new] by blast
  have "(x, b, l) \<notin> set (M r)" using ap q by auto
  then have undo: "?M(r := remove1 (x, b, l) (?M r)) = M" by (simp add: remove1_append)
  have sub: "seg_ok b' l'" if "b \<le> b'" "0 \<le> l'" "b' + max 1 l' \<le> b + l" for b' l'
    using that q by (auto simp: seg_ok_def)
  have "lookup r b' l' s' = Some x" if "b \<le> b' \<and> 0 \<le> l' \<and> b' + max 1 l' \<le> b + l" for b' l'
    using lookup_covered [OF s'(2) _ _ _ new] sub that r s'(3) by simp
  moreover have "lookup r b' l' s'' = Some 0" if "b \<le> b' \<and> 0 \<le> l' \<and> b' + max 1 l' \<le> b + l" for b' l'
    using lookup_uncovered [OF s''(2) [unfolded undo], of r b' l'] sub that r s'(3) s''(3) ap by fastforce
  ultimately show ?thesis using s'(1) s''(1,2) undo by auto
qed

end

definition reg_view :: "reg_state \<Rightarrow> (int \<Rightarrow> int list) \<Rightarrow> int \<Rightarrow> (int \<times> int \<times> int) list" where
  "reg_view s A r = map (\<lambda>x. (x, re_buf (ent s x), re_len (ent s x))) (A r)"

definition reg_rep :: "reg_state \<Rightarrow> (int \<Rightarrow> (int \<times> int \<times> int) list) \<Rightarrow> bool" where
  "reg_rep s M \<longleftrightarrow> (\<exists>A. reg_ok s A \<and> M = reg_view s A)"

lemma view_frame:
  assumes "seg_frame s s' X" "\<And>q. set (A q) \<subseteq> X"
  shows "reg_view s' A = reg_view s A"
proof
  fix r
  show "reg_view s' A r = reg_view s A r"
    unfolding reg_view_def using seg_frameD [OF assms(1)] assms(2) [of r] by (intro map_cong) auto
qed

lemma reg_rep_lookup:
  assumes "reg_ok s A" "0 \<le> r" "r < reg_nprocs s" "seg_ok b l"
  shows "reg_cache_find r b l s = Some (case List.find (\<lambda>(x, c, k). c \<le> b \<and> b + max 1 l \<le> c + k) (reg_view s A r) of
      None \<Rightarrow> 0 | Some y \<Rightarrow> fst y)"
proof -
  have "List.find (\<lambda>(x, c, k). c \<le> b \<and> b + max 1 l \<le> c + k) (map (\<lambda>x. (x, re_buf (ent s x), re_len (ent s x))) xs) =
      map_option (\<lambda>x. (x, re_buf (ent s x), re_len (ent s x))) (List.find (\<lambda>x. covers (ent s x) b l) xs)" for xs
    by (induction xs) (auto simp: covers_def)
  then show ?thesis using find_spec [OF assms] by (simp add: reg_view_def option.case_eq_if option.map_sel)
qed

interpretation rc: segment_cache reg_rep reg_nprocs "\<lambda>x s. x \<noteq> 0 \<and> nodes s x = None" reg_cache_find
  "\<lambda>x r b l. reg_cache_insert x r b l name mapped use_dev" "\<lambda>r b s. map_option snd (reg_cache_delete r b s)"
  for name mapped use_dev
proof unfold_locales
  fix s M r b l assume "reg_rep s M" "0 \<le> r" "r < reg_nprocs s" "seg_ok b l"
  then show "reg_cache_find r b l s = Some (case List.find (\<lambda>(x, c, k). c \<le> b \<and> b + max 1 l \<le> c + k) (M r) of
      None \<Rightarrow> 0 | Some y \<Rightarrow> fst y)" using reg_rep_lookup by (auto simp: reg_rep_def)
next
  fix s M r b l x
  assume a: "reg_rep s M" "0 \<le> r" "r < reg_nprocs s" "seg_ok b l" "0 < l" "x \<noteq> 0 \<and> nodes s x = None"
    "\<forall>(y, c, k)\<in>set (M r). c + k \<le> b \<or> b + l \<le> c"
  then obtain A where A: "reg_ok s A" "M = reg_view s A" by (auto simp: reg_rep_def)
  have "\<forall>y\<in>set (A r). apart (ent s y) b l" using a(7) A(2) by (auto simp: reg_view_def apart_def)
  from insert_spec [OF A(1) a(2-5) _ _ this] a(6) obtain s' where
    s': "reg_cache_insert x r b l name mapped use_dev s = Some (x, s')" "reg_ok s' (A(r := A r @ [x]))"
      "reg_nprocs s' = reg_nprocs s" "seg_frame s s' (\<Union>r. set (A r))" "nodes s' x = Some (new_entry r b l name mapped use_dev)"
    by blast
  have "reg_view s' A = reg_view s A" using view_frame [OF s'(4)] by blast
  then have "reg_view s' (A(r := A r @ [x])) = M(r := M r @ [(x, b, l)])"
    using s'(5) A(2) by (auto simp: fun_eq_iff reg_view_def new_entry_def)
  then show "\<exists>s'. reg_cache_insert x r b l name mapped use_dev s = Some (x, s') \<and> reg_rep s' (M(r := M r @ [(x, b, l)])) \<and>
      reg_nprocs s' = reg_nprocs s" using s' unfolding reg_rep_def by metis
next
  fix s M x b l r assume a: "reg_rep s M" "(x, b, l) \<in> set (M r)"
  then obtain A where A: "reg_ok s A" "M = reg_view s A" by (auto simp: reg_rep_def)
  then have x: "x \<in> set (A r)" "re_buf (ent s x) = b" "re_len (ent s x) = l" using a(2) by (auto simp: reg_view_def)
  from delete_spec [OF A(1) x(1,2)] obtain s' where
    s': "reg_cache_delete r b s = Some (RR_SUCCESS, s')" "reg_ok s' (A(r := remove1 x (A r)))"
      "reg_nprocs s' = reg_nprocs s" "seg_frame s s' ((\<Union>q. set (A q)) - {x})" by blast
  obtain heads where "list_ok s r (heads ! nat r) (A r)" using reg_okD [OF A(1) reg_ok_node(1,2) [OF A(1) x(1)]] .
  then have d: "distinct (A r)" by (simp add: list_ok_def)
  have rm: "map (\<lambda>x. (x, f x)) (remove1 x xs) = remove1 (x, f x) (map (\<lambda>x. (x, f x)) xs)" for f :: "int \<Rightarrow> int \<times> int" and xs
    by (induction xs) auto
  have "reg_view s' (A(r := remove1 x (A r))) = reg_view s (A(r := remove1 x (A r)))"
  proof (rule view_frame [OF s'(4)])
    show "set ((A(r := remove1 x (A r))) q) \<subseteq> (\<Union>q. set (A q)) - {x}" for q
    proof (cases "q = r")
      case True
      then show ?thesis using d by auto
    next
      case False
      then have "x \<notin> set (A q)" using A(1) x(1) unfolding reg_ok_def by blast
      then show ?thesis using False by auto
    qed
  qed
  also have "\<dots> = M(r := remove1 (x, b, l) (M r))"
    using rm [of "\<lambda>x. (re_buf (ent s x), re_len (ent s x))"] x(2,3) A(2) by (auto simp: fun_eq_iff reg_view_def)
  finally show "\<exists>s'. map_option snd (reg_cache_delete r b s) = Some s' \<and> reg_rep s' (M(r := remove1 (x, b, l) (M r))) \<and>
      reg_nprocs s' = reg_nprocs s" using s' unfolding reg_rep_def by (metis option.simps(9) snd_conv)
next
  fix s M x c k r y d j
  assume a: "reg_rep s M" "(x, c, k) \<in> set (M r)" "(y, d, j) \<in> set (M r)" "(x, c, k) \<noteq> (y, d, j)"
  then obtain A where A: "reg_ok s A" "M = reg_view s A" by (auto simp: reg_rep_def)
  then have x: "x \<in> set (A r)" "re_buf (ent s x) = c" "re_len (ent s x) = k"
      "y \<in> set (A r)" "re_buf (ent s y) = d" "re_len (ent s y) = j" using a(2,3) by (auto simp: reg_view_def)
  obtain heads where "list_ok s r (heads ! nat r) (A r)" using reg_okD [OF A(1) reg_ok_node(1,2) [OF A(1) x(1)]] .
  then show "c + k \<le> d \<or> d + j \<le> c" using x a(4) by (auto simp: list_ok_def apart_def)
next
  fix s M r assume a: "reg_rep s M"
  then obtain A where A: "reg_ok s A" "M = reg_view s A" by (auto simp: reg_rep_def)
  have "distinct (A r)"
  proof (cases "A r = []")
    case False
    then have "hd (A r) \<in> set (A r)" by simp
    from reg_okD [OF A(1) reg_ok_node(1,2) [OF A(1) this]] show ?thesis by (auto simp: list_ok_def)
  qed simp
  then show "distinct (M r)" unfolding A(2) reg_view_def by (auto simp: distinct_map inj_on_def)
qed

section \<open>A concrete cache\<close>

definition no_cache :: reg_state where
  "no_cache = \<lparr>reg_cache = None, reg_nprocs = 0, nodes = Map.empty\<rparr>"

lemma demo_cache:
  obtains s where "reg_cache_init 32 2 no_cache = Some (RR_SUCCESS, s)" "reg_ok s (\<lambda>_. [])" "reg_nprocs s = 2" "nodes s = Map.empty"
  using init_spec [of no_cache 2 32] by (auto simp: no_cache_def)

lemma demo_entry:
  obtains s0 s where "reg_cache_init 32 2 no_cache = Some (RR_SUCCESS, s0)"
    "reg_cache_insert 64 1 4096 100 ''shm'' 8192 0 s0 = Some (64, s)" "reg_ok s ((\<lambda>_. [])(1 := [64]))" "reg_nprocs s = 2"
    "re_buf (ent s 64) = 4096" "re_len (ent s 64) = 100" "nodes s 64 \<noteq> None"
proof (rule demo_cache)
  fix s assume s: "reg_cache_init 32 2 no_cache = Some (RR_SUCCESS, s)" "reg_ok s (\<lambda>_. [])" "reg_nprocs s = 2" "nodes s = Map.empty"
  from insert_spec [OF s(2), of 1 4096 100 64 "''shm''" 8192 0] s(3,4) obtain s' where
    "reg_cache_insert 64 1 4096 100 ''shm'' 8192 0 s = Some (64, s')" "reg_ok s' ((\<lambda>_. [])(1 := [64]))"
    "reg_nprocs s' = 2" "nodes s' 64 = Some (new_entry 1 4096 100 ''shm'' 8192 0)" by (auto simp: seg_ok_def)
  then show ?thesis using that [OF s(1)] by (simp add: new_entry_def)
qed

section \<open>Properties\<close>

text \<open>
  C17. A lookup in a well-formed cache always comes back (its uniqueness assertion never fails): it
  gives the only entry of the process whose segment covers the whole query, and NULL exactly when there is none.
\<close>

theorem reg_cache_find_exact:
  assumes "reg_ok s A" "0 \<le> rank" "rank < reg_nprocs s" "seg_ok buf len"
  shows "\<exists>p. reg_cache_find rank buf len s = Some p \<and>
    (p = 0 \<longleftrightarrow> (\<forall>x\<in>set (A rank). \<not> covers (ent s x) buf len)) \<and>
    (\<forall>x\<in>set (A rank). covers (ent s x) buf len \<longrightarrow> p = x)"
proof -
  obtain p where p: "reg_cache_find rank buf len s = Some p" using find_spec [OF assms] by blast
  have "p = x" if x: "x \<in> set (A rank)" "covers (ent s x) buf len" for x
  proof -
    have "reg_rep s (reg_view s A)" using assms(1) by (auto simp: reg_rep_def)
    moreover have "(x, re_buf (ent s x), re_len (ent s x)) \<in> set (reg_view s A rank)" using x by (auto simp: reg_view_def)
    ultimately show ?thesis using rc.lookup_covered [OF _ assms(2-4), of "reg_view s A" x] x p by (auto simp: covers_def)
  qed
  then show ?thesis using p find_none [OF assms] by auto
qed

theorem reg_cache_find_exact_witness:
  "\<exists>s. reg_cache_find 1 4100 8 s = Some 64 \<and> reg_cache_find 0 4100 8 s = Some 0"
proof (rule demo_entry)
  fix s0 s
  assume a: "reg_ok s ((\<lambda>_. [])(1 := [64]))" "reg_nprocs s = 2" "re_buf (ent s 64) = 4096" "re_len (ent s 64) = 100"
  have "covers (ent s 64) 4100 8" using a by (simp add: covers_def)
  then have "reg_cache_find 1 4100 8 s = Some 64" "reg_cache_find 0 4100 8 s = Some 0"
    using reg_cache_find_exact [OF a(1), of 1 4100 8] reg_cache_find_exact [OF a(1), of 0 4100 8] a(2)
    by (auto simp: seg_ok_def)
  then show ?thesis by blast
qed

text \<open>
  C18. An insertion is accepted exactly when the new segment overlaps no registered segment of the
  process; then the cache stays well formed with the new entry last and no other entry changed but in
  its link. Otherwise an assertion stops the program. (Neither of the two lookups that guard the insertion
  would be enough alone.)
\<close>

theorem reg_cache_insert_iff_apart:
  assumes "reg_ok s A" "0 \<le> rank" "rank < reg_nprocs s" "seg_ok buf len" "0 < len" "node \<noteq> 0" "nodes s node = None"
  shows "if \<forall>x\<in>set (A rank). apart (ent s x) buf len
    then \<exists>s'. reg_cache_insert node rank buf len name mapped use_dev s = Some (node, s') \<and>
      reg_ok s' (A(rank := A rank @ [node])) \<and> seg_frame s s' (\<Union>r. set (A r)) \<and>
      nodes s' node = Some (new_entry rank buf len name mapped use_dev)
    else reg_cache_insert node rank buf len name mapped use_dev s = None"
proof (cases "\<forall>x\<in>set (A rank). apart (ent s x) buf len")
  case True
  then show ?thesis using insert_spec [OF assms True, of name mapped use_dev] by auto
next
  case False
  obtain heads where h: "reg_cache s = Some heads" using reg_okD [OF assms(1-3)] .
  have "reg_cache_insert node rank buf len name mapped use_dev s = None"
    using False h assms(2-4,6) by (simp add: reg_cache_insert_def insert_checks [OF assms(1-5)] seg_ok_def del: ball_simps)
  then show ?thesis using False by simp
qed

theorem reg_cache_insert_iff_apart_witness:
  "\<exists>s. reg_cache_insert 128 1 4196 50 ''b'' 0 0 s \<noteq> None \<and> reg_cache_insert 128 1 4100 8 ''c'' 0 0 s = None"
proof (rule demo_entry)
  fix s0 s
  assume a: "reg_ok s ((\<lambda>_. [])(1 := [64]))" "reg_nprocs s = 2" "re_buf (ent s 64) = 4096" "re_len (ent s 64) = 100"
     "reg_cache_init 32 2 no_cache = Some (RR_SUCCESS, s0)" "reg_cache_insert 64 1 4096 100 ''shm'' 8192 0 s0 = Some (64, s)"
  have "nodes s0 = Map.empty" "reg_cache s0 = Some [0, 0]"
    using a(5) by (auto simp: reg_cache_init_def no_cache_def COMEX_ASSERT_def numeral_2_eq_2)
  then have "nodes s 128 = None"
    using a(6) by (auto simp: reg_cache_insert_def COMEX_ASSERT_def Let_def split: Option.bind_splits if_splits)
  then show ?thesis
    using reg_cache_insert_iff_apart [OF a(1), of 1 4196 50 128 "''b''" 0 0]
      reg_cache_insert_iff_apart [OF a(1), of 1 4100 8 128 "''c''" 0 0] a(2-4)
    by (intro exI [of _ s]) (auto simp: seg_ok_def apart_def)
qed

text \<open>
  C19. After an insertion, a lookup of any part of the new segment gives the new entry; a deletion
  at its start then removes it again, the cache holds what it held before, and the same lookups give NULL.
\<close>

theorem reg_cache_insert_delete_roundtrip:
  assumes "reg_rep s M" "0 \<le> rank" "rank < reg_nprocs s" "seg_ok buf len" "0 < len" "node \<noteq> 0 \<and> nodes s node = None"
    and "\<forall>(y, c, k)\<in>set (M rank). c + k \<le> buf \<or> buf + len \<le> c"
  shows "\<exists>s' s''. reg_cache_insert node rank buf len name mapped use_dev s = Some (node, s') \<and>
    (\<forall>b l. buf \<le> b \<and> 0 \<le> l \<and> b + max 1 l \<le> buf + len \<longrightarrow> reg_cache_find rank b l s' = Some node) \<and>
    map_option snd (reg_cache_delete rank buf s') = Some s'' \<and> reg_rep s'' M \<and>
    (\<forall>b l. buf \<le> b \<and> 0 \<le> l \<and> b + max 1 l \<le> buf + len \<longrightarrow> reg_cache_find rank b l s'' = Some 0)"
  by (rule rc.ins_lookup_del [OF assms])

theorem reg_cache_insert_delete_roundtrip_witness:
  "\<exists>s s' s''. reg_cache_insert 64 1 4096 100 ''shm'' 8192 0 s = Some (64, s') \<and>
     map_option snd (reg_cache_delete 1 4096 s') = Some s'' \<and> reg_rep s'' (\<lambda>_. [])"
proof (rule demo_cache)
  fix s assume s: "reg_ok s (\<lambda>_. [])" "reg_nprocs s = 2" "nodes s = Map.empty"
  have "reg_rep s (\<lambda>_. [])" using s(1) by (auto simp: reg_rep_def reg_view_def fun_eq_iff)
  from reg_cache_insert_delete_roundtrip [OF this, of 1 4096 100 64 "''shm''" 8192 0] s(2,3) show ?thesis
    by (auto simp: seg_ok_def)
qed

text \<open>
  C20. A deletion finds its entry by the exact starting address: it removes and frees that entry only,
  keeping the order of the others; an address at which no segment of the process starts stops the program.
\<close>

theorem reg_cache_delete_effect:
  assumes "reg_ok s A"
  shows "(\<forall>x. x \<in> set (A rank) \<and> re_buf (ent s x) = buf \<longrightarrow>
      (\<exists>s'. reg_cache_delete rank buf s = Some (RR_SUCCESS, s') \<and> reg_ok s' (A(rank := remove1 x (A rank))) \<and>
         seg_frame s s' ((\<Union>q. set (A q)) - {x}) \<and> nodes s' x = None)) \<and>
    (0 \<le> rank \<and> rank < reg_nprocs s \<and> seg_ok buf 0 \<and> (\<forall>x\<in>set (A rank). re_buf (ent s x) \<noteq> buf) \<longrightarrow>
      reg_cache_delete rank buf s = None)"
  using delete_spec [OF assms] delete_fail [OF assms, of rank buf] by blast

theorem reg_cache_delete_effect_witness:
  "\<exists>s s'. reg_cache_delete 1 4096 s = Some (RR_SUCCESS, s') \<and> nodes s' 64 = None \<and> reg_cache_delete 1 4100 s = None"
proof (rule demo_entry)
  fix s0 s
  assume a: "reg_ok s ((\<lambda>_. [])(1 := [64]))" "reg_nprocs s = 2" "re_buf (ent s 64) = 4096"
  from reg_cache_delete_effect [OF a(1), of 1 4096] reg_cache_delete_effect [OF a(1), of 1 4100] a(2,3)
  show ?thesis by (auto simp: seg_ok_def)
qed

text \<open>
  C21. Destroying the cache comes back, frees exactly the entries of all processes (no entry is
  leaked, none is freed twice), and leaves the cache ready to be created again: for any number of
  processes \<open>reg_cache_init\<close> then gives an empty cache if \<open>malloc\<close> gives it memory for the list heads
  (\<open>block\<close> is the address), and stops the program if not.
\<close>

theorem reg_cache_destroy_frees:
  assumes "reg_ok s A" "0 < reg_nprocs s"
  shows "\<exists>s'. reg_cache_destroy s = Some (RR_SUCCESS, s') \<and> dom (nodes s') = dom (nodes s) - (\<Union>r. set (A r)) \<and>
    (\<forall>n\<ge>0. \<forall>block. if block = 0 then reg_cache_init block n s' = None
       else \<exists>s''. reg_cache_init block n s' = Some (RR_SUCCESS, s'') \<and> reg_ok s'' (\<lambda>_. []) \<and> reg_nprocs s'' = n \<and> nodes s'' = nodes s')"
proof -
  let ?s = "s\<lparr>nodes := (nodes s) |` (- (\<Union>r. set (A r))), reg_cache := None, reg_nprocs := 0\<rparr>"
  have "if block = 0 then reg_cache_init block n ?s = None
      else \<exists>s''. reg_cache_init block n ?s = Some (RR_SUCCESS, s'') \<and> reg_ok s'' (\<lambda>_. []) \<and> reg_nprocs s'' = n \<and> nodes s'' = nodes ?s"
    if "0 \<le> n" for n block
    using init_spec [of ?s n block] that by (auto simp: reg_cache_init_def COMEX_ASSERT_def)
  moreover have "dom (nodes ?s) = dom (nodes s) - (\<Union>r. set (A r))"
    by (auto simp: restrict_map_def dom_def split: if_splits)
  ultimately show ?thesis using destroy_spec [OF assms] by blast
qed

theorem reg_cache_destroy_frees_witness:
  "\<exists>s s'. nodes s 64 \<noteq> None \<and> reg_cache_destroy s = Some (RR_SUCCESS, s') \<and> nodes s' 64 = None"
proof (rule demo_entry)
  fix s0 s
  assume a: "reg_ok s ((\<lambda>_. [])(1 := [64]))" "reg_nprocs s = 2" "nodes s 64 \<noteq> None"
  have "0 < reg_nprocs s" using a(2) by simp
  from reg_cache_destroy_frees [OF a(1) this] obtain s' where s': "reg_cache_destroy s = Some (RR_SUCCESS, s')"
    "dom (nodes s') = dom (nodes s) - (\<Union>r. set (((\<lambda>_. [])(1 := [64])) (r :: int)))"
    by (elim exE conjE) (rule that)
  have "64 \<in> (\<Union>r. set (((\<lambda>_. [])(1 := [64])) (r :: int)))" by (auto intro: exI [of _ 1])
  then have "nodes s' 64 = None" using s'(2) by blast
  then show ?thesis using s'(1) a(3) by blast
qed

text \<open>
  C22. The intersection test reports an overlap exactly when the segments overlap and the entry does not
  extend beyond the other segment on both sides: a segment strictly inside a registered one is
  reported as not intersecting it.
\<close>

theorem seg_intersects_exact:
  assumes "seg_ok reg_addr reg_len" "0 < reg_len" "seg_ok oth_addr oth_len" "0 < oth_len"
  shows "seg_intersects reg_addr reg_len oth_addr oth_len = Some RR_SUCCESS \<longleftrightarrow>
    reg_addr < oth_addr + oth_len \<and> oth_addr < reg_addr + reg_len \<and>
    \<not> (reg_addr < oth_addr \<and> oth_addr + oth_len < reg_addr + reg_len)"
  using assms by (auto simp: seg_intersects_def seg_cmp_def COMEX_ASSERT_def seg_ok_def
      TEST_FOR_INTERSECTION_def TEST_FOR_CONTAINMENT_def Let_def s64_id)

theorem seg_intersects_exact_witness:
  "seg_intersects 4096 100 4100 8 \<noteq> Some RR_SUCCESS \<and> seg_intersects 4096 100 4090 8 = Some RR_SUCCESS"
  using seg_intersects_exact [of 4096 100 4100 8] seg_intersects_exact [of 4096 100 4090 8] by (simp add: seg_ok_def)

end
