(* ===== verification/CX_Strided.thy ===== *)
theory CX_Strided
  imports Reg_Cache "HOL-Library.Word"
begin

text \<open>
  The transfer of strided data in COMEX (src/comex/src-mpi-pr/comex.c) and the ARMCI layer on top of it
  (src/comex/src-armci/armci.c). The memory of a process is a function from addresses to bytes. A process is
  known by its rank in the world group. The definitions give what a transfer does to the memory when it takes effect;
  when that is, between the call and the wait or the fence for it, is the matter of \<open>GA_OneSided\<close>. \<open>Inl\<close> is a failed
  assertion or an access out of bounds, \<open>None\<close> a loop that does not end. \<open>malloc\<close> gives memory.

  The memory of other processes is reached through the registration cache: \<open>cx_cache\<close> is its state, which transfers do
  not change, with the segments of all processes. Outside code enters as an argument of the configuration: \<open>mpi_subarray\<close>
  gives the displacements of the bytes of an MPI subarray datatype (Fortran order, starts 0) in the order in which MPI
  transfers them, \<open>None\<close> when MPI refuses the sizes.
\<close>

section \<open>Memory\<close>

type_synonym byte = "8 word"
type_synonym memory = "int \<Rightarrow> int \<Rightarrow> byte"
type_synonym transfer = "(string + memory) option"

definition load :: "memory \<Rightarrow> int \<Rightarrow> int \<Rightarrow> int \<Rightarrow> byte list" where
  "load m p a n = map (\<lambda>k. m p (a + int k)) [0..<nat n]"

definition store :: "memory \<Rightarrow> int \<Rightarrow> int \<Rightarrow> byte list \<Rightarrow> memory" where
  "store m p a bs = m(p := (\<lambda>x. if a \<le> x \<and> x < a + int (length bs) then bs ! nat (x - a) else m p x))"

section \<open>Configuration\<close>

record comex_cfg =
  cx_rank :: int
  cx_size :: int
  cx_master :: "int \<Rightarrow> int"
  cx_host :: "int \<Rightarrow> string"
  COMEX_ENABLE_PUT_SELF :: bool
  COMEX_ENABLE_GET_SELF :: bool
  COMEX_ENABLE_PUT_SMP :: bool
  COMEX_ENABLE_GET_SMP :: bool
  COMEX_ENABLE_PUT_PACKED :: bool
  COMEX_ENABLE_GET_PACKED :: bool
  COMEX_ENABLE_PUT_DATATYPE :: bool
  COMEX_ENABLE_GET_DATATYPE :: bool
  COMEX_PUT_DATATYPE_THRESHOLD :: int
  COMEX_GET_DATATYPE_THRESHOLD :: int
  eager_threshold :: int
  max_message_size :: int
  cx_cache :: reg_state
  mpi_subarray :: "int list \<Rightarrow> int list \<Rightarrow> int list option"

text \<open>The lookup of a segment of a process comes back with an entry, as the code asserts.\<close>

definition registered :: "comex_cfg \<Rightarrow> int \<Rightarrow> int \<Rightarrow> int \<Rightarrow> bool" where
  "registered c proc a n \<longleftrightarrow> (case reg_cache_find proc a n (cx_cache c) of None \<Rightarrow> False | Some entry \<Rightarrow> entry \<noteq> 0)"

definition COMEX_MAX_STRIDE_LEVEL :: int where "COMEX_MAX_STRIDE_LEVEL = 8"

definition sizeof_header_t :: int where "sizeof_header_t = 32"

definition sizeof_stride_t :: int where "sizeof_stride_t = 80"

definition eager_check :: "comex_cfg \<Rightarrow> int \<Rightarrow> bool" where
  "eager_check c extra_bytes \<longleftrightarrow> s32 (sizeof_header_t + extra_bytes) < eager_threshold c"

section \<open>Messages\<close>

text \<open>
  A long buffer goes out in messages of at most \<open>max_message_size\<close> bytes, from the front (\<open>nb_put\<close>) or from the back
  (packed data). The receiver fills its buffer in the same order.
\<close>

partial_function (option) send_forward :: "int \<Rightarrow> byte list \<Rightarrow> byte list list option" where
  [code]: "send_forward mx bs =
     (let size = (if int (length bs) > mx then mx else int (length bs)); rest = drop (nat size) bs in
      if rest = [] then Some [bs] else Option.bind (send_forward mx rest) (\<lambda>ms. Some (take (nat size) bs # ms)))"

partial_function (option) send_backward :: "int \<Rightarrow> byte list \<Rightarrow> byte list list option" where
  [code]: "send_backward mx bs =
     (let size = (if int (length bs) > mx then mx else int (length bs)); n = length bs - nat size in
      if n = 0 then Some [bs] else Option.bind (send_backward mx (take n bs)) (\<lambda>ms. Some (drop n bs # ms)))"

definition deliver_forward :: "int \<Rightarrow> byte list \<Rightarrow> byte list option" where
  "deliver_forward mx bs = map_option concat (send_forward mx bs)"

definition deliver_backward :: "int \<Rightarrow> byte list \<Rightarrow> byte list option" where
  "deliver_backward mx bs = map_option (\<lambda>ms. concat (rev ms)) (send_backward mx bs)"

section \<open>Strides\<close>

text \<open>
  The loop over the rows of a strided block: \<open>count\<close> without its first entry and one stride for each of the levels. The
  entries of \<open>bvalue\<close> count along the levels; entry \<open>j\<close> moves on when \<open>i + 1\<close> is a multiple of \<open>bunit[j]\<close>.
\<close>

definition n1dim :: "int list \<Rightarrow> int" where
  "n1dim cs = foldl (\<lambda>n c. s32 (n * c)) 1 cs"

fun bunit :: "int \<Rightarrow> int list \<Rightarrow> int list" where
  "bunit u (c # cs) = u # bunit (s32 (u * c)) cs"
| "bunit u [] = []"

fun stride_step :: "int \<Rightarrow> int list \<Rightarrow> int list \<Rightarrow> int list \<Rightarrow> int list \<Rightarrow> int \<times> int list" where
  "stride_step i (v # vs) (u # us) (c # cs) (s # ss) =
     (let v' = (if cmod (i + 1) u = 0 then v + 1 else v); v' = (if v' > c - 1 then 0 else v');
          (idx, vs') = stride_step i vs us cs ss
      in (v * s + idx, v' # vs'))"
| "stride_step _ _ _ _ _ = (0, [])"

fun stride_loop :: "nat \<Rightarrow> int \<Rightarrow> int list \<Rightarrow> int list \<Rightarrow> int list \<Rightarrow> int list \<Rightarrow> int list" where
  "stride_loop (Suc n) i vs us cs ss =
     (let (idx, vs') = stride_step i vs us cs ss in idx # stride_loop n (i + 1) vs' us cs ss)"
| "stride_loop 0 _ _ _ _ _ = []"

definition stride_offsets :: "int list \<Rightarrow> int list \<Rightarrow> int list" where
  "stride_offsets ss cs = stride_loop (nat (n1dim cs)) 0 (map (\<lambda>_. 0) cs) (bunit 1 cs) cs ss"

text \<open>
  The loops index arrays of seven entries with the levels, from 1 on, so seven levels are out of bounds although
  the assertions admit them. A transfer that would leave an array, or an \<open>int\<close> for the size of a buffer, fails here.
\<close>

definition index_fits :: "int list \<Rightarrow> bool" where
  "index_fits count \<longleftrightarrow> length (tl count) < 7"

definition stride_asserts :: "int list \<Rightarrow> bool" where
  "stride_asserts count \<longleftrightarrow> int (length (tl count)) < COMEX_MAX_STRIDE_LEVEL \<and> hd count > 0"

definition packed_size :: "int list \<Rightarrow> string + int" where
  "packed_size count =
     (if \<not> stride_asserts count then Inl ''Assertion failed'' else Inr (s32 (n1dim (tl count) * hd count)))"

text \<open>The rows of a block, one after the other, and back.\<close>

definition packed_rows :: "memory \<Rightarrow> int \<Rightarrow> int \<Rightarrow> int list \<Rightarrow> int list \<Rightarrow> byte list" where
  "packed_rows m p src ss count = concat (map (\<lambda>idx. load m p (src + idx) (hd count)) (stride_offsets ss (tl count)))"

definition unpacked_rows :: "memory \<Rightarrow> int \<Rightarrow> byte list \<Rightarrow> int \<Rightarrow> int list \<Rightarrow> int list \<Rightarrow> memory" where
  "unpacked_rows m p packed dst ds count =
     fst (foldl (\<lambda>(m, buf) idx. (store m p (dst + idx) (take (nat (hd count)) buf), drop (nat (hd count)) buf))
       (m, packed) (stride_offsets ds (tl count)))"

text \<open>
  A negative number of rows fails the assertion about the size at the end (or that of the buffer before).
\<close>

definition pack :: "memory \<Rightarrow> int \<Rightarrow> int \<Rightarrow> int list \<Rightarrow> int list \<Rightarrow> string + byte list" where
  "pack m p src ss count =
     (if \<not> stride_asserts count \<or> src = 0 then Inl ''Assertion failed''
      else if \<not> index_fits count then Inl ''out of bounds''
      else if n1dim (tl count) < 0 then Inl ''Assertion failed''
      else if n1dim (tl count) * hd count > 2147483647 then Inl ''out of bounds''
      else Inr (packed_rows m p src ss count))"

definition unpack :: "memory \<Rightarrow> int \<Rightarrow> byte list \<Rightarrow> int \<Rightarrow> int list \<Rightarrow> int list \<Rightarrow> string + memory" where
  "unpack m p packed dst ds count =
     (if \<not> stride_asserts count \<or> dst = 0 then Inl ''Assertion failed''
      else if \<not> index_fits count then Inl ''out of bounds''
      else if n1dim (tl count) < 0 then Inl ''Assertion failed''
      else if n1dim (tl count) * hd count > 2147483647 then Inl ''out of bounds''
      else Inr (unpacked_rows m p packed dst ds count))"

text \<open>The sizes of the MPI datatype of a strided block.\<close>

fun dtype_sizes :: "int \<Rightarrow> int list \<Rightarrow> int list \<Rightarrow> int list" where
  "dtype_sizes stride (s # ss) (c # c' # cs) = cdiv s stride # dtype_sizes s ss (c' # cs)"
| "dtype_sizes stride _ cs = cs"

definition strided_to_subarray_dtype :: "comex_cfg \<Rightarrow> int list \<Rightarrow> int list \<Rightarrow> string + int list" where
  "strided_to_subarray_dtype c ss count =
     (if \<not> index_fits count then Inl ''out of bounds''
      else case mpi_subarray c (dtype_sizes 1 ss count) count of
        None \<Rightarrow> Inl ''MPI_Type_create_subarray'' | Some ds \<Rightarrow> Inr ds)"

section \<open>Put\<close>

definition bad_transfer :: "comex_cfg \<Rightarrow> int \<Rightarrow> int \<Rightarrow> int \<Rightarrow> int \<Rightarrow> bool" where
  "bad_transfer c src dst bytes proc \<longleftrightarrow> src = 0 \<or> dst = 0 \<or> \<not> bytes > 0 \<or> \<not> proc \<ge> 0 \<or> \<not> proc < cx_size c"

definition assert_fail :: transfer where "assert_fail = Some (Inl ''Assertion failed'')"

definition nb_put :: "comex_cfg \<Rightarrow> int \<Rightarrow> int \<Rightarrow> int \<Rightarrow> int \<Rightarrow> memory \<Rightarrow> transfer" where
  "nb_put c src dst bytes proc m =
     (if bad_transfer c src dst bytes proc then assert_fail
      else
        let data = load m (cx_rank c) src bytes in
        if COMEX_ENABLE_PUT_SELF c \<and> cx_rank c = proc then Some (Inr (store m proc dst data))
        else if COMEX_ENABLE_PUT_SMP c \<and> cx_master c proc = cx_master c (cx_rank c)
        then if registered c proc dst bytes then Some (Inr (store m proc dst data)) else assert_fail
        else
          Option.bind (if eager_check c bytes then Some data else deliver_forward (max_message_size c) data) (\<lambda>data.
            if registered c proc dst bytes then Some (Inr (store m proc dst data)) else assert_fail))"

definition nb_puts_packed :: "comex_cfg \<Rightarrow> int \<Rightarrow> int list \<Rightarrow> int \<Rightarrow> int list \<Rightarrow> int list \<Rightarrow> int \<Rightarrow> memory \<Rightarrow> transfer" where
  "nb_puts_packed c src ss dst ds count proc m =
     (if bad_transfer c src dst (hd count) proc \<or> \<not> int (length (tl count)) < COMEX_MAX_STRIDE_LEVEL then assert_fail
      else
        case pack m (cx_rank c) src ss count of Inl e \<Rightarrow> Some (Inl e) | Inr packed \<Rightarrow>
        if \<not> length packed > 0 then assert_fail
        else
          Option.bind (if eager_check c (sizeof_stride_t + int (length packed)) then Some packed
                       else deliver_backward (max_message_size c) packed) (\<lambda>packed.
            if registered c proc dst (hd count) then Some (unpack m proc packed dst ds count) else assert_fail))"

text \<open>Bytes written at displacements, as MPI receives into a datatype.\<close>

definition scatter_bytes :: "memory \<Rightarrow> int \<Rightarrow> int \<Rightarrow> int list \<Rightarrow> byte list \<Rightarrow> memory" where
  "scatter_bytes m p a ds bs = foldl (\<lambda>m (d, b). store m p (a + d) [b]) m (zip ds bs)"

definition nb_puts_datatype :: "comex_cfg \<Rightarrow> int \<Rightarrow> int list \<Rightarrow> int \<Rightarrow> int list \<Rightarrow> int list \<Rightarrow> int \<Rightarrow> memory \<Rightarrow> transfer" where
  "nb_puts_datatype c src ss dst ds count proc m =
     (if src = 0 \<or> dst = 0 \<or> \<not> proc \<ge> 0 \<or> \<not> proc < cx_size c \<or> \<not> int (length (tl count)) < COMEX_MAX_STRIDE_LEVEL then assert_fail
      else (case (strided_to_subarray_dtype c ss count, strided_to_subarray_dtype c ds count) of
          (Inr xs, Inr ys) \<Rightarrow>
            if registered c proc dst (hd count)
            then Some (Inr (scatter_bytes m proc dst ys (map (\<lambda>d. m (cx_rank c) (src + d)) xs))) else assert_fail
        | (Inl e, _) \<Rightarrow> Some (Inl e)
        | (Inr _, Inl e) \<Rightarrow> Some (Inl e)))"

text \<open>A sequence of transfers, stopped by the first failure.\<close>

fun each_segment :: "(int \<Rightarrow> int \<Rightarrow> memory \<Rightarrow> transfer) \<Rightarrow> (int \<times> int) list \<Rightarrow> memory \<Rightarrow> transfer" where
  "each_segment f ((x, y) # xs) m =
     Option.bind (f x y m) (\<lambda>r. case r of Inl e \<Rightarrow> Some (Inl e) | Inr m' \<Rightarrow> each_segment f xs m')"
| "each_segment f [] m = Some (Inr m)"

definition nb_puts :: "comex_cfg \<Rightarrow> int \<Rightarrow> int list \<Rightarrow> int \<Rightarrow> int list \<Rightarrow> int list \<Rightarrow> int \<Rightarrow> memory \<Rightarrow> transfer" where
  "nb_puts c src ss dst ds count proc m =
     (let far = (\<not> COMEX_ENABLE_PUT_SELF c \<or> cx_rank c \<noteq> proc) \<and>
            (\<not> COMEX_ENABLE_PUT_SMP c \<or> cx_host c proc \<noteq> cx_host c (cx_rank c))
      in if tl count = [] then nb_put c src dst (hd count) proc m
      else case (if COMEX_ENABLE_PUT_DATATYPE c \<and> far then packed_size count else Inr (COMEX_PUT_DATATYPE_THRESHOLD c)) of
        Inl e \<Rightarrow> Some (Inl e)
      | Inr bytes \<Rightarrow>
        if bytes > COMEX_PUT_DATATYPE_THRESHOLD c then nb_puts_datatype c src ss dst ds count proc m
        else if COMEX_ENABLE_PUT_PACKED c \<and> far then nb_puts_packed c src ss dst ds count proc m
        else if \<not> index_fits count then Some (Inl ''out of bounds'')
        else each_segment (\<lambda>x y. nb_put c (src + x) (dst + y) (hd count) proc)
             (zip (stride_offsets ss (tl count)) (stride_offsets ds (tl count))) m)"

section \<open>Get\<close>

definition nb_get :: "comex_cfg \<Rightarrow> int \<Rightarrow> int \<Rightarrow> int \<Rightarrow> int \<Rightarrow> memory \<Rightarrow> transfer" where
  "nb_get c src dst bytes proc m =
     (if bad_transfer c src dst bytes proc then assert_fail
      else
        let data = load m proc src bytes in
        if COMEX_ENABLE_GET_SELF c \<and> cx_rank c = proc then Some (Inr (store m (cx_rank c) dst data))
        else if COMEX_ENABLE_GET_SMP c \<and> cx_master c proc = cx_master c (cx_rank c)
        then if registered c proc src bytes then Some (Inr (store m (cx_rank c) dst data)) else assert_fail
        else if registered c proc src bytes
        then Option.bind (deliver_forward (max_message_size c) data) (\<lambda>data. Some (Inr (store m (cx_rank c) dst data)))
        else assert_fail)"

definition nb_gets_packed :: "comex_cfg \<Rightarrow> int \<Rightarrow> int list \<Rightarrow> int \<Rightarrow> int list \<Rightarrow> int list \<Rightarrow> int \<Rightarrow> memory \<Rightarrow> transfer" where
  "nb_gets_packed c src ss dst ds count proc m =
     (if bad_transfer c src dst (hd count) proc \<or> \<not> int (length (tl count)) < COMEX_MAX_STRIDE_LEVEL then assert_fail
      else case packed_size count of Inl e \<Rightarrow> Some (Inl e) | Inr bytes \<Rightarrow>
        if \<not> bytes > 0 \<or> \<not> registered c proc src 0 then assert_fail
        else case pack m proc src ss count of Inl e \<Rightarrow> Some (Inl e) | Inr packed \<Rightarrow>
          Option.bind (deliver_backward (max_message_size c) packed) (\<lambda>packed.
            Some (unpack m (cx_rank c) packed dst ds count)))"

definition nb_gets_datatype :: "comex_cfg \<Rightarrow> int \<Rightarrow> int list \<Rightarrow> int \<Rightarrow> int list \<Rightarrow> int list \<Rightarrow> int \<Rightarrow> memory \<Rightarrow> transfer" where
  "nb_gets_datatype c src ss dst ds count proc m =
     (if bad_transfer c src dst (hd count) proc \<or> \<not> int (length (tl count)) < COMEX_MAX_STRIDE_LEVEL then assert_fail
      else (case (strided_to_subarray_dtype c ss count, strided_to_subarray_dtype c ds count) of
          (Inr xs, Inr ys) \<Rightarrow>
            if registered c proc src 0
            then Some (Inr (scatter_bytes m (cx_rank c) dst ys (map (\<lambda>d. m proc (src + d)) xs))) else assert_fail
        | (Inl e, _) \<Rightarrow> Some (Inl e)
        | (Inr _, Inl e) \<Rightarrow> Some (Inl e)))"

definition nb_gets :: "comex_cfg \<Rightarrow> int \<Rightarrow> int list \<Rightarrow> int \<Rightarrow> int list \<Rightarrow> int list \<Rightarrow> int \<Rightarrow> memory \<Rightarrow> transfer" where
  "nb_gets c src ss dst ds count proc m =
     (let far = (\<not> COMEX_ENABLE_GET_SELF c \<or> cx_rank c \<noteq> proc) \<and>
            (\<not> COMEX_ENABLE_GET_SMP c \<or> cx_host c proc \<noteq> cx_host c (cx_rank c))
      in if tl count = [] then nb_get c src dst (hd count) proc m
      else case (if COMEX_ENABLE_GET_DATATYPE c \<and> far then packed_size count else Inr (COMEX_GET_DATATYPE_THRESHOLD c)) of
        Inl e \<Rightarrow> Some (Inl e)
      | Inr bytes \<Rightarrow>
        if bytes > COMEX_GET_DATATYPE_THRESHOLD c then nb_gets_datatype c src ss dst ds count proc m
        else if COMEX_ENABLE_GET_PACKED c \<and> far then nb_gets_packed c src ss dst ds count proc m
        else if \<not> index_fits count then Some (Inl ''out of bounds'')
        else each_segment (\<lambda>x y. nb_get c (src + x) (dst + y) (hd count) proc)
             (zip (stride_offsets ss (tl count)) (stride_offsets ds (tl count))) m)"

section \<open>ARMCI\<close>

text \<open>The physical dimensions from the strides, and the loop of \<open>armci_check_contiguous\<close>, which ends with the flag \<open>gap\<close>.\<close>

fun stride_lds :: "int \<Rightarrow> int list \<Rightarrow> int list" where
  "stride_lds d (s # ss) = cdiv s d # stride_lds s ss"
| "stride_lds d [] = []"

fun contiguous_loop :: "int \<Rightarrow> bool \<Rightarrow> int list \<Rightarrow> int list \<Rightarrow> int list \<Rightarrow> bool option" where
  "contiguous_loop stridelen gap (sl # sls) (dl # dls) (c # cs) =
     (let tmp = s32 (stridelen * c) in
      if stridelen \<noteq> 0 \<and> cdiv tmp stridelen \<noteq> c then None
      else if c < sl \<or> c < dl then if gap then None else contiguous_loop tmp True sls dls cs
      else if c \<noteq> 1 \<and> gap then None
      else contiguous_loop tmp gap sls dls cs)"
| "contiguous_loop _ gap _ _ _ = Some gap"

definition armci_check_contiguous :: "int list \<Rightarrow> int list \<Rightarrow> int list \<Rightarrow> bool" where
  "armci_check_contiguous ss ds count =
     (let n = length count - 1 in
      case contiguous_loop 1 False (stride_lds 1 (take n ss)) (stride_lds 1 (take n ds)) (take n count) of
        None \<Rightarrow> False
      | Some gap \<Rightarrow> \<not> (gap \<and> n > 0 \<and> last count \<noteq> 1))"

text \<open>The blocking and the non-blocking calls differ in who waits for the messages.\<close>

definition PARMCI_PutS :: "comex_cfg \<Rightarrow> int \<Rightarrow> int list \<Rightarrow> int \<Rightarrow> int list \<Rightarrow> int list \<Rightarrow> int \<Rightarrow> memory \<Rightarrow> transfer" where
  "PARMCI_PutS c src ss dst ds count proc m =
     (if armci_check_contiguous ss ds count then nb_put c src dst (n1dim count) proc m
      else nb_puts c src ss dst ds count proc m)"

definition PARMCI_NbPutS :: "comex_cfg \<Rightarrow> int \<Rightarrow> int list \<Rightarrow> int \<Rightarrow> int list \<Rightarrow> int list \<Rightarrow> int \<Rightarrow> memory \<Rightarrow> transfer" where
  "PARMCI_NbPutS c src ss dst ds count proc m =
     (if armci_check_contiguous ss ds count then nb_put c src dst (n1dim count) proc m
      else nb_puts c src ss dst ds count proc m)"

definition PARMCI_GetS :: "comex_cfg \<Rightarrow> int \<Rightarrow> int list \<Rightarrow> int \<Rightarrow> int list \<Rightarrow> int list \<Rightarrow> int \<Rightarrow> memory \<Rightarrow> transfer" where
  "PARMCI_GetS c src ss dst ds count proc m =
     (if armci_check_contiguous ss ds count then nb_get c src dst (n1dim count) proc m
      else nb_gets c src ss dst ds count proc m)"

definition PARMCI_NbGetS :: "comex_cfg \<Rightarrow> int \<Rightarrow> int list \<Rightarrow> int \<Rightarrow> int list \<Rightarrow> int list \<Rightarrow> int \<Rightarrow> memory \<Rightarrow> transfer" where
  "PARMCI_NbGetS c src ss dst ds count proc m =
     (if armci_check_contiguous ss ds count then nb_get c src dst (n1dim count) proc m
      else nb_gets c src ss dst ds count proc m)"

text \<open>Whether a process is on the node of the caller, with the number of processes of a node.\<close>

definition armci_domain_same_id :: "int \<Rightarrow> comex_cfg \<Rightarrow> int \<Rightarrow> bool" where
  "armci_domain_same_id procs_per_node c proc \<longleftrightarrow> cdiv proc procs_per_node = cdiv (cx_rank c) procs_per_node"

end
