(* ===== verification/GA_Double.thy ===== *)
theory GA_Double
  imports Complex_Main GA_Prelude
begin

text \<open>
  The double arithmetic behind the initial guess of \<open>findblock\<close> (src/global/src/base.c): the scale of an
  axis is \<open>(double)nblock / (double)dims\<close> and the guess for an element is \<open>(int)(scale * elem)\<close>. A double is
  a mantissa of at most 53 bits and an exponent; every operation rounds its exact result to the nearest
  double, ties to even. The numbers stay far from the ends of the exponent range, so there is no
  overflow or underflow to account for. The result of the theory is that the guess lies between 0 and
  \<open>nblock\<close> for every element of the axis, whatever the rounding does.
\<close>

type_synonym double = "int \<times> int"

function bits :: "int \<Rightarrow> nat" where
  "bits x = (if x \<le> 0 then 0 else Suc (bits (x div 2)))"
  by auto
termination by (relation "measure nat") auto

declare bits.simps [simp del]

text \<open>\<open>a / b\<close> rounded to the nearest integer, ties to even.\<close>

definition rne :: "int \<Rightarrow> int \<Rightarrow> int" where
  "rne a b = (let q = a div b; r = a mod b in
     if 2 * r < b \<or> 2 * r = b \<and> even q then q else q + 1)"

definition normal :: "int \<Rightarrow> int \<Rightarrow> double" where
  "normal m e = (if m = 9007199254740992 then (4503599627370496, e + 1) else (m, e))"

text \<open>The double nearest to \<open>a * 2 ^ e\<close>.\<close>

definition round53 :: "int \<Rightarrow> int \<Rightarrow> double" where
  "round53 a e =
     (if bits \<bar>a\<bar> \<le> 53 then (a, e)
      else let s = bits \<bar>a\<bar> - 53; (m, e') = normal (rne \<bar>a\<bar> (2 ^ s)) (e + int s) in (sgn a * m, e'))"

definition fl_of_int :: "int \<Rightarrow> double" where
  "fl_of_int x = round53 x 0"

definition fl_mul :: "double \<Rightarrow> double \<Rightarrow> double" where
  "fl_mul x y = round53 (fst x * fst y) (snd x + snd y)"

text \<open>The quotient of a nonnegative and a positive double.\<close>

definition fl_div :: "double \<Rightarrow> double \<Rightarrow> double" where
  "fl_div x y =
     (let k = 52 + bits (fst y) - bits (fst x);
          k = (if fst x * 2 ^ k < 4503599627370496 * fst y then k + 1 else k)
      in normal (rne (fst x * 2 ^ k) (fst y)) (snd x - snd y - int k))"

definition fl_int :: "double \<Rightarrow> int" where
  "fl_int x = (if snd x \<ge> 0 then fst x * 2 ^ nat (snd x) else cdiv (fst x) (2 ^ nat (- snd x)))"

section \<open>Bounds on the rounding\<close>

definition val :: "double \<Rightarrow> real" where
  "val x = of_int (fst x) * 2 powi snd x"

lemma bits_bound: "0 < x \<Longrightarrow> 2 ^ (bits x - 1) \<le> x \<and> x < 2 ^ bits x \<and> 0 < bits x"
proof (induction x rule: bits.induct)
  case (1 x)
  show ?case
  proof (cases "x = 1")
    case True
    have "bits (1 :: int) = Suc (bits 0)" "bits (0 :: int) = 0" by (subst bits.simps; simp)+
    then show ?thesis using True by simp
  next
    case False
    then have h: "0 < x div 2" using 1(2) by auto
    have b: "2 ^ (bits (x div 2) - 1) \<le> x div 2" "x div 2 < 2 ^ bits (x div 2)" "0 < bits (x div 2)"
      using 1(1) [OF _ h] 1(2) by auto
    have e: "bits x = Suc (bits (x div 2))" using 1(2) by (subst bits.simps) simp
    have p: "2 ^ bits (x div 2) = 2 * (2 :: int) ^ (bits (x div 2) - 1)" using b(3) by (metis power_eq_if not_gr0)
    have "2 ^ bits (x div 2) \<le> x" "x < 2 * 2 ^ bits (x div 2)" using b(1,2) p by linarith+
    then show ?thesis using e by simp
  qed
qed

lemma bits_le: "0 \<le> x \<Longrightarrow> x < 2 ^ n \<Longrightarrow> bits x \<le> n"
proof (cases "x = 0")
  case False
  assume "0 \<le> x" "x < 2 ^ n"
  with False have "2 ^ (bits x - 1) \<le> x" "0 < bits x" using bits_bound [of x] by auto
  with \<open>x < 2 ^ n\<close> have "(2 :: int) ^ (bits x - 1) < 2 ^ n" by linarith
  then have "bits x - 1 < n" using power_less_imp_less_exp [of "2 :: int"] by simp
  then show ?thesis using \<open>0 < bits x\<close> by simp
qed (simp add: bits.simps)

lemma rne_bound: "0 < b \<Longrightarrow> 0 \<le> a \<Longrightarrow> 0 \<le> rne a b \<and> 2 * (rne a b * b) \<le> 2 * a + b"
proof -
  assume b: "0 < b" "0 \<le> a"
  have d: "a = a div b * b + a mod b" "0 \<le> a div b" using b by (simp_all add: pos_imp_zdiv_nonneg_iff)
  have "2 * (a div b * b) \<le> 2 * a + b" using d b pos_mod_sign [of b a] by linarith
  moreover have "2 * ((a div b + 1) * b) \<le> 2 * a + b" if "b \<le> 2 * (a mod b)"
  proof -
    have "(a div b + 1) * b = a div b * b + b" by (simp add: distrib_right)
    then show ?thesis using d(1) that by linarith
  qed
  ultimately show ?thesis using d(2) by (simp add: rne_def Let_def)
qed

lemma val_normal [simp]: "val (normal m e) = of_int m * 2 powi e"
  by (simp add: normal_def val_def power_int_add)

lemma fst_normal_nonneg: "0 \<le> m \<Longrightarrow> 0 \<le> fst (normal m e)"
  by (simp add: normal_def)

lemma rne_real: "0 < b \<Longrightarrow> 0 \<le> a \<Longrightarrow> 4503599627370496 * b \<le> a \<Longrightarrow>
  real_of_int (rne a b) * of_int b \<le> of_int a * (1 + 1 / 2 ^ 53)"
proof -
  assume a: "0 < b" "0 \<le> a" "4503599627370496 * b \<le> a"
  have "2 * (rne a b * b) \<le> 2 * a + b" using rne_bound [OF a(1,2)] by simp
  then have "2 * (real_of_int (rne a b) * of_int b) \<le> 2 * of_int a + of_int b"
    by (metis (mono_tags, lifting) of_int_add of_int_le_iff of_int_mult of_int_numeral)
  moreover have "4503599627370496 * real_of_int b \<le> of_int a"
    using a(3) by (metis of_int_le_iff of_int_mult of_int_numeral)
  ultimately show ?thesis by (simp add: algebra_simps)
qed

lemma round53_val:
  assumes "0 \<le> a"
  shows "0 \<le> fst (round53 a e)" "val (round53 a e) \<le> val (a, e) * (1 + 1 / 2 ^ 53)"
proof -
  have "0 \<le> fst (round53 a e) \<and> val (round53 a e) \<le> val (a, e) * (1 + 1 / 2 ^ 53)"
  proof (cases "bits \<bar>a\<bar> \<le> 53")
    case True
    then show ?thesis using assms by (simp add: round53_def val_def mult_left_le)
  next
    case False
    define s where "s = bits a - 53"
    define r where "r = rne a (2 ^ s)"
    have pos: "0 < a" using False assms by (cases "a = 0") (auto simp: bits.simps)
    have "4503599627370496 * 2 ^ s = (2 :: int) ^ (52 + s)" by (simp add: power_add)
    also have "\<dots> = 2 ^ (bits a - 1)" using False assms by (simp add: s_def)
    also have "\<dots> \<le> a" using bits_bound [OF pos] by simp
    finally have big: "4503599627370496 * 2 ^ s \<le> a" .
    have eq: "round53 a e = normal r (e + int s)"
      using False assms pos by (simp add: round53_def Let_def s_def r_def case_prod_unfold)
    have r: "0 \<le> r" using rne_bound [of "2 ^ s" a] assms by (simp add: r_def)
    have "real_of_int r * of_int (2 ^ s) \<le> of_int a * (1 + 1 / 2 ^ 53)"
      unfolding r_def using assms big by (intro rne_real) simp_all
    then have "(real_of_int r * 2 ^ s) * 2 powi e \<le> (of_int a * (1 + 1 / 2 ^ 53)) * 2 powi e"
      by (intro mult_right_mono) simp_all
    then show ?thesis
      using r by (simp add: eq fst_normal_nonneg val_def [of "(a, e)"] power_int_add algebra_simps)
  qed
  then show "0 \<le> fst (round53 a e)" "val (round53 a e) \<le> val (a, e) * (1 + 1 / 2 ^ 53)" by auto
qed

lemma fl_of_int_exact: "0 \<le> x \<Longrightarrow> x < 9007199254740992 \<Longrightarrow> fl_of_int x = (x, 0)"
  using bits_le [of x 53] by (simp add: fl_of_int_def round53_def)

text \<open>The scaled quotient has at least 53 bits before the rounding.\<close>

lemma fl_div_scaled:
  assumes "0 < a" "0 < b" "bits a \<le> 53" "k = 52 + bits b - bits a"
  shows "4503599627370496 * b \<le> a * 2 ^ (if a * 2 ^ k < 4503599627370496 * b then k + 1 else k)"
proof -
  have ba: "2 ^ (bits a - 1) \<le> a" "0 < bits a" "b < 2 ^ bits b" "0 < bits b"
    using bits_bound [OF assms(1)] bits_bound [OF assms(2)] by auto
  have "4503599627370496 * b \<le> 4503599627370496 * 2 ^ bits b" using ba by simp
  also have "\<dots> = (2 :: int) ^ (52 + bits b)" by (simp add: power_add)
  also have "52 + bits b = (bits a - 1) + (k + 1)" using ba assms(3,4) by simp
  also have "(2 :: int) ^ ((bits a - 1) + (k + 1)) = 2 ^ (bits a - 1) * 2 ^ (k + 1)" by (rule power_add)
  also have "\<dots> \<le> a * 2 ^ (k + 1)" using ba by (intro mult_right_mono) auto
  finally show ?thesis by auto
qed

lemma fl_div_val:
  assumes "0 < a" "0 < b" "a < 9007199254740992"
  shows "0 \<le> fst (fl_div (a, 0) (b, 0))"
    "val (fl_div (a, 0) (b, 0)) * of_int b \<le> of_int a * (1 + 1 / 2 ^ 53)"
proof -
  define k0 where "k0 = 52 + bits b - bits a"
  define k where "k = (if a * 2 ^ k0 < 4503599627370496 * b then k0 + 1 else k0)"
  define r where "r = rne (a * 2 ^ k) b"
  have eq: "fl_div (a, 0) (b, 0) = normal r (- int k)"
    by (simp add: fl_div_def Let_def k0_def k_def r_def)
  have "bits a \<le> 53" using assms bits_le [of a 53] by simp
  then have big: "4503599627370496 * b \<le> a * 2 ^ k"
    unfolding k_def using fl_div_scaled [OF assms(1,2) _ k0_def] by simp
  have r: "0 \<le> r" using rne_bound [of b "a * 2 ^ k"] assms by (simp add: r_def)
  have "real_of_int r * of_int b \<le> of_int (a * 2 ^ k) * (1 + 1 / 2 ^ 53)"
    unfolding r_def using assms big by (intro rne_real) simp_all
  then have "(real_of_int r * of_int b) * 2 powi (- int k) \<le> (of_int (a * 2 ^ k) * (1 + 1 / 2 ^ 53)) * 2 powi (- int k)"
    by (intro mult_right_mono) simp_all
  then show "val (fl_div (a, 0) (b, 0)) * of_int b \<le> of_int a * (1 + 1 / 2 ^ 53)"
    by (simp add: eq power_int_minus field_simps)
  show "0 \<le> fst (fl_div (a, 0) (b, 0))" using r by (simp add: eq fst_normal_nonneg)
qed

lemma fl_int_floor: "0 \<le> fst x \<Longrightarrow> fl_int x = \<lfloor>val x\<rfloor>"
proof (cases "snd x \<ge> 0")
  case True
  then have "val x = of_int (fst x * 2 ^ nat (snd x))" by (simp add: val_def power_int_def)
  then have "\<lfloor>val x\<rfloor> = fst x * 2 ^ nat (snd x)" using floor_of_int by metis
  then show ?thesis using True by (simp add: fl_int_def)
next
  case False
  assume "0 \<le> fst x"
  then have "fl_int x = fst x div 2 ^ nat (- snd x)" using False by (simp add: fl_int_def)
  moreover have "val x = of_int (fst x) / of_int (2 ^ nat (- snd x))"
    using False by (simp add: val_def power_int_def field_simps)
  ultimately show ?thesis by (metis floor_divide_of_int_eq)
qed

section \<open>The scale of an axis and the guess for an element\<close>

definition axis_scale :: "int \<Rightarrow> int \<Rightarrow> double" where
  "axis_scale n d = fl_div (fl_of_int n) (fl_of_int d)"

definition axis_candidate :: "double \<Rightarrow> int \<Rightarrow> int" where
  "axis_candidate scale elem = fl_int (fl_mul scale (fl_of_int elem))"

lemma axis_candidate_bound:
  assumes "0 < n" "n < 2147483648" "0 < d" "d < 9007199254740992" "0 \<le> elem" "elem \<le> d"
  shows "0 \<le> axis_candidate (axis_scale n d) elem" "axis_candidate (axis_scale n d) elem \<le> n"
proof -
  let ?s = "axis_scale n d" and ?f = "1 + 1 / 2 ^ 53 :: real"
  have s: "?s = fl_div (n, 0) (d, 0)" using assms by (simp add: axis_scale_def fl_of_int_exact)
  have s0: "0 \<le> fst ?s" and s1: "val ?s * of_int d \<le> of_int n * ?f"
    unfolding s using fl_div_val [of n d] assms by auto
  have m: "fl_mul ?s (fl_of_int elem) = round53 (fst ?s * elem) (snd ?s)"
    using assms by (simp add: fl_mul_def fl_of_int_exact)
  have p: "0 \<le> fst ?s * elem" using s0 assms by simp
  have v: "val (fst ?s * elem, snd ?s) = val ?s * of_int elem" by (simp add: val_def)
  have "val ?s * of_int elem \<le> val ?s * of_int d" using s0 assms by (intro mult_left_mono) (auto simp: val_def)
  then have "val (fst ?s * elem, snd ?s) \<le> of_int n * ?f" using s1 v by simp
  then have "val (fst ?s * elem, snd ?s) * ?f \<le> (of_int n * ?f) * ?f" by (intro mult_right_mono) simp_all
  then have "val (fl_mul ?s (fl_of_int elem)) \<le> (of_int n * ?f) * ?f"
    using round53_val(2) [OF p, of "snd ?s"] m by simp
  also have "\<dots> < of_int n + 1"
  proof -
    have "real_of_int n \<le> 2147483648" using assms(2) by linarith
    then show ?thesis by (simp add: field_simps)
  qed
  finally have u: "val (fl_mul ?s (fl_of_int elem)) < of_int n + 1" .
  have c: "axis_candidate ?s elem = \<lfloor>val (fl_mul ?s (fl_of_int elem))\<rfloor>"
    unfolding axis_candidate_def using round53_val(1) [OF p] m by (intro fl_int_floor) simp
  show "axis_candidate ?s elem \<le> n" using u c by linarith
  have "0 \<le> val (fl_mul ?s (fl_of_int elem))" using round53_val(1) [OF p, of "snd ?s"] m by (simp add: val_def)
  then show "0 \<le> axis_candidate ?s elem" using c by simp
qed

end
