(* ===== verification/GA_Grid.thy ===== *)
theory GA_Grid
  imports GA_Prelude
begin

text \<open>
  The index arithmetic of Global Arrays (the macros of src/global/src/base.h and base.c): positions in
  multi-dimensional grids of processors or blocks, the search for the block of an element along an
  axis, and loops over a patch. Arrays of MAXDIM entries are lists of length \<open>ndim\<close>. \<open>Integer\<close> values are
  values of \<^typ>\<open>int\<close>: they count processors, blocks and elements, whose numbers fit 64 bits; where a macro
  narrows to \<open>int\<close> the conversion is \<^const>\<open>s32\<close>.
\<close>

section \<open>Positions in a grid\<close>

text \<open>The loop of \<open>ga_ComputeIndexM\<close>: the first subscript changes first.\<close>

fun compute_index :: "int list \<Rightarrow> int list \<Rightarrow> int \<Rightarrow> int \<Rightarrow> int" where
  "compute_index (s # ss) (d # ds) factor index =
     compute_index ss ds (if ss = [] then factor else factor * d) (index + s * factor)"
| "compute_index _ _ factor index = index"

definition ga_ComputeIndexM :: "int list \<Rightarrow> int list \<Rightarrow> int" where
  "ga_ComputeIndexM subscript dims = compute_index subscript dims 1 0"

text \<open>\<open>gam_find_proc_indices\<close> and \<open>gam_find_tile_proc_indices\<close>, which have the same body.\<close>

fun gam_find_proc_indices :: "int list \<Rightarrow> int \<Rightarrow> int list" where
  "gam_find_proc_indices [] itmp = []"
| "gam_find_proc_indices (n # ns) itmp =
     (let i = cmod itmp n in i # gam_find_proc_indices ns (cdiv (itmp - i) n))"

definition gam_find_block_indices :: "int list \<Rightarrow> int \<Rightarrow> int list" where
  "gam_find_block_indices num_blocks nblock = gam_find_proc_indices num_blocks (s32 nblock)"

fun gam_find_block_from_indices :: "int list \<Rightarrow> int list \<Rightarrow> int" where
  "gam_find_block_from_indices (n # ns) (i # is) =
     (if is = [] then i else gam_find_block_from_indices ns is * n + i)"
| "gam_find_block_from_indices _ _ = 0"

definition gam_find_proc_from_sl_indices :: "int list \<Rightarrow> int list \<Rightarrow> int" where
  "gam_find_proc_from_sl_indices nblock index =
     gam_find_block_from_indices nblock (map2 (\<lambda>i n. cmod i n) index nblock)"

section \<open>Loops over a patch\<close>

definition ga_InitLoopM :: "int list \<Rightarrow> int list \<Rightarrow> int \<times> int list" where
  "ga_InitLoopM lo hi = (prod_list (map2 (\<lambda>l h. h - l + 1) lo hi), lo)"

fun ga_UpdateSubscriptM :: "int list \<Rightarrow> int list \<Rightarrow> int list \<Rightarrow> int list" where
  "ga_UpdateSubscriptM (s # ss) (l # lo) (h # hi) =
     (if s < h then (s + 1) # ss else l # ga_UpdateSubscriptM ss lo hi)"
| "ga_UpdateSubscriptM subscript _ _ = subscript"

text \<open>The subscripts that a loop of \<open>elems\<close> rounds goes through.\<close>

fun loop_subscripts :: "nat \<Rightarrow> int list \<Rightarrow> int list \<Rightarrow> int list \<Rightarrow> int list list" where
  "loop_subscripts 0 subscript lo hi = []"
| "loop_subscripts (Suc k) subscript lo hi =
     subscript # loop_subscripts k (ga_UpdateSubscriptM subscript lo hi) lo hi"

section \<open>The block of an element along an axis\<close>

text \<open>
  The two searches of \<open>findblock\<close>, upwards and downwards from the candidate; the second component
  is \<open>found\<close>. The candidate is \<open>(int)(scale * elem)\<close>, computed in floating point by the caller; what is
  proved below holds for whatever candidate between 0 and \<open>n\<close> the rounding gives.
\<close>

function search_up :: "int list \<Rightarrow> int \<Rightarrow> int \<Rightarrow> int \<Rightarrow> int \<times> bool" where
  "search_up bmap n elem b =
     (if b < n - 1 then if bmap ! nat (b + 1) > elem then (b, True) else search_up bmap n elem (b + 1)
      else (b, False))"
  by auto
termination by (relation "measure (\<lambda>(bmap, n, elem, b). nat (n - b))") auto

function search_down :: "int list \<Rightarrow> int \<Rightarrow> int \<Rightarrow> int \<times> bool" where
  "search_down bmap elem b =
     (if b \<ge> 0 then if bmap ! nat b \<le> elem then (b, True) else search_down bmap elem (b - 1)
      else (b, False))"
  by auto
termination by (relation "measure (\<lambda>(bmap, elem, b). nat (b + 1))") auto

definition findblock :: "int list \<Rightarrow> int \<Rightarrow> int \<Rightarrow> int \<Rightarrow> int" where
  "findblock bmap n candidate elem =
     (let candidate = (if candidate = n then n - 1 else candidate);
          (b, found) = (if bmap ! nat candidate \<le> elem then search_up bmap n elem candidate
                        else search_down bmap elem (candidate - 1))
      in if found then b else n - 1)"

declare search_up.simps [simp del] search_down.simps [simp del]

section \<open>Counting and strides\<close>

definition gam_CountElems :: "int list \<Rightarrow> int list \<Rightarrow> int" where
  "gam_CountElems lo hi = prod_list (map2 (\<lambda>l h. h - l + 1) lo hi)"

definition gam_ComputeCount :: "int list \<Rightarrow> int list \<Rightarrow> int list" where
  "gam_ComputeCount lo hi = map2 (\<lambda>l h. s32 (h - l) + 1) lo hi"

text \<open>The strides of an array with physical dimensions \<open>ld\<close>, in bytes; \<open>acc\<close> is the stride so far.\<close>

fun strides :: "int \<Rightarrow> int list \<Rightarrow> int list" where
  "strides acc [] = [acc]"
| "strides acc (l # ld) = s32 (acc * s32 l) # strides (s32 (acc * s32 l)) ld"

definition gam_setstride :: "nat \<Rightarrow> int \<Rightarrow> int list \<Rightarrow> int list \<Rightarrow> int list \<times> int list" where
  "gam_setstride ndim sz ld ldrem =
     (strides (s32 sz) (take (ndim - 1) ldrem), strides (s32 sz) (take (ndim - 1) ld))"

section \<open>Positions and subscripts\<close>

text \<open>A position in a grid, and the grids it is taken in.\<close>

definition grid_ok :: "int list \<Rightarrow> bool" where
  "grid_ok ns \<longleftrightarrow> (\<forall>n\<in>set ns. 0 < n)"

definition in_grid :: "int list \<Rightarrow> int list \<Rightarrow> bool" where
  "in_grid ns is \<longleftrightarrow> list_all2 (\<lambda>n i. 0 \<le> i \<and> i < n) ns is"

lemma in_grid_simps [simp]:
  "in_grid [] is \<longleftrightarrow> is = []" "in_grid (n # ns) (i # is) \<longleftrightarrow> 0 \<le> i \<and> i < n \<and> in_grid ns is"
  "in_grid (n # ns) [] \<longleftrightarrow> False"
  by (auto simp: in_grid_def)

lemma grid_ok_simps [simp]: "grid_ok []" "grid_ok (n # ns) \<longleftrightarrow> 0 < n \<and> grid_ok ns"
  by (auto simp: grid_ok_def)

lemma in_grid_length: "in_grid ns is \<Longrightarrow> length is = length ns"
  by (auto simp: in_grid_def list_all2_lengthD)

lemma grid_prod_pos: "grid_ok ns \<Longrightarrow> 0 < prod_list ns"
  by (induction ns) auto

text \<open>The reference: the position as a number in mixed radix, lowest digit first.\<close>

fun pos :: "int list \<Rightarrow> int list \<Rightarrow> int" where
  "pos (n # ns) (i # is) = i + n * pos ns is"
| "pos _ _ = 0"

lemma compute_index_pos: "length ss = length ds \<Longrightarrow> compute_index ss ds factor index = index + factor * pos ds ss"
proof (induction ss ds factor index rule: compute_index.induct)
  case (1 s ss d ds factor index)
  then show ?case by (cases ss) (auto simp: algebra_simps)
qed auto

lemma ga_ComputeIndexM_pos: "length ss = length ds \<Longrightarrow> ga_ComputeIndexM ss ds = pos ds ss"
  by (simp add: ga_ComputeIndexM_def compute_index_pos)

lemma block_from_indices_pos: "length is = length ns \<Longrightarrow> gam_find_block_from_indices ns is = pos ns is"
proof (induction ns "is" rule: gam_find_block_from_indices.induct)
  case (1 n ns i "is")
  then show ?case by (cases ns) (auto simp: algebra_simps)
qed auto

lemma pos_bound: "grid_ok ns \<Longrightarrow> in_grid ns is \<Longrightarrow> 0 \<le> pos ns is \<and> pos ns is < prod_list ns"
proof (induction ns "is" rule: pos.induct)
  case (1 n ns i "is")
  then have b: "0 \<le> pos ns is" "pos ns is + 1 \<le> prod_list ns" "0 \<le> i" "i < n" by auto
  have "n * (pos ns is + 1) \<le> n * prod_list ns" using b by (intro mult_left_mono) auto
  then show ?case using b by (simp add: distrib_left)
qed (auto simp: in_grid_def)

lemma div_less: "0 < n \<Longrightarrow> k < n * p \<Longrightarrow> k div n < p" for n k p :: int
  by (smt (verit) mult_left_mono mult_div_mod_eq pos_mod_sign)

lemma proc_indices_pos:
  assumes "grid_ok ns" "0 \<le> k" "k < prod_list ns"
  shows "in_grid ns (gam_find_proc_indices ns k) \<and> pos ns (gam_find_proc_indices ns k) = k"
  using assms
proof (induction ns arbitrary: k)
  case (Cons n ns)
  have n: "0 < n" "grid_ok ns" using Cons.prems(1) by auto
  have e: "cdiv (k - k mod n) n = k div n"
    using n Cons.prems(2) by (simp add: minus_mod_eq_mult_div pos_imp_zdiv_nonneg_iff)
  have q: "0 \<le> k div n" "k div n < prod_list ns"
    using n Cons.prems(2,3) div_less by (simp_all add: pos_imp_zdiv_nonneg_iff)
  show ?case using Cons.IH [OF n(2) q] n Cons.prems e by (simp add: Let_def)
qed simp_all

lemma proc_indices_of_pos:
  assumes "grid_ok ns" "in_grid ns is"
  shows "gam_find_proc_indices ns (pos ns is) = is"
  using assms
proof (induction ns "is" rule: pos.induct)
  case (1 n ns i "is")
  then have b: "0 < n" "0 \<le> i" "i < n" "in_grid ns is" "grid_ok ns" by auto
  have p: "0 \<le> pos ns is" using pos_bound [OF b(5,4)] by simp
  have "(i + n * pos ns is) mod n = i" "(i + n * pos ns is) div n = pos ns is" using b by simp_all
  moreover have "cdiv (i + n * pos ns is - i) n = pos ns is" using b p by simp
  ultimately show ?case using 1 b p by (simp add: Let_def)
qed (auto simp: in_grid_def)

text \<open>
  A numbering: the positions of a grid and the numbers below its size correspond one to one. The
  processor grids and the block grids of the arrays are numbered in this way.
\<close>

locale numbering =
  fixes valid :: "'g \<Rightarrow> bool" and slots :: "'g \<Rightarrow> int" and holds :: "'g \<Rightarrow> 'i \<Rightarrow> bool"
    and encode :: "'g \<Rightarrow> 'i \<Rightarrow> int" and decode :: "'g \<Rightarrow> int \<Rightarrow> 'i"
  assumes encode_range: "valid g \<Longrightarrow> holds g i \<Longrightarrow> 0 \<le> encode g i \<and> encode g i < slots g"
    and decode_encode: "valid g \<Longrightarrow> holds g i \<Longrightarrow> decode g (encode g i) = i"
    and decode_holds: "valid g \<Longrightarrow> 0 \<le> k \<Longrightarrow> k < slots g \<Longrightarrow> holds g (decode g k)"
    and encode_decode: "valid g \<Longrightarrow> 0 \<le> k \<Longrightarrow> k < slots g \<Longrightarrow> encode g (decode g k) = k"
begin

lemma encode_inj: "valid g \<Longrightarrow> holds g i \<Longrightarrow> holds g j \<Longrightarrow> encode g i = encode g j \<longleftrightarrow> i = j"
  using decode_encode by metis

lemma one_to_one: "valid g \<Longrightarrow> bij_betw (encode g) {i. holds g i} {0..<slots g}"
  by (rule bij_betw_byWitness [where f' = "decode g"])
    (auto simp: encode_range decode_encode decode_holds encode_decode)

end

interpretation pg: numbering grid_ok prod_list in_grid "\<lambda>ns is. ga_ComputeIndexM is ns" gam_find_proc_indices
  by unfold_locales
    (simp_all add: ga_ComputeIndexM_pos in_grid_length pos_bound proc_indices_of_pos proc_indices_pos)

interpretation bg: numbering "\<lambda>ns. grid_ok ns \<and> prod_list ns \<le> 2147483648" prod_list in_grid
  gam_find_block_from_indices gam_find_block_indices
proof unfold_locales
  fix ns :: "int list" and i k
  assume v: "grid_ok ns \<and> prod_list ns \<le> 2147483648"
  then have s: "s32 x = x" if "0 \<le> x" "x < prod_list ns" for x using that by (intro s32_id) auto
  show r: "0 \<le> gam_find_block_from_indices ns i \<and> gam_find_block_from_indices ns i < prod_list ns" if "in_grid ns i" for i
    using v that by (simp add: block_from_indices_pos in_grid_length pos_bound)
  show "gam_find_block_indices ns (gam_find_block_from_indices ns i) = i" if "in_grid ns i"
    using v that r [OF that] by (simp add: gam_find_block_indices_def s block_from_indices_pos in_grid_length proc_indices_of_pos)
  show "in_grid ns (gam_find_block_indices ns k)" if "0 \<le> k" "k < prod_list ns"
    using v that by (simp add: gam_find_block_indices_def s proc_indices_pos)
  show "gam_find_block_from_indices ns (gam_find_block_indices ns k) = k" if "0 \<le> k" "k < prod_list ns"
    using v that proc_indices_pos [of ns k]
    by (simp add: gam_find_block_indices_def s block_from_indices_pos in_grid_length)
qed

section \<open>The search along an axis\<close>

lemma search_up_spec:
  assumes "0 \<le> b" "b < n" "bmap ! nat b \<le> elem"
  shows "let r = search_up bmap n elem b; k = (if snd r then fst r else n - 1) in
    0 \<le> k \<and> k < n \<and> bmap ! nat k \<le> elem \<and> (k < n - 1 \<longrightarrow> elem < bmap ! nat (k + 1))"
  using assms
proof (induction bmap n elem b rule: search_up.induct)
  case (1 bmap n elem b)
  show ?case
  proof (cases "b < n - 1 \<and> \<not> bmap ! nat (b + 1) > elem")
    case True
    then show ?thesis using 1(1) 1(2-) by (subst search_up.simps) (simp add: Let_def)
  next
    case False
    show ?thesis
    proof (cases "b < n - 1")
      case True
      then show ?thesis using False 1(2-) by (subst search_up.simps) (simp add: Let_def)
    next
      case no: False
      then have "n - 1 = b" using 1(2-) by simp
      then have "bmap ! nat (n - 1) \<le> elem" using 1(4) by simp
      then show ?thesis using no 1(2,3) by (subst search_up.simps) (simp add: Let_def)
    qed
  qed
qed

lemma search_down_spec:
  assumes "-1 \<le> b" "b < n - 1" "elem < bmap ! nat (b + 1)" "bmap ! 0 \<le> elem"
  shows "\<exists>k. search_down bmap elem b = (k, True) \<and> 0 \<le> k \<and> k < n - 1 \<and> bmap ! nat k \<le> elem \<and> elem < bmap ! nat (k + 1)"
  using assms
proof (induction bmap elem b rule: search_down.induct)
  case (1 bmap elem b)
  show ?case
  proof (cases "b \<ge> 0")
    case True
    show ?thesis
    proof (cases "bmap ! nat b \<le> elem")
      case le: True
      then show ?thesis using True 1(2-) by (subst search_down.simps) simp
    next
      case False
      have "-1 \<le> b - 1" "b - 1 < n - 1" "elem < bmap ! nat (b - 1 + 1)" using True False 1(2-) by auto
      from 1(1) [OF True False this 1(5)] show ?thesis using True False by (subst search_down.simps) simp
    qed
  next
    case False
    then have "b = -1" using 1(2) by simp
    then show ?thesis using 1(4,5) by simp
  qed
qed

text \<open>
  \<open>findblock\<close> finds the block that contains the element, from any candidate: the start of the block
  is not after the element, and the start of the next one, if there is one, is.
\<close>

lemma findblock_spec:
  assumes "0 < n" "bmap ! 0 \<le> elem" "0 \<le> candidate" "candidate \<le> n"
  shows "0 \<le> findblock bmap n candidate elem" "findblock bmap n candidate elem < n"
    "bmap ! nat (findblock bmap n candidate elem) \<le> elem"
    "findblock bmap n candidate elem < n - 1 \<Longrightarrow> elem < bmap ! nat (findblock bmap n candidate elem + 1)"
proof -
  define c where "c = (if candidate = n then n - 1 else candidate)"
  let ?k = "findblock bmap n candidate elem"
  have c: "0 \<le> c" "c < n" using assms(1,3,4) by (auto simp: c_def)
  have "0 \<le> ?k \<and> ?k < n \<and> bmap ! nat ?k \<le> elem \<and> (?k < n - 1 \<longrightarrow> elem < bmap ! nat (?k + 1))"
  proof (cases "bmap ! nat c \<le> elem")
    case True
    then have "?k = (if snd (search_up bmap n elem c) then fst (search_up bmap n elem c) else n - 1)"
      unfolding findblock_def c_def [symmetric] Let_def by (simp add: case_prod_unfold)
    then show ?thesis using search_up_spec [OF c True] by (simp add: Let_def)
  next
    case False
    then have "c \<noteq> 0" using assms(2) by auto
    then have "\<exists>k. search_down bmap elem (c - 1) = (k, True) \<and> 0 \<le> k \<and> k < n - 1 \<and> bmap ! nat k \<le> elem \<and>
        elem < bmap ! nat (k + 1)"
      using c False assms(2) by (intro search_down_spec) auto
    then show ?thesis using False unfolding findblock_def c_def [symmetric] Let_def by auto
  qed
  then show "0 \<le> ?k" "?k < n" "bmap ! nat ?k \<le> elem" "?k < n - 1 \<Longrightarrow> elem < bmap ! nat (?k + 1)" by blast+
qed

end
