(* ===== verification/GA_Array.thy ===== *)
theory GA_Array
  imports GA_Double GA_Grid
begin

text \<open>
  The descriptors of global arrays (\<open>global_array_t\<close> of src/global/src/base.h) and the routines of
  src/global/src/base.c that create a handle and set the properties of an array before it is allocated.
  An array of MAXDIM entries is the list of its first \<open>ndim\<close> entries: no loop of the code goes further. A
  pointer that may be NULL is an option. \<open>pnga_error\<close> stops the program: a routine that can call it
  returns \<open>Inl\<close> with the message and the code. The members of the descriptor that only the
  memory allocation, the mirrored arrays, the read cache and the READ_ONLY copies use are left out. The
  state has the number of nodes and the number of processes on the node of every process, which the cluster
  configuration gives (\<open>cluster_nnodes\<close>, \<open>cluster_nprocs\<close>).
\<close>

section \<open>Data\<close>

datatype data_distribution = REGULAR | BLOCK_CYCLIC | SCALAPACK | TILED | TILED_IRREG

datatype property_type = NO_PROPERTY | READ_ONLY | READ_CACHE

record global_array_t =
  ndim :: int
  irreg :: int
  gtype :: int
  actv :: int
  actv_handle :: int
  elemsize :: int
  ghosts :: int
  dims :: "int list"
  chunk :: "int list"
  nblock :: "int list"
  width :: "int list"
  scale :: "double list"
  ptr :: "int list"
  mapc :: "int list option"
  name :: string
  p_handle :: int
  corner_flag :: int
  distr_type :: data_distribution
  block_dims :: "int list"
  num_blocks :: "int list"
  block_total :: int
  rstrctd_list :: "int list option"
  num_rstrctd :: int
  has_data :: int
  rstrctd_id :: int
  rank_rstrctd :: "int list option"
  property :: property_type
  my_lo :: "int list"

record proc_list_t =
  mirrored :: int
  map_nproc :: int
  pl_actv :: int
  parent :: int
  map_proc_list :: "int list"
  inv_map_proc_list :: "int list"

record ga_state =
  GA :: "global_array_t list"
  PGRP_LIST :: "proc_list_t list"
  GAme :: int
  GAnproc :: int
  GA_Default_Proc_Group :: int
  ga_types :: "(int \<times> int) list"
  cluster_nprocs :: "int \<Rightarrow> int"
  cluster_nnodes :: int
  GAinitialized :: bool

type_synonym ga_error = "string \<times> int"

definition GA_OFFSET :: int where "GA_OFFSET = 1000"

definition MAXDIM :: int where "MAXDIM = 7"

definition FNAM :: nat where "FNAM = 31"

definition GA_World_Proc_Group :: int where "GA_World_Proc_Group = -1"

definition GA_Init_Proc_Group :: int where "GA_Init_Proc_Group = -2"

text \<open>\<open>GA[GA_OFFSET + g_a]\<close>, read and updated.\<close>

definition ga :: "ga_state \<Rightarrow> int \<Rightarrow> global_array_t" where
  "ga st g_a = GA st ! nat (g_a + GA_OFFSET)"

definition upd_ga :: "int \<Rightarrow> (global_array_t \<Rightarrow> global_array_t) \<Rightarrow> ga_state \<Rightarrow> ga_state" where
  "upd_ga g_a f st = st\<lparr>GA := (GA st)[nat (g_a + GA_OFFSET) := f (ga st g_a)]\<rparr>"

definition ga_check_handleM :: "ga_state \<Rightarrow> int \<Rightarrow> string \<Rightarrow> ga_error option" where
  "ga_check_handleM st g_a s =
     (if GA_OFFSET + g_a < 0 \<or> GA_OFFSET + g_a \<ge> int (length (GA st))
      then Some (s @ '': INVALID ARRAY HANDLE'', g_a)
      else if actv (ga st g_a) = 0 then Some (s @ '': ARRAY NOT ACTIVE'', g_a)
      else None)"

definition pnga_valid_handle :: "ga_state \<Rightarrow> int \<Rightarrow> bool" where
  "pnga_valid_handle st g_a =
     (if GA_OFFSET + g_a < 0 \<or> GA_OFFSET + g_a \<ge> int (length (GA st)) \<or> actv (ga st g_a) = 0 then False else True)"

section \<open>Types\<close>

definition MT_BASE :: int where "MT_BASE = 1000"

text \<open>The conversion of Fortran type tags, with a Fortran INTEGER of 8 bytes.\<close>

definition pnga_type_f2c :: "int \<Rightarrow> int" where
  "pnga_type_f2c type =
     (if type = MT_BASE + 10 then MT_BASE + 2
      else if type = MT_BASE + 12 then MT_BASE + 3
      else if type = MT_BASE + 13 then MT_BASE + 4
      else if type = MT_BASE + 15 then MT_BASE + 7
      else if type = MT_BASE + 14 then MT_BASE + 6
      else type)"

definition GA_TYPES_MAX :: int where "GA_TYPES_MAX = 256"

definition GA_TYPES_RESERVED :: int where "GA_TYPES_RESERVED = 17"

text \<open>The initial table: the active flag and the size of every type; the size of the ninth is \<open>(size_t)-1\<close>.\<close>

definition ga_types_init :: "(int \<times> int) list" where
  "ga_types_init =
     [(1, 1), (1, 4), (1, 8), (1, 4), (1, 8), (1, 16), (1, 8), (1, 16), (1, 18446744073709551615),
      (1, 1), (1, 8), (1, 8), (1, 4), (1, 8), (1, 8), (1, 16), (1, 8)] @ replicate 239 (0, 0)"

definition GAvalidtypeM :: "ga_state \<Rightarrow> int \<Rightarrow> bool" where
  "GAvalidtypeM st type \<longleftrightarrow>
     type \<ge> MT_BASE \<and> type < MT_BASE + GA_TYPES_MAX \<and> fst (ga_types st ! nat (type - MT_BASE)) \<noteq> 0"

definition GAsizeofM :: "ga_state \<Rightarrow> int \<Rightarrow> int" where
  "GAsizeofM st type = snd (ga_types st ! nat (type - MT_BASE))"

text \<open>The loop over the unreserved entries that looks for a free one; \<open>GA_TYPES_MAX\<close> when there is none.\<close>

definition free_type :: "(int \<times> int) list \<Rightarrow> nat" where
  "free_type ts = (case List.find (\<lambda>i. fst (ts ! i) \<noteq> 1) [nat GA_TYPES_RESERVED..<nat GA_TYPES_MAX] of
     None \<Rightarrow> nat GA_TYPES_MAX | Some i \<Rightarrow> i)"

definition pnga_register_type :: "int \<Rightarrow> ga_state \<Rightarrow> int \<times> ga_state" where
  "pnga_register_type bytes st =
     (let i = free_type (ga_types st) in
      if int i = GA_TYPES_MAX then (-1, st)
      else (int i + MT_BASE, st\<lparr>ga_types := (ga_types st)[i := (1, bytes)]\<rparr>))"

definition pnga_deregister_type :: "int \<Rightarrow> ga_state \<Rightarrow> int \<times> ga_state" where
  "pnga_deregister_type type st =
     (let tp = type - MT_BASE in
      if tp < GA_TYPES_RESERVED then (-1, st)
      else if fst (ga_types st ! nat tp) = 0 then (-2, st)
      else (0, st\<lparr>ga_types := (ga_types st)[nat tp := (0, 0)]\<rparr>))"

section \<open>Handles\<close>

text \<open>The do-while loop over the descriptors: the first whose handle is not in use.\<close>

definition gai_init_struct :: "global_array_t \<Rightarrow> global_array_t" where
  "gai_init_struct a = a\<lparr>ndim := -1\<rparr>"

definition pnga_create_handle :: "ga_state \<Rightarrow> ga_error + (int \<times> ga_state)" where
  "pnga_create_handle st =
     (case List.find (\<lambda>i. actv_handle (GA st ! i) = 0) [0..<length (GA st)] of
        None \<Rightarrow> Inl ('' too many arrays '', int (length (GA st)))
      | Some i \<Rightarrow>
          let g_a = int i - GA_OFFSET in
          Inr (g_a, upd_ga g_a (\<lambda>a. (gai_init_struct a)\<lparr>
            p_handle := GA_Init_Proc_Group, ndim := -1, name := [], mapc := None, irreg := 0, ghosts := 0,
            corner_flag := -1, distr_type := REGULAR, block_total := -1, rstrctd_list := None,
            rank_rstrctd := None, num_rstrctd := 0, actv_handle := 1, has_data := 1,
            property := NO_PROPERTY\<rparr>) st))"

section \<open>Setting an array up\<close>

definition gam_checkdim :: "int \<Rightarrow> int list \<Rightarrow> ga_error option" where
  "gam_checkdim n ds =
     (if n < 1 \<or> n > MAXDIM then Some (''unsupported number of dimensions'', n)
      else map_option (\<lambda>d. (''wrong dimension specified'', d)) (List.find (\<lambda>d. d < 1) (take (nat n) ds)))"

definition pnga_set_data :: "int \<Rightarrow> int \<Rightarrow> int list \<Rightarrow> int \<Rightarrow> ga_state \<Rightarrow> ga_error + ga_state" where
  "pnga_set_data g_a n ds type st =
     (if actv (ga st g_a) = 1 then Inl (''Cannot set data on array that has been allocated'', 0)
      else case gam_checkdim n ds of Some e \<Rightarrow> Inl e | None \<Rightarrow>
        if \<not> GAvalidtypeM st (pnga_type_f2c type) then Inl (''type not yet supported'', pnga_type_f2c type)
        else Inr (upd_ga g_a (\<lambda>a. a\<lparr>
          gtype := pnga_type_f2c type, elemsize := s32 (GAsizeofM st (pnga_type_f2c type)),
          dims := take (nat n) ds, chunk := replicate (nat n) 0, width := replicate (nat n) 0, ndim := n\<rparr>) st))"

definition pnga_set_chunk :: "int \<Rightarrow> int list option \<Rightarrow> ga_state \<Rightarrow> ga_error + ga_state" where
  "pnga_set_chunk g_a chk st =
     (if actv (ga st g_a) = 1 then Inl (''Cannot set chunk on array that has been allocated'', 0)
      else if ndim (ga st g_a) < 1 then Inl (''Dimensions must be set before chunk array is specified'', 0)
      else case chk of None \<Rightarrow> Inr st
        | Some c \<Rightarrow> Inr (upd_ga g_a (\<lambda>a. a\<lparr>chunk := take (nat (ndim a)) c\<rparr>) st))"

definition pnga_set_array_name :: "int \<Rightarrow> string \<Rightarrow> ga_state \<Rightarrow> ga_error + ga_state" where
  "pnga_set_array_name g_a array_name st =
     (if actv (ga st g_a) = 1 then Inl (''Cannot set array name on array that has been allocated'', 0)
      else if length array_name > FNAM then Inl (''Array name exceeds maximum array name length'', int FNAM)
      else Inr (upd_ga g_a (\<lambda>a. a\<lparr>name := array_name\<rparr>) st))"

text \<open>The buffer for the name comes in as the caller has it.\<close>

definition pnga_get_array_name :: "int \<Rightarrow> string \<Rightarrow> ga_state \<Rightarrow> ga_error + string" where
  "pnga_get_array_name g_a array_name st =
     (if actv (ga st g_a) = 1 then Inl (''Cannot get array name on array that has not been allocated'', 0)
      else if length array_name > FNAM then Inl (''Array name exceeds maximum array name length'', int FNAM)
      else Inr (name (ga st g_a)))"

definition pnga_set_pgroup :: "int \<Rightarrow> int \<Rightarrow> ga_state \<Rightarrow> ga_error + ga_state" where
  "pnga_set_pgroup g_a grp st =
     (if actv (ga st g_a) = 1
      then Inl (''Cannot set processor configuration on array that has been allocated'', 0)
      else if grp = GA_World_Proc_Group \<or> pl_actv (PGRP_LIST st ! nat grp) = 1
      then Inr (upd_ga g_a (\<lambda>a. a\<lparr>p_handle := s32 grp\<rparr>) st)
      else Inl (''Processor group does not exist'', 0))"

definition pnga_get_pgroup :: "int \<Rightarrow> ga_state \<Rightarrow> int" where
  "pnga_get_pgroup g_a st = p_handle (ga st g_a)"

definition pnga_get_pgroup_size :: "int \<Rightarrow> ga_state \<Rightarrow> int" where
  "pnga_get_pgroup_size grp_id st =
     (if s32 grp_id > 0 then map_nproc (PGRP_LIST st ! nat (s32 grp_id)) else GAnproc st)"

definition pnga_pgroup_nnodes :: "int \<Rightarrow> ga_state \<Rightarrow> int" where
  "pnga_pgroup_nnodes grp st = (if grp \<ge> 0 then map_nproc (PGRP_LIST st ! nat (s32 grp)) else GAnproc st)"

definition pnga_pgroup_nodeid :: "int \<Rightarrow> ga_state \<Rightarrow> int" where
  "pnga_pgroup_nodeid grp st =
     (if grp \<ge> 0 then map_proc_list (PGRP_LIST st ! nat (s32 grp)) ! nat (GAme st) else GAme st)"

definition pnga_nodeid :: "ga_state \<Rightarrow> int" where
  "pnga_nodeid st =
     (if GA_Default_Proc_Group st > 0
      then map_proc_list (PGRP_LIST st ! nat (GA_Default_Proc_Group st)) ! nat (GAme st) else GAme st)"

definition pnga_nnodes :: "ga_state \<Rightarrow> int" where
  "pnga_nnodes st =
     (if GA_Default_Proc_Group st > 0 then map_nproc (PGRP_LIST st ! nat (GA_Default_Proc_Group st))
      else GAnproc st)"

text \<open>The first loop of \<open>pnga_set_ghosts\<close>; the dimension of the first bad width is the code.\<close>

fun check_widths :: "int \<Rightarrow> int list \<Rightarrow> int list \<Rightarrow> ga_error option" where
  "check_widths i (w # ws) (d # ds) =
     (if w > d then Some (''Boundary width must be <= corresponding dimension'', i)
      else if w < 0 then Some (''Boundary width must be >= 0'', i)
      else check_widths (i + 1) ws ds)"
| "check_widths i _ _ = None"

definition pnga_set_ghosts :: "int \<Rightarrow> int list \<Rightarrow> ga_state \<Rightarrow> ga_error + ga_state" where
  "pnga_set_ghosts g_a ws st =
     (let a = ga st g_a in
      if actv a = 1 then Inl (''Cannot set ghost widths on array that has been allocated'', 0)
      else if ndim a < 1 then Inl (''Dimensions must be set before array widths are specified'', 0)
      else case check_widths 0 (take (nat (ndim a)) ws) (dims a) of Some e \<Rightarrow> Inl e
        | None \<Rightarrow> Inr (upd_ga g_a (\<lambda>a. a\<lparr>
            width := take (nat (ndim a)) ws,
            ghosts := (if \<exists>w\<in>set (take (nat (ndim a)) ws). w > 0 then 1 else ghosts a)\<rparr>) st))"

section \<open>Irregular distributions\<close>

text \<open>The entries of an axis after the first: not below the one before, and inside the dimension.\<close>

fun check_rest :: "int \<Rightarrow> int \<Rightarrow> int list \<Rightarrow> ga_error option" where
  "check_rest d ichk [] = None"
| "check_rest d ichk (m # ms) =
     (if m < ichk then Some (''Mapc entries are not properly monotonic'', ichk)
      else if m < 1 \<or> m > d + 1 then Some (''Mapc entry outside array dimension limits'', m)
      else check_rest d m ms)"

text \<open>The check of the map, axis by axis; an axis takes at least one entry.\<close>

fun check_mapc :: "int list \<Rightarrow> int list \<Rightarrow> int list \<Rightarrow> ga_error option" where
  "check_mapc (d # ds) (n # ns) ms =
     (let ichk = ms ! 0 in
      if ichk < 1 \<or> ichk > d + 1 then Some (''Mapc entry outside array dimension limits'', ichk)
      else case check_rest d ichk (take (nat (n - 1)) (drop 1 ms)) of Some e \<Rightarrow> Some e
        | None \<Rightarrow> check_mapc ds ns (drop (1 + nat (n - 1)) ms))"
| "check_mapc _ _ ms = None"

fun check_nblock :: "int \<Rightarrow> int list \<Rightarrow> int list \<Rightarrow> ga_error option" where
  "check_nblock i (n # ns) (d # ds) =
     (if n > d then Some (''number of blocks must be <= corresponding dimension'', i)
      else check_nblock (i + 1) ns ds)"
| "check_nblock i _ _ = None"

definition pnga_set_irreg_distr :: "int \<Rightarrow> int list \<Rightarrow> int list \<Rightarrow> ga_state \<Rightarrow> ga_error + ga_state" where
  "pnga_set_irreg_distr g_a m nb st =
     (let a = ga st g_a; nb = take (nat (ndim a)) nb in
      if actv a = 1
      then Inl (''Cannot set irregular data distribution on array that has been allocated'', 0)
      else if ndim a < 1
      then Inl (''Dimensions must be set before irregular distribution is specified'', 0)
      else case check_nblock 0 nb (dims a) of Some e \<Rightarrow> Inl e | None \<Rightarrow>
      case check_mapc (dims a) nb m of Some e \<Rightarrow> Inl e | None \<Rightarrow>
        Inr (upd_ga g_a (\<lambda>a. a\<lparr>
          nblock := map s32 nb, mapc := Some (take (nat (sum_list nb)) m @ [-1]), irreg := 1\<rparr>) st))"

definition pnga_set_irreg_flag :: "int \<Rightarrow> int \<Rightarrow> ga_state \<Rightarrow> ga_state" where
  "pnga_set_irreg_flag g_a flag st = upd_ga g_a (\<lambda>a. a\<lparr>irreg := s32 flag\<rparr>) st"

definition pnga_get_dimension :: "int \<Rightarrow> ga_state \<Rightarrow> int" where
  "pnga_get_dimension g_a st = ndim (ga st g_a)"

section \<open>Block-cyclic and tiled distributions\<close>

text \<open>The number of blocks of an axis: the quotient, one more when it does not divide.\<close>

definition count_blocks :: "int \<Rightarrow> int \<Rightarrow> int" where
  "count_blocks d b = (let jsize = cdiv d b in if cmod d b \<noteq> 0 then jsize + 1 else jsize)"

definition pnga_set_block_cyclic :: "int \<Rightarrow> int list \<Rightarrow> ga_state \<Rightarrow> ga_error + ga_state" where
  "pnga_set_block_cyclic g_a bs st =
     (let a = ga st g_a; bs = take (nat (ndim a)) bs in
      if actv a = 1
      then Inl (''Cannot set block-cyclic data distribution on array that has been allocated'', 0)
      else if \<not> ndim a > 0
      then Inl (''Cannot set block-cyclic data distribution if array size not set'', 0)
      else if distr_type a \<noteq> REGULAR
      then Inl (''Cannot reset block-cyclic data distribution on array that has been set'', 0)
      else if \<exists>b\<in>set bs. b < 1 then Inl (''Block dimensions must all be greater than zero'', 0)
      else Inr (upd_ga g_a (\<lambda>a. a\<lparr>
        distr_type := BLOCK_CYCLIC, block_dims := bs, num_blocks := map2 count_blocks (dims a) bs,
        block_total := prod_list (map2 count_blocks (dims a) bs)\<rparr>) st))"

text \<open>The loop of the two routines with a processor grid: the first bad block or grid dimension is reported.\<close>

fun check_tiles :: "int list \<Rightarrow> int list \<Rightarrow> ga_error option" where
  "check_tiles (b # bs) (p # ps) =
     (if b < 1 then Some (''Block dimensions must all be greater than zero'', 0)
      else if p < 1 then Some (''Processor grid dimensions must all be greater than zero'', 0)
      else check_tiles bs ps)"
| "check_tiles _ _ = None"

definition pnga_set_block_cyclic_proc_grid ::
  "int \<Rightarrow> int list \<Rightarrow> int list \<Rightarrow> ga_state \<Rightarrow> ga_error + ga_state" where
  "pnga_set_block_cyclic_proc_grid g_a bs proc_grid st =
     (let a = ga st g_a; bs = take (nat (ndim a)) bs; ps = take (nat (ndim a)) proc_grid in
      if actv a = 1
      then Inl (''Cannot set block-cyclic data distribution on array that has been allocated'', 0)
      else if \<not> ndim a > 0
      then Inl (''Cannot set block-cyclic data distribution if array size not set'', 0)
      else if distr_type a \<noteq> REGULAR
      then Inl (''Cannot reset block-cyclic data distribution on array that has been set'', 0)
      else case check_tiles bs ps of Some e \<Rightarrow> Inl e | None \<Rightarrow>
        Inr (upd_ga g_a (\<lambda>a. a\<lparr>
          distr_type := SCALAPACK, block_dims := bs, num_blocks := map2 count_blocks (dims a) bs,
          nblock := map s32 ps, block_total := prod_list (map2 count_blocks (dims a) bs)\<rparr>) st))"

definition pnga_set_tiled_proc_grid ::
  "int \<Rightarrow> int list \<Rightarrow> int list \<Rightarrow> ga_state \<Rightarrow> ga_error + ga_state" where
  "pnga_set_tiled_proc_grid g_a bs proc_grid st =
     (let a = ga st g_a; bs = take (nat (ndim a)) bs; ps = take (nat (ndim a)) proc_grid in
      if actv a = 1
      then Inl (''Cannot set tiled data distribution on array that has been allocated'', 0)
      else if \<not> ndim a > 0
      then Inl (''Cannot set tiled data distribution if array size not set'', 0)
      else if distr_type a \<noteq> REGULAR
      then Inl (''Cannot reset tiled data distribution on array that has been set'', 0)
      else case check_tiles bs ps of Some e \<Rightarrow> Inl e | None \<Rightarrow>
        Inr (upd_ga g_a (\<lambda>a. a\<lparr>
          distr_type := TILED, block_dims := bs, num_blocks := map2 count_blocks (dims a) bs,
          nblock := map s32 ps, block_total := prod_list (map2 count_blocks (dims a) bs)\<rparr>) st))"

definition pnga_set_tiled_irreg_proc_grid ::
  "int \<Rightarrow> int list \<Rightarrow> int list \<Rightarrow> int list \<Rightarrow> ga_state \<Rightarrow> ga_error + ga_state" where
  "pnga_set_tiled_irreg_proc_grid g_a m nb proc_grid st =
     (let a = ga st g_a; nb = take (nat (ndim a)) nb; ps = take (nat (ndim a)) proc_grid in
      if actv a = 1
      then Inl (''Cannot set irregular tiled data distribution on array that has been allocated'', 0)
      else if \<not> ndim a > 0
      then Inl (''Cannot set irregular tiled data distribution if array size not set'', 0)
      else case check_nblock 0 nb (dims a) of Some e \<Rightarrow> Inl e | None \<Rightarrow>
      if distr_type a \<noteq> REGULAR
      then Inl (''Cannot reset irregular tiled data distribution on array that has been set'', 0)
      else case check_mapc (dims a) nb m of Some e \<Rightarrow> Inl e | None \<Rightarrow>
      if \<exists>p\<in>set ps. p < 1 then Inl (''Processor grid dimensions must all be greater than zero'', 0)
      else Inr (upd_ga g_a (\<lambda>a. a\<lparr>
        distr_type := TILED_IRREG, num_blocks := nb, nblock := map s32 ps,
        mapc := Some (take (nat (sum_list nb)) m @ [-1]), irreg := 1, block_total := prod_list nb\<rparr>) st))"

section \<open>Restricted arrays\<close>

text \<open>
  The caller's rank in the group of the array and the size of the group, as \<open>pnga_set_restricted\<close>
  computes them.
\<close>

definition rstrctd_group :: "global_array_t \<Rightarrow> ga_state \<Rightarrow> int \<times> int" where
  "rstrctd_group a st =
     (let h = (if p_handle a = -2 then GA_Default_Proc_Group st else p_handle a) in
      if h > 0 then (map_proc_list (PGRP_LIST st ! nat h) ! nat (GAme st), map_nproc (PGRP_LIST st ! nat h))
      else (GAme st, GAnproc st))"

text \<open>The loop over the list: the ranks so far, the flag and the position of the caller.\<close>

fun restrict_loop ::
  "int \<Rightarrow> int \<Rightarrow> int list \<Rightarrow> int \<Rightarrow> int list \<Rightarrow> int \<Rightarrow> int \<Rightarrow> ga_error + (int list \<times> int \<times> int)" where
  "restrict_loop me nproc [] i rank has pos0 = Inr (rank, has, pos0)"
| "restrict_loop me nproc (p # ps) i rank has pos0 =
     (let has' = (if me = p then 1 else has); pos' = (if me = p then i else pos0) in
      if p < 0 \<or> p \<ge> nproc then Inl (''Invalid processor in list'', p)
      else restrict_loop me nproc ps (i + 1) (rank[nat p := i]) has' pos')"

definition restrict_to :: "int \<Rightarrow> int list \<Rightarrow> ga_state \<Rightarrow> ga_error + ga_state" where
  "restrict_to g_a ps st =
     (let (me, nproc) = rstrctd_group (ga st g_a) st in
      case restrict_loop me nproc ps 0 (replicate (nat (GAnproc st)) (-1)) 0 0 of
        Inl e \<Rightarrow> Inl e
      | Inr (rank, has, pos0) \<Rightarrow> Inr (upd_ga g_a (\<lambda>a. a\<lparr>
          num_rstrctd := int (length ps), rstrctd_list := Some ps, rank_rstrctd := Some rank,
          has_data := has, rstrctd_id := pos0\<rparr>) st))"

definition pnga_set_restricted :: "int \<Rightarrow> int list \<Rightarrow> int \<Rightarrow> ga_state \<Rightarrow> ga_error + ga_state" where
  "pnga_set_restricted g_a ps n st = restrict_to g_a (take (nat n) ps) st"

definition pnga_set_restricted_range :: "int \<Rightarrow> int \<Rightarrow> int \<Rightarrow> ga_state \<Rightarrow> ga_error + ga_state" where
  "pnga_set_restricted_range g_a lo_proc hi_proc st = restrict_to g_a [lo_proc..hi_proc] st"

end
