(* ===== verification/GA_Decomp.thy ===== *)
theory GA_Decomp
  imports GA_Array
begin

text \<open>
  The default decomposition of an array over processes: the heuristic \<open>ddb_h2\<close> of src/global/src/decomp.c,
  which deals the prime divisors of the number of processes to the axes, with the exhaustive search \<open>ddb_ex\<close>
  it may fall back to and the wrapper \<open>ddb\<close>; and the loop of \<open>pnga_allocate\<close> (src/global/src/base.c) that turns
  the block sizes into the map of an axis. The load-balance ratios are doubles. Allocation of the temporary
  arrays is taken to succeed.
\<close>

section \<open>The load-balance ratio\<close>

definition fl_less :: "double \<Rightarrow> double \<Rightarrow> bool" where
  "fl_less x y \<longleftrightarrow>
     (let e = min (snd x) (snd y) in fst x * 2 ^ nat (snd x - e) < fst y * 2 ^ nat (snd y - e))"

definition fl_eq :: "double \<Rightarrow> double \<Rightarrow> bool" where
  "fl_eq x y \<longleftrightarrow> \<not> fl_less x y \<and> \<not> fl_less y x"

fun ev_loop :: "double \<Rightarrow> int list \<Rightarrow> int list \<Rightarrow> double" where
  "ev_loop t (a # as) (p # ps) =
     ev_loop (fl_mul t (fl_div (fl_of_int (cdiv a p * p)) (fl_of_int a))) as ps"
| "ev_loop t _ _ = t"

definition dd_ev :: "int list \<Rightarrow> int list \<Rightarrow> double" where
  "dd_ev ardims pedims = ev_loop (1, 0) ardims pedims"

definition dd_su :: "int list \<Rightarrow> int list \<Rightarrow> int list" where
  "dd_su ardims pedims = map2 (\<lambda>a p. let b = cdiv a p in if b < 1 then 1 else b) ardims pedims"

section \<open>The exhaustive search\<close>

text \<open>The state of the backtracking loop of \<open>ddb_ex\<close>.\<close>

record ex_state =
  pc :: nat
  tdims :: "int list"
  stack :: "int list"
  best :: "int list"
  blb :: double
  bev :: int

definition comm_volume :: "int list \<Rightarrow> int list \<Rightarrow> int" where
  "comm_volume tard td =
     sum_list (map (\<lambda>k. prod_list (map (\<lambda>j. if j \<noteq> k then cdiv (tard ! j) (td ! j) else 1) [0..<length tard]))
       [0..<length tard])"

text \<open>The next divisor of \<open>s\<close> after \<open>t\<close>, for \<open>t\<close> below \<open>s\<close>.\<close>

definition next_div :: "int \<Rightarrow> int \<Rightarrow> int" where
  "next_div s t = (case List.find (\<lambda>i. cmod s i = 0) [t + 1..s] of Some i \<Rightarrow> i | None \<Rightarrow> s)"

text \<open>One round of the loop; the flag says that it is left, by \<open>break\<close> or because \<open>done\<close> is set.\<close>

definition ex_step :: "int list \<Rightarrow> int \<Rightarrow> double \<Rightarrow> ex_state \<Rightarrow> ex_state \<times> bool" where
  "ex_step tard npes threshold s =
     (let n = length tard; i = pc s in
      if i = n - 1 then
        let td = (tdims s)[i := stack s ! i];
            clb = dd_ev tard td;
            cev = comm_volume tard td;
            s = s\<lparr>tdims := td\<rparr>;
            s = (if fl_less (blb s) clb \<or> fl_eq clb (blb s) \<and> cev < bev s
                 then s\<lparr>best := td, blb := clb, bev := cev\<rparr> else s)
        in if fl_less threshold (blb s) then (s, True)
           else (s\<lparr>tdims := td[i := 0], pc := i - 1\<rparr>, False)
      else if tdims s ! i = stack s ! i then
        (s\<lparr>tdims := (tdims s)[i := 0], pc := i - 1\<rparr>, i = 0)
      else
        let td = (tdims s)[i := next_div (stack s ! i) (tdims s ! i)] in
        (s\<lparr>tdims := td[i + 1 := 0], pc := i + 1,
           stack := (stack s)[i + 1 := foldl cdiv npes (take (i + 1) td)]\<rparr>, False))"

partial_function (option) ex_loop :: "int list \<Rightarrow> int \<Rightarrow> double \<Rightarrow> ex_state \<Rightarrow> ex_state option" where
  [code]: "ex_loop tard npes threshold s =
     (let (s', stop) = ex_step tard npes threshold s in
      if stop then Some s' else ex_loop tard npes threshold s')"

text \<open>\<open>ddb_ex\<close> returns the block sizes and the process grid.\<close>

definition ddb_ex :: "int list \<Rightarrow> int \<Rightarrow> double \<Rightarrow> int list \<Rightarrow> (int list \<times> int list) option" where
  "ddb_ex ardims npes threshold blk =
     (if length ardims = 1 then Some (dd_su ardims [npes], [npes])
      else
        let blk = map (\<lambda>b. if b < 1 then 1 else b) blk;
            tard = map2 (\<lambda>a b. let t = cdiv a b in if t < 1 then 1 else t) ardims blk;
            z = replicate (length ardims) 0
        in Option.bind
          (ex_loop tard npes threshold
            \<lparr>pc = 0, tdims = z, stack = z[0 := npes], best = npes # replicate (length ardims - 1) 1,
             blb = (-1, 0), bev = prod_list tard\<rparr>)
          (\<lambda>s. Some (dd_su ardims (best s), best s)))"

section \<open>Prime divisors\<close>

definition divisors :: "int \<Rightarrow> int list" where
  "divisors npes = filter (\<lambda>i. cmod npes i = 0) [1..npes]"

text \<open>
  The loop that reduces the divisors to the prime ones, on the entries from index \<open>k\<close> on: the entries after
  the first that it divides are divided by it, the others dropped. The writes of the code never get ahead of
  its reads.
\<close>

function sweep :: "int list \<Rightarrow> int list" where
  "sweep [] = []"
| "sweep (p # xs) = p # sweep (map (\<lambda>x. cdiv x p) (filter (\<lambda>x. cmod x p = 0) xs))"
  by pat_completeness auto
termination by (relation "measure length") (auto simp: le_imp_less_Suc)

section \<open>The heuristic\<close>

text \<open>The penalty of giving \<open>p0\<close> more processes to an axis; the constant is the double \<open>1.1\<close>.\<close>

definition penalty :: "int list \<Rightarrow> int list \<Rightarrow> int \<Rightarrow> int \<Rightarrow> double" where
  "penalty tard pedims p0 i =
     (if tard ! nat i < p0 * pedims ! nat i then (4953959590107546, -52)
      else fl_div (fl_of_int (cmod (tard ! nat i) (p0 * pedims ! nat i))) (fl_of_int (tard ! nat i)))"

definition pick_axis :: "int list \<Rightarrow> int list \<Rightarrow> int \<Rightarrow> int \<Rightarrow> int \<Rightarrow> int" where
  "pick_axis tard pedims p0 istart istep =
     snd (foldl (\<lambda>(q, h) j.
         let ilook = cmod (istart + istep * j) (int (length tard)); w = penalty tard pedims p0 ilook in
         if fl_less w q then (w, ilook) else (q, h))
       (penalty tard pedims p0 istart, istart) [1..int (length tard) - 1])"

fun deal :: "int list \<Rightarrow> int \<Rightarrow> int \<Rightarrow> int \<Rightarrow> int list \<Rightarrow> int list \<Rightarrow> int list" where
  "deal tard bias istep istart pedims [] = pedims"
| "deal tard bias istep istart pedims (p0 # ps) =
     (let h = nat (pick_axis tard pedims p0 istart istep) in
      deal tard bias istep (if bias = 0 then cmod (istart + 1) (int (length tard)) else istart)
        (pedims[h := pedims ! h * p0]) ps)"

text \<open>\<open>ddb_h2\<close> returns the block sizes and the process grid.\<close>

definition ddb_h2 ::
  "int list \<Rightarrow> int \<Rightarrow> double \<Rightarrow> int \<Rightarrow> int list \<Rightarrow> (ga_error + (int list \<times> int list)) option" where
  "ddb_h2 ardims npes threshold bias blk =
     (let n = length ardims;
          blk = map (\<lambda>b. if b < 1 then 1 else b) blk;
          tard = map2 (\<lambda>a b. let t = cdiv (a + b - 1) b in if t < 1 then 1 else t) ardims blk;
          primes = sweep (tl (divisors npes));
          pedims = deal tard bias (if bias > 0 then -1 else 1) (if bias > 0 then int n - 1 else 0)
            (replicate n 1) (rev primes)
      in Option.bind
        (if fl_less (dd_ev tard pedims) threshold
         then map_option snd (ddb_ex tard npes threshold blk) else Some pedims)
        (\<lambda>pedims. Some (
          if \<exists>p\<in>set pedims. p \<le> 0 then Inl (''process dimension is zero: ddb_h2'', 0)
          else Inr (map2 (\<lambda>t p. cdiv (t + p - 1) p) tard pedims, pedims))))"

section \<open>The wrapper\<close>

text \<open>The first loop of \<open>ddb\<close>, from the last axis to the first: the processes left and the grid so far.\<close>

definition fit_axis :: "int \<Rightarrow> int \<Rightarrow> int" where
  "fit_axis sp tp = (case List.find (\<lambda>j. cmod tp j = 0) [sp..tp - 1] of Some j \<Rightarrow> j | None \<Rightarrow> max sp tp)"

fun user_axes :: "(int \<times> int) list \<Rightarrow> int \<Rightarrow> int list \<Rightarrow> int \<times> int list" where
  "user_axes [] tp ps = (tp, ps)"
| "user_axes ((a, b) # xs) tp ps =
     (if b \<le> 0 then user_axes xs tp (-1 # ps)
      else
        let sp = cdiv (a + b - 1) b in
        if sp > tp then user_axes xs 1 (tp # ps)
        else let j = fit_axis sp tp in user_axes xs (cdiv tp j) (j # ps))"

text \<open>The two loops that put the results for the free axes back.\<close>

fun fill_blk :: "int list \<Rightarrow> int list \<Rightarrow> int list \<Rightarrow> int list \<Rightarrow> int list" where
  "fill_blk (p # ps) (b # bs) ts tp =
     (if p < 0 then cdiv (hd ts + hd tp - 1) (hd tp) # fill_blk ps bs (tl ts) (tl tp)
      else b # fill_blk ps bs ts tp)"
| "fill_blk _ bs _ _ = bs"

fun fill_pe :: "int list \<Rightarrow> int list \<Rightarrow> int list" where
  "fill_pe (p # ps) tp = (if p < 0 then hd tp # fill_pe ps (tl tp) else p # fill_pe ps tp)"
| "fill_pe [] tp = []"

text \<open>The threshold is the double \<open>0.1\<close>.\<close>

definition ddb :: "int list \<Rightarrow> int \<Rightarrow> int list \<Rightarrow> (ga_error + (int list \<times> int list)) option" where
  "ddb ardims npes blk =
     (let (tp, pedims) = user_axes (rev (zip ardims blk)) npes [];
          tardim = map fst (filter (\<lambda>(a, p). p < 0) (zip ardims pedims))
      in if length (filter (\<lambda>b. b \<le> 0) blk) > 0 then
           Option.bind (ddb_h2 tardim tp (7205759403792794, -56) 0 (replicate (length tardim) 1))
             (\<lambda>r. Some (case r of Inl e \<Rightarrow> Inl e
               | Inr (_, tpedim) \<Rightarrow> Inr (fill_blk pedims blk tardim tpedim, fill_pe pedims tpedim)))
         else Some (Inr (blk, map (\<lambda>p. if p < 0 then 1 else p) pedims)))"

section \<open>The map of an axis\<close>

text \<open>
  The inner loop of \<open>pnga_allocate\<close>: \<open>p\<close> counts the processes, \<open>i\<close> the elements placed so far; the result is
  the entries written to the map.
\<close>

function axis_map :: "int \<Rightarrow> int \<Rightarrow> int \<Rightarrow> int \<Rightarrow> int \<Rightarrow> int \<Rightarrow> int \<Rightarrow> int list" where
  "axis_map d chk blk pe pcut p i =
     (if p < pe \<and> i < d then
        let b = (if p \<ge> pcut then blk - 1 else blk);
            b = (if chk > 1 then b * min chk d else b)
        in (i + 1) # axis_map d chk blk pe pcut (p + 1) (i + b)
      else [])"
  by auto
termination by (relation "measure (\<lambda>(d, chk, blk, pe, pcut, p, i). nat (pe - p))") auto

declare axis_map.simps [simp del]

definition axis_pcut :: "int \<Rightarrow> int \<Rightarrow> int \<Rightarrow> int \<Rightarrow> int" where
  "axis_pcut d chk blk pe =
     (if chk > 1 then (cdiv (d - 1) (min chk d) + 1) - (blk - 1) * pe else d - (blk - 1) * pe)"

definition axis_blocks :: "int \<Rightarrow> int \<Rightarrow> int \<Rightarrow> int \<Rightarrow> int list" where
  "axis_blocks d chk blk pe = axis_map d chk blk pe (axis_pcut d chk blk pe) 0 0"

text \<open>The block sizes that \<open>pnga_allocate\<close> asks the decomposition for.\<close>

definition wanted_blocks :: "int list \<Rightarrow> int list \<Rightarrow> int list" where
  "wanted_blocks ds chk =
     map2 (\<lambda>d b. if d = 1 then 1 else b) ds (if hd chk \<noteq> 0 then map2 min chk ds else map (\<lambda>_. -1) ds)"

section \<open>Correctness of the divisors\<close>

text \<open>The divisors of \<open>m\<close> from 2 on; \<open>ddb_h2\<close> starts from those of the number of processes.\<close>

definition proper_divs :: "int \<Rightarrow> int list" where
  "proper_divs m = filter (\<lambda>i. i dvd m) [2..m]"

lemma divisors_proper: "1 \<le> m \<Longrightarrow> tl (divisors m) = proper_divs m"
proof -
  assume m: "1 \<le> m"
  have "cmod m i = 0 \<longleftrightarrow> i dvd m" if "1 \<le> i" for i using m that by (simp add: dvd_eq_mod_eq_0)
  then have "filter (\<lambda>i. cmod m i = 0) [1..m] = filter (\<lambda>i. i dvd m) [1..m]" by (intro filter_cong) auto
  then show ?thesis using m by (simp add: divisors_def proper_divs_def upto_rec1)
qed

lemma sorted_wrt_upto: "sorted_wrt (<) [i..j :: int]"
  by (induction i j rule: upto.induct) (subst upto.simps, simp)

lemma proper_divs_sorted: "sorted_wrt (<) (proper_divs m)"
  by (simp add: proper_divs_def sorted_wrt_filter sorted_wrt_upto)

lemma set_proper_divs: "1 \<le> m \<Longrightarrow> set (proper_divs m) = {i. 2 \<le> i \<and> i dvd m}"
  by (auto simp: proper_divs_def dest: zdvd_imp_le)

lemma strict_sorted_unique: "sorted_wrt (<) xs \<Longrightarrow> sorted_wrt (<) ys \<Longrightarrow> set xs = set ys \<Longrightarrow> xs = (ys :: int list)"
  by (metis strict_sorted_equal)

text \<open>One round: the first divisor is prime, and the list left is that of the quotient.\<close>

lemma sweep_round:
  assumes "2 \<le> m" "proper_divs m = p # xs"
  shows "2 \<le> p" "p dvd m" "\<forall>q. 2 \<le> q \<and> q dvd p \<longrightarrow> q = p"
    "map (\<lambda>x. cdiv x p) (filter (\<lambda>x. cmod x p = 0) xs) = proper_divs (m div p)"
proof -
  have s: "set (p # xs) = {i. 2 \<le> i \<and> i dvd m}" using set_proper_divs [of m] assms by simp
  have mem: "2 \<le> x \<and> x dvd m" if "x \<in> set (p # xs)" for x using that unfolding s by simp
  have p: "2 \<le> p" "p dvd m" using mem [of p] by auto
  then show "2 \<le> p" "p dvd m" .
  have so: "sorted_wrt (<) (p # xs)" using proper_divs_sorted [of m] assms by simp
  show "\<forall>q. 2 \<le> q \<and> q dvd p \<longrightarrow> q = p"
  proof (intro allI impI)
    fix q assume q: "2 \<le> q \<and> q dvd p"
    then have "q \<in> set (p # xs)" unfolding s using p dvd_trans by blast
    moreover have "q \<le> p" using q p zdvd_imp_le by auto
    ultimately show "q = p" using so by auto
  qed
  have m: "1 \<le> m div p" using assms(1) p by (simp add: pos_imp_zdiv_pos_iff zdvd_imp_le)
  have eq: "map (\<lambda>x. cdiv x p) (filter (\<lambda>x. cmod x p = 0) xs) = map (\<lambda>x. x div p) (filter (\<lambda>x. p dvd x) xs)"
  proof -
    have x: "cmod x p = 0 \<longleftrightarrow> p dvd x" "cdiv x p = x div p" if "x \<in> set xs" for x
      using mem [of x] that p by (auto simp: dvd_eq_mod_eq_0)
    then have "filter (\<lambda>x. cmod x p = 0) xs = filter (\<lambda>x. p dvd x) xs" by (intro filter_cong) auto
    then show ?thesis using x by auto
  qed
  have "sorted_wrt (<) (map (\<lambda>x. x div p) (filter (\<lambda>x. p dvd x) xs))"
  proof -
    have "sorted_wrt (<) (filter (\<lambda>x. p dvd x) xs)" using so by (simp add: sorted_wrt_filter)
    moreover have "x div p < y div p" if "p dvd x" "p dvd y" "x < y" for x y
      using that p by (auto elim!: dvdE)
    ultimately show ?thesis unfolding sorted_wrt_map by (rule sorted_wrt_mono_rel [rotated]) auto
  qed
  moreover have "set (map (\<lambda>x. x div p) (filter (\<lambda>x. p dvd x) xs)) = {i. 2 \<le> i \<and> i dvd m div p}"
  proof (intro set_eqI iffI)
    fix d assume "d \<in> set (map (\<lambda>x. x div p) (filter (\<lambda>x. p dvd x) xs))"
    then obtain x where x: "x \<in> set xs" "p dvd x" "d = x div p" by auto
    have "x dvd m" "p < x" using x mem [of x] so by auto
    then have "d dvd m div p" "1 < d" using x p by (auto elim!: dvdE)
    then show "d \<in> {i. 2 \<le> i \<and> i dvd m div p}" by simp
  next
    fix d assume d: "d \<in> {i. 2 \<le> i \<and> i dvd m div p}"
    then have "d * p dvd m" "p < d * p" using p by (auto elim!: dvdE)
    moreover from this have "2 \<le> d * p" using p by linarith
    ultimately have "d * p \<in> set (p # xs)" unfolding s by simp
    then have "d * p \<in> set xs" using \<open>p < d * p\<close> by (metis less_irrefl set_ConsD)
    then show "d \<in> set (map (\<lambda>x. x div p) (filter (\<lambda>x. p dvd x) xs))"
      using p by (auto intro!: image_eqI [of _ _ "d * p"])
  qed
  ultimately show "map (\<lambda>x. cdiv x p) (filter (\<lambda>x. cmod x p = 0) xs) = proper_divs (m div p)"
    unfolding eq using set_proper_divs [OF m] proper_divs_sorted by (intro strict_sorted_unique) auto
qed

lemma sweep_primes:
  "1 \<le> m \<Longrightarrow> prod_list (sweep (proper_divs m)) = m \<and>
   (\<forall>p\<in>set (sweep (proper_divs m)). 2 \<le> p \<and> (\<forall>q. 2 \<le> q \<and> q dvd p \<longrightarrow> q = p))"
proof (induction "nat m" arbitrary: m rule: less_induct)
  case less
  show ?case
  proof (cases "m = 1")
    case True
    have "proper_divs 1 = []" by (simp add: proper_divs_def)
    then show ?thesis using True by simp
  next
    case False
    then have m: "2 \<le> m" using less.prems by simp
    then have "m \<in> set (proper_divs m)" using set_proper_divs [of m] by simp
    then obtain p xs where px: "proper_divs m = p # xs" by (cases "proper_divs m") auto
    note r = sweep_round [OF m px]
    have d: "m = p * (m div p)" "1 \<le> m div p" using r(1,2) m by (auto simp: pos_imp_zdiv_pos_iff zdvd_imp_le)
    have "m div p < m" using r(1) m by (intro int_div_less_self) auto
    then have "nat (m div p) < nat m" using m by simp
    from less.hyps [OF this d(2)] show ?thesis using px r d(1) by (auto simp: r(4))
  qed
qed

section \<open>Correctness of the heuristic\<close>

lemma foldl_invariant: "P z \<Longrightarrow> (\<And>z x. x \<in> set xs \<Longrightarrow> P z \<Longrightarrow> P (f z x)) \<Longrightarrow> P (foldl f z xs)"
  by (induction xs arbitrary: z) auto

lemma pick_axis_range:
  assumes "0 \<le> istart" "istart < int (length tard)" "istep = 1 \<or> istep = -1 \<and> istart = int (length tard) - 1"
  shows "0 \<le> pick_axis tard pedims p0 istart istep \<and> pick_axis tard pedims p0 istart istep < int (length tard)"
proof -
  let ?n = "int (length tard)"
  let ?f = "\<lambda>(q, h) j. let ilook = cmod (istart + istep * j) ?n; w = penalty tard pedims p0 ilook in
         if fl_less w q then (w, ilook) else (q, h)"
  have c: "0 \<le> cmod (istart + istep * j) ?n \<and> cmod (istart + istep * j) ?n < ?n" if "j \<in> set [1..?n - 1]" for j
  proof -
    have "0 \<le> istart + istep * j" using assms that by auto
    then show ?thesis using assms(1,2) by (intro cmod_range) linarith+
  qed
  have "0 \<le> snd (foldl ?f (penalty tard pedims p0 istart, istart) [1..?n - 1]) \<and>
    snd (foldl ?f (penalty tard pedims p0 istart, istart) [1..?n - 1]) < ?n"
    by (rule foldl_invariant) (use assms c in \<open>auto simp: Let_def case_prod_unfold\<close>)
  then show ?thesis by (simp add: pick_axis_def)
qed

lemma prod_list_update_times:
  "h < length xs \<Longrightarrow> prod_list (xs[h := xs ! h * p]) = prod_list xs * (p :: int)"
  by (induction xs arbitrary: h) (auto split: nat.splits simp: algebra_simps)

lemma deal_spec:
  assumes "0 \<le> istart" "istart < int (length tard)" "istep = 1 \<or> istep = -1 \<and> istart = int (length tard) - 1 \<and> bias \<noteq> 0"
    and "length pedims = length tard" "\<forall>p\<in>set pedims. 1 \<le> p" "\<forall>p\<in>set ps. 1 \<le> p"
  shows "length (deal tard bias istep istart pedims ps) = length tard \<and>
    (\<forall>p\<in>set (deal tard bias istep istart pedims ps). 1 \<le> p) \<and>
    prod_list (deal tard bias istep istart pedims ps) = prod_list pedims * prod_list ps"
  using assms
proof (induction ps arbitrary: istart pedims)
  case (Cons p0 ps)
  let ?h = "nat (pick_axis tard pedims p0 istart istep)"
  have h: "?h < length pedims" using pick_axis_range [of istart tard istep pedims p0] Cons.prems by auto
  have "1 \<le> pedims ! ?h * p0"
  proof -
    have "1 \<le> pedims ! ?h" "1 \<le> p0" using Cons.prems(5,6) h by auto
    then show ?thesis using mult_mono [of 1 "pedims ! ?h" 1 p0] by simp
  qed
  then have pos: "\<forall>p\<in>set (pedims[?h := pedims ! ?h * p0]). 1 \<le> p"
    using Cons.prems(5) set_update_subset_insert by (metis insertE subsetD)
  let ?s = "if bias = 0 then cmod (istart + 1) (int (length tard)) else istart"
  have "0 \<le> cmod (istart + 1) (int (length tard)) \<and> cmod (istart + 1) (int (length tard)) < int (length tard)"
    using Cons.prems(1,2) by (intro cmod_range) linarith+
  then have "0 \<le> ?s" "?s < int (length tard)" "istep = 1 \<or> istep = -1 \<and> ?s = int (length tard) - 1 \<and> bias \<noteq> 0"
    using Cons.prems(1-3) by auto
  then show ?case
    using Cons.IH [of ?s "pedims[?h := pedims ! ?h * p0]"] pos Cons.prems(4,6) prod_list_update_times [OF h]
    by (simp add: Let_def mult.assoc)
qed simp

text \<open>The ratio is never negative, so that with the threshold 0 the search is not started.\<close>

lemma fl_div_nonneg: "0 \<le> fst x \<Longrightarrow> 0 < fst y \<Longrightarrow> 0 \<le> fst (fl_div x y)"
  unfolding fl_div_def Let_def by (intro fst_normal_nonneg) (use rne_bound in simp)

lemma ev_loop_nonneg:
  "0 \<le> fst t \<Longrightarrow> \<forall>a\<in>set as. 0 < a \<and> a < 9007199254740992 \<Longrightarrow> \<forall>p\<in>set ps. 1 \<le> p \<Longrightarrow> 0 \<le> fst (ev_loop t as ps)"
proof (induction t as ps rule: ev_loop.induct)
  case (1 t a as p ps)
  have a: "0 < a" "a < 9007199254740992" "1 \<le> p" using 1(3,4) by auto
  have "0 \<le> a div p * p" using a by (simp add: pos_imp_zdiv_nonneg_iff)
  then have "0 \<le> fst (fl_of_int (cdiv a p * p))" using a round53_val(1) by (simp add: fl_of_int_def)
  then have "0 \<le> fst (fl_div (fl_of_int (cdiv a p * p)) (fl_of_int a))"
    using a by (intro fl_div_nonneg) (simp_all add: fl_of_int_exact)
  then have "0 \<le> fst (fl_mul t (fl_div (fl_of_int (cdiv a p * p)) (fl_of_int a)))"
    using 1(2) round53_val(1) by (simp add: fl_mul_def)
  then show ?case using 1 by simp
qed auto

lemma not_below_zero: "0 \<le> fst x \<Longrightarrow> \<not> fl_less x (0, 0)"
  by (simp add: fl_less_def Let_def not_less)

text \<open>The dimensions in units of the requested blocks.\<close>

definition grains :: "int list \<Rightarrow> int list \<Rightarrow> int list" where
  "grains ds blk = map2 (\<lambda>a b. (a - 1) div max 1 b + 1) ds blk"

lemma ceil_div: "0 < b \<Longrightarrow> (a + b - 1) div b = (a - 1) div b + 1" for a b :: int
  using div_add_self2 [of b "a - 1"] by (simp add: algebra_simps)

lemma grains_eq:
  "\<forall>a\<in>set ds. 1 \<le> a \<Longrightarrow> length blk = length ds \<Longrightarrow>
   map2 (\<lambda>a b. let t = cdiv (a + b - 1) b in if t < 1 then 1 else t) ds (map (\<lambda>b. if b < 1 then 1 else b) blk) =
   grains ds blk"
proof (induction ds arbitrary: blk)
  case (Cons a ds)
  then obtain b blk' where b: "blk = b # blk'" by (cases blk) auto
  have "1 \<le> a" using Cons.prems by simp
  then have "0 \<le> (a - 1) div max 1 b" by (simp add: pos_imp_zdiv_nonneg_iff)
  moreover have "(if b < 1 then 1 else b) = max 1 b" by simp
  moreover have "cdiv (a + max 1 b - 1) (max 1 b) = (a - 1) div max 1 b + 1"
    using \<open>1 \<le> a\<close> by (simp add: ceil_div)
  ultimately show ?case using Cons b by (simp add: grains_def Let_def)
qed (simp add: grains_def)

lemma grains_bound:
  "\<forall>a\<in>set ds. 1 \<le> a \<and> a < 9007199254740992 \<Longrightarrow> \<forall>t\<in>set (grains ds blk). 1 \<le> t \<and> t < 9007199254740992"
proof
  fix t assume ds: "\<forall>a\<in>set ds. 1 \<le> a \<and> a < 9007199254740992" and "t \<in> set (grains ds blk)"
  then obtain a b where t: "t = (a - 1) div max 1 b + 1" "a \<in> set ds" by (auto simp: grains_def dest: set_zip_leftD)
  have a: "0 \<le> a - 1" using ds t(2) by auto
  have "(a - 1) div max 1 b \<le> a - 1" using zdiv_mono2 [OF a, of 1 "max 1 b"] by simp
  moreover have "0 \<le> (a - 1) div max 1 b" using ds t(2) by (auto simp: pos_imp_zdiv_nonneg_iff)
  ultimately show "1 \<le> t \<and> t < 9007199254740992" using t ds by auto
qed

lemma ddb_h2_spec:
  assumes "ds \<noteq> []" "length blk = length ds" "\<forall>a\<in>set ds. 1 \<le> a \<and> a < 9007199254740992" "1 \<le> npes"
  obtains pe where "ddb_h2 ds npes (0, 0) bias blk = Some (Inr (map2 (\<lambda>t p. (t - 1) div p + 1) (grains ds blk) pe, pe))"
    "length pe = length ds" "\<forall>p\<in>set pe. 1 \<le> p" "prod_list pe = npes"
proof -
  let ?g = "grains ds blk"
  let ?ps = "rev (sweep (tl (divisors npes)))"
  define pe where "pe = deal ?g bias (if bias > 0 then -1 else 1) (if bias > 0 then int (length ds) - 1 else 0)
    (replicate (length ds) 1) ?ps"
  have len: "length ?g = length ds" using assms(2) by (simp add: grains_def)
  have gb: "\<forall>t\<in>set ?g. 1 \<le> t \<and> t < 9007199254740992" using grains_bound [OF assms(3)] .
  have pr: "prod_list ?ps = npes" "\<forall>p\<in>set ?ps. 1 \<le> p"
    using sweep_primes [OF assms(4)] divisors_proper [OF assms(4)] by (force simp: prod_list.rev)+
  have d: "length pe = length ds" "\<forall>p\<in>set pe. 1 \<le> p" "prod_list pe = npes"
    using deal_spec [of "if bias > 0 then int (length ds) - 1 else 0" ?g "if bias > 0 then -1 else 1" bias
        "replicate (length ds) 1" ?ps] len assms(1) pr unfolding pe_def by auto
  have "\<not> fl_less (dd_ev ?g pe) (0, 0)"
    unfolding dd_ev_def by (intro not_below_zero ev_loop_nonneg) (use gb d(2) in auto)
  moreover have "\<not> (\<exists>p\<in>set pe. p \<le> 0)" using d(2) by force
  moreover have "map2 (\<lambda>t p. cdiv (t + p - 1) p) ?g pe = map2 (\<lambda>t p. (t - 1) div p + 1) ?g pe"
  proof (rule map_cong [OF refl], clarify)
    fix t p assume "(t, p) \<in> set (zip ?g pe)"
    then have "1 \<le> t" "1 \<le> p" using gb d(2) by (auto dest: set_zip_leftD set_zip_rightD)
    then show "cdiv (t + p - 1) p = (t - 1) div p + 1" by (simp add: ceil_div)
  qed
  ultimately have "ddb_h2 ds npes (0, 0) bias blk = Some (Inr (map2 (\<lambda>t p. (t - 1) div p + 1) ?g pe, pe))"
    using grains_eq [of ds blk] assms(2,3) unfolding ddb_h2_def Let_def by (simp add: pe_def [symmetric])
  then show thesis using that d by blast
qed

end
