(* ===== verification/GA_Locate.thy ===== *)
theory GA_Locate
  imports GA_Array
begin

text \<open>
  Who owns what: the blocks of processes (\<open>ga_ownsM\<close>, \<open>pnga_distribution\<close>), the owner of an element
  (\<open>pnga_locate\<close>), the pieces of a patch (\<open>pnga_locate_region\<close>, \<open>pnga_locate_nnodes\<close>,
  \<open>pnga_locate_num_blocks\<close>), and the inquiries about the distribution, from src/global/src/base.h and
  src/global/src/base.c.
\<close>

section \<open>Blocks\<close>

text \<open>
  The loop of \<open>ga_ownsM_no_handle\<close> over the axes; \<open>m\<close> is the rest of the map, from the entry
  \<open>_dimstart\<close> on.
\<close>

fun owns_axes :: "int list \<Rightarrow> int list \<Rightarrow> int list \<Rightarrow> int \<Rightarrow> (int \<times> int) list" where
  "owns_axes (n # ns) (d # ds) m index =
     (let loc = cmod index n in
      (m ! nat loc, if loc = n - 1 then d else m ! nat (loc + 1) - 1) #
      owns_axes ns ds (drop (nat n) m) (cdiv index n))"
| "owns_axes _ _ _ _ = []"

definition no_block :: "nat \<Rightarrow> int list \<times> int list" where
  "no_block n = (replicate n 0, replicate n (-1))"

definition ga_ownsM_no_handle :: "int list \<Rightarrow> int list \<Rightarrow> int list \<Rightarrow> int \<Rightarrow> int list \<times> int list" where
  "ga_ownsM_no_handle ds nb m proc =
     (if proc > prod_list nb - 1 \<or> proc < 0 then no_block (length ds)
      else let r = owns_axes nb ds m proc in (map fst r, map snd r))"

text \<open>The last branch of \<open>ga_ownsM\<close>: the block of an irregular tiling with the given indices.\<close>

fun irreg_block :: "int list \<Rightarrow> int list \<Rightarrow> int list \<Rightarrow> int list \<Rightarrow> (int \<times> int) list" where
  "irreg_block (n # ns) (d # ds) m (i # is) =
     (m ! nat i, if i < n - 1 then m ! nat (i + 1) - 1 else d) # irreg_block ns ds (drop (nat n) m) is"
| "irreg_block _ _ _ _ = []"

definition ga_ownsM :: "global_array_t \<Rightarrow> int \<Rightarrow> int list \<times> int list" where
  "ga_ownsM a proc =
     (case distr_type a of
        REGULAR \<Rightarrow>
          if num_rstrctd a = 0 then ga_ownsM_no_handle (dims a) (nblock a) (the (mapc a)) proc
          else if proc < num_rstrctd a then ga_ownsM_no_handle (dims a) (nblock a) (the (mapc a)) proc
          else no_block (length (dims a))
      | TILED_IRREG \<Rightarrow>
          let r = irreg_block (num_blocks a) (dims a) (the (mapc a)) (gam_find_block_indices (num_blocks a) proc)
          in (map fst r, map snd r)
      | _ \<Rightarrow>
          let index = gam_find_block_indices (num_blocks a) proc in
          (map2 (\<lambda>i b. i * b + 1) index (block_dims a),
           map2 (\<lambda>h d. if h > d then d else h) (map2 (\<lambda>i b. (i + 1) * b) index (block_dims a)) (dims a)))"

definition pnga_distribution :: "ga_state \<Rightarrow> int \<Rightarrow> int \<Rightarrow> ga_error + (int list \<times> int list)" where
  "pnga_distribution st g_a proc =
     (case ga_check_handleM st g_a ''nga_distribution'' of Some e \<Rightarrow> Inl e | None \<Rightarrow>
      let a = ga st g_a;
          lproc = (if num_rstrctd a > 0 then the (rank_rstrctd a) ! nat proc else proc);
          lproc = (if property a = READ_ONLY then cmod proc (cluster_nprocs st proc) else lproc)
      in Inr (ga_ownsM a lproc))"

section \<open>The owner of an element\<close>

text \<open>\<open>findblock\<close> on every axis; \<open>m\<close> is the rest of the map.\<close>

fun find_axes :: "int list \<Rightarrow> double list \<Rightarrow> int list \<Rightarrow> int list \<Rightarrow> int list" where
  "find_axes (n # ns) (sc # scs) m (s # ss) =
     findblock m n (axis_candidate sc s) s # find_axes ns scs (drop (nat n) m) ss"
| "find_axes _ _ _ _ = []"

definition gam_find_block_indices_from_subscript :: "global_array_t \<Rightarrow> int list \<Rightarrow> int list" where
  "gam_find_block_indices_from_subscript a subscript =
     (case distr_type a of
        REGULAR \<Rightarrow> find_axes (nblock a) (scale a) (the (mapc a)) subscript
      | TILED_IRREG \<Rightarrow> find_axes (num_blocks a) (scale a) (the (mapc a)) subscript
      | _ \<Rightarrow> map2 (\<lambda>s b. cdiv (s - 1) b) subscript (block_dims a))"

definition pnga_locate :: "ga_state \<Rightarrow> int \<Rightarrow> int list \<Rightarrow> ga_error + (bool \<times> int)" where
  "pnga_locate st g_a subscript =
     (case ga_check_handleM st g_a ''nga_locate'' of Some e \<Rightarrow> Inl e | None \<Rightarrow>
      let a = ga st g_a in
      if distr_type a = REGULAR then
        if list_ex (\<lambda>(s, d). s < 1 \<or> s > d) (zip subscript (dims a)) then Inr (False, -1)
        else
          let proc_s = find_axes (nblock a) (scale a) (the (mapc a)) subscript;
              proc = ga_ComputeIndexM proc_s (nblock a)
          in Inr (True, if num_rstrctd a > 0 then the (rstrctd_list a) ! nat proc else proc)
      else
        let index = gam_find_block_indices_from_subscript a subscript in
        Inr (True, gam_find_block_from_indices (num_blocks a) index))"

section \<open>The pieces of a patch\<close>

definition bad_region :: "global_array_t \<Rightarrow> int list \<Rightarrow> int list \<Rightarrow> bool" where
  "bad_region a lo hi \<longleftrightarrow> list_ex (\<lambda>(l, h, d). (l < 1 \<or> h > d) \<or> l > h) (zip lo (zip hi (dims a)))"

text \<open>A piece is the process or block, and the part of the patch in its block.\<close>

type_synonym piece = "int \<times> int list \<times> int list"

definition clip :: "int list \<Rightarrow> int list \<Rightarrow> int list \<times> int list \<Rightarrow> int list \<times> int list" where
  "clip lo hi b =
     (map2 (\<lambda>l l'. if l < l' then l' else l) lo (fst b), map2 (\<lambda>h h'. if h > h' then h' else h) hi (snd b))"

text \<open>The loop over the processes or blocks between the two corners, common to two of the branches.\<close>

definition corner_pieces :: "global_array_t \<Rightarrow> int list \<Rightarrow> int list \<Rightarrow> int list \<Rightarrow> piece list" where
  "corner_pieces a nb lo hi =
     (let procT = find_axes nb (scale a) (the (mapc a)) lo;
          procB = find_axes nb (scale a) (the (mapc a)) hi;
          (elems, subscript) = ga_InitLoopM procT procB
      in map (\<lambda>s. let proc = ga_ComputeIndexM s nb in (proc, clip lo hi (ga_ownsM a proc)))
           (loop_subscripts (nat elems) subscript procT procB))"

text \<open>The test of the block-cyclic branch: an end of the block lies in the patch, on every axis.\<close>

definition end_overlap :: "int list \<Rightarrow> int list \<Rightarrow> int list \<times> int list \<Rightarrow> bool" where
  "end_overlap lo hi b \<longleftrightarrow>
     list_all (\<lambda>(tl, th, l, h). (tl \<ge> l \<and> tl \<le> h) \<or> (th \<ge> l \<and> th \<le> h)) (zip (fst b) (zip (snd b) (zip lo hi)))"

text \<open>The block that \<open>pnga_distribution\<close> gives for a block of an array whose handle has been checked.\<close>

definition block_of :: "ga_state \<Rightarrow> int \<Rightarrow> int \<Rightarrow> int list \<times> int list" where
  "block_of st g_a i = (case pnga_distribution st g_a i of Inr b \<Rightarrow> b | Inl e \<Rightarrow> ([], []))"

definition overlap_blocks :: "ga_state \<Rightarrow> int \<Rightarrow> int list \<Rightarrow> int list \<Rightarrow> int list" where
  "overlap_blocks st g_a lo hi = filter (\<lambda>i. end_overlap lo hi (block_of st g_a i)) [0..block_total (ga st g_a) - 1]"

text \<open>
  The counter of the last branch, as a list of the count, the minimum and the maximum of every axis:
  the increment, which lets the last axis run over its maximum, and the loop.
\<close>

fun bump :: "(int \<times> int \<times> int) list \<Rightarrow> (int \<times> int \<times> int) list" where
  "bump [] = []"
| "bump [(c, mn, mx)] = [(c + 1, mn, mx)]"
| "bump ((c, mn, mx) # t # ts) = (if c + 1 > mx then (mn, mn, mx) # bump (t # ts) else (c + 1, mn, mx) # t # ts)"

fun count_steps :: "(int \<times> int \<times> int) list \<Rightarrow> nat" where
  "count_steps [] = 0"
| "count_steps [(c, mn, mx)] = nat (mx - c + 1)"
| "count_steps ((c, mn, mx) # t # ts) =
     (if count_steps (t # ts) = 0 then 0
      else (count_steps (t # ts) - 1) * max 1 (nat (mx - mn + 1)) + max 1 (nat (mx - c + 1)))"

lemma bump_Cons: "\<exists>t' ts'. bump (t # ts) = t' # ts'"
  by (cases "(t # ts)" rule: bump.cases) auto

lemma bump_count_steps: "count_steps ts > 0 \<Longrightarrow> count_steps (bump ts) < count_steps ts"
proof (induction ts rule: count_steps.induct)
  case (3 c mn mx t ts)
  let ?k = "count_steps (t # ts)" and ?w = "max 1 (nat (mx - mn + 1))"
  have k: "0 < ?k" using 3(3) by (auto split: if_splits)
  show ?case
  proof (cases "c + 1 > mx")
    case True
    have less: "count_steps (bump (t # ts)) < ?k" using 3 k by simp
    obtain t' ts' where b: "bump (t # ts) = t' # ts'" using bump_Cons by blast
    show ?thesis
    proof (cases "count_steps (t' # ts') = 0")
      case False
      have "(count_steps (t' # ts') - 1) * ?w + ?w = count_steps (t' # ts') * ?w"
        using False by (metis Suc_pred' add.commute bot_nat_0.not_eq_extremum mult_Suc)
      also have "\<dots> \<le> (?k - 1) * ?w" using less b by (intro mult_right_mono) auto
      finally show ?thesis using True b k False by simp
    qed (use True b k in simp)
  qed (use k in auto)
qed auto

lemma count_steps_last: "ts \<noteq> [] \<Longrightarrow> fst (last ts) \<le> snd (snd (last ts)) \<Longrightarrow> 0 < count_steps ts"
  by (induction ts rule: count_steps.induct) auto

function block_counts :: "(int \<times> int \<times> int) list \<Rightarrow> int list list" where
  "block_counts ts =
     (if ts \<noteq> [] \<and> fst (last ts) \<le> snd (snd (last ts)) then map fst ts # block_counts (bump ts) else [])"
  by auto
termination by (relation "measure count_steps") (auto intro: bump_count_steps count_steps_last)

declare block_counts.simps [simp del]

text \<open>The block index of a count, as the last branch computes it from the last axis down.\<close>

fun block_idx :: "int \<Rightarrow> int \<Rightarrow> (int \<times> int) list \<Rightarrow> int" where
  "block_idx idx factor [] = idx"
| "block_idx idx factor ((c, n) # ts) = block_idx (idx * factor + c) (factor * n) ts"

definition counted_pieces :: "global_array_t \<Rightarrow> int list \<Rightarrow> int list \<Rightarrow> piece list" where
  "counted_pieces a lo hi =
     (let mn = map2 (\<lambda>l b. cdiv (l - 1) b) lo (block_dims a);
          mx = map2 (\<lambda>h b. cdiv (h - 1) b) hi (block_dims a)
      in map (\<lambda>count.
           (block_idx 0 1 (rev (zip count (num_blocks a))),
            map2 (\<lambda>c b. c * b + 1) count (block_dims a),
            map2 (\<lambda>h d. if h > d then d else h) (map2 (\<lambda>c b. (c + 1) * b) count (block_dims a)) (dims a)))
         (block_counts (zip mn (zip mn mx))))"

definition region_pieces :: "ga_state \<Rightarrow> int \<Rightarrow> int list \<Rightarrow> int list \<Rightarrow> piece list" where
  "region_pieces st g_a lo hi =
     (let a = ga st g_a in
      case distr_type a of
        REGULAR \<Rightarrow>
          map (\<lambda>(proc, b). (if num_rstrctd a = 0 then proc else the (rstrctd_list a) ! nat proc, b))
            (corner_pieces a (nblock a) lo hi)
      | TILED_IRREG \<Rightarrow> corner_pieces a (num_blocks a) lo hi
      | BLOCK_CYCLIC \<Rightarrow> map (\<lambda>i. (i, clip lo hi (block_of st g_a i))) (overlap_blocks st g_a lo hi)
      | _ \<Rightarrow> counted_pieces a lo hi)"

text \<open>The outputs: \<open>np\<close>, \<open>proclist\<close>, and \<open>map\<close> with the lower and the upper corner of every piece in turn.\<close>

definition pnga_locate_region ::
  "ga_state \<Rightarrow> int \<Rightarrow> int list \<Rightarrow> int list \<Rightarrow> ga_error + (int \<times> int list \<times> int list) option" where
  "pnga_locate_region st g_a lo hi =
     (case ga_check_handleM st g_a ''nga_locate_region'' of Some e \<Rightarrow> Inl e | None \<Rightarrow>
      if bad_region (ga st g_a) lo hi then Inr None
      else let ps = region_pieces st g_a lo hi in
        Inr (Some (int (length ps), map fst ps, concat (map (\<lambda>(_, l, h). l @ h) ps))))"

definition pnga_locate_nnodes :: "ga_state \<Rightarrow> int \<Rightarrow> int list \<Rightarrow> int list \<Rightarrow> ga_error + int option" where
  "pnga_locate_nnodes st g_a lo hi =
     (case ga_check_handleM st g_a ''nga_locate_nnodes'' of Some e \<Rightarrow> Inl e | None \<Rightarrow>
      let a = ga st g_a in
      if bad_region a lo hi then Inr None
      else if distr_type a = REGULAR then
        let procT = find_axes (nblock a) (scale a) (the (mapc a)) lo;
            procB = find_axes (nblock a) (scale a) (the (mapc a)) hi;
            (elems, subscript) = ga_InitLoopM procT procB
        in Inr (Some (int (length (loop_subscripts (nat elems) subscript procT procB))))
      else Inr (Some (int (length (overlap_blocks st g_a lo hi)))))"

definition pnga_locate_num_blocks :: "ga_state \<Rightarrow> int \<Rightarrow> int list \<Rightarrow> int list \<Rightarrow> ga_error + int" where
  "pnga_locate_num_blocks st g_a lo hi =
     (let a = ga st g_a in
      if bad_region a lo hi then Inl (''Requested region out of bounds'', 0)
      else if distr_type a \<noteq> REGULAR then
        if block_total a > 0 then
          (case ga_check_handleM st g_a ''nga_distribution'' of Some e \<Rightarrow> Inl e
           | None \<Rightarrow> Inr (int (length (overlap_blocks st g_a lo hi))))
        else Inr 0
      else Inr (-1))"

section \<open>Inquiries\<close>

fun proc_topology :: "int list \<Rightarrow> int \<Rightarrow> int list" where
  "proc_topology [] index = []"
| "proc_topology (n # ns) index = cmod index n # proc_topology ns (cdiv index n)"

definition pnga_proc_topology :: "ga_state \<Rightarrow> int \<Rightarrow> int \<Rightarrow> ga_error + int list" where
  "pnga_proc_topology st g_a proc =
     (case ga_check_handleM st g_a ''nga_proc_topology'' of Some e \<Rightarrow> Inl e
      | None \<Rightarrow> Inr (proc_topology (nblock (ga st g_a)) proc))"

definition pnga_get_proc_grid :: "ga_state \<Rightarrow> int \<Rightarrow> ga_error + int list" where
  "pnga_get_proc_grid st g_a =
     (case ga_check_handleM st g_a ''ga_get_proc_grid'' of Some e \<Rightarrow> Inl e | None \<Rightarrow> Inr (nblock (ga st g_a)))"

definition pnga_nblock :: "ga_state \<Rightarrow> int \<Rightarrow> ga_error + int list" where
  "pnga_nblock st g_a =
     (case ga_check_handleM st g_a ''ga_nblock'' of Some e \<Rightarrow> Inl e
      | None \<Rightarrow> Inr (if distr_type (ga st g_a) = REGULAR then nblock (ga st g_a) else num_blocks (ga st g_a)))"

definition pnga_get_distribution_type :: "ga_state \<Rightarrow> int \<Rightarrow> string" where
  "pnga_get_distribution_type st g_a =
     (case distr_type (ga st g_a) of REGULAR \<Rightarrow> ''regular'' | BLOCK_CYCLIC \<Rightarrow> ''block_cyclic''
      | SCALAPACK \<Rightarrow> ''scalapack'' | TILED \<Rightarrow> ''tiled'' | TILED_IRREG \<Rightarrow> ''tiled_irreg'')"

definition pnga_total_blocks :: "ga_state \<Rightarrow> int \<Rightarrow> int" where
  "pnga_total_blocks st g_a = block_total (ga st g_a)"

definition pnga_uses_proc_grid :: "ga_state \<Rightarrow> int \<Rightarrow> bool" where
  "pnga_uses_proc_grid st g_a \<longleftrightarrow>
     distr_type (ga st g_a) = SCALAPACK \<or> distr_type (ga st g_a) = TILED \<or> distr_type (ga st g_a) = TILED_IRREG"

definition pnga_uses_irreg_proc_grid :: "ga_state \<Rightarrow> int \<Rightarrow> bool" where
  "pnga_uses_irreg_proc_grid st g_a \<longleftrightarrow> distr_type (ga st g_a) = TILED_IRREG"

definition pnga_get_proc_index :: "ga_state \<Rightarrow> int \<Rightarrow> int \<Rightarrow> ga_error + int list" where
  "pnga_get_proc_index st g_a iproc =
     (let a = ga st g_a in
      if distr_type a = SCALAPACK \<or> distr_type a = TILED \<or> distr_type a = TILED_IRREG
      then Inr (gam_find_proc_indices (nblock a) iproc)
      else Inl (''Global array does not use ScaLAPACK data distribution'', 0))"

definition pnga_get_block_info :: "ga_state \<Rightarrow> int \<Rightarrow> ga_error + (int list \<times> int list)" where
  "pnga_get_block_info st g_a =
     (let a = ga st g_a in
      if distr_type a = SCALAPACK \<or> distr_type a = TILED then Inr (num_blocks a, block_dims a)
      else if distr_type a = TILED_IRREG
      then Inl (''Don't know how to respond to get_block_infor for irregular tiled array'', 0)
      else Inr (map2 (\<lambda>d bsize. if bsize > 0 then if cmod d bsize = 0 then cdiv d bsize else cdiv d bsize + 1 else 0)
                 (dims a) (block_dims a), block_dims a))"

definition pnga_get_map_info :: "ga_state \<Rightarrow> int \<Rightarrow> int list \<times> int list option" where
  "pnga_get_map_info st g_a = (num_blocks (ga st g_a), mapc (ga st g_a))"

definition calc_maplen :: "global_array_t \<Rightarrow> int" where
  "calc_maplen a =
     (case mapc a of None \<Rightarrow> 0
      | Some m \<Rightarrow> if distr_type a \<noteq> TILED_IRREG then sum_list (nblock a) else sum_list (num_blocks a))"

text \<open>The comparison of two maps, which stops at an entry \<open>-1\<close>.\<close>

fun same_map :: "int list \<Rightarrow> int list \<Rightarrow> bool" where
  "same_map (x # xs) (y # ys) = (if x \<noteq> y then False else if x = -1 then True else same_map xs ys)"
| "same_map _ _ = True"

definition same_maps :: "global_array_t \<Rightarrow> global_array_t \<Rightarrow> bool" where
  "same_maps a b \<longleftrightarrow> calc_maplen a = calc_maplen b \<and>
     same_map (take (nat (calc_maplen a)) (the (mapc a))) (take (nat (calc_maplen a)) (the (mapc b)))"

definition pnga_compare_distr :: "ga_state \<Rightarrow> int \<Rightarrow> int \<Rightarrow> ga_error + bool" where
  "pnga_compare_distr st g_a g_b =
     (case ga_check_handleM st g_a ''distribution a'' of Some e \<Rightarrow> Inl e | None \<Rightarrow>
      case ga_check_handleM st g_b ''distribution b'' of Some e \<Rightarrow> Inl e | None \<Rightarrow>
      let a = ga st g_a; b = ga st g_b in
      Inr (ndim a = ndim b \<and> dims a = dims b \<and> distr_type a = distr_type b \<and>
        (case distr_type a of
           REGULAR \<Rightarrow> same_maps a b
         | BLOCK_CYCLIC \<Rightarrow> block_dims a = block_dims b \<and> num_blocks a = num_blocks b
         | TILED_IRREG \<Rightarrow> same_maps a b \<and> nblock a = nblock b
         | _ \<Rightarrow> block_dims a = block_dims b \<and> num_blocks a = num_blocks b \<and> nblock a = nblock b) \<and>
        num_rstrctd a = num_rstrctd b \<and>
        (num_rstrctd a > 0 \<longrightarrow>
           take (nat (num_rstrctd a)) (the (rstrctd_list a)) = take (nat (num_rstrctd a)) (the (rstrctd_list b)))))"

section \<open>The address of an element\<close>

definition gaCheckSubscriptM :: "int list \<Rightarrow> int list \<Rightarrow> int list \<Rightarrow> ga_error option" where
  "gaCheckSubscriptM subscr lo hi =
     (case List.find (\<lambda>(d, s, l, h). s < l \<or> s > h) (zip [0..<length subscr] (zip subscr (zip lo hi))) of
        None \<Rightarrow> None | Some (d, _) \<Rightarrow> Some (''check subscript failed'', int d))"

text \<open>The offset loop of \<open>gam_Loc_ptr\<close>, its last step included.\<close>

fun loc_offset :: "int list \<Rightarrow> int list \<Rightarrow> int list \<Rightarrow> int list \<Rightarrow> int \<Rightarrow> int" where
  "loc_offset (s # ss) (l # lo) (h # hi) (w # ws) factor =
     (s - l + w) * factor + loc_offset ss lo hi ws (factor * (h - l + 1 + 2 * w))"
| "loc_offset _ _ _ _ factor = 0"

definition gam_Loc_ptr :: "ga_state \<Rightarrow> int \<Rightarrow> int \<Rightarrow> int list \<Rightarrow> ga_error + int" where
  "gam_Loc_ptr st g_a proc subscript =
     (let a = ga st g_a; (lo, hi) = ga_ownsM a proc in
      case gaCheckSubscriptM subscript lo hi of Some e \<Rightarrow> Inl e | None \<Rightarrow>
      let offset = loc_offset subscript lo hi (width a) 1;
          iproc = (if p_handle a = 0 then inv_map_proc_list (PGRP_LIST st ! 0) ! nat proc else proc);
          iproc = (if num_rstrctd a > 0 then the (rstrctd_list a) ! nat iproc else iproc)
      in Inr (ptr a ! nat iproc + offset * elemsize a))"

end
