(* ===== verification/GA_Partition.thy ===== *)
theory GA_Partition
  imports GA_Locate
begin

text \<open>
  The partition of an axis into blocks, as an interface: where the blocks start and end, and how the
  block of an element is found. The map of a regular or irregular distribution and the fixed blocks of
  a block-cyclic one provide it. What follows for the blocks of a multi-dimensional array is proved once.
\<close>

section \<open>Patches\<close>

fun in_patch :: "int list \<Rightarrow> int list \<Rightarrow> int list \<Rightarrow> bool" where
  "in_patch (l # lo) (h # hi) (s # ss) \<longleftrightarrow> l \<le> s \<and> s \<le> h \<and> in_patch lo hi ss"
| "in_patch [] [] [] \<longleftrightarrow> True"
| "in_patch _ _ _ \<longleftrightarrow> False"

lemma in_patch_lengths: "in_patch lo hi ss \<Longrightarrow> length lo = length ss \<and> length hi = length ss"
  by (induction lo hi ss rule: in_patch.induct) auto

lemma in_patch_clip:
  "length (fst b) = length lo \<Longrightarrow> length (snd b) = length lo \<Longrightarrow> length hi = length lo \<Longrightarrow>
   in_patch (fst (clip lo hi b)) (snd (clip lo hi b)) ss \<longleftrightarrow> in_patch lo hi ss \<and> in_patch (fst b) (snd b) ss"
proof -
  have "length x = length lo \<Longrightarrow> length y = length lo \<Longrightarrow> length hi = length lo \<Longrightarrow>
    in_patch (map2 (\<lambda>l l'. if l < l' then l' else l) lo x) (map2 (\<lambda>h h'. if h > h' then h' else h) hi y) ss \<longleftrightarrow>
    in_patch lo hi ss \<and> in_patch x y ss" for x y
  proof (induction lo arbitrary: hi x y ss)
    case (Cons l lo)
    then obtain h hi' a x' b y' where "hi = h # hi'" "x = a # x'" "y = b # y'" by (metis length_Suc_conv length_Cons)
    then show ?case using Cons by (cases ss) auto
  next
    case Nil
    then show ?case by (cases ss) auto
  qed
  then show "length (fst b) = length lo \<Longrightarrow> length (snd b) = length lo \<Longrightarrow> length hi = length lo \<Longrightarrow>
    in_patch (fst (clip lo hi b)) (snd (clip lo hi b)) ss \<longleftrightarrow> in_patch lo hi ss \<and> in_patch (fst b) (snd b) ss"
    by (simp add: clip_def)
qed

section \<open>Partitions of an axis\<close>

locale partition =
  fixes valid :: "'a \<Rightarrow> bool" and extent :: "'a \<Rightarrow> int" and count :: "'a \<Rightarrow> int"
    and find :: "'a \<Rightarrow> int \<Rightarrow> int" and first :: "'a \<Rightarrow> int \<Rightarrow> int" and final :: "'a \<Rightarrow> int \<Rightarrow> int"
  assumes extent_pos: "valid a \<Longrightarrow> 1 \<le> extent a"
    and find_range: "valid a \<Longrightarrow> 1 \<le> e \<Longrightarrow> e \<le> extent a \<Longrightarrow> 0 \<le> find a e \<and> find a e < count a"
    and find_holds: "valid a \<Longrightarrow> 1 \<le> e \<Longrightarrow> e \<le> extent a \<Longrightarrow> first a (find a e) \<le> e \<and> e \<le> final a (find a e)"
    and unique: "valid a \<Longrightarrow> 0 \<le> b \<Longrightarrow> b < count a \<Longrightarrow> first a b \<le> e \<Longrightarrow> e \<le> final a b \<Longrightarrow>
      1 \<le> e \<Longrightarrow> e \<le> extent a \<Longrightarrow> b = find a e"
    and inside: "valid a \<Longrightarrow> 0 \<le> b \<Longrightarrow> b < count a \<Longrightarrow> 1 \<le> first a b \<and> final a b \<le> extent a"
    and find_mono: "valid a \<Longrightarrow> 1 \<le> e \<Longrightarrow> e \<le> e' \<Longrightarrow> e' \<le> extent a \<Longrightarrow> find a e \<le> find a e'"
begin

lemma count_pos: "valid a \<Longrightarrow> 0 < count a"
  using find_range [of a 1] extent_pos [of a] by fastforce

lemma counts_ok: "list_all valid as \<Longrightarrow> grid_ok (map count as)"
  by (auto simp: grid_ok_def list_all_iff count_pos)

text \<open>The subscripts of an array are those between 1 and the extents.\<close>

lemma found_in_grid:
  "list_all valid as \<Longrightarrow> in_patch (replicate (length as) 1) (map extent as) ss \<Longrightarrow>
   in_grid (map count as) (map2 find as ss)"
proof (induction as arbitrary: ss)
  case (Cons a as)
  then obtain s ss' where "ss = s # ss'" by (cases ss) auto
  then show ?case using Cons find_range by auto
qed (simp add: in_grid_def)

lemma holds_iff:
  "list_all valid as \<Longrightarrow> in_patch (replicate (length as) 1) (map extent as) ss \<Longrightarrow> in_grid (map count as) is \<Longrightarrow>
   in_patch (map2 first as is) (map2 final as is) ss \<longleftrightarrow> is = map2 find as ss"
proof (induction as arbitrary: ss "is")
  case (Cons a as)
  obtain s ss' where s: "ss = s # ss'" using Cons.prems(2) by (cases ss) auto
  obtain i is' where i: "is = i # is'" using Cons.prems(3) by (cases "is") auto
  have "first a i \<le> s \<and> s \<le> final a i \<longleftrightarrow> i = find a s"
    using Cons.prems s i unique [of a i s] find_holds [of a s] by auto
  then show ?case using Cons s i by auto
next
  case Nil
  then show ?case by (cases ss; cases "is") auto
qed

lemma blocks_inside:
  "list_all valid as \<Longrightarrow> in_grid (map count as) is \<Longrightarrow> in_patch (map2 first as is) (map2 final as is) ss \<Longrightarrow>
   in_patch (replicate (length as) 1) (map extent as) ss"
proof (induction as arbitrary: ss "is")
  case (Cons a as)
  obtain i is' where i: "is = i # is'" using Cons.prems(2) by (cases "is") auto
  obtain s ss' where s: "ss = s # ss'" using Cons.prems(3) i by (cases ss) auto
  show ?case using Cons s i inside [of a i] by auto
next
  case Nil
  then show ?case by (cases ss; cases "is") auto
qed

text \<open>The blocks of the elements of a patch lie between the blocks of its corners.\<close>

lemma found_between:
  "list_all valid as \<Longrightarrow> in_patch (replicate (length as) 1) (map extent as) lo \<Longrightarrow>
   in_patch (replicate (length as) 1) (map extent as) hi \<Longrightarrow> in_patch lo hi ss \<Longrightarrow>
   in_patch (map2 find as lo) (map2 find as hi) (map2 find as ss)"
proof (induction as arbitrary: lo hi ss)
  case (Cons a as)
  obtain l lo' h hi' where l: "lo = l # lo'" "hi = h # hi'"
    using Cons.prems(2,3) by (cases lo; cases hi) auto
  obtain s ss' where s: "ss = s # ss'" using Cons.prems(4) l by (cases ss) auto
  show ?case using Cons l s find_mono [of a l s] find_mono [of a s h] by auto
next
  case Nil
  then show ?case by (cases lo; cases hi; cases ss) auto
qed

lemma patch_inside:
  "list_all valid as \<Longrightarrow> in_patch (replicate (length as) 1) (map extent as) lo \<Longrightarrow>
   in_patch (replicate (length as) 1) (map extent as) hi \<Longrightarrow> in_patch lo hi ss \<Longrightarrow>
   in_patch (replicate (length as) 1) (map extent as) ss"
proof (induction as arbitrary: lo hi ss)
  case (Cons a as)
  obtain l lo' h hi' where l: "lo = l # lo'" "hi = h # hi'"
    using Cons.prems(2,3) by (cases lo; cases hi) auto
  obtain s ss' where s: "ss = s # ss'" using Cons.prems(4) l by (cases ss) auto
  show ?case using Cons l s by auto
next
  case Nil
  then show ?case by (cases lo; cases hi; cases ss) auto
qed

text \<open>The number of the block that holds an element is the position of the indices found.\<close>

lemma owner_iff:
  assumes "list_all valid as" "in_patch (replicate (length as) 1) (map extent as) ss"
    and "0 \<le> b" "b < prod_list (map count as)" "is = gam_find_proc_indices (map count as) b"
  shows "in_patch (map2 first as is) (map2 final as is) ss \<longleftrightarrow> b = pos (map count as) (map2 find as ss)"
proof -
  note g = counts_ok [OF assms(1)]
  have i: "in_grid (map count as) is" "pos (map count as) is = b"
    using proc_indices_pos [OF g assms(3,4)] assms(5) by auto
  have "is = map2 find as ss \<longleftrightarrow> b = pos (map count as) (map2 find as ss)"
    using i(2) proc_indices_of_pos [OF g found_in_grid [OF assms(1,2)]] assms(5) by metis
  then show ?thesis using holds_iff [OF assms(1,2) i(1)] by simp
qed

end

section \<open>Maps\<close>

text \<open>An axis with a map: the number of blocks, the dimension, and the map from the first entry of the axis on.\<close>

definition map_valid :: "int \<times> int \<times> int list \<Rightarrow> bool" where
  "map_valid = (\<lambda>(n, d, m). 0 < n \<and> n < 2147483648 \<and> 0 < d \<and> d < 9007199254740992 \<and> n \<le> int (length m) \<and>
     sorted (take (nat n) m) \<and> m ! 0 = 1 \<and> (\<forall>x\<in>set (take (nat n) m). x \<le> d + 1))"

definition map_extent :: "int \<times> int \<times> int list \<Rightarrow> int" where
  "map_extent = (\<lambda>(n, d, m). d)"

definition map_count :: "int \<times> int \<times> int list \<Rightarrow> int" where
  "map_count = (\<lambda>(n, d, m). n)"

definition map_find :: "int \<times> int \<times> int list \<Rightarrow> int \<Rightarrow> int" where
  "map_find = (\<lambda>(n, d, m) e. findblock m n (axis_candidate (axis_scale n d) e) e)"

definition map_first :: "int \<times> int \<times> int list \<Rightarrow> int \<Rightarrow> int" where
  "map_first = (\<lambda>(n, d, m) b. m ! nat b)"

definition map_final :: "int \<times> int \<times> int list \<Rightarrow> int \<Rightarrow> int" where
  "map_final = (\<lambda>(n, d, m) b. if b = n - 1 then d else m ! nat (b + 1) - 1)"

lemma map_valid_entry:
  assumes "map_valid (n, d, m)" "0 \<le> b" "b \<le> b'" "b' < n"
  shows "m ! nat b \<le> m ! nat b'" "1 \<le> m ! nat b" "m ! nat b \<le> d + 1"
proof -
  have s: "sorted (take (nat n) m)" "n \<le> int (length m)" "m ! 0 = 1" "\<forall>x\<in>set (take (nat n) m). x \<le> d + 1"
    using assms(1) by (auto simp: map_valid_def)
  have l: "length (take (nat n) m) = nat n" using s(2) by simp
  have *: "m ! nat i \<le> m ! nat j" if "0 \<le> i" "i \<le> j" "j < n" for i j
    using sorted_nth_mono [OF s(1), of "nat i" "nat j"] that l by simp
  show "m ! nat b \<le> m ! nat b'" using * assms by simp
  show "1 \<le> m ! nat b" using * [of 0 b] assms s(3) by simp
  have "take (nat n) m ! nat b \<in> set (take (nat n) m)" using assms l by (intro nth_mem) simp
  then show "m ! nat b \<le> d + 1" using s(4) assms by simp
qed

lemma map_find_spec:
  assumes "map_valid (n, d, m)" "1 \<le> e" "e \<le> d"
  shows "0 \<le> map_find (n, d, m) e" "map_find (n, d, m) e < n"
    "m ! nat (map_find (n, d, m) e) \<le> e"
    "map_find (n, d, m) e < n - 1 \<Longrightarrow> e < m ! nat (map_find (n, d, m) e + 1)"
proof -
  have v: "0 < n" "n < 2147483648" "0 < d" "d < 9007199254740992" "m ! 0 = 1"
    using assms(1) by (auto simp: map_valid_def)
  have c: "0 \<le> axis_candidate (axis_scale n d) e" "axis_candidate (axis_scale n d) e \<le> n"
    using axis_candidate_bound [OF v(1-4), of e] assms by auto
  have "m ! 0 \<le> e" using v assms by simp
  from findblock_spec [OF v(1) this c]
  show "0 \<le> map_find (n, d, m) e" "map_find (n, d, m) e < n" "m ! nat (map_find (n, d, m) e) \<le> e"
    "map_find (n, d, m) e < n - 1 \<Longrightarrow> e < m ! nat (map_find (n, d, m) e + 1)"
    by (auto simp: map_find_def)
qed

lemma map_holds_le:
  assumes "map_valid (n, d, m)" "0 \<le> b" "b < n" "0 \<le> c" "c < n" "map_first (n, d, m) b \<le> e" "e' \<le> map_final (n, d, m) c" "e \<le> e'"
  shows "b \<le> c"
proof (rule ccontr)
  assume "\<not> b \<le> c"
  then have "m ! nat (c + 1) \<le> m ! nat b" "c \<noteq> n - 1"
    using map_valid_entry(1) [OF assms(1), of "c + 1" b] assms by auto
  then show False using assms by (simp add: map_first_def map_final_def)
qed

lemma map_find_holds:
  assumes "map_valid (n, d, m)" "1 \<le> e" "e \<le> d"
  shows "map_first (n, d, m) (map_find (n, d, m) e) \<le> e" "e \<le> map_final (n, d, m) (map_find (n, d, m) e)"
  using map_find_spec [OF assms] assms by (auto simp: map_first_def map_final_def)

interpretation mp: partition map_valid map_extent map_count map_find map_first map_final
proof unfold_locales
  fix a :: "int \<times> int \<times> int list" and e e' b
  obtain n d m where a: "a = (n, d, m)" by (cases a) auto
  note [simp] = map_extent_def map_count_def
  assume v: "map_valid a"
  show "1 \<le> map_extent a" using v a by (simp add: map_valid_def)
  show "0 \<le> map_find a e \<and> map_find a e < map_count a" if "1 \<le> e" "e \<le> map_extent a"
    using map_find_spec [of n d m e] v a that by simp
  show "map_first a (map_find a e) \<le> e \<and> e \<le> map_final a (map_find a e)" if "1 \<le> e" "e \<le> map_extent a"
    using map_find_holds [of n d m e] v a that by simp
  show "b = map_find a e" if "0 \<le> b" "b < map_count a" "map_first a b \<le> e" "e \<le> map_final a b" "1 \<le> e" "e \<le> map_extent a"
    using map_find_holds [of n d m e] map_find_spec [of n d m e] map_holds_le [of n d m b "map_find a e" e e]
      map_holds_le [of n d m "map_find a e" b e e] v a that by simp
  show "1 \<le> map_first a b \<and> map_final a b \<le> map_extent a" if "0 \<le> b" "b < map_count a"
    using map_valid_entry [of n d m b b] map_valid_entry [of n d m "b + 1" "b + 1"] v a that
    by (auto simp: map_first_def map_final_def)
  show "map_find a e \<le> map_find a e'" if "1 \<le> e" "e \<le> e'" "e' \<le> map_extent a"
    using map_find_holds [of n d m e] map_find_holds [of n d m e'] map_find_spec [of n d m e] map_find_spec [of n d m e']
      map_holds_le [of n d m "map_find a e" "map_find a e'" e e'] v a that by simp
qed

section \<open>Fixed blocks\<close>

text \<open>An axis with blocks of a fixed size: the size and the dimension.\<close>

definition blk_valid :: "int \<times> int \<Rightarrow> bool" where
  "blk_valid = (\<lambda>(b, d). 0 < b \<and> 0 < d)"

definition blk_extent :: "int \<times> int \<Rightarrow> int" where
  "blk_extent = (\<lambda>(b, d). d)"

definition blk_count :: "int \<times> int \<Rightarrow> int" where
  "blk_count = (\<lambda>(b, d). count_blocks d b)"

definition blk_find :: "int \<times> int \<Rightarrow> int \<Rightarrow> int" where
  "blk_find = (\<lambda>(b, d) e. cdiv (e - 1) b)"

definition blk_first :: "int \<times> int \<Rightarrow> int \<Rightarrow> int" where
  "blk_first = (\<lambda>(b, d) i. i * b + 1)"

definition blk_final :: "int \<times> int \<Rightarrow> int \<Rightarrow> int" where
  "blk_final = (\<lambda>(b, d) i. if (i + 1) * b > d then d else (i + 1) * b)"

lemma count_blocks_div: "0 < b \<Longrightarrow> 0 < d \<Longrightarrow> count_blocks d b = (d - 1) div b + 1"
proof -
  assume b: "0 < b" "0 < d"
  have d: "d = b * (d div b) + d mod b" "0 \<le> d mod b" "d mod b < b" using b by simp_all
  show ?thesis
  proof (cases "d mod b = 0")
    case True
    have "(d - 1) div b = d div b - 1"
      using d(1) True b by (intro int_div_pos_eq [of _ _ _ "b - 1"]) (auto simp: algebra_simps)
    then show ?thesis using True b by (simp add: count_blocks_def Let_def)
  next
    case False
    have r: "0 \<le> d mod b - 1" "d mod b - 1 < b" using d(2,3) False by linarith+
    have "d - 1 = b * (d div b) + (d mod b - 1)" using d(1) by linarith
    then have "(d - 1) div b = d div b" using int_div_pos_eq r by blast
    then show ?thesis using False b by (simp add: count_blocks_def Let_def)
  qed
qed

lemma div_block: "0 < b \<Longrightarrow> (x :: int) div b * b \<le> x \<and> x < (x div b + 1) * b"
  by (metis add.commute div_mult_mod_eq distrib_right le_add_same_cancel1 mult_1 add_strict_left_mono pos_mod_bound pos_mod_sign)

lemma in_block_iff: "0 < b \<Longrightarrow> i * b \<le> x \<and> x < (i + 1) * b \<longleftrightarrow> x div b = i" for x :: int
proof
  assume b: "0 < b" and "i * b \<le> x \<and> x < (i + 1) * b"
  then show "x div b = i" by (intro int_div_pos_eq [of _ _ _ "x - i * b"]) (auto simp: algebra_simps)
qed (use div_block in auto)

interpretation bk: partition blk_valid blk_extent blk_count blk_find blk_first blk_final
proof unfold_locales
  fix a :: "int \<times> int" and e e' i
  obtain b d where a: "a = (b, d)" by (cases a) auto
  assume "blk_valid a"
  then have v: "0 < b" "0 < d" using a by (auto simp: blk_valid_def)
  note [simp] = a blk_extent_def blk_count_def blk_find_def blk_first_def blk_final_def count_blocks_div [OF v]
  show "1 \<le> blk_extent a" using v by simp
  show "0 \<le> blk_find a e \<and> blk_find a e < blk_count a" if "1 \<le> e" "e \<le> blk_extent a"
    using v that zdiv_mono1 [of "e - 1" "d - 1" b] by (simp add: pos_imp_zdiv_nonneg_iff)
  show "blk_first a (blk_find a e) \<le> e \<and> e \<le> blk_final a (blk_find a e)" if "1 \<le> e" "e \<le> blk_extent a"
    using v that div_block [of b "e - 1"] by auto
  show "i = blk_find a e" if "0 \<le> i" "i < blk_count a" "blk_first a i \<le> e" "e \<le> blk_final a i" "1 \<le> e" "e \<le> blk_extent a"
    using v that in_block_iff [of b i "e - 1"] by (auto split: if_splits)
  show "1 \<le> blk_first a i \<and> blk_final a i \<le> blk_extent a" if "0 \<le> i" "i < blk_count a"
    using v that by auto
  show "blk_find a e \<le> blk_find a e'" if "1 \<le> e" "e \<le> e'" "e' \<le> blk_extent a"
    using v that zdiv_mono1 [of "e - 1" "e' - 1" b] by simp
qed

end
