(* ===== verification/GA_Region.thy ===== *)
theory GA_Region
  imports GA_Partition
begin

text \<open>
  The loops of the region routines: the loop of \<open>ga_InitLoopM\<close> and \<open>ga_UpdateSubscriptM\<close> goes through
  every subscript of a patch exactly once, and the counter of the block-cyclic branches goes through the
  same subscripts.
\<close>

section \<open>Loops over a patch\<close>

definition sizes :: "int list \<Rightarrow> int list \<Rightarrow> int list" where
  "sizes lo hi = map2 (\<lambda>l h. h - l + 1) lo hi"

definition shift :: "int list \<Rightarrow> int list \<Rightarrow> int list" where
  "shift lo ss = map2 (\<lambda>l s. s - l) lo ss"

lemma shift_simps [simp]: "shift (l # lo) (s # ss) = (s - l) # shift lo ss" "shift [] ss = []" "shift lo [] = []"
  by (simp_all add: shift_def)

lemma sizes_simps [simp]: "sizes (l # lo) (h # hi) = (h - l + 1) # sizes lo hi" "sizes [] hi = []" "sizes lo [] = []"
  by (simp_all add: sizes_def)

lemma in_grid_shift: "in_patch lo hi ss \<Longrightarrow> in_grid (sizes lo hi) (shift lo ss)"
  by (induction lo hi ss rule: in_patch.induct) auto

lemma sizes_ok: "in_patch lo hi ss \<Longrightarrow> grid_ok (sizes lo hi)"
  by (induction lo hi ss rule: in_patch.induct) auto

lemma shift_inj: "length ss = length lo \<Longrightarrow> length ss' = length lo \<Longrightarrow> shift lo ss = shift lo ss' \<Longrightarrow> ss = ss'"
proof (induction lo arbitrary: ss ss')
  case (Cons l lo)
  then obtain s t s' t' where "ss = s # t" "ss' = s' # t'" by (metis length_Suc_conv)
  then show ?case using Cons by simp
qed simp

lemma pos_bound': "in_patch lo hi ss \<Longrightarrow>
  0 \<le> pos (sizes lo hi) (shift lo ss) \<and> pos (sizes lo hi) (shift lo ss) < prod_list (sizes lo hi)"
  by (intro pos_bound sizes_ok in_grid_shift)

lemma update_pos:
  "in_patch lo hi ss \<Longrightarrow> in_patch lo hi (ga_UpdateSubscriptM ss lo hi) \<and>
   pos (sizes lo hi) (shift lo (ga_UpdateSubscriptM ss lo hi)) =
     (if pos (sizes lo hi) (shift lo ss) + 1 = prod_list (sizes lo hi) then 0
      else pos (sizes lo hi) (shift lo ss) + 1)"
proof (induction lo hi ss rule: in_patch.induct)
  case (1 l lo h hi s ss)
  let ?n = "h - l + 1" and ?p = "pos (sizes lo hi) (shift lo ss)" and ?t = "prod_list (sizes lo hi)"
  have b: "l \<le> s" "s \<le> h" "in_patch lo hi ss" using 1(2) by auto
  have p: "0 \<le> ?p" "?p + 1 \<le> ?t" using pos_bound' [OF b(3)] by auto
  have le: "?n * (?p + 1) \<le> ?n * ?t" using p b by (intro mult_left_mono) auto
  show ?case
  proof (cases "s < h")
    case True
    then have "s - l + ?n * ?p + 1 \<noteq> ?n * ?t" using le by (simp add: distrib_left)
    then show ?thesis using True b by simp
  next
    case False
    then have s: "s = h" using b by simp
    have "?p + 1 = ?t \<longleftrightarrow> s - l + ?n * ?p + 1 = ?n * ?t"
    proof -
      have "s - l + ?n * ?p + 1 = ?n * (?p + 1)" using s by (simp add: distrib_left)
      then show ?thesis using b by simp
    qed
    then show ?thesis using 1(1) [OF b(3)] b s by (auto simp: distrib_left)
  qed
qed auto

lemma loop_positions:
  "in_patch lo hi ss \<Longrightarrow> pos (sizes lo hi) (shift lo ss) + int k \<le> prod_list (sizes lo hi) \<Longrightarrow>
   (\<forall>s\<in>set (loop_subscripts k ss lo hi). in_patch lo hi s) \<and>
   map (\<lambda>s. pos (sizes lo hi) (shift lo s)) (loop_subscripts k ss lo hi) =
     map (\<lambda>i. pos (sizes lo hi) (shift lo ss) + int i) [0..<k]"
proof (induction k arbitrary: ss)
  case (Suc k)
  show ?case
  proof (cases k)
    case 0
    then show ?thesis using Suc.prems by simp
  next
    case (Suc j)
    let ?p = "pos (sizes lo hi) (shift lo ss)" and ?u = "ga_UpdateSubscriptM ss lo hi"
    have u: "in_patch lo hi ?u" "pos (sizes lo hi) (shift lo ?u) = ?p + 1"
      using update_pos [OF Suc.prems(1)] Suc.prems(2) Suc by (auto split: if_splits)
    have "map (\<lambda>i. ?p + int i) [0..<Suc k] = ?p # map (\<lambda>i. ?p + 1 + int i) [0..<k]"
      by (simp add: upt_conv_Cons map_Suc_upt [symmetric] del: upt_Suc)
    then show ?thesis using Suc.IH [OF u(1)] u Suc.prems by (simp add: add.assoc del: upt_Suc)
  qed
qed simp

lemma sizes_prod_pos: "in_patch lo hi lo \<Longrightarrow> 0 < prod_list (sizes lo hi)"
  using sizes_ok grid_prod_pos by blast

lemma pos_shift_self: "pos ns (shift lo lo) = 0"
proof (induction lo arbitrary: ns)
  case (Cons l lo)
  then show ?case by (cases ns) auto
qed (cases ns, simp_all)

lemma pos_inj:
  assumes "in_patch lo hi t" "in_patch lo hi s" "pos (sizes lo hi) (shift lo t) = pos (sizes lo hi) (shift lo s)"
  shows "t = s"
proof -
  have "shift lo t = gam_find_proc_indices (sizes lo hi) (pos (sizes lo hi) (shift lo t))"
    "shift lo s = gam_find_proc_indices (sizes lo hi) (pos (sizes lo hi) (shift lo s))"
    using assms(1,2) by (simp_all add: proc_indices_of_pos sizes_ok in_grid_shift)
  then have "shift lo t = shift lo s" using assms(3) by simp
  then show ?thesis
    using in_patch_lengths [OF assms(1)] in_patch_lengths [OF assms(2)] by (intro shift_inj [of t lo s]) auto
qed

text \<open>The loop visits the subscripts of the patch, each of them once.\<close>

lemma loop_enumerates:
  assumes "in_patch lo hi lo" "(elems, subscript) = ga_InitLoopM lo hi"
  shows "distinct (loop_subscripts (nat elems) subscript lo hi)"
    "set (loop_subscripts (nat elems) subscript lo hi) = {s. in_patch lo hi s}"
proof -
  let ?f = "\<lambda>s. pos (sizes lo hi) (shift lo s)" and ?l = "loop_subscripts (nat elems) subscript lo hi"
  have e: "elems = prod_list (sizes lo hi)" "subscript = lo" using assms(2) by (auto simp: ga_InitLoopM_def sizes_def)
  have l: "\<forall>s\<in>set ?l. in_patch lo hi s" "map ?f ?l = map int [0..<nat elems]"
    using loop_positions [OF assms(1), of "nat elems"] sizes_prod_pos [OF assms(1)] e by (auto simp: pos_shift_self)
  show "distinct ?l" using l(2) by (metis distinct_map distinct_upt inj_on_of_nat)
  have "s \<in> set ?l" if "in_patch lo hi s" for s
  proof -
    have "0 \<le> ?f s \<and> ?f s < elems" using pos_bound' [OF that] e by simp
    then have "?f s \<in> set (map int [0..<nat elems])" by (auto intro!: image_eqI [of _ _ "nat (?f s)"])
    then have "?f s \<in> ?f ` set ?l" unfolding l(2) [symmetric] by simp
    then obtain t where t: "t \<in> set ?l" "?f t = ?f s" by (metis (no_types, lifting) imageE)
    then have "in_patch lo hi t" using l(1) by blast
    then have "t = s" using pos_inj [OF _ that] t(2) by blast
    then show ?thesis using t by simp
  qed
  then show "set ?l = {s. in_patch lo hi s}" using l(1) by auto
qed

section \<open>The counter of the block-cyclic branches\<close>

definition counter :: "int list \<Rightarrow> int list \<Rightarrow> int list \<Rightarrow> (int \<times> int \<times> int) list" where
  "counter c mn mx = zip c (zip mn mx)"

lemma counter_simps [simp]:
  "counter (c # cs) (n # ns) (x # xs) = (c, n, x) # counter cs ns xs" "counter [] ns xs = []"
  by (simp_all add: counter_def)

lemma counter_map_fst: "length cs = length ns \<Longrightarrow> length ns = length xs \<Longrightarrow> map fst (counter cs ns xs) = cs"
  by (simp add: counter_def)

text \<open>Before the end the counter takes the same step as the loop.\<close>

lemma bump_update:
  "in_patch ns xs cs \<Longrightarrow> pos (sizes ns xs) (shift ns cs) + 1 < prod_list (sizes ns xs) \<Longrightarrow>
   bump (counter cs ns xs) = counter (ga_UpdateSubscriptM cs ns xs) ns xs"
proof (induction ns xs cs rule: in_patch.induct)
  case (1 n ns x xs c cs)
  have b: "n \<le> c" "c \<le> x" "in_patch ns xs cs" using 1(2) by auto
  show ?case
  proof (cases cs)
    case Nil
    then have e: "ns = []" "xs = []" using in_patch_lengths [OF b(3)] by auto
    then show ?thesis using 1(3) Nil b by simp
  next
    case (Cons c' cs')
    then obtain n' ns' x' xs' where e: "ns = n' # ns'" "xs = x' # xs'"
      using in_patch_lengths [OF b(3)] by (metis length_Suc_conv)
    show ?thesis
    proof (cases "c < x")
      case True
      then show ?thesis using e Cons by simp
    next
      case False
      then have c: "c = x" using b by simp
      let ?p = "pos (sizes ns xs) (shift ns cs)" and ?t = "prod_list (sizes ns xs)"
      have "(x - n + 1) * (?p + 1) < (x - n + 1) * ?t" using 1(3) c by (simp add: distrib_left)
      then have "?p + 1 < ?t" using b by (simp add: mult_less_cancel_left_pos)
      then show ?thesis using 1(1) [OF b(3)] c e Cons by simp
    qed
  qed
qed auto

text \<open>At the last subscript the increment leaves the last axis above its maximum, which ends the loop.\<close>

lemma bump_end:
  "in_patch ns xs cs \<Longrightarrow> cs \<noteq> [] \<Longrightarrow> pos (sizes ns xs) (shift ns cs) + 1 = prod_list (sizes ns xs) \<Longrightarrow>
   bump (counter cs ns xs) \<noteq> [] \<and>
   fst (last (bump (counter cs ns xs))) > snd (snd (last (bump (counter cs ns xs))))"
proof (induction ns xs cs rule: in_patch.induct)
  case (1 n ns x xs c cs)
  have b: "n \<le> c" "c \<le> x" "in_patch ns xs cs" using 1(2) by auto
  let ?p = "pos (sizes ns xs) (shift ns cs)" and ?t = "prod_list (sizes ns xs)"
  show ?case
  proof (cases cs)
    case Nil
    then have "ns = []" "xs = []" using in_patch_lengths [OF b(3)] by auto
    then show ?thesis using 1(4) Nil b by simp
  next
    case (Cons c' cs')
    then obtain n' ns' x' xs' where e: "ns = n' # ns'" "xs = x' # xs'"
      using in_patch_lengths [OF b(3)] by (metis length_Suc_conv)
    have p: "?p + 1 \<le> ?t" using pos_bound' [OF b(3)] by simp
    have eq: "c - n + (x - n + 1) * ?p + 1 = (x - n + 1) * ?t" using 1(4) by simp
    have "(x - n + 1) * (?p + 1) \<le> (x - n + 1) * ?t" using p b by (intro mult_left_mono) auto
    then have c: "c = x" using eq b by (simp add: distrib_left)
    then have "(x - n + 1) * (?p + 1) = (x - n + 1) * ?t" using eq by (simp add: distrib_left)
    then have "?p + 1 = ?t" using b by simp
    then have "bump (counter cs ns xs) \<noteq> []" "fst (last (bump (counter cs ns xs))) > snd (snd (last (bump (counter cs ns xs))))"
      using 1(1) [OF b(3)] Cons by simp_all
    then show ?thesis using c e Cons by simp
  qed
qed auto

lemma last_counter:
  "in_patch ns xs cs \<Longrightarrow> cs \<noteq> [] \<Longrightarrow> counter cs ns xs \<noteq> [] \<and> fst (last (counter cs ns xs)) \<le> snd (snd (last (counter cs ns xs)))"
proof (induction ns xs cs rule: in_patch.induct)
  case (1 n ns x xs c cs)
  then show ?case by (cases cs) (use in_patch_lengths in \<open>force+\<close>)
qed auto

lemma counts_loop:
  assumes "in_patch ns xs cs" "cs \<noteq> []" "pos (sizes ns xs) (shift ns cs) + int (Suc k) = prod_list (sizes ns xs)"
  shows "block_counts (counter cs ns xs) = loop_subscripts (Suc k) cs ns xs"
  using assms
proof (induction k arbitrary: cs)
  case 0
  have e: "length cs = length ns" "length ns = length xs" using in_patch_lengths [OF 0(1)] by auto
  have "block_counts (bump (counter cs ns xs)) = []"
    using bump_end [OF 0(1,2)] 0(3) by (subst block_counts.simps) auto
  then show ?case using last_counter [OF 0(1,2)] by (subst block_counts.simps) (simp add: counter_map_fst e)
next
  case (Suc k)
  have e: "length cs = length ns" "length ns = length xs" using in_patch_lengths [OF Suc(2)] by auto
  let ?u = "ga_UpdateSubscriptM cs ns xs"
  have u: "in_patch ns xs ?u" "pos (sizes ns xs) (shift ns ?u) + int (Suc k) = prod_list (sizes ns xs)"
    using update_pos [OF Suc(2)] Suc(4) by (auto split: if_splits)
  have "?u \<noteq> []" using in_patch_lengths [OF u(1)] e Suc(3) by auto
  then have "block_counts (counter ?u ns xs) = loop_subscripts (Suc k) ?u ns xs" using Suc.IH u by simp
  moreover have "bump (counter cs ns xs) = counter ?u ns xs" using Suc(2,4) by (intro bump_update) auto
  ultimately show ?case
    using last_counter [OF Suc(2,3)] by (subst block_counts.simps) (simp add: counter_map_fst e)
qed

lemma counts_enumerate:
  assumes "in_patch ns xs ns" "ns \<noteq> []"
  shows "distinct (block_counts (zip ns (zip ns xs)))" "set (block_counts (zip ns (zip ns xs))) = {s. in_patch ns xs s}"
proof -
  let ?k = "nat (prod_list (sizes ns xs))"
  have "0 < prod_list (sizes ns xs)" using sizes_prod_pos [OF assms(1)] .
  then have k: "?k = Suc (?k - 1)" "pos (sizes ns xs) (shift ns ns) + int (Suc (?k - 1)) = prod_list (sizes ns xs)"
    by (simp_all add: pos_shift_self)
  have "block_counts (zip ns (zip ns xs)) = loop_subscripts ?k ns ns xs"
    using counts_loop [OF assms k(2)] k(1) by (simp add: counter_def)
  moreover have "(prod_list (sizes ns xs), ns) = ga_InitLoopM ns xs" by (simp add: ga_InitLoopM_def sizes_def)
  ultimately show "distinct (block_counts (zip ns (zip ns xs)))"
    "set (block_counts (zip ns (zip ns xs))) = {s. in_patch ns xs s}"
    using loop_enumerates [OF assms(1)] by metis+
qed

end
