(* ===== verification/GA_Owner.thy ===== *)
theory GA_Owner
  imports GA_Region
begin

text \<open>
  The routines of \<open>GA_Locate\<close> in terms of the partitions of \<open>GA_Partition\<close>: what an array descriptor has to
  satisfy, and what the blocks, the owner of an element and the pieces of a patch are then.
\<close>

section \<open>Well-formed descriptors\<close>

fun axes_of :: "int list \<Rightarrow> int list \<Rightarrow> int list \<Rightarrow> (int \<times> int \<times> int list) list" where
  "axes_of (n # ns) (d # ds) m = (n, d, m) # axes_of ns ds (drop (nat n) m)"
| "axes_of _ _ _ = []"

text \<open>The map of an array: its axes partition the dimensions, and the scales belong to it.\<close>

definition mapped :: "global_array_t \<Rightarrow> int list \<Rightarrow> bool" where
  "mapped a nb \<longleftrightarrow> dims a \<noteq> [] \<and> length nb = length (dims a) \<and> scale a = map2 axis_scale nb (dims a) \<and>
     mapc a \<noteq> None \<and> list_all map_valid (axes_of nb (dims a) (the (mapc a)))"

definition regular_ok :: "global_array_t \<Rightarrow> bool" where
  "regular_ok a \<longleftrightarrow> distr_type a = REGULAR \<and> mapped a (nblock a)"

definition tiled_irreg_ok :: "global_array_t \<Rightarrow> bool" where
  "tiled_irreg_ok a \<longleftrightarrow> distr_type a = TILED_IRREG \<and> mapped a (num_blocks a) \<and>
     block_total a = prod_list (num_blocks a) \<and> block_total a \<le> 2147483648"

definition blocks_ok :: "global_array_t \<Rightarrow> bool" where
  "blocks_ok a \<longleftrightarrow> (distr_type a = BLOCK_CYCLIC \<or> distr_type a = SCALAPACK \<or> distr_type a = TILED) \<and>
     dims a \<noteq> [] \<and> length (block_dims a) = length (dims a) \<and> list_all blk_valid (zip (block_dims a) (dims a)) \<and>
     num_blocks a = map2 count_blocks (dims a) (block_dims a) \<and>
     block_total a = prod_list (num_blocks a) \<and> block_total a \<le> 2147483648"

text \<open>The list of a restricted array and the ranks are inverse to each other.\<close>

definition ranks_ok :: "int list \<Rightarrow> int list \<Rightarrow> bool" where
  "ranks_ok l r \<longleftrightarrow>
     (\<forall>i<length l. 0 \<le> l ! i \<and> l ! i < int (length r) \<and> r ! nat (l ! i) = int i) \<and>
     (\<forall>p<length r. r ! p = -1 \<or> 0 \<le> r ! p \<and> r ! p < int (length l) \<and> l ! nat (r ! p) = int p)"

definition restricted_ok :: "global_array_t \<Rightarrow> bool" where
  "restricted_ok a \<longleftrightarrow> num_rstrctd a = 0 \<or>
     num_rstrctd a > 0 \<and> prod_list (nblock a) \<le> num_rstrctd a \<and>
     rstrctd_list a \<noteq> None \<and> rank_rstrctd a \<noteq> None \<and> num_rstrctd a = int (length (the (rstrctd_list a))) \<and>
     ranks_ok (the (rstrctd_list a)) (the (rank_rstrctd a))"

text \<open>A process that \<open>pnga_distribution\<close> may be asked about.\<close>

definition known_proc :: "global_array_t \<Rightarrow> int \<Rightarrow> bool" where
  "known_proc a p \<longleftrightarrow> num_rstrctd a > 0 \<longrightarrow> 0 \<le> p \<and> p < int (length (the (rank_rstrctd a)))"

definition ga_active :: "ga_state \<Rightarrow> int \<Rightarrow> bool" where
  "ga_active st g_a \<longleftrightarrow> 0 \<le> GA_OFFSET + g_a \<and> GA_OFFSET + g_a < int (length (GA st)) \<and> actv (ga st g_a) \<noteq> 0"

definition subscript_of :: "global_array_t \<Rightarrow> int list \<Rightarrow> bool" where
  "subscript_of a ss \<longleftrightarrow> in_patch (replicate (length (dims a)) 1) (dims a) ss"

lemma check_handle_active [simp]: "ga_active st g_a \<Longrightarrow> ga_check_handleM st g_a s = None"
  by (simp add: ga_active_def ga_check_handleM_def)

section \<open>Axes\<close>

lemma axes_length: "length ns = length ds \<Longrightarrow> length (axes_of ns ds m) = length ds"
  by (induction ns ds m rule: axes_of.induct) auto

lemma axes_extent: "length ns = length ds \<Longrightarrow> map map_extent (axes_of ns ds m) = ds"
  by (induction ns ds m rule: axes_of.induct) (auto simp: map_extent_def)

lemma axes_count: "length ns = length ds \<Longrightarrow> map map_count (axes_of ns ds m) = ns"
  by (induction ns ds m rule: axes_of.induct) (auto simp: map_count_def)

lemma find_axes_map_find:
  "length ns = length ds \<Longrightarrow> find_axes ns (map2 axis_scale ns ds) m ss = map2 map_find (axes_of ns ds m) ss"
proof (induction ns ds m arbitrary: ss rule: axes_of.induct)
  case (1 n ns d ds m)
  then show ?case by (cases ss) (auto simp: map_find_def)
qed auto

lemma owns_axes_map:
  "length ns = length ds \<Longrightarrow> grid_ok ns \<Longrightarrow> 0 \<le> k \<Longrightarrow>
   owns_axes ns ds m k =
   map2 (\<lambda>a i. (map_first a i, map_final a i)) (axes_of ns ds m) (gam_find_proc_indices ns k)"
proof (induction ns ds m k rule: owns_axes.induct)
  case (1 n ns d ds m k)
  have n: "0 < n" "0 \<le> k" using 1(3,4) by auto
  have "cdiv (k - k mod n) n = k div n"
    using n by (simp add: minus_mod_eq_mult_div pos_imp_zdiv_nonneg_iff)
  then show ?case using 1 n by (simp add: Let_def map_first_def map_final_def pos_imp_zdiv_nonneg_iff)
qed auto

lemma irreg_block_map:
  "length ns = length ds \<Longrightarrow> in_grid ns is \<Longrightarrow>
   irreg_block ns ds m is = map2 (\<lambda>a i. (map_first a i, map_final a i)) (axes_of ns ds m) is"
  by (induction ns ds m "is" rule: irreg_block.induct) (auto simp: map_first_def map_final_def in_grid_def)

lemma map2_axes [simp]: "length ns = length ds \<Longrightarrow> length (map2 f (axes_of ns ds m) ss) = min (length ds) (length ss)"
  by (simp add: axes_length)

section \<open>Mapped arrays\<close>

definition array_axes :: "global_array_t \<Rightarrow> int list \<Rightarrow> (int \<times> int \<times> int list) list" where
  "array_axes a nb = axes_of nb (dims a) (the (mapc a))"

text \<open>The number of the block of an element of a mapped array.\<close>

definition map_owner :: "global_array_t \<Rightarrow> int list \<Rightarrow> int list \<Rightarrow> int" where
  "map_owner a nb ss = pos nb (map2 map_find (array_axes a nb) ss)"

definition map_block :: "global_array_t \<Rightarrow> int list \<Rightarrow> int \<Rightarrow> int list \<times> int list" where
  "map_block a nb k =
     (map2 map_first (array_axes a nb) (gam_find_proc_indices nb k),
      map2 map_final (array_axes a nb) (gam_find_proc_indices nb k))"

lemma mapped_axes:
  assumes "mapped a nb"
  shows "list_all map_valid (array_axes a nb)" "map map_count (array_axes a nb) = nb"
    "map map_extent (array_axes a nb) = dims a" "length (array_axes a nb) = length (dims a)"
    "length nb = length (dims a)" "grid_ok nb"
proof -
  have l: "length nb = length (dims a)" using assms by (simp add: mapped_def)
  show v: "list_all map_valid (array_axes a nb)" using assms by (simp add: mapped_def array_axes_def)
  show c: "map map_count (array_axes a nb) = nb" "map map_extent (array_axes a nb) = dims a"
    "length (array_axes a nb) = length (dims a)" "length nb = length (dims a)"
    using l by (simp_all add: array_axes_def axes_count axes_extent axes_length)
  show "grid_ok nb" using mp.counts_ok [OF v] c(1) by simp
qed

lemma mapped_find: "mapped a nb \<Longrightarrow> find_axes nb (scale a) (the (mapc a)) ss = map2 map_find (array_axes a nb) ss"
  by (simp add: mapped_def array_axes_def find_axes_map_find)

lemma map_owner_range:
  assumes "mapped a nb" "subscript_of a ss"
  shows "0 \<le> map_owner a nb ss" "map_owner a nb ss < prod_list nb" "in_grid nb (map2 map_find (array_axes a nb) ss)"
proof -
  show g: "in_grid nb (map2 map_find (array_axes a nb) ss)"
    using mp.found_in_grid [of "array_axes a nb" ss] mapped_axes [OF assms(1)] assms(2) by (simp add: subscript_of_def)
  show "0 \<le> map_owner a nb ss" "map_owner a nb ss < prod_list nb"
    using pos_bound [OF mapped_axes(6) [OF assms(1)] g] by (simp_all add: map_owner_def)
qed

lemma map_block_iff:
  assumes "mapped a nb" "subscript_of a ss" "0 \<le> k" "k < prod_list nb"
  shows "in_patch (fst (map_block a nb k)) (snd (map_block a nb k)) ss \<longleftrightarrow> k = map_owner a nb ss"
  using mp.owner_iff [of "array_axes a nb" ss k] mapped_axes [OF assms(1)] assms(2-4)
  by (simp add: subscript_of_def map_block_def map_owner_def)

lemma map_block_lengths:
  "mapped a nb \<Longrightarrow> 0 \<le> k \<Longrightarrow> k < prod_list nb \<Longrightarrow>
   length (fst (map_block a nb k)) = length (dims a) \<and> length (snd (map_block a nb k)) = length (dims a)"
  using mapped_axes [of a nb] proc_indices_pos [of nb k] in_grid_length [of nb] by (simp add: map_block_def)

lemma map_block_inside:
  assumes "mapped a nb" "0 \<le> k" "k < prod_list nb" "in_patch (fst (map_block a nb k)) (snd (map_block a nb k)) ss"
  shows "subscript_of a ss"
  using mp.blocks_inside [of "array_axes a nb" "gam_find_proc_indices nb k" ss] mapped_axes [OF assms(1)]
    proc_indices_pos [of nb k] assms(2-4) by (simp add: subscript_of_def map_block_def)

lemma owns_no_handle_map:
  "mapped a nb \<Longrightarrow> 0 \<le> k \<Longrightarrow> k < prod_list nb \<Longrightarrow>
   ga_ownsM_no_handle (dims a) nb (the (mapc a)) k = map_block a nb k"
  using mapped_axes [of a nb]
  by (simp add: ga_ownsM_no_handle_def Let_def owns_axes_map map_block_def array_axes_def case_prod_unfold)

lemma owns_no_handle_outside:
  "mapped a nb \<Longrightarrow> \<not> (0 \<le> k \<and> k < prod_list nb) \<Longrightarrow>
   \<not> in_patch (fst (ga_ownsM_no_handle (dims a) nb (the (mapc a)) k)) (snd (ga_ownsM_no_handle (dims a) nb (the (mapc a)) k)) ss"
  by (cases ss; cases "dims a") (auto simp: ga_ownsM_no_handle_def no_block_def mapped_def)

section \<open>Regular arrays\<close>

lemma regular_block:
  assumes "regular_ok a" "restricted_ok a" "0 \<le> k" "k < prod_list (nblock a)"
  shows "ga_ownsM a k = map_block a (nblock a) k"
  using assms owns_no_handle_map [of a "nblock a" k]
  by (auto simp: ga_ownsM_def regular_ok_def restricted_ok_def)

lemma regular_block_iff:
  assumes "regular_ok a" "restricted_ok a" "subscript_of a ss"
  shows "in_patch (fst (ga_ownsM a k)) (snd (ga_ownsM a k)) ss \<longleftrightarrow> k = map_owner a (nblock a) ss"
proof (cases "0 \<le> k \<and> k < prod_list (nblock a)")
  case True
  then show ?thesis using regular_block assms map_block_iff by (simp add: regular_ok_def)
next
  case False
  have m: "mapped a (nblock a)" using assms by (simp add: regular_ok_def)
  have "\<not> in_patch (fst (ga_ownsM a k)) (snd (ga_ownsM a k)) ss"
    using assms(1) owns_no_handle_outside [OF m False, of ss] m
    by (cases ss; cases "dims a") (auto simp: ga_ownsM_def regular_ok_def no_block_def mapped_def)
  then show ?thesis using False map_owner_range [OF m assms(3)] by auto
qed

text \<open>The process that holds the block \<open>k\<close> of a regular array.\<close>

definition proc_of :: "global_array_t \<Rightarrow> int \<Rightarrow> int" where
  "proc_of a k = (if num_rstrctd a > 0 then the (rstrctd_list a) ! nat k else k)"

lemma proc_of_known:
  "restricted_ok a \<Longrightarrow> 0 \<le> k \<Longrightarrow> k < prod_list (nblock a) \<Longrightarrow> known_proc a (proc_of a k)"
  by (auto simp: restricted_ok_def known_proc_def proc_of_def ranks_ok_def)

lemma proc_of_rank:
  assumes "restricted_ok a" "known_proc a p" "0 \<le> k" "k < prod_list (nblock a)"
  shows "(if num_rstrctd a > 0 then the (rank_rstrctd a) ! nat p else p) = k \<longleftrightarrow> p = proc_of a k"
proof (cases "num_rstrctd a > 0")
  case True
  then have r: "ranks_ok (the (rstrctd_list a)) (the (rank_rstrctd a))" "k < int (length (the (rstrctd_list a)))"
    "0 \<le> p" "p < int (length (the (rank_rstrctd a)))"
    using assms by (auto simp: restricted_ok_def known_proc_def)
  have "the (rank_rstrctd a) ! nat (the (rstrctd_list a) ! nat k) = k"
    using r(1,2) assms(3) by (auto simp: ranks_ok_def dest!: spec [of _ "nat k"])
  moreover have "the (rstrctd_list a) ! nat (the (rank_rstrctd a) ! nat p) = p" if "the (rank_rstrctd a) ! nat p = k"
    using r that assms(3) by (auto simp: ranks_ok_def dest!: spec [of _ "nat p"])
  ultimately show ?thesis using True by (auto simp: proc_of_def)
qed (simp add: proc_of_def)

lemma locate_regular:
  assumes "ga_active st g_a" "regular_ok (ga st g_a)" "subscript_of (ga st g_a) ss"
  shows "pnga_locate st g_a ss = Inr (True, proc_of (ga st g_a) (map_owner (ga st g_a) (nblock (ga st g_a)) ss))"
proof -
  let ?a = "ga st g_a"
  have m: "mapped ?a (nblock ?a)" using assms(2) by (simp add: regular_ok_def)
  have nb: "\<not> list_ex (\<lambda>(s, d). s < 1 \<or> s > d) (zip ss (dims ?a))"
  proof -
    have "in_patch (replicate (length ds) 1) ds ss \<Longrightarrow> \<not> list_ex (\<lambda>(s, d). s < 1 \<or> s > d) (zip ss ds)" for ds
      by (induction ds arbitrary: ss) (case_tac [!] ss, auto)
    then show ?thesis using assms(3) by (simp add: subscript_of_def)
  qed
  have "ga_ComputeIndexM (map2 map_find (array_axes ?a (nblock ?a)) ss) (nblock ?a) = map_owner ?a (nblock ?a) ss"
    using in_grid_length [OF map_owner_range(3) [OF m assms(3)]] by (simp add: ga_ComputeIndexM_pos map_owner_def)
  then show ?thesis
    using assms nb mapped_find [OF m] by (simp add: pnga_locate_def regular_ok_def Let_def proc_of_def)
qed

lemma locate_outside:
  assumes "ga_active st g_a" "distr_type (ga st g_a) = REGULAR" "length ss = length (dims (ga st g_a))"
    "\<not> subscript_of (ga st g_a) ss"
  shows "pnga_locate st g_a ss = Inr (False, -1)"
proof -
  have "length ss = length ds \<Longrightarrow> \<not> in_patch (replicate (length ds) 1) ds ss \<Longrightarrow>
    list_ex (\<lambda>(s, d). s < 1 \<or> s > d) (zip ss ds)" for ds :: "int list"
    by (induction ds arbitrary: ss) (case_tac [!] ss, auto)
  then show ?thesis using assms by (simp add: pnga_locate_def subscript_of_def)
qed

lemma distribution_regular:
  assumes "ga_active st g_a" "property (ga st g_a) \<noteq> READ_ONLY"
  shows "pnga_distribution st g_a p =
    Inr (ga_ownsM (ga st g_a) (if num_rstrctd (ga st g_a) > 0 then the (rank_rstrctd (ga st g_a)) ! nat p else p))"
  using assms by (simp add: pnga_distribution_def Let_def)

section \<open>Block-cyclic and tiled arrays\<close>

definition blk_axes :: "global_array_t \<Rightarrow> (int \<times> int) list" where
  "blk_axes a = zip (block_dims a) (dims a)"

definition blk_owner :: "global_array_t \<Rightarrow> int list \<Rightarrow> int" where
  "blk_owner a ss = pos (num_blocks a) (map2 blk_find (blk_axes a) ss)"

lemma blocks_axes:
  assumes "blocks_ok a"
  shows "list_all blk_valid (blk_axes a)" "map blk_count (blk_axes a) = num_blocks a"
    "map blk_extent (blk_axes a) = dims a" "length (blk_axes a) = length (dims a)" "grid_ok (num_blocks a)"
proof -
  show v: "list_all blk_valid (blk_axes a)" using assms by (simp add: blocks_ok_def blk_axes_def)
  have l: "length (block_dims a) = length (dims a)" "num_blocks a = map2 count_blocks (dims a) (block_dims a)"
    using assms by (simp_all add: blocks_ok_def)
  have "length bs = length ds \<Longrightarrow> map blk_count (zip bs ds) = map2 count_blocks ds bs \<and> map blk_extent (zip bs ds) = ds"
    for bs ds :: "int list"
    by (induction bs ds rule: list_induct2) (auto simp: blk_count_def blk_extent_def)
  then show c: "map blk_count (blk_axes a) = num_blocks a" "map blk_extent (blk_axes a) = dims a"
    using l by (simp_all add: blk_axes_def)
  show "length (blk_axes a) = length (dims a)" using l by (simp add: blk_axes_def)
  show "grid_ok (num_blocks a)" using bk.counts_ok [OF v] c(1) by simp
qed

lemma blk_owns:
  assumes "blocks_ok a" "0 \<le> k" "k < block_total a"
  shows "ga_ownsM a k =
    (map2 blk_first (blk_axes a) (gam_find_proc_indices (num_blocks a) k),
     map2 blk_final (blk_axes a) (gam_find_proc_indices (num_blocks a) k))"
proof -
  have "block_total a \<le> 2147483648" using assms(1) unfolding blocks_ok_def by blast
  then have "s32 k = k" using assms(2,3) by (intro s32_id) auto
  then have i: "gam_find_block_indices (num_blocks a) k = gam_find_proc_indices (num_blocks a) k"
    by (simp add: gam_find_block_indices_def)
  have "length bs = length ds \<Longrightarrow>
    map2 (\<lambda>i b. i * b + 1) is bs = map2 blk_first (zip bs ds) is \<and>
    map2 (\<lambda>h d. if h > d then d else h) (map2 (\<lambda>i b. (i + 1) * b) is bs) ds = map2 blk_final (zip bs ds) is"
    for bs ds "is" :: "int list"
  proof (induction bs ds arbitrary: "is" rule: list_induct2)
    case (Cons b bs d ds)
    then show ?case by (cases "is") (auto simp: blk_first_def blk_final_def)
  qed simp
  then show ?thesis using assms i by (auto simp: ga_ownsM_def blocks_ok_def blk_axes_def Let_def)
qed

lemma blk_owner_range:
  assumes "blocks_ok a" "subscript_of a ss"
  shows "0 \<le> blk_owner a ss" "blk_owner a ss < block_total a" "in_grid (num_blocks a) (map2 blk_find (blk_axes a) ss)"
proof -
  show g: "in_grid (num_blocks a) (map2 blk_find (blk_axes a) ss)"
    using bk.found_in_grid [of "blk_axes a" ss] blocks_axes [OF assms(1)] assms(2) by (simp add: subscript_of_def)
  show "0 \<le> blk_owner a ss" "blk_owner a ss < block_total a"
    using pos_bound [OF blocks_axes(5) [OF assms(1)] g] assms(1) by (simp_all add: blk_owner_def blocks_ok_def)
qed

lemma blk_block_iff:
  assumes "blocks_ok a" "subscript_of a ss" "0 \<le> k" "k < block_total a"
  shows "in_patch (fst (ga_ownsM a k)) (snd (ga_ownsM a k)) ss \<longleftrightarrow> k = blk_owner a ss"
proof -
  have "block_total a = prod_list (num_blocks a)" using assms(1) by (simp add: blocks_ok_def)
  then show ?thesis
    using bk.owner_iff [of "blk_axes a" ss k] blocks_axes [OF assms(1)] assms blk_owns [OF assms(1,3,4)]
    by (simp add: subscript_of_def blk_owner_def)
qed

lemma locate_blocks:
  assumes "ga_active st g_a" "blocks_ok (ga st g_a)" "subscript_of (ga st g_a) ss"
  shows "pnga_locate st g_a ss = Inr (True, blk_owner (ga st g_a) ss)"
proof -
  let ?a = "ga st g_a"
  have "length bs = length ds \<Longrightarrow> map2 (\<lambda>s b. cdiv (s - 1) b) ss bs = map2 blk_find (zip bs ds) ss"
    for bs ds ss :: "int list"
  proof (induction bs ds arbitrary: ss rule: list_induct2)
    case (Cons b bs d ds)
    then show ?case by (cases ss) (auto simp: blk_find_def)
  qed simp
  then have f: "map2 (\<lambda>s b. cdiv (s - 1) b) ss (block_dims ?a) = map2 blk_find (blk_axes ?a) ss"
    using assms(2) by (simp add: blk_axes_def blocks_ok_def)
  have "distr_type ?a \<noteq> REGULAR" "gam_find_block_indices_from_subscript ?a ss = map2 (\<lambda>s b. cdiv (s - 1) b) ss (block_dims ?a)"
    using assms(2) by (auto simp: blocks_ok_def gam_find_block_indices_from_subscript_def)
  then show ?thesis
    using assms f in_grid_length [OF blk_owner_range(3) [OF assms(2,3)]]
    by (simp add: pnga_locate_def Let_def blk_owner_def block_from_indices_pos)
qed

section \<open>Irregular tiled arrays\<close>

lemma irreg_owns:
  assumes "tiled_irreg_ok a" "0 \<le> k" "k < block_total a"
  shows "ga_ownsM a k = map_block a (num_blocks a) k"
proof -
  have m: "mapped a (num_blocks a)" "block_total a = prod_list (num_blocks a)" "block_total a \<le> 2147483648"
    "distr_type a = TILED_IRREG" using assms by (auto simp: tiled_irreg_ok_def)
  have i: "gam_find_block_indices (num_blocks a) k = gam_find_proc_indices (num_blocks a) k"
    using assms m by (simp add: gam_find_block_indices_def s32_id)
  have "in_grid (num_blocks a) (gam_find_proc_indices (num_blocks a) k)"
    using proc_indices_pos [OF mapped_axes(6) [OF m(1)]] assms m by simp
  then show ?thesis
    using irreg_block_map [OF mapped_axes(5) [OF m(1)]] m i
    by (simp add: ga_ownsM_def Let_def map_block_def array_axes_def case_prod_unfold)
qed

lemma locate_irreg:
  assumes "ga_active st g_a" "tiled_irreg_ok (ga st g_a)" "subscript_of (ga st g_a) ss"
  shows "pnga_locate st g_a ss = Inr (True, map_owner (ga st g_a) (num_blocks (ga st g_a)) ss)"
proof -
  let ?a = "ga st g_a"
  have m: "mapped ?a (num_blocks ?a)" "distr_type ?a = TILED_IRREG" using assms(2) by (auto simp: tiled_irreg_ok_def)
  show ?thesis
    using assms(1) m mapped_find [OF m(1)] in_grid_length [OF map_owner_range(3) [OF m(1) assms(3)]]
    by (simp add: pnga_locate_def gam_find_block_indices_from_subscript_def Let_def map_owner_def block_from_indices_pos)
qed

end
