(* ===== verification/GA_Allocate.thy ===== *)
theory GA_Allocate
  imports GA_Decomp GA_Owner
begin

text \<open>
  The part of \<open>pnga_allocate\<close> (src/global/src/base.c) that fixes the distribution of an array and the memory
  it needs on the calling process, up to the request for that memory: the default decomposition, the
  share of every process in a block-cyclic or tiled array, the scales.
\<close>

section \<open>The default distribution\<close>

text \<open>The processes along every axis and the map; the heuristic is called with the threshold 0.0 and no bias.\<close>

definition default_map :: "int list \<Rightarrow> int list \<Rightarrow> int \<Rightarrow> (ga_error + (int list \<times> int list)) option" where
  "default_map ds chk npes =
     Option.bind (ddb_h2 ds npes (0, 0) 0 (wanted_blocks ds chk)) (\<lambda>r. Some (case r of
       Inl e \<Rightarrow> Inl e
     | Inr (blk, pe) \<Rightarrow>
         let ms = map (\<lambda>(d, c, b, p). axis_blocks d c b p) (zip ds (zip chk (zip blk pe))) in
         Inr (map (\<lambda>m. s32 (int (length m))) ms, concat ms @ [-1])))"

section \<open>The share of a process\<close>

text \<open>The values of the loop variable in \<open>for (j = i; j < n; j += step)\<close>.\<close>

function stepped :: "int \<Rightarrow> int \<Rightarrow> int \<Rightarrow> int list" where
  "stepped i n step = (if i < n \<and> 0 < step then i # stepped (i + step) n step else [])"
  by auto
termination by (relation "measure (\<lambda>(i, n, step). nat (n - i))") auto

declare stepped.simps [simp del]

definition axis_share :: "int \<Rightarrow> int \<Rightarrow> int \<Rightarrow> int \<Rightarrow> int \<Rightarrow> int" where
  "axis_share index skip nb b d =
     sum_list (map (\<lambda>j. let imin = j * b + 1; imax = (j + 1) * b in (if imax > d then d else imax) - imin + 1)
       (stepped index nb skip))"

fun tile_share :: "int list \<Rightarrow> int list \<Rightarrow> int list \<Rightarrow> int list \<Rightarrow> int list \<Rightarrow> int" where
  "tile_share (i # is) (s # ss) (n # ns) (b # bs) (d # ds) = axis_share i s n b d * tile_share is ss ns bs ds"
| "tile_share _ _ _ _ _ = 1"

text \<open>The same for an irregular tiling; \<open>m\<close> is the rest of the map.\<close>

fun irreg_share :: "int list \<Rightarrow> int list \<Rightarrow> int list \<Rightarrow> int list \<Rightarrow> int list \<Rightarrow> int" where
  "irreg_share (i # is) (s # ss) (n # ns) (d # ds) m =
     sum_list (map (\<lambda>j. (if j < n - 1 then m ! nat (j + 1) - 1 else d) - m ! nat j + 1) (stepped i n s)) *
     irreg_share is ss ns ds (drop (nat n) m)"
| "irreg_share _ _ _ _ _ = 1"

definition patch_size :: "int list \<times> int list \<Rightarrow> int" where
  "patch_size b = prod_list (map2 (\<lambda>h l. h - l + 1) (snd b) (fst b))"

definition cyclic_share :: "global_array_t \<Rightarrow> int \<Rightarrow> int \<Rightarrow> int" where
  "cyclic_share a me nproc = sum_list (map (\<lambda>i. patch_size (ga_ownsM a i)) (stepped me (block_total a) nproc))"

text \<open>The elements that the calling process stores for an array that is not regular.\<close>

definition block_size :: "global_array_t \<Rightarrow> int \<Rightarrow> int \<Rightarrow> int \<Rightarrow> ga_error + int" where
  "block_size a me nproc pnum =
     (let index = gam_find_proc_indices (nblock a) me;
          bad = Inl (''Number of processors in processor grid must equal available processors'', 0)
      in case distr_type a of
        REGULAR \<Rightarrow> Inr 0
      | BLOCK_CYCLIC \<Rightarrow> Inr (cyclic_share a me nproc)
      | TILED_IRREG \<Rightarrow>
          if prod_list (nblock a) \<noteq> pnum then bad
          else Inr (irreg_share index (nblock a) (num_blocks a) (dims a) (the (mapc a)))
      | _ \<Rightarrow>
          if prod_list (nblock a) \<noteq> pnum then bad
          else Inr (tile_share index (nblock a) (num_blocks a) (block_dims a) (dims a)))"

section \<open>Setting the distribution\<close>

text \<open>The number of processes that a regular array is distributed over.\<close>

definition alloc_npes :: "ga_state \<Rightarrow> global_array_t \<Rightarrow> int" where
  "alloc_npes st a =
     (if p_handle a = 0 then map_nproc (PGRP_LIST st ! 0)
      else if num_rstrctd a = 0
      then if p_handle a > 0 then map_nproc (PGRP_LIST st ! nat (p_handle a)) else GAnproc st
      else num_rstrctd a)"

text \<open>
  The descriptor with its distribution, and the number of elements of the calling process in an array that is
  not regular.
\<close>

definition set_distribution :: "ga_state \<Rightarrow> global_array_t \<Rightarrow> (ga_error + (global_array_t \<times> int)) option" where
  "set_distribution st a =
     (let pnum = (if num_rstrctd a = 0 then pnga_pgroup_nnodes (p_handle a) st else num_rstrctd a)
      in if mapc a = None \<and> distr_type a = REGULAR then
           Option.bind (default_map (dims a) (chunk a) (alloc_npes st a)) (\<lambda>r. Some (case r of Inl e \<Rightarrow> Inl e
             | Inr (pe, m) \<Rightarrow> Inr (a\<lparr>nblock := pe, mapc := Some m\<rparr>, 0)))
         else Some (case block_size a (GAme st) (GAnproc st) pnum of Inl e \<Rightarrow> Inl e | Inr n \<Rightarrow> Inr (a, n)))"

text \<open>The elements of a regular array on the calling process, ghost cells included.\<close>

definition regular_elems :: "global_array_t \<Rightarrow> int list \<times> int list \<Rightarrow> int" where
  "regular_elems a b =
     (if num_rstrctd a = 0 \<or> has_data a = 1
      then prod_list (map (\<lambda>(l, h, w). h - l + 1 + 2 * w) (zip (fst b) (zip (snd b) (width a)))) else 0)"

text \<open>The process group of the array, and the array made active.\<close>

definition resolve_group :: "ga_state \<Rightarrow> global_array_t \<Rightarrow> global_array_t" where
  "resolve_group st a = (if p_handle a = GA_Init_Proc_Group then a\<lparr>p_handle := GA_Default_Proc_Group st\<rparr> else a)"

definition activate :: "ga_state \<Rightarrow> global_array_t \<Rightarrow> global_array_t" where
  "activate st a =
     (let a = a\<lparr>actv := 1\<rparr> in
      if cluster_nnodes st = 1 \<and> p_handle a = 0 then a\<lparr>p_handle := GA_World_Proc_Group\<rparr> else a)"

text \<open>
  \<open>pnga_allocate\<close> up to the request for memory: the new state and the size of that request. The corner flag is
  set from the loop variable \<open>i\<close>, which is \<open>ndim\<close> at that point. The synchronizations of the group, \<open>gai_ma_address_init\<close>
  and the statistics do not touch the state modelled here. What comes after, the collective request for the memory and
  its failure, is left out: the request is the result.
\<close>

definition allocate_setup :: "int \<Rightarrow> ga_state \<Rightarrow> (ga_error + (ga_state \<times> int)) option" where
  "allocate_setup g_a st =
     (if ndim (ga st g_a) = -1 then Some (Inl (''Insufficient data to create global array'', 0))
      else
        let a = resolve_group st (ga st g_a); ph = p_handle a in
        if \<not> GAinitialized st then Some (Inl (''GA not initialized '', 0))
        else
        Option.bind (set_distribution st a) (\<lambda>r. Some (case r of Inl e \<Rightarrow> Inl e | Inr (a, elems) \<Rightarrow>
          let a = activate st a in
          if distr_type a = REGULAR then
            let a = a\<lparr>scale := map2 axis_scale (nblock a) (dims a), corner_flag := ndim a\<rparr>;
                st' = upd_ga g_a (\<lambda>_. a) st;
                me = (if ph \<ge> 0 then map_proc_list (PGRP_LIST st ! nat ph) ! nat (GAme st) else GAme st)
            in case pnga_distribution st' g_a me of Inl e \<Rightarrow> Inl e
               | Inr b \<Rightarrow> Inr (upd_ga g_a (\<lambda>a. a\<lparr>my_lo := fst b\<rparr>) st', regular_elems a b * elemsize a)
          else
            Inr (upd_ga g_a (\<lambda>_. a\<lparr>scale := map2 axis_scale (num_blocks a) (dims a)\<rparr>) st, elems * elemsize a))))"

section \<open>The map of an axis\<close>

text \<open>The block size in elements of one unit: the chunk the user asked for, else one element.\<close>

definition unit_of :: "int \<Rightarrow> int \<Rightarrow> int" where
  "unit_of d chk = (if chk > 1 then min chk d else 1)"

lemma unit_pos: "1 \<le> d \<Longrightarrow> 1 \<le> unit_of d chk"
  by (simp add: unit_of_def)

lemma axis_pcut_unit: "1 \<le> d \<Longrightarrow> axis_pcut d chk blk pe = ((d - 1) div unit_of d chk + 1) - (blk - 1) * pe"
  by (simp add: axis_pcut_def unit_of_def)

lemma axis_map_step:
  "axis_map d chk blk pe pcut p i =
     (if p < pe \<and> i < d
      then (i + 1) # axis_map d chk blk pe pcut (p + 1) (i + (if p \<ge> pcut then blk - 1 else blk) * unit_of d chk)
      else [])"
  by (subst axis_map.simps) (simp add: Let_def unit_of_def)

text \<open>Whatever the block size, the map is strictly increasing and stays inside the axis.\<close>

lemma axis_map_sorted:
  assumes "1 \<le> d" "0 \<le> p" "2 \<le> blk \<or> blk = 1 \<and> d \<le> pcut * unit_of d chk \<and> i = min p pcut * unit_of d chk"
  shows "sorted_wrt (<) (axis_map d chk blk pe pcut p i) \<and> (\<forall>x\<in>set (axis_map d chk blk pe pcut p i). i < x \<and> x \<le> d) \<and>
    length (axis_map d chk blk pe pcut p i) \<le> nat (pe - p)"
  using assms
proof (induction "nat (pe - p)" arbitrary: p i rule: less_induct)
  case less
  let ?u = "unit_of d chk" let ?b = "if p \<ge> pcut then blk - 1 else blk"
  show ?case
  proof (cases "p < pe \<and> i < d")
    case True
    note u = unit_pos [OF less.prems(1), of chk]
    have "1 \<le> ?b"
    proof (cases "blk = 1")
      case True
      then have "i = min p pcut * ?u" "d \<le> pcut * ?u" using less.prems(3) by auto
      then have "p < pcut" using \<open>p < pe \<and> i < d\<close> by (cases "p < pcut") auto
      then show ?thesis using True by simp
    qed (use less.prems(3) in auto)
    then have "1 * 1 \<le> ?b * ?u" using u by (intro mult_mono) auto
    then have b: "i < i + ?b * ?u" by linarith
    have "2 \<le> blk \<or> blk = 1 \<and> d \<le> pcut * ?u \<and> i + ?b * ?u = min (p + 1) pcut * ?u"
      using less.prems(3) by (auto simp: min_def algebra_simps)
    then have "sorted_wrt (<) (axis_map d chk blk pe pcut (p + 1) (i + ?b * ?u)) \<and>
      (\<forall>x\<in>set (axis_map d chk blk pe pcut (p + 1) (i + ?b * ?u)). i + ?b * ?u < x \<and> x \<le> d) \<and>
      length (axis_map d chk blk pe pcut (p + 1) (i + ?b * ?u)) \<le> nat (pe - (p + 1))"
      using True less.prems(1,2) by (intro less.hyps) auto
    moreover have "axis_map d chk blk pe pcut p i = (i + 1) # axis_map d chk blk pe pcut (p + 1) (i + ?b * ?u)"
      using True by (subst axis_map_step) simp
    ultimately show ?thesis using True b by force
  next
    case False
    then have "axis_map d chk blk pe pcut p i = []" by (subst axis_map_step) auto
    then show ?thesis by simp
  qed
qed

lemma axis_blocks_sorted:
  assumes "1 \<le> d" "1 \<le> blk" "1 \<le> pe"
  shows "sorted_wrt (<) (axis_blocks d chk blk pe)" "\<forall>x\<in>set (axis_blocks d chk blk pe). 1 \<le> x \<and> x \<le> d"
    "length (axis_blocks d chk blk pe) \<le> nat pe" "axis_blocks d chk blk pe \<noteq> []" "hd (axis_blocks d chk blk pe) = 1"
proof -
  let ?c = "axis_pcut d chk blk pe" and ?u = "unit_of d chk"
  have u: "1 \<le> ?u" using unit_pos [OF assms(1)] .
  have "d - 1 < ((d - 1) div ?u + 1) * ?u" using div_block [of ?u "d - 1"] u by simp
  then have "2 \<le> blk \<or> blk = 1 \<and> d \<le> ?c * ?u \<and> 0 = min 0 ?c * ?u"
  proof -
    have "0 \<le> (d - 1) div ?u" using assms(1) u by (simp add: pos_imp_zdiv_nonneg_iff)
    moreover have "?c = (d - 1) div ?u + 1" if "blk = 1" using that axis_pcut_unit [OF assms(1)] by simp
    ultimately show ?thesis using assms(2) \<open>d - 1 < _\<close> by (cases "blk = 1") auto
  qed
  note s = axis_map_sorted [OF assms(1) order_refl this, of pe]
  show "sorted_wrt (<) (axis_blocks d chk blk pe)" "\<forall>x\<in>set (axis_blocks d chk blk pe). 1 \<le> x \<and> x \<le> d"
    "length (axis_blocks d chk blk pe) \<le> nat pe" using s by (auto simp: axis_blocks_def)
  have "axis_blocks d chk blk pe = 1 # axis_map d chk blk pe ?c 1 ((if 0 \<ge> ?c then blk - 1 else blk) * ?u)"
    unfolding axis_blocks_def using assms by (subst axis_map_step) simp
  then show "axis_blocks d chk blk pe \<noteq> []" "hd (axis_blocks d chk blk pe) = 1" by simp_all
qed

lemma axis_blocks_valid:
  assumes "1 \<le> d" "d < 9007199254740992" "1 \<le> blk" "1 \<le> pe" "pe < 2147483648"
  shows "map_valid (int (length (axis_blocks d chk blk pe)), d, axis_blocks d chk blk pe @ rest)"
proof -
  note s = axis_blocks_sorted [OF assms(1,3,4), of chk]
  have "sorted (axis_blocks d chk blk pe)" using s(1) strict_sorted_imp_sorted by blast
  moreover have "(axis_blocks d chk blk pe @ rest) ! 0 = 1" using s(4,5) by (simp add: hd_conv_nth nth_append)
  ultimately show ?thesis using s assms by (force simp: map_valid_def)
qed

text \<open>
  With the block size of the heuristic the processes get blocks of \<open>blk\<close> units first and of one unit less then;
  no process is left out as long as there are units.
\<close>

lemma units_below:
  assumes "1 \<le> (u::int)" "T = (d - 1) div u + 1"
  shows "x * u < d \<longleftrightarrow> x < T"
proof
  assume "x * u < d"
  then have "x * u div u \<le> (d - 1) div u" using assms(1) by (intro zdiv_mono1) auto
  then show "x < T" using assms by simp
next
  assume "x < T"
  then have "x * u \<le> (d - 1) div u * u" using assms by (intro mult_right_mono) auto
  also have "\<dots> \<le> d - 1" using div_block [of u "d - 1"] assms(1) by simp
  finally show "x * u < d" by simp
qed

lemma dealt_below:
  assumes "1 \<le> blk" "1 \<le> (c::int)" "c = T - (blk - 1) * pe" "0 \<le> p" "p < pe"
  shows "p * (blk - 1) + min p c < T \<longleftrightarrow> p < T"
proof (cases "blk = 1")
  case True
  then show ?thesis using assms(2,3) by auto
next
  case False
  then have b: "1 \<le> blk - 1" using assms(1) by simp
  have T: "pe * (blk - 1) + c = T" using assms(3) by (simp add: algebra_simps)
  have "p * (blk - 1) < pe * (blk - 1)" using b assms(5) by (intro mult_strict_right_mono) auto
  then have "p * (blk - 1) + min p c < T" using T by (simp add: min_def)
  moreover have "pe * 1 \<le> pe * (blk - 1)" using b assms(4,5) by (intro mult_left_mono) auto
  then have "p < T" using T assms(2,5) by linarith
  ultimately show ?thesis by simp
qed

lemma axis_blocks_balanced:
  assumes "1 \<le> d" "1 \<le> pe" "u = unit_of d chk" "T = (d - 1) div u + 1" "blk = (T - 1) div pe + 1" "c = T - (blk - 1) * pe"
  shows "1 \<le> c \<and> c \<le> pe \<and>
    axis_blocks d chk blk pe = map (\<lambda>p. (p * (blk - 1) + min p c) * u + 1) [0..min pe T - 1]"
proof -
  have u: "1 \<le> u" using unit_pos assms by simp
  have T: "1 \<le> T" using assms(1,4) u by (simp add: pos_imp_zdiv_nonneg_iff)
  have blk: "1 \<le> blk" using T assms(2,5) by (simp add: pos_imp_zdiv_nonneg_iff)
  have c: "1 \<le> c" "c \<le> pe" using div_block [of pe "T - 1"] assms(2,5,6) by (auto simp: algebra_simps)
  note lt = units_below [OF u assms(4)] and go = dealt_below [OF blk c(1) assms(6)]
  have "axis_map d chk blk pe c p ((p * (blk - 1) + min p c) * u) =
    map (\<lambda>p. (p * (blk - 1) + min p c) * u + 1) [p..min pe T - 1]" if "0 \<le> p" for p
    using that
  proof (induction "nat (pe - p)" arbitrary: p rule: less_induct)
    case less
    show ?case
    proof (cases "p < pe \<and> p < T")
      case True
      have "(p * (blk - 1) + min p c) * u + (if p \<ge> c then blk - 1 else blk) * u = ((p + 1) * (blk - 1) + min (p + 1) c) * u"
        by (auto simp: min_def algebra_simps)
      moreover have "axis_map d chk blk pe c (p + 1) (((p + 1) * (blk - 1) + min (p + 1) c) * u) =
        map (\<lambda>p. (p * (blk - 1) + min p c) * u + 1) [p + 1..min pe T - 1]"
        using True less.prems by (intro less.hyps) auto
      moreover have "[p..min pe T - 1] = p # [p + 1..min pe T - 1]" using True by (simp add: upto_rec1)
      ultimately show ?thesis
        using True go [of p] lt [of "p * (blk - 1) + min p c"] less.prems
        by (subst axis_map_step) (simp add: assms(3) [symmetric])
    next
      case False
      then have "\<not> (p < pe \<and> (p * (blk - 1) + min p c) * u < d)"
        using go [of p] lt less.prems by blast
      then show ?thesis using False by (subst axis_map_step) auto
    qed
  qed
  from this [of 0] show ?thesis using c assms by (simp add: axis_blocks_def axis_pcut_unit)
qed

end
