(* ===== verification/GA_Access.thy ===== *)
theory GA_Access
  imports GA_Allocate
begin

text \<open>
  Pointers to the memory of an array: \<open>gam_Location\<close> (src/global/src/iterator.c) and the access routines
  \<open>pnga_access_ptr\<close>, \<open>pnga_access_block_ptr\<close> and \<open>pnga_access_block_grid_ptr\<close> of src/global/src/onesided.c. A
  pointer is the address in bytes. The strides \<open>ld\<close> are the entries that the routine writes. The SMP domains of
  the processes come from ARMCI: \<open>smp\<close> gives the domain of a process and \<open>my_smp\<close> that of the caller.
\<close>

section \<open>Elements\<close>

text \<open>The strides of a block with ghost cells, all but the last unless there is only one.\<close>

definition loc_ld :: "int list \<Rightarrow> int list \<Rightarrow> int list \<Rightarrow> int list" where
  "loc_ld lo hi ws =
     (let ls = map (\<lambda>(l, h, w). h - l + 1 + 2 * w) (zip lo (zip hi ws)) in if length ls = 1 then ls else butlast ls)"

definition gam_Location :: "ga_state \<Rightarrow> int \<Rightarrow> int \<Rightarrow> int list \<Rightarrow> ga_error + (int \<times> int list)" where
  "gam_Location st proc g_a subscript =
     (let a = ga st g_a; (lo, hi) = ga_ownsM a proc in
      case gaCheckSubscriptM subscript lo hi of Some e \<Rightarrow> Inl e | None \<Rightarrow>
      let offset = loc_offset subscript lo hi (width a) 1;
          pinv = (if p_handle a \<noteq> 0 then if num_rstrctd a = 0 then proc else the (rstrctd_list a) ! nat proc
                  else inv_map_proc_list (PGRP_LIST st ! 0) ! nat proc)
      in Inr (ptr a ! nat pinv + offset * elemsize a, loc_ld lo hi (width a)))"

text \<open>The owner of a corner of the patch, which must be the caller or share its memory.\<close>

definition corner_owner ::
  "(int \<Rightarrow> int) \<Rightarrow> int \<Rightarrow> string \<Rightarrow> ga_state \<Rightarrow> int \<Rightarrow> int list \<Rightarrow> ga_error + int" where
  "corner_owner smp my_smp corner st g_a ss =
     (case pnga_locate st g_a ss of Inl e \<Rightarrow> Inl e | Inr (found, ow) \<Rightarrow>
      if \<not> found then Inl (''locate '' @ corner @ '' failed'', 0)
      else
        let ow = (if p_handle (ga st g_a) \<noteq> -1
                  then inv_map_proc_list (PGRP_LIST st ! nat (p_handle (ga st g_a))) ! nat ow else ow)
        in if smp ow \<noteq> my_smp \<and> ow \<noteq> GAme st then Inl (''cannot access '' @ corner @ '' of the patch'', ow) else Inr ow)"

definition pnga_access_ptr ::
  "(int \<Rightarrow> int) \<Rightarrow> int \<Rightarrow> ga_state \<Rightarrow> int \<Rightarrow> int list \<Rightarrow> int list \<Rightarrow> ga_error + (int \<times> int list)" where
  "pnga_access_ptr smp my_smp st g_a lo hi =
     (case corner_owner smp my_smp ''top'' st g_a lo of Inl e \<Rightarrow> Inl e | Inr _ \<Rightarrow>
      case corner_owner smp my_smp ''bottom'' st g_a hi of Inl e \<Rightarrow> Inl e | Inr ow \<Rightarrow>
      if list_ex (\<lambda>(l, h). l > h) (zip lo hi) then Inl (''cannot locate region: '', g_a)
      else
        let a = ga st g_a;
            ow = (if p_handle a \<ge> 0 then map_proc_list (PGRP_LIST st ! nat (p_handle a)) ! nat ow else ow);
            ow = (if num_rstrctd a > 0 then the (rank_rstrctd a) ! nat ow else ow)
        in gam_Location st ow g_a lo)"

section \<open>Blocks of tiled arrays\<close>

text \<open>The limits of the block at a position of the grid of an array with fixed blocks.\<close>

definition tile_limits :: "int list \<Rightarrow> int list \<Rightarrow> int list \<Rightarrow> int list \<times> int list" where
  "tile_limits bs ds index =
     (map2 (\<lambda>i b. i * b + 1) index bs, map2 (\<lambda>h d. if h > d then d else h) (map2 (\<lambda>i b. (i + 1) * b) index bs) ds)"

text \<open>
  A block of a tiled array: the number of blocks before it and in all on its process, and the elements of the
  process, along an axis.
\<close>

definition tiled_before :: "int \<Rightarrow> int \<Rightarrow> int \<Rightarrow> int" where
  "tiled_before i p s = cdiv (i - p + 1) s"

definition tiled_count :: "int \<Rightarrow> int \<Rightarrow> int \<Rightarrow> int" where
  "tiled_count n p s = s32 (cdiv (n - p + 1) s)"

definition tiled_extent :: "int \<Rightarrow> int \<Rightarrow> int \<Rightarrow> int \<Rightarrow> int \<Rightarrow> int" where
  "tiled_extent n p s b d =
     (if cmod (n - p + 1) s = 0
      then if cmod d b \<noteq> 0 then (tiled_count n p s - 1) * b + cmod d b else tiled_count n p s * b
      else tiled_count n p s * b)"

definition tiled_offset :: "int list \<Rightarrow> int list \<Rightarrow> int list \<Rightarrow> int list \<Rightarrow> int list \<Rightarrow> int" where
  "tiled_offset bidx bcount lld ldims bs =
     sum_list (map (\<lambda>i. bidx ! i *
         (prod_list (map (\<lambda>j. lld ! j) [0..<i]) *
          prod_list (map (\<lambda>j. if j > i \<and> bidx ! j = bcount ! j - 1 then ldims ! j else bs ! j) [i..<length bidx])))
       [0..<length bidx])"

text \<open>The same for an irregular tiling; \<open>m\<close> is the rest of the map.\<close>

definition irreg_len :: "int \<Rightarrow> int \<Rightarrow> int list \<Rightarrow> int \<Rightarrow> int" where
  "irreg_len n d m j = (if j < n - 1 then m ! nat (j + 1) - 1 else d) - m ! nat j + 1"

fun irreg_axes ::
  "int list \<Rightarrow> int list \<Rightarrow> int list \<Rightarrow> int list \<Rightarrow> int list \<Rightarrow> int list \<Rightarrow> (int \<times> int \<times> int) list" where
  "irreg_axes (i # is) (p # ps) (s # ss) (n # ns) (d # ds) m =
     (sum_list (map (irreg_len n d m) (stepped p n s)),
      sum_list (map (irreg_len n d m) (filter (\<lambda>j. j < i) (stepped p n s))),
      irreg_len n d m i) # irreg_axes is ps ss ns ds (drop (nat n) m)"
| "irreg_axes _ _ _ _ _ _ = []"

definition irreg_offset :: "int list \<Rightarrow> int list \<Rightarrow> int list \<Rightarrow> int" where
  "irreg_offset lld ldidx ldims =
     sum_list (map (\<lambda>i. prod_list (map (\<lambda>j. lld ! j) [0..<i]) * ldidx ! i *
         prod_list (map (\<lambda>j. ldims ! j) [i + 1..<length lld]))
       [0..<length lld])"

section \<open>Blocks of ScaLAPACK arrays\<close>

text \<open>
  The elements of a process along an axis: whole repeat units of \<open>b * s\<close> elements, and the part of the last,
  incomplete one.
\<close>

definition sl_extent :: "int \<Rightarrow> int \<Rightarrow> int \<Rightarrow> int \<Rightarrow> int \<Rightarrow> int \<Rightarrow> int" where
  "sl_extent blk_ld blk_inc hlf_blk b p d =
     blk_ld + (if blk_inc > 0
               then if p < hlf_blk then b else if p = hlf_blk then cmod blk_inc b else 0
               else cmod d b)"

definition sl_ld :: "int list \<Rightarrow> int list \<Rightarrow> int list \<Rightarrow> int list \<Rightarrow> int list" where
  "sl_ld ps ss bs ds =
     map (\<lambda>(p, s, b, d).
       let blk_dim = b * s; blk_num = cdiv d blk_dim; blk_inc = d - blk_num * blk_dim in
       sl_extent (blk_num * b) blk_inc (cdiv blk_inc b) b p d) (butlast (zip ps (zip ss (zip bs ds))))"

fun sl_block_offset :: "int list \<Rightarrow> int list \<Rightarrow> int list \<Rightarrow> int list \<Rightarrow> int list \<Rightarrow> int \<Rightarrow> int" where
  "sl_block_offset (i # is) (p # ps) (s # ss) (b # bs) ld factor =
     cdiv (i - p) s * b * factor + sl_block_offset is ps ss bs (tl ld) (if is = [] then factor else factor * hd ld)"
| "sl_block_offset _ _ _ _ _ factor = 0"

section \<open>Access to blocks\<close>

definition pnga_access_block_grid_ptr :: "ga_state \<Rightarrow> int \<Rightarrow> int list \<Rightarrow> ga_error + (int \<times> int list)" where
  "pnga_access_block_grid_ptr st g_a index =
     (let a = ga st g_a;
          inode = gam_find_proc_from_sl_indices (nblock a) index;
          ps = gam_find_proc_indices (nblock a) inode;
          addr = (\<lambda>offset ld. Inr (ptr a ! nat inode + offset * elemsize a, ld))
      in if distr_type a \<noteq> SCALAPACK \<and> distr_type a \<noteq> TILED \<and> distr_type a \<noteq> TILED_IRREG
      then Inl (''Array is not using ScaLAPACK or tiled data distribution'', 0)
      else case List.find (\<lambda>(i, n). i < 0 \<or> i \<ge> n) (zip index (num_blocks a)) of
        Some (i, _) \<Rightarrow> Inl (''block index outside allowed values'', i)
      | None \<Rightarrow>
        if distr_type a = TILED then
          let b = tile_limits (block_dims a) (dims a) index;
              ldims = map2 (\<lambda>l h. h - l + 1) (fst b) (snd b);
              bidx = map (\<lambda>(i, p, s). tiled_before i p s) (zip index (zip ps (nblock a)));
              bcount = map (\<lambda>(n, p, s). tiled_count n p s) (zip (num_blocks a) (zip ps (nblock a)));
              lld = map (\<lambda>(n, p, s, b, d). tiled_extent n p s b d)
                (zip (num_blocks a) (zip ps (zip (nblock a) (zip (block_dims a) (dims a)))))
          in addr (tiled_offset bidx bcount lld ldims (block_dims a)) (butlast ldims)
        else if distr_type a = TILED_IRREG then
          let axes = irreg_axes index ps (nblock a) (num_blocks a) (dims a) (the (mapc a));
              lld = map fst axes; ldidx = map (fst \<circ> snd) axes; ldims = map (snd \<circ> snd) axes
          in addr (irreg_offset lld ldidx ldims) (butlast ldims)
        else
          let ld = sl_ld ps (nblock a) (block_dims a) (dims a)
          in addr (sl_block_offset index ps (nblock a) (block_dims a) ld 1) ld)"

definition pnga_access_block_ptr :: "ga_state \<Rightarrow> int \<Rightarrow> int \<Rightarrow> ga_error + (int \<times> int list)" where
  "pnga_access_block_ptr st g_a idx =
     (let a = ga st g_a in
      if idx < 0 \<or> idx \<ge> block_total a then Inl (''block index outside allowed values'', idx)
      else if distr_type a = BLOCK_CYCLIC then
        let inode = cmod idx (GAnproc st);
            offset = sum_list (map (\<lambda>i. patch_size (ga_ownsM a i)) (stepped inode idx (GAnproc st)));
            b = ga_ownsM a idx
        in Inr (ptr a ! nat inode + offset * elemsize a, butlast (map2 (\<lambda>l h. h - l + 1) (fst b) (snd b)))
      else pnga_access_block_grid_ptr st g_a (gam_find_block_indices (num_blocks a) idx))"

end
