(* ===== verification/GA_Iterator.thy ===== *)
theory GA_Iterator
  imports GA_Access
begin

text \<open>
  The iterators of src/global/src/iterator.c: the iterator over the blocks of a patch that the one-sided
  operations use, and the iterator over the blocks of the calling process. A handle is the record of the code;
  arrays of MAXDIM entries are lists of \<open>ndim\<close> entries, and \<open>map\<close> is the flat list that \<open>pnga_locate_region\<close> writes.
  The values of \<open>rand\<close> are an argument, the sequence \<open>rnd\<close>. \<open>None\<close> is a loop that does not end or a division by
  zero.
\<close>

section \<open>Handles\<close>

record iterator_hdl =
  it_g_a :: int
  it_lo :: "int list"
  it_hi :: "int list"
  it_count :: int
  it_map :: "int list"
  proclist :: "int list"
  proclistperm :: "int list"
  it_mapc :: "int list option"
  it_nproc :: int
  it_offset :: int
  iproc :: int
  iblock :: int
  oversize :: int
  lobuf :: "int list"
  hibuf :: "int list"
  blk_num :: "int list"
  blk_dim :: "int list"
  blk_inc :: "int list"
  blk_ld :: "int list"
  hlf_blk :: "int list"
  blk_size :: "int list"
  proc_index :: "int list"
  it_index :: "int list"

text \<open>What a call returns: the process, the limits of the piece, the pointer to it and the strides.\<close>

record it_block =
  ib_proc :: int
  ib_lo :: "int list"
  ib_hi :: "int list"
  ib_ptr :: int
  ib_ld :: "int list"

definition MAX_INT_VALUE :: int where "MAX_INT_VALUE = 2147483648"

section \<open>Starting\<close>

definition swap_at :: "int list \<Rightarrow> nat \<Rightarrow> nat \<Rightarrow> int list" where
  "swap_at xs i j = xs[i := xs ! j, j := xs ! i]"

definition gaPermuteProcList :: "(nat \<Rightarrow> int) \<Rightarrow> int \<Rightarrow> ga_state \<Rightarrow> ga_error + int list" where
  "gaPermuteProcList rnd nproc st =
     (if nproc = 1 then Inr [0]
      else if nproc > GAnproc st then Inl (''permute_proc: error '', nproc)
      else Inr (foldl (\<lambda>xs i. swap_at xs (nat (s32 (cmod (rnd i) nproc))) i) [0..nproc - 1] [0..<nat nproc]))"

definition gam_GetRangeFromMap :: "int list \<Rightarrow> int \<Rightarrow> int \<Rightarrow> int list \<times> int list" where
  "gam_GetRangeFromMap m p n =
     (let r = drop (nat (p * n * 2)) m in (take (nat n) r, take (nat n) (drop (nat n) r)))"

text \<open>The start of the walk through the blocks of a ScaLAPACK or tiled array.\<close>

definition start_tiles :: "global_array_t \<Rightarrow> iterator_hdl \<Rightarrow> iterator_hdl" where
  "start_tiles a h =
     h\<lparr>iproc := 0, it_offset := 0, proc_index := gam_find_proc_indices (nblock a) 0,
       it_index := gam_find_proc_indices (nblock a) 0\<rparr>"

definition gai_iterator_init ::
  "(nat \<Rightarrow> int) \<Rightarrow> ga_state \<Rightarrow> int \<Rightarrow> int list \<Rightarrow> int list \<Rightarrow> iterator_hdl \<Rightarrow> ga_error + iterator_hdl" where
  "gai_iterator_init rnd st g_a lo hi h =
     (let a = ga st g_a;
          h = h\<lparr>it_g_a := g_a, it_count := 0, oversize := 0, it_lo := lo, it_hi := hi\<rparr>
      in case distr_type a of
        REGULAR \<Rightarrow>
          (case pnga_locate_region st g_a lo hi of Inl e \<Rightarrow> Inl e
           | Inr None \<Rightarrow> Inl (''cannot locate region: '', g_a)
           | Inr (Some (np, procs, m)) \<Rightarrow>
             (case gaPermuteProcList rnd np st of Inl e \<Rightarrow> Inl e
              | Inr perm \<Rightarrow> Inr (h\<lparr>it_map := m, proclist := procs, it_nproc := np, proclistperm := perm\<rparr>)))
      | BLOCK_CYCLIC \<Rightarrow> Inr (h\<lparr>iproc := 0, iblock := pnga_nodeid st\<rparr>)
      | SCALAPACK \<Rightarrow>
          let bd = map2 (*) (block_dims a) (nblock a);
              bn = map2 cdiv (dims a) bd;
              bi = map (\<lambda>(d, n, l). d - n * l) (zip (dims a) (zip bn bd))
          in Inr (start_tiles a (h\<lparr>blk_size := block_dims a, blk_dim := bd, blk_num := bn, blk_inc := bi,
                 blk_ld := map2 (*) bn (block_dims a), hlf_blk := map2 cdiv bi (block_dims a)\<rparr>))
      | TILED \<Rightarrow> Inr (start_tiles a (h\<lparr>blk_size := block_dims a\<rparr>))
      | TILED_IRREG \<Rightarrow> Inr (start_tiles a (h\<lparr>it_mapc := mapc a\<rparr>)))"

definition gai_iterator_reset :: "ga_state \<Rightarrow> iterator_hdl \<Rightarrow> iterator_hdl" where
  "gai_iterator_reset st h =
     (let a = ga st (it_g_a h) in
      case distr_type a of
        REGULAR \<Rightarrow> h\<lparr>it_count := 0\<rparr>
      | BLOCK_CYCLIC \<Rightarrow> h\<lparr>iproc := 0, iblock := 0, it_offset := 0\<rparr>
      | _ \<Rightarrow> start_tiles a h)"

section \<open>The next block of a regular array\<close>

text \<open>
  The loop that halves the block until it fits: the sizes, and the index and the size of the largest axis,
  which are kept between the rounds.
\<close>

definition largest_axis :: "int list \<Rightarrow> nat \<times> int \<Rightarrow> nat \<times> int" where
  "largest_axis bs m =
     foldl (\<lambda>(k, x) i. if bs ! i > x then (i, bs ! i) else (k, x)) m [0..<length bs]"

partial_function (option) halve_block :: "int \<Rightarrow> int list \<Rightarrow> nat \<times> int \<Rightarrow> int list option" where
  [code]: "halve_block elsz bs m =
     (if elsz * prod_list bs > MAX_INT_VALUE
      then let m = largest_axis bs m in halve_block elsz (bs[fst m := cdiv (bs ! fst m) 2]) m
      else Some bs)"

text \<open>The sub-blocks of a block that is too large; a size of zero makes the division that follows fail.\<close>

definition split_large :: "int \<Rightarrow> int list \<Rightarrow> int list \<Rightarrow> iterator_hdl \<Rightarrow> iterator_hdl option" where
  "split_large elsz blo bhi h =
     (let szs = map2 (\<lambda>l u. u - l + 1) blo bhi in
      if oversize h = 0 \<and> elsz * prod_list szs > MAX_INT_VALUE
      then Option.bind (halve_block elsz szs (0, 0)) (\<lambda>bs.
        if 0 \<in> set bs then None
        else Some (h\<lparr>oversize := 1, blk_size := bs,
          blk_dim := map2 (\<lambda>z b. if cdiv z b * b < z then cdiv z b + 1 else cdiv z b) szs bs,
          blk_inc := map (\<lambda>_. 0) bs\<rparr>))
      else Some h)"

definition sub_block :: "int list \<Rightarrow> int list \<Rightarrow> iterator_hdl \<Rightarrow> iterator_hdl" where
  "sub_block blo bhi h =
     (if oversize h \<noteq> 0
      then let lo = map (\<lambda>(l, k, b). l + k * b) (zip blo (zip (blk_inc h) (blk_size h))) in
        h\<lparr>lobuf := lo, hibuf := map (\<lambda>(l, b, u). if l + b - 1 < u then l + b - 1 else u) (zip lo (zip (blk_size h) bhi))\<rparr>
      else h)"

text \<open>The counter over the sub-blocks, whose last entry runs over; then the next block.\<close>

fun carry_inc :: "int list \<Rightarrow> int list \<Rightarrow> int list" where
  "carry_inc (i # j # is) (d # ds) = (if i \<ge> d then 0 # carry_inc ((j + 1) # is) ds else i # carry_inc (j # is) ds)"
| "carry_inc is _ = is"

definition count_block :: "iterator_hdl \<Rightarrow> iterator_hdl" where
  "count_block h =
     (if oversize h = 0 then h\<lparr>it_count := it_count h + 1\<rparr>
      else
        let inc = carry_inc ((blk_inc h)[0 := blk_inc h ! 0 + 1]) (blk_dim h); h = h\<lparr>blk_inc := inc\<rparr> in
        if last inc \<ge> last (blk_dim h) then h\<lparr>it_count := it_count h + 1, oversize := 0\<rparr> else h)"

type_synonym it_result = "(ga_error + (iterator_hdl \<times> it_block option)) option"

definition regular_result :: "ga_state \<Rightarrow> iterator_hdl \<Rightarrow> int \<Rightarrow> int list \<Rightarrow> int list \<Rightarrow> it_result" where
  "regular_result st h p plo phi =
     (let a = ga st (it_g_a h) in
      Option.bind (split_large (elemsize a) plo phi h) (\<lambda>h.
        let h = sub_block plo phi h;
            (blo, bhi) = (if oversize h \<noteq> 0 then (lobuf h, hibuf h) else (plo, phi));
            proc = s32 (proclist h ! nat p);
            rank = (if num_rstrctd a = 0 then proc else the (rank_rstrctd a) ! nat proc);
            proc' = (if p_handle a \<ge> 0 then inv_map_proc_list (PGRP_LIST st ! nat (p_handle a)) ! nat proc else proc)
        in Some (case gam_Location st rank (it_g_a h) blo of Inl e \<Rightarrow> Inl e
             | Inr (prem, ldrem) \<Rightarrow>
                 Inr (count_block h, Some \<lparr>ib_proc = proc', ib_lo = blo, ib_hi = bhi, ib_ptr = prem, ib_ld = ldrem\<rparr>))))"

partial_function (option) regular_next :: "ga_state \<Rightarrow> iterator_hdl \<Rightarrow> it_result" where
  [code]: "regular_next st h =
     (if it_count h \<ge> it_nproc h then Some (Inr (h, None))
      else
        let p = proclistperm h ! nat (it_count h);
            (plo, phi) = gam_GetRangeFromMap (it_map h) p (ndim (ga st (it_g_a h)))
        in if list_ex (\<lambda>(l, u). u < l) (zip plo phi) then regular_next st (count_block h)
           else regular_result st h p plo phi)"

section \<open>The next block of a block-cyclic array\<close>

text \<open>The test for data of the patch in a block: an end of the block in the patch, or the patch inside the block.\<close>

definition it_overlap :: "int list \<Rightarrow> int list \<Rightarrow> int list \<times> int list \<Rightarrow> bool" where
  "it_overlap lo hi b \<longleftrightarrow>
     list_all (\<lambda>(bl, bh, l, h). (bl \<ge> l \<and> bl \<le> h \<or> bh \<ge> l \<and> bh \<le> h) \<or> (l \<ge> bl \<and> l \<le> bh) \<and> (h \<ge> bl \<and> h \<le> bh))
       (zip (fst b) (zip (snd b) (zip lo hi)))"

definition gam_GetBlockPatch :: "int list \<times> int list \<Rightarrow> int list \<Rightarrow> int list \<Rightarrow> int list \<times> int list" where
  "gam_GetBlockPatch b lo hi =
     (map (\<lambda>(pl, ph, l). if l \<le> ph \<and> l \<ge> pl then l else pl) (zip (fst b) (zip (snd b) lo)),
      map (\<lambda>(pl, ph, h). if h \<le> ph \<and> h \<ge> pl then h else ph) (zip (fst b) (zip (snd b) hi)))"

text \<open>The offset of a corner in its block, and the strides of the block.\<close>

fun block_offset :: "int list \<Rightarrow> int list \<Rightarrow> int list \<Rightarrow> int \<Rightarrow> int" where
  "block_offset (c # cs) (l # lo) (h # hi) jtot = (c - l) * jtot + block_offset cs lo hi (jtot * (h - l + 1))"
| "block_offset _ _ _ jtot = 0"

definition block_strides :: "int list \<times> int list \<Rightarrow> int list" where
  "block_strides b =
     (let ls = map2 (\<lambda>l h. h - l + 1) (fst b) (snd b) in if length ls = 1 then ls else butlast ls)"

definition cyclic_step :: "ga_state \<Rightarrow> global_array_t \<Rightarrow> iterator_hdl \<Rightarrow> iterator_hdl" where
  "cyclic_step st a h =
     (let h' = h\<lparr>it_offset := it_offset h + patch_size (ga_ownsM a (iblock h)), iblock := iblock h + pnga_nnodes st\<rparr> in
      if iblock h' \<ge> block_total a then h'\<lparr>it_offset := 0, iproc := iproc h + 1, iblock := iproc h + 1\<rparr> else h')"

partial_function (option) cyclic_find :: "ga_state \<Rightarrow> global_array_t \<Rightarrow> int \<Rightarrow> iterator_hdl \<Rightarrow> (iterator_hdl \<times> bool) option" where
  [code]: "cyclic_find st a nproc h =
     (if it_overlap (it_lo h) (it_hi h) (ga_ownsM a (iblock h)) then Some (h, True)
      else
        let h' = cyclic_step st a h in
        if iproc h' \<noteq> iproc h \<and> iproc h' \<ge> nproc then Some (h', False) else cyclic_find st a nproc h')"

definition cyclic_next :: "ga_state \<Rightarrow> iterator_hdl \<Rightarrow> it_result" where
  "cyclic_next st h =
     (let a = ga st (it_g_a h);
          nproc = (if num_rstrctd a > 0 then num_rstrctd a else pnga_pgroup_nnodes (p_handle a) st)
      in if iproc h \<ge> nproc then Some (Inr (h, None))
      else
        Option.bind (cyclic_find st a nproc (if iblock h = iproc h then h\<lparr>it_offset := 0\<rparr> else h)) (\<lambda>(h, found).
          if \<not> found then Some (Inr (h, None))
          else
            let b = ga_ownsM a (iblock h);
                (clo, chi) = gam_GetBlockPatch b (it_lo h) (it_hi h);
                pinv = cmod (iblock h) nproc;
                pinv = (if p_handle a > 0 then inv_map_proc_list (PGRP_LIST st ! nat (p_handle a)) ! nat pinv else pinv)
            in Some (Inr (cyclic_step st a (h\<lparr>lobuf := clo, hibuf := chi\<rparr>), Some
                 \<lparr>ib_proc = pinv, ib_lo = clo, ib_hi = chi,
                  ib_ptr = ptr a ! nat pinv + (block_offset clo (fst b) (snd b) 1 + it_offset h) * elemsize a,
                  ib_ld = block_strides b\<rparr>))))"

section \<open>The next block of a tiled array\<close>

fun irreg_limits :: "int list \<Rightarrow> int list \<Rightarrow> int list \<Rightarrow> int list \<Rightarrow> (int \<times> int) list" where
  "irreg_limits (n # ns) (d # ds) m (i # is) =
     (m ! nat i, if i = n - 1 then d else m ! nat (i + 1) - 1) # irreg_limits ns ds (drop (nat n) m) is"
| "irreg_limits _ _ _ _ = []"

definition tile_bounds :: "global_array_t \<Rightarrow> iterator_hdl \<Rightarrow> int list \<times> int list" where
  "tile_bounds a h =
     (if distr_type a = TILED_IRREG
      then let r = irreg_limits (num_blocks a) (dims a) (the (mapc a)) (it_index h) in (map fst r, map snd r)
      else tile_limits (blk_size h) (dims a) (it_index h))"

text \<open>The index of the next block of the process: the first axis moves, an axis that runs over goes back to its start.\<close>

fun carry_index :: "int list \<Rightarrow> int list \<Rightarrow> int list \<Rightarrow> int list \<Rightarrow> int list" where
  "carry_index (i # j # is) (p # ps) (n # ns) (s # t # ss) =
     (if i \<ge> n then p # carry_index ((j + t) # is) ps ns (t # ss) else i # carry_index (j # is) ps ns (t # ss))"
| "carry_index is _ _ _ = is"

definition next_index :: "global_array_t \<Rightarrow> iterator_hdl \<Rightarrow> int list" where
  "next_index a h =
     carry_index ((it_index h)[0 := it_index h ! 0 + nblock a ! 0]) (proc_index h) (num_blocks a) (nblock a)"

text \<open>
  The move to the next block, and to the next process after the last block. When the loop that looks for data
  ends with the last process it leaves at once.
\<close>

definition tile_step :: "global_array_t \<Rightarrow> iterator_hdl \<Rightarrow> iterator_hdl" where
  "tile_step a h =
     (let h' = h\<lparr>it_offset := it_offset h + patch_size (tile_bounds a h), it_index := next_index a h\<rparr> in
      if last (it_index h') \<ge> last (num_blocks a)
      then h'\<lparr>iproc := iproc h + 1, it_offset := 0, proc_index := gam_find_proc_indices (nblock a) (iproc h + 1),
              it_index := gam_find_proc_indices (nblock a) (iproc h + 1)\<rparr>
      else h')"

partial_function (option) tile_find :: "global_array_t \<Rightarrow> int \<Rightarrow> iterator_hdl \<Rightarrow> (iterator_hdl \<times> bool) option" where
  [code]: "tile_find a nproc h =
     (if it_overlap (it_lo h) (it_hi h) (tile_bounds a h) then Some (h, True)
      else
        let h1 = h\<lparr>it_offset := it_offset h + patch_size (tile_bounds a h), it_index := next_index a h\<rparr> in
        if last (it_index h1) \<ge> last (num_blocks a) \<and> iproc h + 1 \<ge> nproc
        then Some (h1\<lparr>iproc := iproc h + 1\<rparr>, False)
        else tile_find a nproc (tile_step a h))"

text \<open>The strides of a process in a ScaLAPACK array, and the offset of a corner; the last axis has no stride.\<close>

definition sl_strides :: "global_array_t \<Rightarrow> iterator_hdl \<Rightarrow> int list" where
  "sl_strides a h =
     map (\<lambda>(l, i, f, b, p, d). sl_extent l i f b p d)
       (butlast (zip (blk_ld h) (zip (blk_inc h) (zip (hlf_blk h) (zip (blk_size h) (zip (proc_index h) (dims a)))))))"

fun sl_offset :: "int list \<Rightarrow> int list \<Rightarrow> int list \<Rightarrow> int list \<Rightarrow> int list \<Rightarrow> int \<Rightarrow> int" where
  "sl_offset (c # cs) (l # lo) (u # us) (b # bs) ld jtot =
     (c - l + cdiv (l - 1) u * b) * jtot + sl_offset cs lo us bs (tl ld) (if cs = [] then jtot else jtot * hd ld)"
| "sl_offset _ _ _ _ _ jtot = 0"

definition tile_next :: "ga_state \<Rightarrow> iterator_hdl \<Rightarrow> it_result" where
  "tile_next st h =
     (let a = ga st (it_g_a h);
          nproc = (if num_rstrctd a > 0 then num_rstrctd a else pnga_pgroup_nnodes (p_handle a) st)
      in if iproc h \<ge> nproc then Some (Inr (h, None))
      else
        Option.bind (tile_find a nproc h) (\<lambda>(h, found).
          if \<not> found then Some (Inr (h, None))
          else
            let b = tile_bounds a h;
                (clo, chi) = gam_GetBlockPatch b (it_lo h) (it_hi h);
                (l_offset, ldrem) =
                  (if distr_type a = SCALAPACK
                   then (sl_offset clo (fst b) (blk_dim h) (blk_size h) (sl_strides a h) 1, sl_strides a h)
                   else (block_offset clo (fst b) (snd b) 1 + it_offset h, block_strides b));
                pinv = cmod (iproc h) nproc;
                pinv = (if num_rstrctd a > 0 then the (rstrctd_list a) ! nat pinv else pinv);
                pinv = (if p_handle a > 0 then inv_map_proc_list (PGRP_LIST st ! nat (p_handle a)) ! nat pinv else pinv)
            in Some (Inr (tile_step a (h\<lparr>lobuf := clo, hibuf := chi\<rparr>), Some
                 \<lparr>ib_proc = pinv, ib_lo = clo, ib_hi = chi,
                  ib_ptr = ptr a ! nat pinv + l_offset * elemsize a, ib_ld = ldrem\<rparr>))))"

section \<open>The iterator\<close>

definition gai_iterator_next :: "ga_state \<Rightarrow> iterator_hdl \<Rightarrow> it_result" where
  "gai_iterator_next st h =
     (case distr_type (ga st (it_g_a h)) of
        REGULAR \<Rightarrow> regular_next st h
      | BLOCK_CYCLIC \<Rightarrow> cyclic_next st h
      | _ \<Rightarrow> tile_next st h)"

definition gai_iterator_last :: "ga_state \<Rightarrow> iterator_hdl \<Rightarrow> bool" where
  "gai_iterator_last st h =
     (let a = ga st (it_g_a h) in
      if distr_type a = REGULAR then it_count h \<ge> it_nproc h else iproc h \<ge> pnga_pgroup_nnodes (p_handle a) st)"

text \<open>The loop of a client, \<open>while (gai_iterator_next(...))\<close>, as the list of the blocks it sees.\<close>

partial_function (option) it_blocks :: "ga_state \<Rightarrow> iterator_hdl \<Rightarrow> (ga_error + it_block list) option" where
  [code]: "it_blocks st h =
     Option.bind (gai_iterator_next st h) (\<lambda>r. case r of Inl e \<Rightarrow> Some (Inl e)
       | Inr (h', None) \<Rightarrow> Some (Inr [])
       | Inr (h', Some b) \<Rightarrow> Option.bind (it_blocks st h') (\<lambda>r.
           Some (case r of Inl e \<Rightarrow> Inl e | Inr bs \<Rightarrow> Inr (b # bs))))"

section \<open>The iterator over the blocks of the caller\<close>

definition pnga_local_iterator_init :: "ga_state \<Rightarrow> int \<Rightarrow> iterator_hdl \<Rightarrow> iterator_hdl" where
  "pnga_local_iterator_init st g_a h =
     (let a = ga st g_a;
          me = pnga_pgroup_nodeid (p_handle a) st;
          h = h\<lparr>it_g_a := g_a, it_count := 0, oversize := 0\<rparr>;
          tiles = (\<lambda>h. h\<lparr>blk_num := num_blocks a, blk_inc := nblock a, blk_dim := dims a,
            proc_index := gam_find_proc_indices (nblock a) me, it_index := gam_find_proc_indices (nblock a) me\<rparr>)
      in case distr_type a of
        REGULAR \<Rightarrow> h
      | BLOCK_CYCLIC \<Rightarrow> h\<lparr>it_count := me\<rparr>
      | TILED_IRREG \<Rightarrow> tiles (h\<lparr>it_mapc := mapc a\<rparr>)
      | _ \<Rightarrow> tiles (h\<lparr>blk_size := block_dims a\<rparr>))"

text \<open>The process of the result is the caller.\<close>

definition local_block :: "ga_state \<Rightarrow> int list \<times> int list \<Rightarrow> ga_error + (int \<times> int list) \<Rightarrow> iterator_hdl \<Rightarrow>
  ga_error + (iterator_hdl \<times> it_block option)" where
  "local_block st b r h =
     (case r of Inl e \<Rightarrow> Inl e
      | Inr (p, ld) \<Rightarrow> Inr (h, Some \<lparr>ib_proc = GAme st, ib_lo = fst b, ib_hi = snd b, ib_ptr = p, ib_ld = ld\<rparr>))"

definition pnga_local_iterator_next ::
  "(int \<Rightarrow> int) \<Rightarrow> int \<Rightarrow> ga_state \<Rightarrow> iterator_hdl \<Rightarrow> ga_error + (iterator_hdl \<times> it_block option)" where
  "pnga_local_iterator_next smp my_smp st h =
     (let g_a = it_g_a h; a = ga st g_a in
      case distr_type a of
        REGULAR \<Rightarrow>
          if it_count h > 0 then Inr (h, None)
          else (case pnga_distribution st g_a (pnga_pgroup_nodeid (p_handle a) st) of Inl e \<Rightarrow> Inl e
            | Inr b \<Rightarrow>
              if list_ex (\<lambda>(l, u). u < l) (zip (fst b) (snd b)) then Inr (h, None)
              else local_block st b (pnga_access_ptr smp my_smp st g_a (fst b) (snd b)) (h\<lparr>it_count := it_count h + 1\<rparr>))
      | BLOCK_CYCLIC \<Rightarrow>
          if it_count h \<ge> pnga_total_blocks st g_a then Inr (h, None)
          else (case pnga_distribution st g_a (it_count h) of Inl e \<Rightarrow> Inl e
            | Inr b \<Rightarrow> local_block st b (pnga_access_block_ptr st g_a (it_count h))
                (h\<lparr>it_count := it_count h + pnga_pgroup_nnodes (p_handle a) st\<rparr>))
      | _ \<Rightarrow>
          if last (it_index h) \<ge> last (blk_num h) then Inr (h, None)
          else
            let b = (if distr_type a = TILED_IRREG
                     then let r = irreg_block (blk_num h) (dims a) (the (it_mapc h)) (it_index h) in (map fst r, map snd r)
                     else tile_limits (blk_size h) (blk_dim h) (it_index h))
            in local_block st b (pnga_access_block_grid_ptr st g_a (it_index h))
                 (h\<lparr>it_index := carry_index ((it_index h)[0 := it_index h ! 0 + blk_inc h ! 0])
                      (proc_index h) (blk_num h) (blk_inc h)\<rparr>))"

end
