(* ===== verification/GA_OneSided.thy ===== *)
theory GA_OneSided
  imports CX_Strided GA_Iterator
begin

text \<open>
  Put and get of a patch (src/global/src/onesided.c): the blocks of the iterator, remote ones first, go one by one to the
  strided transfers. A call issues its transfers in the order of the code; what it computes here is their list. When they
  take effect is another matter (\<open>completes\<close>): a put may reach the memory of another process long after the call has come
  back, and transfers may overtake each other. A non-blocking call differs from a blocking one in who waits.
  Statistics, the marks for fences and locks are left out, and so is the cache of \<open>pnga_get\<close> for arrays with the
  property READ_CACHE; without it \<open>pnga_get\<close> is \<open>ngai_get_common\<close>.
\<close>

section \<open>Transfers on their way\<close>

type_synonym issue = "memory \<Rightarrow> transfer"

text \<open>
  The life of transfers: \<open>ts\<close> are still to be issued, in this order, \<open>ps\<close> are issued and have not taken effect. At any
  time the next one is issued, or any of those on their way takes effect, whatever the order in which they were issued. The
  outcome is the memory when all have taken effect, which is what a fence, \<open>GA_Sync\<close> or, for a get, the wait for its
  handle makes sure of; or it is the first failure. The code waits earlier for some transfers (a blocking call does
  so before it comes back, and messages of one sender to one receiver do not overtake each other), so every order that the
  code can show is among these. A transfer is one step: the transfers of one call never meet, so its messages need no
  steps of their own.
\<close>

inductive completes :: "issue list \<Rightarrow> issue list \<Rightarrow> memory \<Rightarrow> transfer \<Rightarrow> bool" where
  all_done: "completes [] [] m (Some (Inr m))"
| issue: "completes ts (ps @ [t]) m r \<Longrightarrow> completes (t # ts) ps m r"
| effect: "t m = Some (Inr m') \<Longrightarrow> completes ts (ps @ qs) m' r \<Longrightarrow> completes ts (ps @ t # qs) m r"
| failure: "t m = Some (Inl e) \<Longrightarrow> completes ts (ps @ t # qs) m (Some (Inl e))"
| hang: "t m = None \<Longrightarrow> completes ts (ps @ t # qs) m None"

section \<open>One block\<close>

fun patch_index :: "int list \<Rightarrow> int list \<Rightarrow> int list \<Rightarrow> int \<Rightarrow> int" where
  "patch_index (l # lo) (p # plo) (d # ld) factor = factor * d * (p - l) + patch_index lo plo ld (factor * d)"
| "patch_index _ _ _ _ = 0"

definition gam_ComputePatchIndex :: "int list \<Rightarrow> int list \<Rightarrow> int list \<Rightarrow> int" where
  "gam_ComputePatchIndex lo plo ld = hd plo - hd lo + patch_index (tl lo) (tl plo) ld 1"

text \<open>
  A field of the elements is one more level: the arrays of strides and counts have an entry in front, the size of the
  element in the array and the size of the field in the buffer.
\<close>

definition field_strides :: "int \<Rightarrow> int \<Rightarrow> int list \<Rightarrow> int list" where
  "field_strides type_size field_size ss = field_size # map (\<lambda>s. s32 (s32 (cdiv s type_size) * field_size)) ss"

definition field_count :: "int \<Rightarrow> int \<Rightarrow> int list \<Rightarrow> int list" where
  "field_count type_size field_size count = field_size # cdiv (hd count) type_size # tl count"

definition field_buf :: "int \<Rightarrow> int \<Rightarrow> int \<Rightarrow> int \<Rightarrow> int" where
  "field_buf base pbuf type_size field_size = base + cdiv (pbuf - base) type_size * field_size"

definition ngai_puts ::
  "comex_cfg \<Rightarrow> int \<Rightarrow> int \<Rightarrow> int list \<Rightarrow> int \<Rightarrow> int list \<Rightarrow> int list \<Rightarrow> int \<Rightarrow> int \<Rightarrow> int \<Rightarrow> int \<Rightarrow> memory \<Rightarrow> transfer" where
  "ngai_puts c base pbuf sl prem sr count proc field_off field_size type_size m =
     (if field_size < 0 \<or> field_size = type_size then PARMCI_PutS c pbuf sl prem sr count proc m
      else PARMCI_PutS c (field_buf base pbuf type_size field_size) (field_strides type_size field_size sl)
        (prem + field_off) (type_size # sr) (field_count type_size field_size count) proc m)"

definition ngai_nbputs ::
  "comex_cfg \<Rightarrow> int \<Rightarrow> int \<Rightarrow> int list \<Rightarrow> int \<Rightarrow> int list \<Rightarrow> int list \<Rightarrow> int \<Rightarrow> int \<Rightarrow> int \<Rightarrow> int \<Rightarrow> memory \<Rightarrow> transfer" where
  "ngai_nbputs c base pbuf sl prem sr count proc field_off field_size type_size m =
     (if field_size < 0 \<or> field_size = type_size then PARMCI_NbPutS c pbuf sl prem sr count proc m
      else PARMCI_NbPutS c (field_buf base pbuf type_size field_size) (field_strides type_size field_size sl)
        (prem + field_off) (type_size # sr) (field_count type_size field_size count) proc m)"

definition ngai_nbgets ::
  "comex_cfg \<Rightarrow> int \<Rightarrow> int \<Rightarrow> int list \<Rightarrow> int \<Rightarrow> int list \<Rightarrow> int list \<Rightarrow> int \<Rightarrow> int \<Rightarrow> int \<Rightarrow> int \<Rightarrow> memory \<Rightarrow> transfer" where
  "ngai_nbgets c base prem sr pbuf sl count proc field_off field_size type_size m =
     (if field_size < 0 \<or> field_size = type_size then PARMCI_NbGetS c prem sr pbuf sl count proc m
      else PARMCI_NbGetS c (prem + field_off) (type_size # sr) (field_buf base pbuf type_size field_size)
        (field_strides type_size field_size sl) (field_count type_size field_size count) proc m)"

definition ngai_gets ::
  "comex_cfg \<Rightarrow> int \<Rightarrow> int \<Rightarrow> int list \<Rightarrow> int \<Rightarrow> int list \<Rightarrow> int list \<Rightarrow> int \<Rightarrow> int \<Rightarrow> int \<Rightarrow> int \<Rightarrow> memory \<Rightarrow> transfer" where
  "ngai_gets c base prem sr pbuf sl count proc field_off field_size type_size m =
     ngai_nbgets c base prem sr pbuf sl count proc field_off field_size type_size m"

section \<open>All blocks\<close>

text \<open>
  What a block needs: the place in the buffer, the strides of the array and of the buffer, and the counts in bytes. There
  is one stride less than dimensions.
\<close>

definition block_args :: "ga_state \<Rightarrow> int \<Rightarrow> int list \<Rightarrow> int \<Rightarrow> int list \<Rightarrow> it_block \<Rightarrow> int \<times> int list \<times> int list \<times> int list" where
  "block_args st g_a lo buf ld b =
     (let size = elemsize (ga st g_a); ndim = length (ib_lo b);
          pbuf = size * gam_ComputePatchIndex lo (ib_lo b) ld + buf;
          count = gam_ComputeCount (ib_lo b) (ib_hi b);
          (sr, sl) = gam_setstride ndim size ld (ib_ld b)
      in (pbuf, take (ndim - 1) sr, take (ndim - 1) sl, s32 (hd count * size) # tl count))"

text \<open>The blocks of the iterator in turn, each with the transfers it gives rise to.\<close>

partial_function (option) each_block ::
  "ga_state \<Rightarrow> (iterator_hdl \<Rightarrow> it_block \<Rightarrow> issue list) \<Rightarrow> iterator_hdl \<Rightarrow> (ga_error + (iterator_hdl \<times> issue list)) option" where
  [code]: "each_block st f h =
     Option.bind (gai_iterator_next st h) (\<lambda>r. case r of Inl e \<Rightarrow> Some (Inl e)
       | Inr (h', None) \<Rightarrow> Some (Inr (h', []))
       | Inr (h', Some b) \<Rightarrow> Option.bind (each_block st f h') (\<lambda>r.
           Some (case r of Inl e \<Rightarrow> Inl e | Inr (h'', ts) \<Rightarrow> Inr (h'', f h' b @ ts))))"

text \<open>The two rounds, for processes on other nodes and on the node of the caller.\<close>

definition two_rounds ::
  "ga_state \<Rightarrow> (int \<Rightarrow> bool) \<Rightarrow> (int \<Rightarrow> iterator_hdl \<Rightarrow> it_block \<Rightarrow> issue) \<Rightarrow> iterator_hdl \<Rightarrow> (ga_error + issue list) option" where
  "two_rounds st same f h =
     (let round = (\<lambda>loop h. each_block st (\<lambda>h b. if same (ib_proc b) = (loop = 1) then [f loop h b] else [])
            (gai_iterator_reset st h))
      in Option.bind (round 0 h) (\<lambda>r. case r of Inl e \<Rightarrow> Some (Inl e) | Inr (h, ts) \<Rightarrow>
         Option.bind (round 1 h) (\<lambda>r. Some (case r of Inl e \<Rightarrow> Inl e | Inr (h, us) \<Rightarrow> Inr (ts @ us)))))"

definition ngai_put_common ::
  "(nat \<Rightarrow> int) \<Rightarrow> ga_state \<Rightarrow> int \<Rightarrow> comex_cfg \<Rightarrow> int \<Rightarrow> int list \<Rightarrow> int list \<Rightarrow> int \<Rightarrow> int list \<Rightarrow> int \<Rightarrow> int \<Rightarrow> bool \<Rightarrow>
   iterator_hdl \<Rightarrow> (ga_error + issue list) option" where
  "ngai_put_common rnd st ppn c g_a lo hi buf ld field_off field_size nbhandle hdl =
     (case ga_check_handleM st g_a ''ngai_put_common'' of Some e \<Rightarrow> Some (Inl e) | None \<Rightarrow>
      case gai_iterator_init rnd st g_a lo hi hdl of Inl e \<Rightarrow> Some (Inl e) | Inr h \<Rightarrow>
        two_rounds st (armci_domain_same_id ppn c) (\<lambda>loop h b.
          let size = elemsize (ga st g_a); (pbuf, sr, sl, count) = block_args st g_a lo buf ld b
          in if \<not> nbhandle \<and> (loop = 0 \<and> gai_iterator_last st h \<or> loop = 1)
             then ngai_puts c buf pbuf sl (ib_ptr b) sr count (ib_proc b) field_off field_size size
             else ngai_nbputs c buf pbuf sl (ib_ptr b) sr count (ib_proc b) field_off field_size size) h)"

definition ngai_get_common ::
  "(nat \<Rightarrow> int) \<Rightarrow> ga_state \<Rightarrow> int \<Rightarrow> comex_cfg \<Rightarrow> int \<Rightarrow> int list \<Rightarrow> int list \<Rightarrow> int \<Rightarrow> int list \<Rightarrow> int \<Rightarrow> int \<Rightarrow> bool \<Rightarrow>
   iterator_hdl \<Rightarrow> (ga_error + issue list) option" where
  "ngai_get_common rnd st ppn c g_a lo hi buf ld field_off field_size nbhandle hdl =
     (case ga_check_handleM st g_a ''ngai_get_common'' of Some e \<Rightarrow> Some (Inl e) | None \<Rightarrow>
      case gai_iterator_init rnd st g_a lo hi hdl of Inl e \<Rightarrow> Some (Inl e) | Inr h \<Rightarrow>
        two_rounds st (armci_domain_same_id ppn c) (\<lambda>loop h b.
          let size = elemsize (ga st g_a); (pbuf, sr, sl, count) = block_args st g_a lo buf ld b
          in if \<not> nbhandle \<and> (loop = 0 \<and> gai_iterator_last st h \<or> loop = 1)
             then ngai_gets c buf (ib_ptr b) sr pbuf sl count (ib_proc b) field_off field_size size
             else ngai_nbgets c buf (ib_ptr b) sr pbuf sl count (ib_proc b) field_off field_size size) h)"

section \<open>The calls\<close>

definition pnga_put where
  "pnga_put rnd st ppn c g_a lo hi buf ld hdl = ngai_put_common rnd st ppn c g_a lo hi buf ld 0 (-1) False hdl"

definition pnga_nbput where
  "pnga_nbput rnd st ppn c g_a lo hi buf ld hdl = ngai_put_common rnd st ppn c g_a lo hi buf ld 0 (-1) True hdl"

definition pnga_put_field where
  "pnga_put_field rnd st ppn c g_a lo hi foff fsize buf ld hdl = ngai_put_common rnd st ppn c g_a lo hi buf ld foff fsize False hdl"

definition pnga_nbput_field where
  "pnga_nbput_field rnd st ppn c g_a lo hi foff fsize buf ld hdl = ngai_put_common rnd st ppn c g_a lo hi buf ld foff fsize True hdl"

definition pnga_nbget where
  "pnga_nbget rnd st ppn c g_a lo hi buf ld hdl = ngai_get_common rnd st ppn c g_a lo hi buf ld 0 (-1) True hdl"

definition pnga_get_field where
  "pnga_get_field rnd st ppn c g_a lo hi foff fsize buf ld hdl = ngai_get_common rnd st ppn c g_a lo hi buf ld foff fsize False hdl"

definition pnga_nbget_field where
  "pnga_nbget_field rnd st ppn c g_a lo hi foff fsize buf ld hdl = ngai_get_common rnd st ppn c g_a lo hi buf ld foff fsize True hdl"

end
