(* ===== verification/CX_Moves.thy ===== *)
theory CX_Moves
  imports CX_Strided GA_Grid
begin

text \<open>
  What a strided transfer does to memory, and that every route through the code does it: the bytes of a block with
  strides, as pairs of a destination and a source, are copied and nothing else changes.
\<close>

section \<open>Copying bytes\<close>

text \<open>
  The bytes of \<open>m'\<close> at the destinations of \<open>R\<close> are those of \<open>m\<^sub>0\<close> at the sources, all others those of \<open>m\<close>.
\<close>

definition peek :: "memory \<Rightarrow> int \<times> int \<Rightarrow> byte" where
  "peek m x = m (fst x) (snd x)"

definition moved :: "memory \<Rightarrow> ((int \<times> int) \<times> (int \<times> int)) set \<Rightarrow> memory \<Rightarrow> memory \<Rightarrow> bool" where
  "moved m0 R m m' \<longleftrightarrow> (\<forall>(d, s)\<in>R. peek m' d = peek m0 s) \<and> (\<forall>d. d \<notin> Domain R \<longrightarrow> peek m' d = peek m d)"

lemma movedI: "(\<And>d s. (d, s) \<in> R \<Longrightarrow> peek m' d = peek m0 s) \<Longrightarrow> (\<And>d. d \<notin> Domain R \<Longrightarrow> peek m' d = peek m d) \<Longrightarrow> moved m0 R m m'"
  unfolding moved_def by blast

lemma moved_to: "moved m0 R m m' \<Longrightarrow> (d, s) \<in> R \<Longrightarrow> peek m' d = peek m0 s"
  and moved_frame: "moved m0 R m m' \<Longrightarrow> d \<notin> Domain R \<Longrightarrow> peek m' d = peek m d"
  unfolding moved_def by blast+

lemma moved_empty: "moved m0 {} m m"
  by (simp add: moved_def)

lemma moved_Un:
  assumes "moved m0 R m m1" "moved m0 R' m1 m2" "Domain R \<inter> Domain R' = {}"
  shows "moved m0 (R \<union> R') m m2"
proof (rule movedI)
  fix d s assume "(d, s) \<in> R \<union> R'"
  then show "peek m2 d = peek m0 s"
  proof
    assume r: "(d, s) \<in> R"
    then have "d \<notin> Domain R'" using assms(3) by blast
    then show ?thesis using moved_frame [OF assms(2)] moved_to [OF assms(1) r] by simp
  qed (rule moved_to [OF assms(2)])
next
  fix d assume "d \<notin> Domain (R \<union> R')"
  then have "d \<notin> Domain R" "d \<notin> Domain R'" by blast+
  then show "peek m2 d = peek m d" using moved_frame [OF assms(1)] moved_frame [OF assms(2)] by simp
qed

text \<open>Copies that run after others read the same bytes, unless these were overwritten.\<close>

lemma moved_seq:
  assumes "moved m R m m1" "moved m1 R' m1 m2" "Domain R \<inter> Domain R' = {}" "Range R' \<inter> Domain R = {}"
  shows "moved m (R \<union> R') m m2"
proof -
  have "moved m R' m1 m2"
  proof (rule movedI)
    fix d s assume r: "(d, s) \<in> R'"
    then have "s \<notin> Domain R" using assms(4) by blast
    then show "peek m2 d = peek m s" using moved_to [OF assms(2) r] moved_frame [OF assms(1)] by simp
  qed (rule moved_frame [OF assms(2)])
  then show ?thesis using moved_Un assms(1,3) by blast
qed

definition seg :: "int \<Rightarrow> int \<Rightarrow> int \<Rightarrow> int \<Rightarrow> int \<Rightarrow> ((int \<times> int) \<times> (int \<times> int)) set" where
  "seg q d p s n = (\<lambda>k. ((q, d + k), (p, s + k))) ` {0..<n}"

lemma seg_Domain: "Domain (seg q d p s n) = Pair q ` {d..<d + n}"
proof -
  have "{d..<d + n} = (+) d ` {0..<n}" by (simp add: add.commute)
  then show ?thesis unfolding seg_def Domain_fst image_image fst_conv by (simp only: image_image)
qed

lemma seg_Range: "Range (seg q d p s n) = Pair p ` {s..<s + n}"
proof -
  have "{s..<s + n} = (+) s ` {0..<n}" by (simp add: add.commute)
  then show ?thesis unfolding seg_def Range_snd image_image snd_conv by (simp only: image_image)
qed

lemma store_moved:
  assumes "0 \<le> n"
  shows "moved m0 (seg q d p s n) m (store m q d (load m0 p s n))"
proof (rule movedI)
  fix x y assume "(x, y) \<in> seg q d p s n"
  then obtain k where "0 \<le> k" "k < n" "x = (q, d + k)" "y = (p, s + k)" by (auto simp: seg_def)
  then show "peek (store m q d (load m0 p s n)) x = peek m0 y" by (simp add: peek_def store_def load_def)
next
  fix x assume "x \<notin> Domain (seg q d p s n)"
  then show "peek (store m q d (load m0 p s n)) x = peek m x"
    using assms by (cases x) (auto simp: seg_Domain peek_def store_def load_def)
qed

section \<open>Blocks with strides\<close>

definition dot :: "int list \<Rightarrow> int list \<Rightarrow> int" where
  "dot e ss = sum_list (map2 (*) e ss)"

lemma dot_simps [simp]: "dot [] ss = 0" "dot e [] = 0" "dot (i # e) (s # ss) = i * s + dot e ss"
  by (simp_all add: dot_def)

text \<open>The positions of a grid in the order of their numbers.\<close>

definition tuples :: "int list \<Rightarrow> int list list" where
  "tuples cs = map (gam_find_proc_indices cs) [0..prod_list cs - 1]"

lemma set_tuples: "grid_ok cs \<Longrightarrow> set (tuples cs) = {e. in_grid cs e}"
proof -
  assume g: "grid_ok cs"
  have "e \<in> gam_find_proc_indices cs ` {0..prod_list cs - 1}" if e: "in_grid cs e" for e
    using proc_indices_of_pos [OF g e] pos_bound [OF g e] by (intro image_eqI [of _ _ "pos cs e"]) auto
  then show ?thesis using proc_indices_pos [OF g] by (auto simp: tuples_def)
qed

lemma digits_Cons:
  assumes "0 < c" "0 \<le> k"
  shows "gam_find_proc_indices (c # cs) k = k mod c # gam_find_proc_indices cs (k div c)"
proof -
  have "cdiv (k - k mod c) c = k div c" using assms by (simp add: minus_mod_eq_mult_div pos_imp_zdiv_nonneg_iff)
  then show ?thesis using assms by (simp add: Let_def)
qed

declare gam_find_proc_indices.simps(2) [simp del]

text \<open>The counters of the loop over the rows hold the position of the row.\<close>

lemma succ_div_mod:
  fixes i u :: int
  assumes "0 < u"
  shows "(i + 1) div u = (if i mod u = u - 1 then i div u + 1 else i div u)" "(i + 1) mod u = (if i mod u = u - 1 then 0 else i mod u + 1)"
proof -
  have q: "i = u * (i div u) + i mod u" "0 \<le> i mod u" "i mod u < u" using assms by simp_all
  define j r where "j = i div u" and "r = i mod u"
  have "(i + 1) div u = (if r = u - 1 then j + 1 else j) \<and> (i + 1) mod u = (if r = u - 1 then 0 else r + 1)"
  proof (cases "r = u - 1")
    case True
    then have "i + 1 = u * (j + 1) + 0" using q(1) unfolding j_def r_def distrib_left by linarith
    then show ?thesis using True int_div_pos_eq [of "i + 1" u "j + 1" 0] int_mod_pos_eq [of "i + 1" u "j + 1" 0] assms by simp
  next
    case False
    then have "i + 1 = u * j + (r + 1)" "0 \<le> r + 1" "r + 1 < u" using q unfolding j_def r_def by linarith+
    then show ?thesis using False int_div_pos_eq [of "i + 1" u j "r + 1"] int_mod_pos_eq [of "i + 1" u j "r + 1"] by simp
  qed
  then show "(i + 1) div u = (if i mod u = u - 1 then i div u + 1 else i div u)" "(i + 1) mod u = (if i mod u = u - 1 then 0 else i mod u + 1)"
    by (auto simp: j_def r_def)
qed

lemma counter_step:
  fixes i u c :: int
  assumes "0 < u" "0 < c"
  shows "(let v = (if (i + 1) mod u = 0 then i div u mod c + 1 else i div u mod c) in if v > c - 1 then 0 else v) = (i + 1) div u mod c"
proof -
  have b: "j mod c < c" for j using pos_mod_bound [OF assms(2)] .
  have "(i + 1) mod u = 0 \<longleftrightarrow> i mod u = u - 1"
    using succ_div_mod(2) [OF assms(1), of i] pos_mod_sign [OF assms(1), of i] by auto
  then show ?thesis
    unfolding succ_div_mod(1) [OF assms(1)] using b [of "i div u"] succ_div_mod(2) [OF assms(2), of "i div u"] by (auto simp: Let_def)
qed

lemma step_digits:
  assumes "grid_ok cs" "0 < u" "0 \<le> i" "u * prod_list cs < 2147483648" "length ss = length cs"
  shows "stride_step i (gam_find_proc_indices cs (i div u)) (bunit u cs) cs ss =
    (dot (gam_find_proc_indices cs (i div u)) ss, gam_find_proc_indices cs ((i + 1) div u))"
  using assms
proof (induction cs arbitrary: u ss)
  case (Cons c cs)
  obtain s ss' where s: "ss = s # ss'" using Cons.prems(5) by (cases ss) auto
  have c: "0 < c" "grid_ok cs" "0 < u * c" "0 < prod_list cs" using Cons.prems(1,2) grid_prod_pos by auto
  have "u * c * 1 \<le> u * c * prod_list cs" using c by (intro mult_left_mono) auto
  then have w: "s32 (u * c) = u * c" using Cons.prems(4) c by (intro s32_id) (auto simp: mult.assoc)
  have IH: "stride_step i (gam_find_proc_indices cs (i div (u * c))) (bunit (u * c) cs) cs ss' =
      (dot (gam_find_proc_indices cs (i div (u * c))) ss', gam_find_proc_indices cs ((i + 1) div (u * c)))"
    using Cons.IH [OF c(2,3)] Cons.prems s by (simp add: mult.assoc)
  have d: "gam_find_proc_indices (c # cs) (j div u) = j div u mod c # gam_find_proc_indices cs (j div (u * c))" if "0 \<le> j" for j
    using digits_Cons [OF c(1), of "j div u" cs] that Cons.prems(2) c(1) zdiv_zmult2_eq [of c j u] by (simp add: pos_imp_zdiv_nonneg_iff)
  show ?case using IH Cons.prems(2,3) counter_step [OF Cons.prems(2) c(1), of i] w s d [of i] d [of "i + 1"]
    by (simp add: Let_def)
qed simp

lemma loop_digits:
  assumes "grid_ok cs" "0 \<le> i" "prod_list cs < 2147483648" "length ss = length cs"
  shows "stride_loop n i (gam_find_proc_indices cs i) (bunit 1 cs) cs ss =
    map (\<lambda>k. dot (gam_find_proc_indices cs k) ss) [i..i + int n - 1]"
  using assms(2)
proof (induction n arbitrary: i)
  case (Suc n)
  have "[i..i + int (Suc n) - 1] = i # [i + 1..(i + 1) + int n - 1]" by (simp add: upto_rec1)
  then show ?case using Suc.IH [of "i + 1"] Suc.prems step_digits [OF assms(1), of 1 i ss] assms(3,4) by simp
qed simp

lemma n1dim_prod:
  assumes "grid_ok cs" "prod_list cs < 2147483648"
  shows "n1dim cs = prod_list cs"
proof -
  have "foldl (\<lambda>n c. s32 (n * c)) n cs = n * prod_list cs" if "grid_ok cs" "0 < n" "n * prod_list cs < 2147483648" for n
    using that
  proof (induction cs arbitrary: n)
    case (Cons c cs)
    have c: "0 < n * c" "0 < prod_list cs" using Cons.prems grid_prod_pos by auto
    have "n * c * 1 \<le> n * c * prod_list cs" using c by (intro mult_left_mono) auto
    then have "s32 (n * c) = n * c" using Cons.prems(3) c by (intro s32_id) (auto simp: mult.assoc)
    then show ?case using Cons.IH [of "n * c"] Cons.prems c by (simp add: mult.assoc)
  qed simp
  from this [of 1] show ?thesis using assms by (simp add: n1dim_def)
qed

lemma digits_zero: "grid_ok cs \<Longrightarrow> gam_find_proc_indices cs 0 = map (\<lambda>_. 0) cs"
  by (induction cs) (simp_all add: digits_Cons)

lemma stride_offsets_eq:
  assumes "grid_ok cs" "prod_list cs < 2147483648" "length ss = length cs"
  shows "stride_offsets ss cs = map (\<lambda>e. dot e ss) (tuples cs)"
  using loop_digits [OF assms(1) _ assms(2,3), of 0 "nat (prod_list cs)"] grid_prod_pos [OF assms(1)] n1dim_prod [OF assms(1,2)]
  by (simp add: stride_offsets_def tuples_def digits_zero [OF assms(1)] o_def)

text \<open>
  The bytes of a block: \<open>count\<close> has the bytes of a row and then the number of steps of each level. Rows and blocks of
  every level fit into the stride of the next one.
\<close>

definition block :: "int \<Rightarrow> int \<Rightarrow> int list \<Rightarrow> int \<Rightarrow> int \<Rightarrow> int list \<Rightarrow> int list \<Rightarrow> ((int \<times> int) \<times> (int \<times> int)) set" where
  "block q d ds p s ss count = (\<lambda>e. ((q, d + dot e (1 # ds)), (p, s + dot e (1 # ss)))) ` {e. in_grid count e}"

fun nested :: "int \<Rightarrow> int list \<Rightarrow> int list \<Rightarrow> bool" where
  "nested w (c # cs) (s # ss) \<longleftrightarrow> 0 < c \<and> w \<le> s \<and> nested (s * c) cs ss"
| "nested w cs ss \<longleftrightarrow> cs = [] \<and> ss = []"

lemma nested_length: "nested w cs ss \<Longrightarrow> length ss = length cs"
  by (induction w cs ss rule: nested.induct) auto

lemma nested_grid: "nested w cs ss \<Longrightarrow> grid_ok cs"
  by (induction w cs ss rule: nested.induct) auto

lemma dot_apart:
  assumes "nested w cs ss" "0 < w" "0 \<le> i" "i < j" "j < prod_list cs"
  shows "0 \<le> dot (gam_find_proc_indices cs i) ss \<and>
    dot (gam_find_proc_indices cs i) ss + w \<le> dot (gam_find_proc_indices cs j) ss"
  using assms
proof (induction w cs ss arbitrary: i j rule: nested.induct)
  case (1 w c cs s ss)
  have c: "0 < c" "w \<le> s" "nested (s * c) cs ss" "0 < s * c" "0 < s" using "1.prems" by auto
  have d: "gam_find_proc_indices (c # cs) k = k mod c # gam_find_proc_indices cs (k div c)" if "0 \<le> k" for k
    using digits_Cons c(1) that by simp
  have q: "0 \<le> i div c" "i div c \<le> j div c" "j div c < prod_list cs"
    using c(1) "1.prems" div_less zdiv_mono1 by (auto simp: pos_imp_zdiv_nonneg_iff)
  have r: "0 \<le> i mod c * s" "0 \<le> j mod c * s" "i mod c + 1 \<le> c" using c by (auto simp: add1_zle_eq)
  show ?case
  proof (cases "i div c = j div c")
    case True
    have "i mod c + 1 \<le> j mod c" using "1.prems"(4) div_mult_mod_eq [of i c, unfolded True] div_mult_mod_eq [of j c] by linarith
    then have "(i mod c + 1) * s \<le> j mod c * s" using c by (intro mult_right_mono) auto
    moreover have "0 \<le> dot (gam_find_proc_indices cs (i div c)) ss"
    proof (cases "i div c = 0")
      case True
      then show ?thesis using digits_zero [OF nested_grid [OF c(3)]] by (simp add: dot_def zip_map1 o_def case_prod_unfold)
    next
      case False
      then have "0 < i div c" using q by simp
      then show ?thesis using "1.IH" [OF c(3,4), of 0 "i div c"] c(4) q True by auto
    qed
    ultimately show ?thesis using True d "1.prems" r c(2) by (simp add: distrib_right)
  next
    case False
    then have lt: "i div c < j div c" using q by simp
    have "(i mod c + 1) * s \<le> c * s" using r c by (intro mult_right_mono) auto
    then have "i mod c * s + s \<le> s * c" by (simp add: algebra_simps)
    moreover have "0 \<le> j" using "1.prems" by simp
    ultimately show ?thesis using "1.IH" [OF c(3,4) q(1) lt q(3)] r c(2)
      unfolding d [OF "1.prems"(3)] d [OF \<open>0 \<le> j\<close>] dot_simps by linarith
  qed
qed auto

lemma dot_nonneg:
  assumes "nested w cs ss" "0 < w" "in_grid cs e"
  shows "0 \<le> dot e ss"
  using assms
proof (induction w cs ss arbitrary: e rule: nested.induct)
  case (1 w c cs s ss)
  then obtain i e' where "e = i # e'" by (cases e) auto
  then show ?case using 1 by auto
qed auto

lemma dot_unit [simp]: "dot (k # e) (1 # ss) = k + dot e ss"
  by simp

lemma block_rows:
  "block q d ds p s ss (n # cs) = (\<Union>e\<in>{e. in_grid cs e}. seg q (d + dot e ds) p (s + dot e ss) n)"
proof -
  have "{e. in_grid (n # cs) e} = (\<Union>e\<in>{e. in_grid cs e}. (\<lambda>k. k # e) ` {0..<n})"
  proof (intro set_eqI)
    fix e show "e \<in> {e. in_grid (n # cs) e} \<longleftrightarrow> e \<in> (\<Union>e\<in>{e. in_grid cs e}. (\<lambda>k. k # e) ` {0..<n})"
      by (cases e) auto
  qed
  then show ?thesis unfolding block_def seg_def by (simp add: image_UN image_image add.assoc add.commute [of "dot _ _"])
qed

section \<open>The routes of a transfer\<close>

text \<open>Rows copied one after the other: destinations do not meet, and sources are not overwritten.\<close>

definition separate :: "((int \<times> int) \<times> (int \<times> int)) set \<Rightarrow> bool" where
  "separate R \<longleftrightarrow> Domain R \<inter> Range R = {}"

lemma separate_subset: "separate R \<Longrightarrow> A \<subseteq> R \<Longrightarrow> B \<subseteq> R \<Longrightarrow> Range A \<inter> Domain B = {}"
  unfolding separate_def by blast

lemma rows_apart:
  assumes "nested n cs ds" "0 < n"
  shows "sorted_wrt (\<lambda>e e'. Domain (seg q (d + dot e ds) p (s + dot e ss) n) \<inter> Domain (seg q (d + dot e' ds) p (s + dot e' ss) n) = {}) (tuples cs)"
  unfolding tuples_def sorted_wrt_map
proof (rule sorted_wrt_mono_rel [of _ "(<)"])
  fix i j assume "i \<in> set [0..prod_list cs - 1]" "j \<in> set [0..prod_list cs - 1]" "i < j"
  then have "dot (gam_find_proc_indices cs i) ds + n \<le> dot (gam_find_proc_indices cs j) ds"
    using dot_apart [OF assms, of i j] by auto
  then show "Domain (seg q (d + dot (gam_find_proc_indices cs i) ds) p (s + dot (gam_find_proc_indices cs i) ss) n) \<inter>
      Domain (seg q (d + dot (gam_find_proc_indices cs j) ds) p (s + dot (gam_find_proc_indices cs j) ss) n) = {}"
    unfolding seg_Domain by auto
qed (simp add: sorted_wrt_upto)

lemma stores_moved:
  assumes "sorted_wrt (\<lambda>e e'. Domain (R e) \<inter> Domain (R e') = {}) es"
    "\<And>e m. e \<in> set es \<Longrightarrow> moved m0 (R e) m (f m e)"
  shows "moved m0 (\<Union>e\<in>set es. R e) m (foldl f m es)"
  using assms
proof (induction es arbitrary: m)
  case (Cons e es)
  have "Domain (R e) \<inter> Domain (\<Union>e\<in>set es. R e) = {}" using Cons.prems(1) by auto
  moreover have "moved m0 (\<Union>e\<in>set es. R e) (f m e) (foldl f (f m e) es)" using Cons by simp
  ultimately show ?case using moved_Un [of m0 "R e" m "f m e"] Cons.prems(2) by simp
qed (simp add: moved_empty)

lemma each_segment_moved:
  assumes "sorted_wrt (\<lambda>x y. Domain (R x) \<inter> Domain (R y) = {}) xs" "separate (\<Union>x\<in>set xs. R x)"
    "\<And>x m. x \<in> set xs \<Longrightarrow> \<exists>m'. f (fst x) (snd x) m = Some (Inr m') \<and> moved m (R x) m m'"
  shows "\<exists>m'. each_segment f xs m = Some (Inr m') \<and> moved m (\<Union>x\<in>set xs. R x) m m'"
  using assms
proof (induction xs arbitrary: m)
  case (Cons x xs)
  obtain m1 where m1: "f (fst x) (snd x) m = Some (Inr m1)" "moved m (R x) m m1" using Cons.prems(3) [of x m] by auto
  have "separate (\<Union>x\<in>set xs. R x)" using Cons.prems(2) unfolding separate_def by auto
  then obtain m2 where m2: "each_segment f xs m1 = Some (Inr m2)" "moved m1 (\<Union>x\<in>set xs. R x) m1 m2"
    using Cons.IH [of m1] Cons.prems(1,3) by auto
  have "Domain (R x) \<inter> Domain (\<Union>x\<in>set xs. R x) = {}" using Cons.prems(1) by auto
  moreover have "Range (\<Union>x\<in>set xs. R x) \<inter> Domain (R x) = {}" by (rule separate_subset [OF Cons.prems(2)]) auto
  ultimately have "moved m (R x \<union> (\<Union>x\<in>set xs. R x)) m m2" using moved_seq [OF m1(2) m2(2)] by blast
  then show ?case using m1(1) m2(1) by (cases x) simp
qed (simp add: moved_empty)

text \<open>Packed data, and messages of bounded size.\<close>

lemma send_forward_concat: "0 < mx \<Longrightarrow> deliver_forward mx bs = Some bs"
proof (induction "length bs" arbitrary: bs rule: less_induct)
  case less
  show ?case
  proof (cases "int (length bs) > mx")
    case True
    let ?r = "drop (nat mx) bs"
    have "length ?r < length bs" "?r \<noteq> []" using True less.prems by auto
    then have "deliver_forward mx ?r = Some ?r" using less by blast
    then show ?thesis using True \<open>?r \<noteq> []\<close> unfolding deliver_forward_def
      by (subst send_forward.simps) (auto simp: Let_def)
  qed (simp add: deliver_forward_def send_forward.simps [of mx bs])
qed

lemma send_backward_concat: "0 < mx \<Longrightarrow> deliver_backward mx bs = Some bs"
proof (induction "length bs" arbitrary: bs rule: less_induct)
  case less
  show ?case
  proof (cases "int (length bs) > mx")
    case True
    let ?n = "length bs - nat mx"
    have "length (take ?n bs) < length bs" "0 < ?n" using True less.prems by auto
    then have "deliver_backward mx (take ?n bs) = Some (take ?n bs)" using less by blast
    then show ?thesis using True \<open>0 < ?n\<close> unfolding deliver_backward_def
      by (subst send_backward.simps) (auto simp: Let_def)
  qed (simp add: deliver_backward_def send_backward.simps [of mx bs])
qed

lemma length_load [simp]: "length (load m p a n) = nat n"
  by (simp add: load_def)

lemma unpack_pack:
  assumes "grid_ok cs" "prod_list cs < 2147483648" "length ss = length cs" "length ds = length cs"
  shows "unpacked_rows m q (packed_rows m0 p s ss (n # cs)) d ds (n # cs) =
    foldl (\<lambda>m e. store m q (d + dot e ds) (load m0 p (s + dot e ss) n)) m (tuples cs)"
proof -
  have "fst (foldl (\<lambda>(m, buf) x. (store m q (d + x) (take (nat n) buf), drop (nat n) buf))
      (m, concat (map (\<lambda>e. load m0 p (s + dot e ss) n) es)) (map (\<lambda>e. dot e ds) es)) =
    foldl (\<lambda>m e. store m q (d + dot e ds) (load m0 p (s + dot e ss) n)) m es" for es
    by (induction es arbitrary: m) simp_all
  then show ?thesis
    by (simp add: unpacked_rows_def packed_rows_def stride_offsets_eq [OF assms(1,2,3)] stride_offsets_eq [OF assms(1,2,4)] o_def)
qed

lemma unpack_moved:
  assumes "nested n cs ss" "nested n cs ds" "0 < n" "prod_list cs < 2147483648"
  shows "moved m (block q d ds p s ss (n # cs)) m (unpacked_rows m q (packed_rows m p s ss (n # cs)) d ds (n # cs))"
proof -
  note g = nested_grid [OF assms(1)]
  have "moved m (\<Union>e\<in>set (tuples cs). seg q (d + dot e ds) p (s + dot e ss) n) m
      (foldl (\<lambda>m' e. store m' q (d + dot e ds) (load m p (s + dot e ss) n)) m (tuples cs))"
    using assms(3) by (intro stores_moved rows_apart [OF assms(2,3)] store_moved) auto
  then show ?thesis
    unfolding unpack_pack [OF g assms(4) nested_length [OF assms(1)] nested_length [OF assms(2)]] block_rows set_tuples [OF g] .
qed

text \<open>
  MPI datatypes. \<open>MPI_Type_create_subarray\<close> with the order of Fortran and starts 0 takes the bytes of the subarray in the
  order of their numbers; it needs sizes at least as large as the subarray. The strides of a block have such sizes when
  every stride is a multiple of the one before it.
\<close>

definition mpi_ok :: "comex_cfg \<Rightarrow> bool" where
  "mpi_ok c \<longleftrightarrow> (\<forall>ns cs. list_all2 (\<lambda>c n. 0 < c \<and> c \<le> n) cs ns \<longrightarrow> mpi_subarray c ns cs = Some (map (pos ns) (tuples cs)))"

fun chain :: "int \<Rightarrow> int list \<Rightarrow> bool" where
  "chain u (s # ss) \<longleftrightarrow> 0 < u \<and> u dvd s \<and> chain s ss"
| "chain u [] \<longleftrightarrow> 0 < u"

lemma chain_pos: "chain u ss \<Longrightarrow> 0 < u"
  by (cases ss) auto

lemma chain_step:
  assumes "chain u (s # ss)"
  shows "0 < s" "cdiv s u = s div u" "u * (s div u) = s" "0 < u" "u * c \<le> s \<Longrightarrow> c \<le> s div u"
proof -
  show u: "0 < u" "0 < s" using assms chain_pos [of s ss] by auto
  then show d: "cdiv s u = s div u" "u * (s div u) = s" using assms by auto
  show "c \<le> s div u" if "u * c \<le> s"
  proof -
    have "u * c \<le> u * (s div u)" using that d(2) by simp
    then show ?thesis using u(1) by simp
  qed
qed

lemma dtype_sizes_pos:
  assumes "chain u ss" "0 < c" "nested (u * c) cs ss"
  shows "list_all2 (\<lambda>c n. 0 < c \<and> c \<le> n) (c # cs) (dtype_sizes u ss (c # cs))"
    "in_grid (c # cs) e \<Longrightarrow> u * pos (dtype_sizes u ss (c # cs)) e = dot e (u # ss)"
proof -
  have "list_all2 (\<lambda>c n. 0 < c \<and> c \<le> n) (c # cs) (dtype_sizes u ss (c # cs)) \<and>
    (in_grid (c # cs) e \<longrightarrow> u * pos (dtype_sizes u ss (c # cs)) e = dot e (u # ss))" for e
    using assms
  proof (induction ss arbitrary: u c cs e)
    case Nil
    then have "cs = []" using nested_length by fastforce
    then show ?case using Nil by (cases e) auto
  next
    case (Cons s ss)
    obtain c' cs' where cs: "cs = c' # cs'" using nested_length [OF Cons.prems(3)] by (cases cs) auto
    note k = chain_step [OF Cons.prems(1)]
    have n: "u * c \<le> s" "0 < c'" "nested (s * c') cs' ss" "chain s ss" using Cons.prems cs by auto
    have "c \<le> s div u" using k(5) n(1) .
    moreover have "u * pos (dtype_sizes u (s # ss) (c # c' # cs')) e = dot e (u # s # ss)" if g: "in_grid (c # c' # cs') e"
    proof -
      obtain i e' where e: "e = i # e'" "in_grid (c' # cs') e'" using g by (cases e) auto
      have "u * (i + s div u * x) = i * u + s * x" for x using k(3) by (simp add: distrib_left mult.commute flip: mult.assoc)
      then show ?thesis using Cons.IH [OF n(4,2,3), of e'] k(2) e by simp
    qed
    ultimately show ?case using Cons.IH [OF n(4,2,3)] Cons.prems(2) k(2) unfolding cs by simp
  qed
  then show "list_all2 (\<lambda>c n. 0 < c \<and> c \<le> n) (c # cs) (dtype_sizes u ss (c # cs))"
    "in_grid (c # cs) e \<Longrightarrow> u * pos (dtype_sizes u ss (c # cs)) e = dot e (u # ss)" by blast+
qed

lemma subarray_offsets:
  assumes "mpi_ok c" "chain 1 ss" "0 < n" "nested n cs ss" "length cs < 7"
  shows "strided_to_subarray_dtype c ss (n # cs) = Inr (map (\<lambda>e. dot e (1 # ss)) (tuples (n # cs)))"
proof -
  have g: "grid_ok (n # cs)" using assms(3) nested_grid [OF assms(4)] by simp
  have "map (pos (dtype_sizes 1 ss (n # cs))) (tuples (n # cs)) = map (\<lambda>e. dot e (1 # ss)) (tuples (n # cs))"
    using dtype_sizes_pos(2) [OF assms(2,3)] assms(4) unfolding map_eq_conv set_tuples [OF g] by simp
  then show ?thesis
    using assms(1,5) dtype_sizes_pos(1) [OF assms(2,3)] assms(4) by (simp add: strided_to_subarray_dtype_def index_fits_def mpi_ok_def)
qed

lemma scatter_moved:
  assumes "nested n cs ds" "0 < n"
  shows "moved m (block q d ds p s ss (n # cs)) m
    (scatter_bytes m q d (map (\<lambda>e. dot e (1 # ds)) (tuples (n # cs))) (map (\<lambda>x. m p (s + x)) (map (\<lambda>e. dot e (1 # ss)) (tuples (n # cs)))))"
proof -
  let ?R = "\<lambda>e. seg q (d + dot e (1 # ds)) p (s + dot e (1 # ss)) 1"
  have g: "grid_ok (n # cs)" using assms nested_grid by auto
  have "nested 1 (n # cs) (1 # ds)" using assms by simp
  note sep = rows_apart [OF this, of q d p s "1 # ss", simplified]
  have one: "{0..<1} = {0::int}" by auto
  have "[m p x] = load m p x 1" for x by (simp add: load_def)
  then have "moved m (\<Union>e\<in>set (tuples (n # cs)). ?R e) m (foldl (\<lambda>m' e. store m' q (d + dot e (1 # ds)) [m p (s + dot e (1 # ss))]) m (tuples (n # cs)))"
    using store_moved [of 1] by (intro stores_moved sep) auto
  moreover have "(\<Union>e\<in>set (tuples (n # cs)). ?R e) = block q d ds p s ss (n # cs)"
    unfolding block_def set_tuples [OF g] by (auto simp: seg_def one)
  moreover have f: "foldl (\<lambda>m (x, b). store m q (d + x) [b]) m' (zip (map f es) (map g es)) = foldl (\<lambda>m' e. store m' q (d + f e) [g e]) m' es"
    for m' f g and es :: "int list list" by (induction es arbitrary: m') auto
  ultimately show ?thesis unfolding scatter_bytes_def map_map o_def f by simp
qed

section \<open>Contiguous blocks\<close>

lemma stride_lds_length: "length (stride_lds u ss) = length ss"
  by (induction u ss rule: stride_lds.induct) simp_all

lemma gap_ones: "contiguous_loop t True sl dl cs = Some g \<Longrightarrow> length cs \<le> length sl \<Longrightarrow> length cs \<le> length dl \<Longrightarrow> g \<and> (\<forall>c\<in>set cs. c = 1)"
proof (induction cs arbitrary: t sl dl)
  case (Cons c cs)
  then obtain a sl' b dl' where "sl = a # sl'" "dl = b # dl'" by (cases sl; cases dl) auto
  then show ?case using Cons by (auto simp: Let_def split: if_splits)
qed (cases sl; cases dl; simp)

lemma dot_ones: "\<forall>c\<in>set cs. c = 1 \<Longrightarrow> in_grid cs e \<Longrightarrow> dot e ss = 0 \<and> pos cs e = 0"
proof (induction cs arbitrary: e ss)
  case (Cons c cs)
  then obtain i e' where "e = i # e'" by (cases e) auto
  then show ?case using Cons by (cases ss) auto
qed simp

lemma contiguous_dot:
  assumes "contiguous_loop t False (stride_lds u ss) (stride_lds u ds) (butlast (c # cs)) = Some g" "g \<longrightarrow> last (c # cs) = 1"
    "chain u ss" "chain u ds" "0 < c" "nested (u * c) cs ss" "nested (u * c) cs ds" "in_grid (c # cs) e"
  shows "dot e (u # ss) = u * pos (c # cs) e \<and> dot e (u # ds) = u * pos (c # cs) e"
  using assms
proof (induction cs arbitrary: t u ss ds c e)
  case Nil
  then obtain i where "e = [i]" by (cases e) auto
  moreover have "ss = []" "ds = []" using nested_length Nil.prems(6,7) by fastforce+
  ultimately show ?case by simp
next
  case (Cons c' cs)
  obtain s ss' where s: "ss = s # ss'" using nested_length [OF Cons.prems(6)] by (cases ss) auto
  obtain d ds' where d: "ds = d # ds'" using nested_length [OF Cons.prems(7)] by (cases ds) auto
  obtain i e' where e: "e = i # e'" "in_grid (c' # cs) e'" using Cons.prems(8) by (cases e) auto
  note k = chain_step [OF Cons.prems(3) [unfolded s]] and l = chain_step [OF Cons.prems(4) [unfolded d]]
  have n: "u * c \<le> s" "u * c \<le> d" "0 < c'" "nested (s * c') cs ss'" "nested (d * c') cs ds'" "chain s ss'" "chain d ds'"
    using Cons.prems s d by auto
  have lens: "length (butlast (c' # cs)) \<le> length (stride_lds s ss')" "length (butlast (c' # cs)) \<le> length (stride_lds d ds')"
    using nested_length [OF n(4)] nested_length [OF n(5)] by (simp_all add: stride_lds_length)
  show ?case
  proof (cases "c < s div u \<or> c < d div u")
    case True
    then obtain t' where "contiguous_loop t' True (stride_lds s ss') (stride_lds d ds') (butlast (c' # cs)) = Some g"
      using Cons.prems(1) s d k(2) l(2) by (auto simp: Let_def split: if_splits)
    from gap_ones [OF this lens] have "g" "\<forall>c\<in>set (butlast (c' # cs)). c = 1" by auto
    then have "\<forall>c\<in>set (c' # cs). c = 1" using Cons.prems(2) by (metis append_butlast_last_id in_set_conv_decomp last_ConsR list.distinct(1) set_ConsD rotate1.simps(2) set_rotate1)
    note z = dot_ones [OF this e(2)]
    show ?thesis using z [of "s # ss'"] z [of "d # ds'"] unfolding e(1) s d by simp
  next
    case False
    have "c \<le> s div u" "c \<le> d div u" using k(5) l(5) n(1,2) by blast+
    then have "s div u = c" "d div u = c" using False by linarith+
    then have sd: "s = u * c" "d = s" using k(3) l(3) by metis+
    obtain t' where "contiguous_loop t' False (stride_lds s ss') (stride_lds s ds') (butlast (c' # cs)) = Some g"
      using Cons.prems(1) False s d sd(2) k(2) l(2) by (auto simp: Let_def split: if_splits)
    from Cons.IH [OF this] have "dot e' (s # ss') = s * pos (c' # cs) e' \<and> dot e' (s # ds') = s * pos (c' # cs) e'"
      using Cons.prems(2) n e sd(2) by simp
    then show ?thesis using s d sd e by (simp add: algebra_simps)
  qed
qed

lemma seg_pos:
  assumes "grid_ok count" "\<And>e. in_grid count e \<Longrightarrow> dot e (1 # ss) = pos count e \<and> dot e (1 # ds) = pos count e"
  shows "block q d ds p s ss count = seg q d p s (prod_list count)"
proof -
  have "pos count ` {e. in_grid count e} = {0..<prod_list count}"
    using pos_bound [OF assms(1)] proc_indices_pos [OF assms(1)] by (force intro: image_eqI [of _ _ "gam_find_proc_indices count _"])
  moreover have "block q d ds p s ss count = (\<lambda>k. ((q, d + k), (p, s + k))) ` pos count ` {e. in_grid count e}"
    unfolding block_def image_image by (intro image_cong refl) (simp add: assms(2))
  ultimately show ?thesis by (simp add: seg_def)
qed

lemma contiguous_seg:
  assumes "armci_check_contiguous ss ds (n # cs)" "chain 1 ss" "chain 1 ds" "0 < n" "nested n cs ss" "nested n cs ds"
  shows "block q d ds p s ss (n # cs) = seg q d p s (prod_list (n # cs))"
proof (rule seg_pos)
  show "grid_ok (n # cs)" using assms(4) nested_grid [OF assms(5)] by simp
  fix e assume e: "in_grid (n # cs) e"
  have t: "take (length (n # cs) - 1) ss = ss" "take (length (n # cs) - 1) ds = ds" "take (length (n # cs) - 1) (n # cs) = butlast (n # cs)"
    using nested_length [OF assms(5)] nested_length [OF assms(6)] by (simp_all add: butlast_conv_take)
  obtain g where g: "contiguous_loop 1 False (stride_lds 1 ss) (stride_lds 1 ds) (butlast (n # cs)) = Some g"
    "\<not> (g \<and> length (n # cs) - 1 > 0 \<and> last (n # cs) \<noteq> 1)"
    using assms(1) unfolding armci_check_contiguous_def Let_def t by (auto split: option.splits)
  have "g \<longrightarrow> last (n # cs) = 1"
  proof (cases cs)
    case Nil
    then have "ss = []" "ds = []" using nested_length assms(5,6) by fastforce+
    then show ?thesis using g(1) Nil by simp
  qed (use g(2) in auto)
  from contiguous_dot [OF g(1) this assms(2-4)] show "dot e (1 # ss) = pos (n # cs) e \<and> dot e (1 # ds) = pos (n # cs) e"
    using assms(5,6) e by simp
qed

end
