(* ===== verification/CX_Transfer.thy ===== *)
theory CX_Transfer
  imports CX_Moves Reg_Theorems
begin

text \<open>
  The contract of strided put and get: whichever route the configuration and the shape of the block choose, one
  message, messages of bounded size, packed rows, an MPI datatype or shared memory, the bytes of the block are copied.
\<close>

section \<open>Put and get\<close>

text \<open>
  What the transfers need: a configuration with a message size and MPI as documented, memory of the process that
  lies in a segment of a well-formed registration cache, and strides as above for both sides.
\<close>

definition cfg_ok :: "comex_cfg \<Rightarrow> bool" where
  "cfg_ok c \<longleftrightarrow> 0 < max_message_size c \<and> mpi_ok c"

definition area :: "comex_cfg \<Rightarrow> int \<Rightarrow> int \<Rightarrow> int \<Rightarrow> bool" where
  "area c q b n \<longleftrightarrow> 0 \<le> q \<and> q < cx_size c \<and> 0 < b \<and> 
     (0 < n \<longrightarrow> (\<exists>M. reg_rep (cx_cache c) M \<and> q < reg_nprocs (cx_cache c) \<and> (\<exists>(x, s, l)\<in>set (M q). s \<le> b \<and> b + n \<le> s + l)))"

lemma area_proc: "area c q b n \<Longrightarrow> 0 \<le> q \<and> q < cx_size c \<and> 0 < b"
  by (simp add: area_def)

lemma reg_rep_entry:
  assumes "reg_rep s M" "(x, b, l) \<in> set (M r)"
  shows "x \<noteq> 0" "seg_ok b l" "0 < l"
proof -
  obtain A where A: "reg_ok s A" "M = reg_view s A" using assms(1) by (auto simp: reg_rep_def)
  then have x: "x \<in> set (A r)" "re_buf (ent s x) = b" "re_len (ent s x) = l" using assms(2) by (auto simp: reg_view_def)
  obtain heads where "list_ok s r (heads ! nat r) (A r)" using reg_okD [OF A(1) reg_ok_node(1,2) [OF A(1) x(1)]] .
  then show "x \<noteq> 0" "seg_ok b l" "0 < l" using x path_dom by (auto simp: list_ok_def entry_ok_def)
qed

lemma area_registered:
  assumes "area c q b n" "b \<le> a" "0 \<le> k" "a + max 1 k \<le> b + n"
  shows "registered c q a k"
proof -
  have q: "0 \<le> q" "0 < b" and n: "0 < n" using assms by (auto simp: area_def)
  then obtain M x s l where M: "reg_rep (cx_cache c) M" "q < reg_nprocs (cx_cache c)" "(x, s, l) \<in> set (M q)" "s \<le> b" "b + n \<le> s + l"
    using assms(1) unfolding area_def by blast
  note e = reg_rep_entry [OF M(1,3)]
  have "seg_ok a k" using e(2) q assms(2-4) M(5) by (auto simp: seg_ok_def)
  then have "reg_cache_find q a k (cx_cache c) = Some x" using rc.lookup_covered [OF M(1) q(1) M(2) _ M(3)] M(4,5) assms(2,4) by simp
  then show ?thesis using e(1) by (simp add: registered_def)
qed

definition well_strided :: "int list \<Rightarrow> int list \<Rightarrow> bool" where
  "well_strided count ss \<longleftrightarrow> count \<noteq> [] \<and> length count \<le> 7 \<and> 0 < hd count \<and> nested (hd count) (tl count) ss \<and> chain 1 ss \<and>
     prod_list count < 2147483648"

definition reach :: "int \<Rightarrow> int list \<Rightarrow> int list \<Rightarrow> int set" where
  "reach a ss count = (\<lambda>e. a + dot e (1 # ss)) ` {e. in_grid count e}"

lemma nb_put_store:
  assumes "cfg_ok c" "area c proc b n" "b \<le> dst" "dst + bytes \<le> b + n" "0 < src" "0 < bytes"
  shows "nb_put c src dst bytes proc m = Some (Inr (store m proc dst (load m (cx_rank c) src bytes)))"
  using assms(1,3-) area_proc [OF assms(2)] area_registered [OF assms(2,3), of bytes] send_forward_concat [of "max_message_size c"]
  by (auto simp: nb_put_def bad_transfer_def cfg_ok_def Let_def)

lemma nb_get_store:
  assumes "cfg_ok c" "area c proc b n" "b \<le> src" "src + bytes \<le> b + n" "0 < dst" "0 < bytes"
  shows "nb_get c src dst bytes proc m = Some (Inr (store m (cx_rank c) dst (load m proc src bytes)))"
  using assms(1,3-) area_proc [OF assms(2)] area_registered [OF assms(2,3), of bytes] send_forward_concat [of "max_message_size c"]
  by (auto simp: nb_get_def bad_transfer_def cfg_ok_def Let_def)

lemma reach_rows:
  assumes "reach a ss (n # cs) \<subseteq> {b..<b + k}" "0 < n" "in_grid cs e"
  shows "b \<le> a + dot e ss" "a + dot e ss + n \<le> b + k"
proof -
  have "a + dot (0 # e) (1 # ss) \<in> reach a ss (n # cs)" "a + dot ((n - 1) # e) (1 # ss) \<in> reach a ss (n # cs)"
    unfolding reach_def using assms(2,3) by (intro imageI, simp)+
  then have "a + dot (0 # e) (1 # ss) \<in> {b..<b + k}" "a + dot ((n - 1) # e) (1 # ss) \<in> {b..<b + k}" using assms(1) by blast+
  then show "b \<le> a + dot e ss" "a + dot e ss + n \<le> b + k" by simp_all
qed

lemma reach_start:
  assumes "reach a ss (n # cs) \<subseteq> {b..<b + k}" "0 < n" "grid_ok cs"
  shows "b \<le> a" "a + n \<le> b + k"
proof -
  have "in_grid cs (map (\<lambda>_. 0) cs)" using assms(3) by (induction cs) simp_all
  moreover have "dot (map (\<lambda>_. 0) cs) ss = 0" by (simp add: dot_def zip_map1 o_def case_prod_unfold)
  ultimately show "b \<le> a" "a + n \<le> b + k" using reach_rows [OF assms(1,2)] by fastforce+
qed

lemma rows_moved:
  assumes "nested n cs ss" "nested n cs ds" "0 < n" "prod_list cs < 2147483648" "separate (block q d ds p s ss (n # cs))"
    "\<And>e m. in_grid cs e \<Longrightarrow> f (dot e ss) (dot e ds) m = Some (Inr (store m q (d + dot e ds) (load m p (s + dot e ss) n)))"
  shows "\<exists>m'. each_segment f (zip (stride_offsets ss cs) (stride_offsets ds cs)) m = Some (Inr m') \<and>
    moved m (block q d ds p s ss (n # cs)) m m'"
proof -
  note g = nested_grid [OF assms(1)]
  let ?xs = "map (\<lambda>e. (dot e ss, dot e ds)) (tuples cs)"
  let ?R = "\<lambda>x. seg q (d + snd x) p (s + fst x) n"
  have z: "zip (stride_offsets ss cs) (stride_offsets ds cs) = ?xs"
    unfolding stride_offsets_eq [OF g assms(4) nested_length [OF assms(1)]] stride_offsets_eq [OF g assms(4) nested_length [OF assms(2)]]
    by (simp add: zip_map_map zip_same_conv_map)
  have u: "(\<Union>x\<in>set ?xs. ?R x) = block q d ds p s ss (n # cs)" unfolding block_rows using set_tuples [OF g] by simp
  have "sorted_wrt (\<lambda>x y. Domain (?R x) \<inter> Domain (?R y) = {}) ?xs"
    unfolding sorted_wrt_map using rows_apart [OF assms(2,3)] by simp
  moreover have "\<exists>m'. f (fst x) (snd x) m = Some (Inr m') \<and> moved m (?R x) m m'" if "x \<in> set ?xs" for x m
    using that set_tuples [OF g] assms(3,6) store_moved [of n] by auto
  ultimately show ?thesis using each_segment_moved [of ?R ?xs f m] assms(5) unfolding z u by blast
qed

lemma load_Nil: "load m p a n = [] \<longleftrightarrow> n \<le> 0"
  by (simp add: load_def)

lemma well_strided_cases:
  assumes "well_strided count ss" "well_strided count ds"
  obtains n cs where "count = n # cs" "0 < n" "nested n cs ss" "nested n cs ds" "chain 1 ss" "chain 1 ds"
    "prod_list cs < 2147483648" "length cs < 7" "n * prod_list cs < 2147483648"
proof -
  obtain n cs where count: "count = n # cs" using assms(1) by (cases count) (auto simp: well_strided_def)
  have w: "0 < n" "nested n cs ss" "nested n cs ds" "chain 1 ss" "chain 1 ds" "length cs < 7" "n * prod_list cs < 2147483648"
    using assms by (auto simp: well_strided_def count)
  have "1 * prod_list cs \<le> n * prod_list cs" using w(1) grid_prod_pos [OF nested_grid [OF w(2)]] by (intro mult_right_mono) auto
  then have "prod_list cs < 2147483648" using w(7) by simp
  then show thesis using that count w by blast
qed

text \<open>With fewer than seven levels no assertion fails and no array is left.\<close>

lemma pack_ready:
  assumes "0 < n" "grid_ok cs" "n * prod_list cs < 2147483648" "prod_list cs < 2147483648" "length cs < 7"
  shows "packed_size (n # cs) = Inr (n * prod_list cs)" "index_fits (n # cs)" "int (length cs) < COMEX_MAX_STRIDE_LEVEL"
    "src \<noteq> 0 \<Longrightarrow> pack m p src ss (n # cs) = Inr (packed_rows m p src ss (n # cs))"
    "dst \<noteq> 0 \<Longrightarrow> unpack m p bs dst ds (n # cs) = Inr (unpacked_rows m p bs dst ds (n # cs))"
proof -
  have p: "0 < prod_list cs" "0 < n * prod_list cs" using grid_prod_pos [OF assms(2)] assms(1) by auto
  then have "s32 (n * prod_list cs) = n * prod_list cs" using assms(3) by (intro s32_id) auto
  then show "packed_size (n # cs) = Inr (n * prod_list cs)" "index_fits (n # cs)" "int (length cs) < COMEX_MAX_STRIDE_LEVEL"
    "src \<noteq> 0 \<Longrightarrow> pack m p src ss (n # cs) = Inr (packed_rows m p src ss (n # cs))"
    "dst \<noteq> 0 \<Longrightarrow> unpack m p bs dst ds (n # cs) = Inr (unpacked_rows m p bs dst ds (n # cs))"
    using n1dim_prod [OF assms(2,4)] p assms
    by (simp_all add: packed_size_def pack_def unpack_def stride_asserts_def index_fits_def COMEX_MAX_STRIDE_LEVEL_def mult.commute)
qed

lemma nb_puts_moved:
  assumes "cfg_ok c" "area c proc b k" "well_strided count ss" "well_strided count ds" "0 < src" "reach dst ds count \<subseteq> {b..<b + k}"
    "separate (block proc dst ds (cx_rank c) src ss count)"
  shows "\<exists>m'. nb_puts c src ss dst ds count proc m = Some (Inr m') \<and> moved m (block proc dst ds (cx_rank c) src ss count) m m'"
proof -
  obtain n cs where count: "count = n # cs" and w: "0 < n" "nested n cs ss" "nested n cs ds" "chain 1 ss" "chain 1 ds"
    and p: "prod_list cs < 2147483648" and l7: "length cs < 7" and t: "n * prod_list cs < 2147483648"
    using well_strided_cases [OF assms(3,4)] by metis
  note g = nested_grid [OF w(2)] and r = reach_rows [OF assms(6) [unfolded count] w(1)]
  note rd = pack_ready [OF w(1) g t p l7] and lv = pack_ready(3) [OF w(1) g t p l7]
  have st: "b \<le> dst" "dst + n \<le> b + k" using reach_start [OF assms(6) [unfolded count] w(1) g] by auto
  have ar: "0 \<le> proc" "proc < cx_size c" "0 < b" "registered c proc dst n"
    using area_proc [OF assms(2)] area_registered [OF assms(2) st(1), of n] st w(1) by auto
  have bad: "\<not> bad_transfer c src dst n proc" using assms(5) ar st w(1) by (simp add: bad_transfer_def)
  have one: "\<exists>m'. nb_put c src dst n proc m = Some (Inr m') \<and> moved m (block proc dst ds (cx_rank c) src ss count) m m'" if "cs = []"
  proof -
    have "block proc dst ds (cx_rank c) src ss count = seg proc dst (cx_rank c) src n" unfolding count that block_rows by simp
    then show ?thesis using nb_put_store [OF assms(1,2) st assms(5) w(1)] store_moved [of n] w(1) by simp
  qed
  have dt: "\<exists>m'. nb_puts_datatype c src ss dst ds count proc m = Some (Inr m') \<and> moved m (block proc dst ds (cx_rank c) src ss count) m m'"
    using scatter_moved [OF w(3,1), of m proc dst "cx_rank c" src ss] bad lv ar
      subarray_offsets [OF _ w(4,1,2) l7] subarray_offsets [OF _ w(5,1,3) l7] assms(1)
    unfolding nb_puts_datatype_def count by (simp add: cfg_ok_def bad_transfer_def)
  have pk: "\<exists>m'. nb_puts_packed c src ss dst ds count proc m = Some (Inr m') \<and> moved m (block proc dst ds (cx_rank c) src ss count) m m'"
  proof -
    have "packed_rows m (cx_rank c) src ss (n # cs) \<noteq> []"
      using grid_prod_pos [OF g] w(1) stride_offsets_eq [OF g p nested_length [OF w(2)]]
      by (simp add: packed_rows_def tuples_def upto_rec1 load_Nil)
    then show ?thesis
      using unpack_moved [OF w(2,3,1) p, of m proc dst "cx_rank c" src] bad lv ar send_backward_concat [of "max_message_size c"] assms(1)
      unfolding nb_puts_packed_def count by (simp add: Let_def cfg_ok_def rd(4,5) bad_transfer_def)
  qed
  have rw: "\<exists>m'. each_segment (\<lambda>x y. nb_put c (src + x) (dst + y) n proc) (zip (stride_offsets ss cs) (stride_offsets ds cs)) m = Some (Inr m') \<and>
      moved m (block proc dst ds (cx_rank c) src ss count) m m'"
  proof -
    have "nb_put c (src + dot e ss) (dst + dot e ds) n proc m =
        Some (Inr (store m proc (dst + dot e ds) (load m (cx_rank c) (src + dot e ss) n)))" if e: "in_grid cs e" for e m
      using nb_put_store [OF assms(1,2) r [OF e] _ w(1)] dot_nonneg [OF w(2,1) e] assms(5) by simp
    from rows_moved [OF w(2,3,1) p assms(7) [unfolded count], OF this] show ?thesis unfolding count by blast
  qed
  show ?thesis using one dt pk rw rd(2) unfolding nb_puts_def Let_def count list.sel rd(1) by simp
qed

lemma nb_gets_moved:
  assumes "cfg_ok c" "area c proc b k" "well_strided count ss" "well_strided count ds" "0 < dst" "reach src ss count \<subseteq> {b..<b + k}"
    "separate (block (cx_rank c) dst ds proc src ss count)"
  shows "\<exists>m'. nb_gets c src ss dst ds count proc m = Some (Inr m') \<and> moved m (block (cx_rank c) dst ds proc src ss count) m m'"
proof -
  obtain n cs where count: "count = n # cs" and w: "0 < n" "nested n cs ss" "nested n cs ds" "chain 1 ss" "chain 1 ds"
    and p: "prod_list cs < 2147483648" and l7: "length cs < 7" and t: "n * prod_list cs < 2147483648"
    using well_strided_cases [OF assms(3,4)] by metis
  note g = nested_grid [OF w(2)] and r = reach_rows [OF assms(6) [unfolded count] w(1)]
  note rd = pack_ready [OF w(1) g t p l7] and lv = pack_ready(3) [OF w(1) g t p l7]
  have st: "b \<le> src" "src + n \<le> b + k" using reach_start [OF assms(6) [unfolded count] w(1) g] by auto
  have ar: "0 \<le> proc" "proc < cx_size c" "0 < b" "registered c proc src 0"
    using area_proc [OF assms(2)] area_registered [OF assms(2) st(1), of 0] st w(1) by auto
  have bad: "\<not> bad_transfer c src dst n proc" using assms(5) ar st w(1) by (simp add: bad_transfer_def)
  have one: "\<exists>m'. nb_get c src dst n proc m = Some (Inr m') \<and> moved m (block (cx_rank c) dst ds proc src ss count) m m'" if "cs = []"
  proof -
    have "block (cx_rank c) dst ds proc src ss count = seg (cx_rank c) dst proc src n" unfolding count that block_rows by simp
    then show ?thesis using nb_get_store [OF assms(1,2) st assms(5) w(1)] store_moved [of n] w(1) by simp
  qed
  have dt: "\<exists>m'. nb_gets_datatype c src ss dst ds count proc m = Some (Inr m') \<and> moved m (block (cx_rank c) dst ds proc src ss count) m m'"
    using scatter_moved [OF w(3,1), of m "cx_rank c" dst proc src ss] bad lv ar
      subarray_offsets [OF _ w(4,1,2) l7] subarray_offsets [OF _ w(5,1,3) l7] assms(1)
    unfolding nb_gets_datatype_def count by (simp add: cfg_ok_def bad_transfer_def)
  have pk: "\<exists>m'. nb_gets_packed c src ss dst ds count proc m = Some (Inr m') \<and> moved m (block (cx_rank c) dst ds proc src ss count) m m'"
  proof -
    have "0 < n * prod_list cs" using grid_prod_pos [OF g] w(1) by simp
    then show ?thesis
      using unpack_moved [OF w(2,3,1) p, of m "cx_rank c" dst proc src] bad lv ar send_backward_concat [of "max_message_size c"] assms(1)
      unfolding nb_gets_packed_def count by (simp add: Let_def cfg_ok_def rd(1,4,5) bad_transfer_def)
  qed
  have rw: "\<exists>m'. each_segment (\<lambda>x y. nb_get c (src + x) (dst + y) n proc) (zip (stride_offsets ss cs) (stride_offsets ds cs)) m = Some (Inr m') \<and>
      moved m (block (cx_rank c) dst ds proc src ss count) m m'"
  proof -
    have "nb_get c (src + dot e ss) (dst + dot e ds) n proc m =
        Some (Inr (store m (cx_rank c) (dst + dot e ds) (load m proc (src + dot e ss) n)))" if e: "in_grid cs e" for e m
      using nb_get_store [OF assms(1,2) r [OF e] _ w(1)] dot_nonneg [OF w(3,1) e] assms(5) by simp
    from rows_moved [OF w(2,3,1) p assms(7) [unfolded count], OF this] show ?thesis unfolding count by blast
  qed
  show ?thesis using one dt pk rw rd(2) unfolding nb_gets_def Let_def count list.sel rd(1) by simp
qed

section \<open>The contract\<close>

text \<open>
  What a client of the strided transfers relies on: memory that is available on a process, and that a put and a get of
  a block between this memory and the own memory copy exactly the bytes of the block.
\<close>

locale strided_transport =
  fixes me :: int and avail :: "int \<Rightarrow> int \<Rightarrow> int \<Rightarrow> bool"
    and put get :: "int \<Rightarrow> int list \<Rightarrow> int \<Rightarrow> int list \<Rightarrow> int list \<Rightarrow> int \<Rightarrow> memory \<Rightarrow> transfer"
  assumes put_block: "avail q b k \<Longrightarrow> well_strided count ss \<Longrightarrow> well_strided count ds \<Longrightarrow> 0 < src \<Longrightarrow>
      reach dst ds count \<subseteq> {b..<b + k} \<Longrightarrow> separate (block q dst ds me src ss count) \<Longrightarrow>
      \<exists>m'. put src ss dst ds count q m = Some (Inr m') \<and> moved m (block q dst ds me src ss count) m m'"
    and get_block: "avail q b k \<Longrightarrow> well_strided count ss \<Longrightarrow> well_strided count ds \<Longrightarrow> 0 < dst \<Longrightarrow>
      reach src ss count \<subseteq> {b..<b + k} \<Longrightarrow> separate (block me dst ds q src ss count) \<Longrightarrow>
      \<exists>m'. get src ss dst ds count q m = Some (Inr m') \<and> moved m (block me dst ds q src ss count) m m'"
begin

text \<open>A block that was put is got back: the bytes of the second buffer are those of the first.\<close>

lemma put_get_back:
  assumes "avail q b k" "well_strided count ss" "well_strided count ds" "well_strided count ts" "0 < src" "0 < buf"
    "reach dst ds count \<subseteq> {b..<b + k}" "separate (block q dst ds me src ss count)" "separate (block me buf ts q dst ds count)"
  shows "\<exists>m' m''. put src ss dst ds count q m = Some (Inr m') \<and> get dst ds buf ts count q m' = Some (Inr m'') \<and>
    (\<forall>e. in_grid count e \<longrightarrow> m'' me (buf + dot e (1 # ts)) = m me (src + dot e (1 # ss)))"
proof -
  obtain m' where m': "put src ss dst ds count q m = Some (Inr m')" "moved m (block q dst ds me src ss count) m m'"
    using put_block [OF assms(1-3,5,7,8)] by blast
  obtain m'' where m'': "get dst ds buf ts count q m' = Some (Inr m'')" "moved m' (block me buf ts q dst ds count) m' m''"
    using get_block [OF assms(1,3,4,6,7,9)] by blast
  have "m'' me (buf + dot e (1 # ts)) = m me (src + dot e (1 # ss))" if e: "in_grid count e" for e
  proof -
    have "((me, buf + dot e (1 # ts)), (q, dst + dot e (1 # ds))) \<in> block me buf ts q dst ds count"
      "((q, dst + dot e (1 # ds)), (me, src + dot e (1 # ss))) \<in> block q dst ds me src ss count"
      using e unfolding block_def by blast+
    then have "peek m'' (me, buf + dot e (1 # ts)) = peek m (me, src + dot e (1 # ss))"
      using moved_to [OF m''(2)] moved_to [OF m'(2)] by metis
    then show ?thesis by (simp add: peek_def)
  qed
  then show ?thesis using m'(1) m''(1) by blast
qed

end

lemma reach_block: "block q d ds p s ss count = seg q d p s n \<Longrightarrow> reach d ds count = {d..<d + n} \<and> reach s ss count = {s..<s + n}"
proof -
  assume "block q d ds p s ss count = seg q d p s n"
  then have "snd ` Domain (block q d ds p s ss count) = {d..<d + n}" "snd ` Range (block q d ds p s ss count) = {s..<s + n}"
    by (simp_all add: seg_Domain image_image seg_Range)
  then show ?thesis by (simp add: block_def reach_def Domain_fst Range_snd image_image)
qed

lemma contiguous_transfer:
  assumes "well_strided count ss" "well_strided count ds" "armci_check_contiguous ss ds count"
  shows "block q d ds p s ss count = seg q d p s (n1dim count)" "0 < n1dim count"
    "reach d ds count = {d..<d + n1dim count}" "reach s ss count = {s..<s + n1dim count}"
proof -
  obtain n cs where count: "count = n # cs" and w: "0 < n" "nested n cs ss" "nested n cs ds" "chain 1 ss" "chain 1 ds" "n * prod_list cs < 2147483648"
    using well_strided_cases [OF assms(1,2)] by metis
  have g: "grid_ok count" using w(1) nested_grid [OF w(2)] count by simp
  have n: "n1dim count = prod_list count" using n1dim_prod [OF g] w(6) count by simp
  show b: "block q d ds p s ss count = seg q d p s (n1dim count)"
    using contiguous_seg [OF _ w(4,5,1,2,3)] assms(3) n unfolding count by simp
  show "0 < n1dim count" using grid_prod_pos [OF g] n by simp
  show "reach d ds count = {d..<d + n1dim count}" "reach s ss count = {s..<s + n1dim count}" using reach_block [OF b] by auto
qed

lemma PutS_moved:
  assumes "cfg_ok c" "area c proc b k" "well_strided count ss" "well_strided count ds" "0 < src" "reach dst ds count \<subseteq> {b..<b + k}"
    "separate (block proc dst ds (cx_rank c) src ss count)"
  shows "\<exists>m'. PARMCI_PutS c src ss dst ds count proc m = Some (Inr m') \<and> moved m (block proc dst ds (cx_rank c) src ss count) m m'"
proof (cases "armci_check_contiguous ss ds count")
  case True
  note t = contiguous_transfer [OF assms(3,4) True]
  have "b \<le> dst" "dst + n1dim count \<le> b + k" using assms(6) t(2) unfolding t(3) by simp_all
  then show ?thesis
    using nb_put_store [OF assms(1,2) _ _ assms(5) t(2)] store_moved [of "n1dim count"] t(1,2) True by (simp add: PARMCI_PutS_def)
qed (use nb_puts_moved [OF assms] in \<open>simp add: PARMCI_PutS_def\<close>)

lemma GetS_moved:
  assumes "cfg_ok c" "area c proc b k" "well_strided count ss" "well_strided count ds" "0 < dst" "reach src ss count \<subseteq> {b..<b + k}"
    "separate (block (cx_rank c) dst ds proc src ss count)"
  shows "\<exists>m'. PARMCI_GetS c src ss dst ds count proc m = Some (Inr m') \<and> moved m (block (cx_rank c) dst ds proc src ss count) m m'"
proof (cases "armci_check_contiguous ss ds count")
  case True
  note t = contiguous_transfer [OF assms(3,4) True]
  have "b \<le> src" "src + n1dim count \<le> b + k" using assms(6) t(2) unfolding t(4) by simp_all
  then show ?thesis
    using nb_get_store [OF assms(1,2) _ _ assms(5) t(2)] store_moved [of "n1dim count"] t(1,2) True by (simp add: PARMCI_GetS_def)
qed (use nb_gets_moved [OF assms] in \<open>simp add: PARMCI_GetS_def\<close>)

interpretation ct: strided_transport "cx_rank c" "\<lambda>q b k. cfg_ok c \<and> area c q b k" "PARMCI_PutS c" "PARMCI_GetS c" for c
  by unfold_locales (use PutS_moved in blast, use GetS_moved in blast)

end
