(* ===== verification/GA_Pieces.thy ===== *)
theory GA_Pieces
  imports GA_Owner
begin

text \<open>
  The pieces that \<open>pnga_locate_region\<close> returns: for every distribution, which elements of the patch
  belong to which piece.
\<close>

section \<open>What a region means\<close>

text \<open>
  The pieces are exact when no owner occurs twice, the piece of an owner has exactly the elements of the
  patch that \<open>pnga_locate\<close> assigns to that owner, and the owner of every element of the patch has a piece.
\<close>

definition exact_pieces :: "(int list \<Rightarrow> int) \<Rightarrow> int list \<Rightarrow> int list \<Rightarrow> piece list \<Rightarrow> bool" where
  "exact_pieces owner lo hi ps \<longleftrightarrow> distinct (map fst ps) \<and>
     (\<forall>(k, l, h)\<in>set ps. \<forall>ss. in_patch l h ss \<longleftrightarrow> in_patch lo hi ss \<and> owner ss = k) \<and>
     (\<forall>ss. in_patch lo hi ss \<longrightarrow> owner ss \<in> fst ` set ps)"

lemma exact_pieces_cong:
  assumes "exact_pieces f lo hi ps" "\<And>ss. in_patch lo hi ss \<Longrightarrow> g ss = f ss"
  shows "exact_pieces g lo hi ps"
proof -
  have "in_patch lo hi ss \<and> g ss = k \<longleftrightarrow> in_patch lo hi ss \<and> f ss = k" for ss k using assms(2) by auto
  then show ?thesis using assms by (simp add: exact_pieces_def)
qed

text \<open>Renaming the owners, injectively on those that occur, keeps the pieces exact.\<close>

lemma exact_pieces_rename:
  assumes "exact_pieces f lo hi ps" "inj_on g K" "\<forall>p\<in>set ps. fst p \<in> K" "\<And>ss. in_patch lo hi ss \<Longrightarrow> f ss \<in> K"
  shows "exact_pieces (\<lambda>ss. g (f ss)) lo hi (map (\<lambda>(k, b). (g k, b)) ps)"
proof -
  have d: "distinct (map fst ps)" "\<forall>(k, l, h)\<in>set ps. \<forall>ss. in_patch l h ss \<longleftrightarrow> in_patch lo hi ss \<and> f ss = k"
    "\<forall>ss. in_patch lo hi ss \<longrightarrow> f ss \<in> fst ` set ps" using assms(1) unfolding exact_pieces_def by blast+
  have e: "map fst (map (\<lambda>(k, b). (g k, b)) ps) = map g (map fst ps)" by (simp add: case_prod_unfold)
  have "inj_on g (set (map fst ps))" using assms(2,3) by (auto intro: inj_on_subset)
  then have "distinct (map fst (map (\<lambda>(k, b). (g k, b)) ps))" unfolding e using d(1) distinct_map by blast
  moreover have "in_patch l h ss \<longleftrightarrow> in_patch lo hi ss \<and> g (f ss) = g k" if "(k, l, h) \<in> set ps" for k l h ss
  proof -
    have "in_patch lo hi ss \<Longrightarrow> g (f ss) = g k \<longleftrightarrow> f ss = k"
      using assms(2-4) that by (auto simp: inj_on_eq_iff)
    then show ?thesis using d(2) that by blast
  qed
  moreover have "\<forall>ss. in_patch lo hi ss \<longrightarrow> g (f ss) \<in> fst ` set (map (\<lambda>(k, b). (g k, b)) ps)"
    using d(3) by (force simp: image_iff)
  ultimately show ?thesis unfolding exact_pieces_def by auto
qed

lemma good_region:
  assumes "\<not> bad_region a lo hi" "length lo = length (dims a)" "length hi = length (dims a)"
  shows "subscript_of a lo" "subscript_of a hi" "in_patch lo hi lo" "in_patch lo hi hi"
proof -
  have "length lo = length ds \<Longrightarrow> length hi = length ds \<Longrightarrow>
    \<not> list_ex (\<lambda>(l, h, d). (l < 1 \<or> h > d) \<or> l > h) (zip lo (zip hi ds)) \<Longrightarrow>
    in_patch (replicate (length ds) 1) ds lo \<and> in_patch (replicate (length ds) 1) ds hi \<and> in_patch lo hi lo \<and> in_patch lo hi hi" for ds
  proof (induction ds arbitrary: lo hi)
    case (Cons d ds)
    then obtain l lo' h hi' where "lo = l # lo'" "hi = h # hi'" by (metis length_Suc_conv)
    then show ?case using Cons by auto
  qed simp
  from this [OF assms(2,3)] assms(1)
  show "subscript_of a lo" "subscript_of a hi" "in_patch lo hi lo" "in_patch lo hi hi"
    by (auto simp: bad_region_def subscript_of_def)
qed

lemma in_patch_trans:
  "in_patch (replicate (length ds) 1) ds lo \<Longrightarrow> in_patch (replicate (length ds) 1) ds hi \<Longrightarrow> in_patch lo hi ss \<Longrightarrow>
   in_patch (replicate (length ds) 1) ds ss"
proof (induction ds arbitrary: lo hi ss)
  case (Cons d ds)
  obtain l lo' h hi' where l: "lo = l # lo'" "hi = h # hi'" using Cons.prems(1,2) by (cases lo; cases hi) auto
  obtain s ss' where s: "ss = s # ss'" using Cons.prems(3) l by (cases ss) auto
  show ?case using Cons l s by auto
next
  case Nil
  then show ?case by (cases lo; cases hi; cases ss) auto
qed

lemma subscript_between:
  "subscript_of a lo \<Longrightarrow> subscript_of a hi \<Longrightarrow> in_patch lo hi ss \<Longrightarrow> subscript_of a ss"
  unfolding subscript_of_def by (rule in_patch_trans)

lemma in_grid_between:
  "in_grid ns t \<Longrightarrow> in_grid ns b \<Longrightarrow> in_patch t b s \<Longrightarrow> in_grid ns s"
proof (induction ns arbitrary: t b s)
  case (Cons n ns)
  obtain t0 t' b0 b' where t: "t = t0 # t'" "b = b0 # b'" using Cons.prems(1,2) by (cases t; cases b) auto
  obtain s0 s' where s: "s = s0 # s'" using Cons.prems(3) t by (cases s) auto
  show ?case using Cons t s by auto
next
  case Nil
  then show ?case by (cases t; cases b; cases s) auto
qed

section \<open>Mapped arrays\<close>

lemma corner_exact:
  assumes m: "mapped a nb" and owns: "\<And>k. 0 \<le> k \<Longrightarrow> k < prod_list nb \<Longrightarrow> ga_ownsM a k = map_block a nb k"
    and lo: "subscript_of a lo" and hi: "subscript_of a hi" and ne: "in_patch lo hi lo" "in_patch lo hi hi"
  shows "exact_pieces (map_owner a nb) lo hi (corner_pieces a nb lo hi)"
    "\<forall>p\<in>set (corner_pieces a nb lo hi). 0 \<le> fst p \<and> fst p < prod_list nb"
proof -
  let ?f = "map2 map_find (array_axes a nb)"
  note ax = mapped_axes [OF m]
  obtain elems sub where init: "(elems, sub) = ga_InitLoopM (?f lo) (?f hi)" by (metis surj_pair)
  define S where "S = loop_subscripts (nat elems) sub (?f lo) (?f hi)"
  have between: "in_patch (?f lo) (?f hi) (?f ss)" if "in_patch lo hi ss" for ss
    using mp.found_between [of "array_axes a nb" lo hi ss] ax lo hi that by (simp add: subscript_of_def)
  have S: "distinct S" "set S = {s. in_patch (?f lo) (?f hi) s}"
    unfolding S_def using loop_enumerates [OF between [OF ne(1)] init] by auto
  have grid: "in_grid nb s" if "s \<in> set S" for s
    using in_grid_between [OF map_owner_range(3) [OF m lo] map_owner_range(3) [OF m hi]] that unfolding S(2) by blast
  have sub: "subscript_of a ss" if "in_patch lo hi ss" for ss using subscript_between [OF lo hi that] .
  have range: "0 \<le> pos nb s \<and> pos nb s < prod_list nb" if "s \<in> set S" for s
    using pos_bound [OF ax(6) grid [OF that]] .
  have inj: "inj_on (pos nb) (set S)"
    by (rule inj_on_inverseI [where g = "gam_find_proc_indices nb"]) (use proc_indices_of_pos [OF ax(6)] grid in blast)
  have "corner_pieces a nb lo hi =
      map (\<lambda>s. (ga_ComputeIndexM s nb, clip lo hi (ga_ownsM a (ga_ComputeIndexM s nb)))) S"
    unfolding corner_pieces_def mapped_find [OF m] S_def Let_def init [symmetric] by simp
  also have "\<dots> = map (\<lambda>s. (pos nb s, clip lo hi (map_block a nb (pos nb s)))) S"
  proof (rule map_cong [OF refl])
    fix s assume s: "s \<in> set S"
    then have "ga_ComputeIndexM s nb = pos nb s" using in_grid_length [OF grid [OF s]] ga_ComputeIndexM_pos by simp
    moreover have "ga_ownsM a (pos nb s) = map_block a nb (pos nb s)" using owns range [OF s] by blast
    ultimately show "(ga_ComputeIndexM s nb, clip lo hi (ga_ownsM a (ga_ComputeIndexM s nb))) =
      (pos nb s, clip lo hi (map_block a nb (pos nb s)))" by simp
  qed
  finally have ps: "corner_pieces a nb lo hi = map (\<lambda>s. (pos nb s, clip lo hi (map_block a nb (pos nb s)))) S" .
  have part: "in_patch (fst (clip lo hi (map_block a nb (pos nb s)))) (snd (clip lo hi (map_block a nb (pos nb s)))) ss \<longleftrightarrow>
      in_patch lo hi ss \<and> map_owner a nb ss = pos nb s" if "s \<in> set S" for s ss
  proof -
    have l: "length lo = length (dims a)" "length hi = length (dims a)"
      using in_patch_lengths lo hi by (force simp: subscript_of_def)+
    have "in_patch (fst (clip lo hi (map_block a nb (pos nb s)))) (snd (clip lo hi (map_block a nb (pos nb s)))) ss \<longleftrightarrow>
      in_patch lo hi ss \<and> in_patch (fst (map_block a nb (pos nb s))) (snd (map_block a nb (pos nb s))) ss"
      using map_block_lengths [OF m] range [OF that] l by (intro in_patch_clip) auto
    then show ?thesis using map_block_iff [OF m sub] range [OF that] by auto
  qed
  have "map_owner a nb ss \<in> fst ` set (corner_pieces a nb lo hi)" if "in_patch lo hi ss" for ss
    using between [OF that] S(2) by (auto simp: ps map_owner_def image_iff)
  moreover have "distinct (map fst (corner_pieces a nb lo hi))"
    using S(1) inj by (simp add: ps comp_def distinct_map)
  moreover have "in_patch l h ss \<longleftrightarrow> in_patch lo hi ss \<and> map_owner a nb ss = k"
    if piece: "(k, l, h) \<in> set (corner_pieces a nb lo hi)" for k l h ss
  proof -
    obtain s where s: "s \<in> set S" "k = pos nb s" "clip lo hi (map_block a nb (pos nb s)) = (l, h)"
      using piece unfolding ps by auto
    show ?thesis using part [OF s(1), of ss] s(2,3) by simp
  qed
  ultimately show "exact_pieces (map_owner a nb) lo hi (corner_pieces a nb lo hi)"
    unfolding exact_pieces_def by blast
  show "\<forall>p\<in>set (corner_pieces a nb lo hi). 0 \<le> fst p \<and> fst p < prod_list nb" using range by (auto simp: ps)
qed

lemma regular_pieces:
  assumes "regular_ok (ga st g_a)" "restricted_ok (ga st g_a)" "num_rstrctd (ga st g_a) \<ge> 0"
    "subscript_of (ga st g_a) lo" "subscript_of (ga st g_a) hi" "in_patch lo hi lo" "in_patch lo hi hi"
  shows "exact_pieces (\<lambda>ss. proc_of (ga st g_a) (map_owner (ga st g_a) (nblock (ga st g_a)) ss)) lo hi
    (region_pieces st g_a lo hi)"
proof -
  let ?a = "ga st g_a" and ?K = "{0..<prod_list (nblock (ga st g_a))}"
  have m: "mapped ?a (nblock ?a)" and d: "distr_type ?a = REGULAR" using assms(1) by (auto simp: regular_ok_def)
  note c = corner_exact [OF m regular_block [OF assms(1,2)] assms(4-7)]
  have inj: "inj_on (proc_of ?a) ?K"
  proof (rule inj_onI)
    fix i j assume ij: "i \<in> ?K" "j \<in> ?K" "proc_of ?a i = proc_of ?a j"
    then have "known_proc ?a (proc_of ?a i)" using proc_of_known [OF assms(2)] by simp
    then show "i = j" using proc_of_rank [OF assms(2), of "proc_of ?a i"] ij by (metis atLeastLessThan_iff)
  qed
  have e: "region_pieces st g_a lo hi = map (\<lambda>(k, b). (proc_of ?a k, b)) (corner_pieces ?a (nblock ?a) lo hi)"
    using d assms(3) by (auto simp: region_pieces_def Let_def proc_of_def)
  show ?thesis unfolding e
    using c inj map_owner_range [OF m subscript_between [OF assms(4,5)]]
    by (intro exact_pieces_rename [where K = ?K]) auto
qed

lemma irreg_pieces:
  assumes "tiled_irreg_ok (ga st g_a)"
    "subscript_of (ga st g_a) lo" "subscript_of (ga st g_a) hi" "in_patch lo hi lo" "in_patch lo hi hi"
  shows "exact_pieces (map_owner (ga st g_a) (num_blocks (ga st g_a))) lo hi (region_pieces st g_a lo hi)"
proof -
  let ?a = "ga st g_a"
  have m: "mapped ?a (num_blocks ?a)" "distr_type ?a = TILED_IRREG" "block_total ?a = prod_list (num_blocks ?a)"
    using assms(1) by (auto simp: tiled_irreg_ok_def)
  have "region_pieces st g_a lo hi = corner_pieces ?a (num_blocks ?a) lo hi" using m by (simp add: region_pieces_def Let_def)
  then show ?thesis using corner_exact(1) [OF m(1) irreg_owns [OF assms(1)] assms(2-5)] m(3) by simp
qed

section \<open>Block-cyclic arrays\<close>

text \<open>The patch lies strictly inside a block on some axis: it touches neither end of the block.\<close>

fun inside_axes :: "(int \<times> int) list \<Rightarrow> int list \<Rightarrow> int list \<Rightarrow> bool" where
  "inside_axes (x # xs) (l # lo) (h # hi) \<longleftrightarrow>
     blk_first x (blk_find x l) < l \<and> h < blk_final x (blk_find x l) \<or> inside_axes xs lo hi"
| "inside_axes _ _ _ \<longleftrightarrow> False"

definition strictly_inside :: "global_array_t \<Rightarrow> int list \<Rightarrow> int list \<Rightarrow> bool" where
  "strictly_inside a lo hi \<longleftrightarrow> inside_axes (blk_axes a) lo hi"

lemma block_nonempty:
  "blk_valid x \<Longrightarrow> 0 \<le> i \<Longrightarrow> i < blk_count x \<Longrightarrow>
   blk_first x i \<le> blk_final x i \<and> 1 \<le> blk_first x i \<and> blk_final x i \<le> blk_extent x"
proof -
  assume a: "blk_valid x" "0 \<le> i" "i < blk_count x"
  obtain b d where x: "x = (b, d)" by (cases x) auto
  have v: "0 < b" "0 < d" "i \<le> (d - 1) div b" using a x by (auto simp: blk_valid_def blk_count_def count_blocks_div)
  have "i * b \<le> (d - 1) div b * b" using v by (intro mult_right_mono) auto
  also have "\<dots> \<le> d - 1" using div_block [of b "d - 1"] v by simp
  finally show ?thesis using v a(2) x by (auto simp: blk_first_def blk_final_def blk_extent_def algebra_simps)
qed

text \<open>
  The end test on one axis: it says whether the block meets the interval, unless the interval lies
  strictly inside a block, and then no block passes it.
\<close>

lemma end_test:
  assumes v: "blk_valid x" and i: "0 \<le> i" "i < blk_count x" and l: "1 \<le> l" "l \<le> h" "h \<le> blk_extent x"
  defines "B \<equiv> blk_find x l"
  shows "(blk_first x i \<ge> l \<and> blk_first x i \<le> h) \<or> (blk_final x i \<ge> l \<and> blk_final x i \<le> h) \<longleftrightarrow>
    (\<exists>e. l \<le> e \<and> e \<le> h \<and> blk_find x e = i) \<and> \<not> (blk_first x B < l \<and> h < blk_final x B)"
proof -
  have ne: "blk_first x i \<le> blk_final x i" "1 \<le> blk_first x i" "blk_final x i \<le> blk_extent x"
    using block_nonempty [OF v i] by auto
  have ends: "blk_find x e = i" if "blk_first x i \<le> e" "e \<le> blk_final x i" for e
    using bk.unique [OF v i that] ne that by simp
  have holds: "blk_first x (blk_find x e) \<le> e" "e \<le> blk_final x (blk_find x e)" if "l \<le> e" "e \<le> h" for e
    using bk.find_holds [OF v, of e] that l by auto
  have B: "blk_find x e = B" if "l \<le> e" "e \<le> h" "h < blk_final x B" for e
  proof -
    have b: "0 \<le> B \<and> B < blk_count x" using bk.find_range [OF v, of l] l by (simp add: B_def)
    have "blk_first x B \<le> e" using holds(1) [of l] l that by (simp add: B_def)
    then show ?thesis using bk.unique [OF v, of B e] b that l by simp
  qed
  show ?thesis (is "?E \<longleftrightarrow> ?M \<and> \<not> ?S")
  proof (intro iffI conjI)
    assume e: ?E
    show ?M using e ends [of "blk_first x i"] ends [of "blk_final x i"] ne by auto
    show "\<not> ?S"
    proof
      assume s: ?S
      then have "blk_find x (blk_first x i) = B \<or> blk_find x (blk_final x i) = B" using e B by auto
      then have "i = B" using ends [of "blk_first x i"] ends [of "blk_final x i"] ne by auto
      then show False using e s by auto
    qed
  next
    assume ms: "?M \<and> \<not> ?S"
    then obtain e where e: "l \<le> e" "e \<le> h" "blk_find x e = i" by blast
    then have he: "blk_first x i \<le> e" "e \<le> blk_final x i" using holds [of e] by auto
    show ?E
    proof (rule ccontr)
      assume n: "\<not> ?E"
      then have "blk_first x i < l" "h < blk_final x i" using he e by auto
      moreover from this have "blk_find x l = i" using ends l by simp
      ultimately show False using ms by (simp add: B_def)
    qed
  qed
qed

lemma end_overlap_iff:
  assumes "list_all blk_valid xs" "in_grid (map blk_count xs) is"
    "in_patch (replicate (length xs) 1) (map blk_extent xs) lo" "in_patch (replicate (length xs) 1) (map blk_extent xs) hi"
    "in_patch lo hi lo"
  shows "end_overlap lo hi (map2 blk_first xs is, map2 blk_final xs is) \<longleftrightarrow>
    (\<exists>ss. in_patch lo hi ss \<and> map2 blk_find xs ss = is) \<and> \<not> inside_axes xs lo hi"
  using assms
proof (induction xs arbitrary: "is" lo hi)
  case (Cons x xs)
  obtain i is' where i: "is = i # is'" using Cons.prems(2) by (cases "is") auto
  obtain l lo' h hi' where l: "lo = l # lo'" "hi = h # hi'" using Cons.prems(3,4) by (cases lo; cases hi) auto
  have p: "blk_valid x" "0 \<le> i" "i < blk_count x" "1 \<le> l" "l \<le> h" "h \<le> blk_extent x" using Cons.prems i l by auto
  have IH: "end_overlap lo' hi' (map2 blk_first xs is', map2 blk_final xs is') \<longleftrightarrow>
    (\<exists>ss. in_patch lo' hi' ss \<and> map2 blk_find xs ss = is') \<and> \<not> inside_axes xs lo' hi'"
    using Cons.prems i l by (intro Cons.IH) auto
  have split: "(\<exists>ss. in_patch lo hi ss \<and> map2 blk_find (x # xs) ss = is) \<longleftrightarrow>
    (\<exists>e. l \<le> e \<and> e \<le> h \<and> blk_find x e = i) \<and> (\<exists>ss. in_patch lo' hi' ss \<and> map2 blk_find xs ss = is')"
    (is "?L \<longleftrightarrow> ?R")
  proof
    assume ?L
    then obtain ss where ss: "in_patch lo hi ss" "map2 blk_find (x # xs) ss = is" by blast
    then obtain e ss' where "ss = e # ss'" using l by (cases ss) auto
    then show ?R using ss i l by auto
  next
    assume ?R
    then obtain e ss where "l \<le> e" "e \<le> h" "blk_find x e = i" "in_patch lo' hi' ss" "map2 blk_find xs ss = is'" by blast
    then show ?L using i l by (intro exI [of _ "e # ss"]) auto
  qed
  have "end_overlap lo hi (map2 blk_first (x # xs) is, map2 blk_final (x # xs) is) \<longleftrightarrow>
    ((blk_first x i \<ge> l \<and> blk_first x i \<le> h) \<or> (blk_final x i \<ge> l \<and> blk_final x i \<le> h)) \<and>
    end_overlap lo' hi' (map2 blk_first xs is', map2 blk_final xs is')"
    using i l by (simp add: end_overlap_def)
  then show ?case unfolding split IH end_test [OF p] using l by auto
next
  case Nil
  then have "lo = []" "hi = []" by (cases lo; cases hi; auto)+
  then show ?case using Nil by (auto simp: end_overlap_def intro: exI [of _ "[]"])
qed

lemma block_of_owns:
  "ga_active st g_a \<Longrightarrow> property (ga st g_a) \<noteq> READ_ONLY \<Longrightarrow> num_rstrctd (ga st g_a) = 0 \<Longrightarrow>
   block_of st g_a i = ga_ownsM (ga st g_a) i"
  by (simp add: block_of_def distribution_regular)

lemma blk_overlap:
  assumes "blocks_ok a" "subscript_of a lo" "subscript_of a hi" "in_patch lo hi lo" "0 \<le> k" "k < block_total a"
  shows "end_overlap lo hi (ga_ownsM a k) \<longleftrightarrow>
    (\<exists>ss. in_patch lo hi ss \<and> blk_owner a ss = k) \<and> \<not> strictly_inside a lo hi"
proof -
  note ax = blocks_axes [OF assms(1)]
  let ?is = "gam_find_proc_indices (num_blocks a) k"
  have t: "block_total a = prod_list (num_blocks a)" using assms(1) by (simp add: blocks_ok_def)
  have g: "in_grid (num_blocks a) ?is" "pos (num_blocks a) ?is = k"
    using proc_indices_pos [OF ax(5)] assms(5,6) t by auto
  have "map2 blk_find (blk_axes a) ss = ?is \<longleftrightarrow> blk_owner a ss = k" if "in_patch lo hi ss" for ss
    using blk_owner_range(3) [OF assms(1) subscript_between [OF assms(2,3) that]] g(2)
      proc_indices_of_pos [OF ax(5)] unfolding blk_owner_def by metis
  then have "(\<exists>ss. in_patch lo hi ss \<and> map2 blk_find (blk_axes a) ss = ?is) \<longleftrightarrow> (\<exists>ss. in_patch lo hi ss \<and> blk_owner a ss = k)"
    by blast
  moreover have "end_overlap lo hi (map2 blk_first (blk_axes a) ?is, map2 blk_final (blk_axes a) ?is) \<longleftrightarrow>
    (\<exists>ss. in_patch lo hi ss \<and> map2 blk_find (blk_axes a) ss = ?is) \<and> \<not> inside_axes (blk_axes a) lo hi"
    using assms(2-4) ax g(1) by (intro end_overlap_iff) (simp_all add: subscript_of_def)
  ultimately show ?thesis using blk_owns [OF assms(1,5,6)] by (simp add: strictly_inside_def)
qed

lemma cyclic_pieces:
  assumes "ga_active st g_a" "blocks_ok (ga st g_a)" "distr_type (ga st g_a) = BLOCK_CYCLIC"
    "property (ga st g_a) \<noteq> READ_ONLY" "num_rstrctd (ga st g_a) = 0"
    "subscript_of (ga st g_a) lo" "subscript_of (ga st g_a) hi" "in_patch lo hi lo"
  shows "strictly_inside (ga st g_a) lo hi \<Longrightarrow> region_pieces st g_a lo hi = []"
    "\<not> strictly_inside (ga st g_a) lo hi \<Longrightarrow> exact_pieces (blk_owner (ga st g_a)) lo hi (region_pieces st g_a lo hi)"
proof -
  let ?a = "ga st g_a"
  define I where "I = overlap_blocks st g_a lo hi"
  have bo: "block_of st g_a i = ga_ownsM ?a i" for i using block_of_owns assms by blast
  have I: "k \<in> set I \<longleftrightarrow> 0 \<le> k \<and> k < block_total ?a \<and> end_overlap lo hi (ga_ownsM ?a k)" for k
    by (auto simp: I_def overlap_blocks_def bo)
  have ps: "region_pieces st g_a lo hi = map (\<lambda>i. (i, clip lo hi (ga_ownsM ?a i))) I"
    using assms(3) by (simp add: region_pieces_def Let_def I_def bo)
  note ov = blk_overlap [OF assms(2,6-8)]
  show "region_pieces st g_a lo hi = []" if "strictly_inside ?a lo hi"
  proof -
    have "k \<notin> set I" for k using I ov that by blast
    then have "I = []" by (metis list.set_intros(1) neq_Nil_conv)
    then show ?thesis by (simp add: ps)
  qed
  show "exact_pieces (blk_owner ?a) lo hi (region_pieces st g_a lo hi)" if n: "\<not> strictly_inside ?a lo hi"
    unfolding exact_pieces_def
  proof (intro conjI allI impI ballI)
    show "distinct (map fst (region_pieces st g_a lo hi))" by (simp add: ps comp_def I_def overlap_blocks_def)
    fix ss assume "in_patch lo hi ss"
    then have "blk_owner ?a ss \<in> set I"
      using I ov n blk_owner_range [OF assms(2) subscript_between [OF assms(6,7)]] by blast
    then show "blk_owner ?a ss \<in> fst ` set (region_pieces st g_a lo hi)" by (auto simp: ps image_iff)
  next
    fix p assume p: "p \<in> set (region_pieces st g_a lo hi)"
    then obtain k where k: "k \<in> set I" "p = (k, clip lo hi (ga_ownsM ?a k))" by (auto simp: ps)
    have len: "length lo = length (dims ?a)" "length hi = length (dims ?a)"
      using in_patch_lengths assms(6,7) by (force simp: subscript_of_def)+
    have r: "0 \<le> k" "k < block_total ?a" using k I by auto
    have ol: "length (fst (ga_ownsM ?a k)) = length (dims ?a) \<and> length (snd (ga_ownsM ?a k)) = length (dims ?a)"
      using blk_owns [OF assms(2) r] blocks_axes [OF assms(2)] proc_indices_pos [of "num_blocks ?a" k]
        in_grid_length [of "num_blocks ?a"] r assms(2) by (auto simp: blocks_ok_def)
    have "in_patch (fst (clip lo hi (ga_ownsM ?a k))) (snd (clip lo hi (ga_ownsM ?a k))) ss \<longleftrightarrow>
      in_patch lo hi ss \<and> blk_owner ?a ss = k" for ss
      using in_patch_clip [of "ga_ownsM ?a k" lo hi ss] ol len
        blk_block_iff [OF assms(2) subscript_between [OF assms(6,7)] r] by auto
    then show "case p of (k, l, h) \<Rightarrow> \<forall>ss. in_patch l h ss \<longleftrightarrow> in_patch lo hi ss \<and> blk_owner ?a ss = k"
      by (simp add: k(2) case_prod_unfold)
  qed
qed

section \<open>ScaLAPACK and tiled arrays\<close>

text \<open>The blocks with indices between those of the corners are the blocks that meet the patch.\<close>

lemma blocks_between:
  assumes "list_all blk_valid xs" "in_patch (replicate (length xs) 1) (map blk_extent xs) lo"
    "in_patch (replicate (length xs) 1) (map blk_extent xs) hi" "in_patch lo hi lo"
    "in_patch (map2 blk_find xs lo) (map2 blk_find xs hi) c"
  shows "\<exists>ss. in_patch lo hi ss \<and> map2 blk_find xs ss = c"
  using assms
proof (induction xs arbitrary: lo hi c)
  case (Cons x xs)
  obtain l lo' h hi' where l: "lo = l # lo'" "hi = h # hi'" using Cons.prems(2,3) by (cases lo; cases hi) auto
  obtain i c' where c: "c = i # c'" using Cons.prems(5) l by (cases c) auto
  have p: "blk_valid x" "1 \<le> l" "l \<le> h" "h \<le> blk_extent x" "blk_find x l \<le> i" "i \<le> blk_find x h"
    using Cons.prems l c by auto
  have "\<exists>ss. in_patch lo' hi' ss \<and> map2 blk_find xs ss = c'" using Cons.prems l c by (intro Cons.IH) auto
  moreover have "\<exists>e. l \<le> e \<and> e \<le> h \<and> blk_find x e = i"
  proof (cases "i = blk_find x l")
    case True
    then show ?thesis using p by auto
  next
    case False
    obtain b d where x: "x = (b, d)" by (cases x) auto
    have v: "0 < b" using p(1) x by (simp add: blk_valid_def)
    have li: "(l - 1) div b + 1 \<le> i" "i \<le> (h - 1) div b" using False p v x by (auto simp: blk_find_def)
    have "l - 1 < ((l - 1) div b + 1) * b" "(h - 1) div b * b \<le> h - 1"
      using div_block [OF v, of "l - 1"] div_block [OF v, of "h - 1"] by blast+
    moreover have "((l - 1) div b + 1) * b \<le> i * b" "i * b \<le> (h - 1) div b * b"
      using li v by (auto intro: mult_right_mono)
    ultimately have "l \<le> i * b + 1" "i * b + 1 \<le> h" by linarith+
    moreover have "blk_find x (i * b + 1) = i" using v x p(2) calculation by (simp add: blk_find_def)
    ultimately show ?thesis by blast
  qed
  ultimately obtain ss e where "in_patch lo' hi' ss" "map2 blk_find xs ss = c'" "l \<le> e" "e \<le> h" "blk_find x e = i" by blast
  then show ?case using l c by (intro exI [of _ "e # ss"]) auto
next
  case Nil
  then have "lo = []" "hi = []" "c = []" by (cases lo; cases hi; cases c; auto)+
  then show ?case by (auto intro: exI [of _ "[]"])
qed

text \<open>The counts of the last branch are the indices of the blocks that meet the patch.\<close>

lemma counts_meet:
  assumes "blocks_ok a" "subscript_of a lo" "subscript_of a hi" "in_patch lo hi lo"
  defines "mn \<equiv> map2 (\<lambda>l b. cdiv (l - 1) b) lo (block_dims a)" and "mx \<equiv> map2 (\<lambda>h b. cdiv (h - 1) b) hi (block_dims a)"
  shows "distinct (block_counts (zip mn (zip mn mx)))"
    "c \<in> set (block_counts (zip mn (zip mn mx))) \<longleftrightarrow> (\<exists>ss. in_patch lo hi ss \<and> map2 blk_find (blk_axes a) ss = c)"
proof -
  note ax = blocks_axes [OF assms(1)]
  have "length bs = length ds \<Longrightarrow> map2 (\<lambda>s b. cdiv (s - 1) b) ss bs = map2 blk_find (zip bs ds) ss"
    for bs ds ss :: "int list"
  proof (induction bs ds arbitrary: ss rule: list_induct2)
    case (Cons b bs d ds)
    then show ?case by (cases ss) (auto simp: blk_find_def)
  qed simp
  then have f: "map2 (\<lambda>s b. cdiv (s - 1) b) ss (block_dims a) = map2 blk_find (blk_axes a) ss" for ss
    using assms(1) by (simp add: blk_axes_def blocks_ok_def)
  have e: "mn = map2 blk_find (blk_axes a) lo" "mx = map2 blk_find (blk_axes a) hi" by (simp_all add: mn_def mx_def f)
  have s: "in_patch (replicate (length (blk_axes a)) 1) (map blk_extent (blk_axes a)) lo"
    "in_patch (replicate (length (blk_axes a)) 1) (map blk_extent (blk_axes a)) hi"
    using assms(2,3) ax by (simp_all add: subscript_of_def)
  have between: "in_patch mn mx (map2 blk_find (blk_axes a) ss)" if "in_patch lo hi ss" for ss
    unfolding e using bk.found_between [OF ax(1) s that] .
  have ne: "mn \<noteq> []" using in_patch_lengths [OF s(1)] ax assms(1) by (auto simp: e blocks_ok_def)
  have mm: "in_patch mn mx mn" using between [OF assms(4)] by (simp add: e)
  show "distinct (block_counts (zip mn (zip mn mx)))" using counts_enumerate(1) [OF mm ne] .
  have "c \<in> set (block_counts (zip mn (zip mn mx))) \<longleftrightarrow> in_patch mn mx c" using counts_enumerate(2) [OF mm ne] by simp
  then show "c \<in> set (block_counts (zip mn (zip mn mx))) \<longleftrightarrow> (\<exists>ss. in_patch lo hi ss \<and> map2 blk_find (blk_axes a) ss = c)"
    using between blocks_between [OF ax(1) s assms(4), of c] unfolding e by blast
qed

lemma counted_block:
  assumes "blocks_ok a" "in_grid (num_blocks a) c"
  shows "(map2 (\<lambda>c b. c * b + 1) c (block_dims a),
     map2 (\<lambda>h d. if h > d then d else h) (map2 (\<lambda>c b. (c + 1) * b) c (block_dims a)) (dims a)) =
     ga_ownsM a (pos (num_blocks a) c)"
proof -
  note ax = blocks_axes [OF assms(1)]
  have t: "block_total a = prod_list (num_blocks a)" "block_total a \<le> 2147483648" using assms(1) unfolding blocks_ok_def by blast+
  have p: "0 \<le> pos (num_blocks a) c" "pos (num_blocks a) c < prod_list (num_blocks a)"
    using pos_bound [OF ax(5) assms(2)] by auto
  have "s32 (pos (num_blocks a) c) = pos (num_blocks a) c" using p t by (intro s32_id) auto
  then have "gam_find_block_indices (num_blocks a) (pos (num_blocks a) c) = c"
    using proc_indices_of_pos [OF ax(5) assms(2)] by (simp add: gam_find_block_indices_def)
  then show ?thesis using assms(1) by (auto simp: ga_ownsM_def blocks_ok_def Let_def)
qed

lemma tiled_pieces:
  assumes "blocks_ok (ga st g_a)" "distr_type (ga st g_a) = SCALAPACK \<or> distr_type (ga st g_a) = TILED"
    "subscript_of (ga st g_a) lo" "subscript_of (ga st g_a) hi" "in_patch lo hi lo"
  obtains C where "distinct C" "\<And>c. c \<in> set C \<longleftrightarrow> (\<exists>ss. in_patch lo hi ss \<and> map2 blk_find (blk_axes (ga st g_a)) ss = c)"
    "region_pieces st g_a lo hi =
      map (\<lambda>c. (block_idx 0 1 (rev (zip c (num_blocks (ga st g_a)))), ga_ownsM (ga st g_a) (pos (num_blocks (ga st g_a)) c))) C"
proof -
  let ?a = "ga st g_a"
  define mn where "mn = map2 (\<lambda>l b. cdiv (l - 1) b) lo (block_dims ?a)"
  define mx where "mx = map2 (\<lambda>h b. cdiv (h - 1) b) hi (block_dims ?a)"
  let ?C = "block_counts (zip mn (zip mn mx))"
  note c = counts_meet [OF assms(1,3-5), folded mn_def mx_def]
  have g: "in_grid (num_blocks ?a) c" if C: "c \<in> set ?C" for c
  proof -
    obtain ss where ss: "in_patch lo hi ss" "map2 blk_find (blk_axes ?a) ss = c" using C unfolding c(2) by blast
    show ?thesis using blk_owner_range(3) [OF assms(1) subscript_between [OF assms(3,4) ss(1)]] ss(2) by simp
  qed
  have "region_pieces st g_a lo hi = counted_pieces ?a lo hi" using assms(2) by (auto simp: region_pieces_def Let_def)
  also have "\<dots> = map (\<lambda>c. (block_idx 0 1 (rev (zip c (num_blocks ?a))), ga_ownsM ?a (pos (num_blocks ?a) c))) ?C"
    unfolding counted_pieces_def Let_def mn_def [symmetric] mx_def [symmetric]
    by (rule map_cong [OF refl]) (use counted_block [OF assms(1) g] in simp)
  finally show thesis using that [OF c] by blast
qed

end
