(* ===== verification/GA_Setup.thy ===== *)
theory GA_Setup
  imports GA_Allocate GA_Pieces
begin

text \<open>
  Setting an array up gives a well-formed descriptor: the default decomposition, the maps of irregular
  distributions, the lists of restricted arrays.
\<close>

section \<open>The default distribution\<close>

lemma axes_of_concat:
  "length ms = length ds \<Longrightarrow> list_all2 (\<lambda>m d. \<forall>r. map_valid (int (length m), d, m @ r)) ms ds \<Longrightarrow>
   list_all map_valid (axes_of (map (\<lambda>m. int (length m)) ms) ds (concat ms @ rest))"
  by (induction ms ds rule: list_induct2) auto

lemma member_le_prod_list: "\<forall>p\<in>set ps. 1 \<le> p \<Longrightarrow> p \<in> set ps \<Longrightarrow> p \<le> prod_list (ps :: int list)"
proof (induction ps)
  case (Cons q ps)
  have q: "1 \<le> q" using Cons.prems(1) by simp
  have "grid_ok ps" using Cons.prems(1) by (auto simp: grid_ok_def)
  then have r: "1 \<le> prod_list ps" using grid_prod_pos [of ps] by simp
  show ?case
  proof (cases "p = q")
    case True
    then show ?thesis using q r mult_left_mono [of 1 "prod_list ps" q] by simp
  next
    case False
    then have "p \<le> prod_list ps" using Cons by auto
    also have "\<dots> \<le> q * prod_list ps" using q r mult_right_mono [of 1 q "prod_list ps"] by simp
    finally show ?thesis by simp
  qed
qed simp

lemma prod_list_mono: "list_all2 (\<lambda>x y. 0 \<le> x \<and> x \<le> y) xs ys \<Longrightarrow> 0 \<le> prod_list xs \<and> prod_list xs \<le> prod_list (ys :: int list)"
  by (induction xs ys rule: list_all2_induct) (auto intro: mult_mono)

lemma default_map_spec:
  assumes "ds \<noteq> []" "length chk = length ds" "\<forall>d\<in>set ds. 1 \<le> d \<and> d < 9007199254740992" "1 \<le> npes" "npes < 2147483648"
  obtains nb m where "default_map ds chk npes = Some (Inr (nb, m))" "length nb = length ds"
    "list_all map_valid (axes_of nb ds m)" "prod_list nb \<le> npes"
proof -
  have w: "length (wanted_blocks ds chk) = length ds" using assms(2) by (simp add: wanted_blocks_def)
  let ?g = "grains ds (wanted_blocks ds chk)"
  obtain pe where pe: "ddb_h2 ds npes (0, 0) 0 (wanted_blocks ds chk) =
      Some (Inr (map2 (\<lambda>t p. (t - 1) div p + 1) ?g pe, pe))"
    "length pe = length ds" "\<forall>p\<in>set pe. 1 \<le> p" "prod_list pe = npes"
    using ddb_h2_spec [OF assms(1) w assms(3,4)] by blast
  define blk where "blk = map2 (\<lambda>t p. (t - 1) div p + 1) ?g pe"
  define ms where "ms = map (\<lambda>(d, c, b, p). axis_blocks d c b p) (zip ds (zip chk (zip blk pe)))"
  have lg: "length ?g = length ds" using w by (simp add: grains_def)
  have len: "length blk = length ds" "length ms = length ds" using lg pe(2) assms(2) by (simp_all add: blk_def ms_def)
  have nth: "1 \<le> ds ! i \<and> ds ! i < 9007199254740992" "1 \<le> blk ! i" "1 \<le> pe ! i" "pe ! i < 2147483648"
    "ms ! i = axis_blocks (ds ! i) (chk ! i) (blk ! i) (pe ! i)" if "i < length ds" for i
  proof -
    show "1 \<le> ds ! i \<and> ds ! i < 9007199254740992" using assms(3) that by simp
    show p: "1 \<le> pe ! i" using pe(2,3) that by simp
    have "pe ! i \<le> npes" using member_le_prod_list [OF pe(3), of "pe ! i"] pe(2,4) that by simp
    then show "pe ! i < 2147483648" using assms(5) by simp
    have "1 \<le> ?g ! i" using grains_bound [OF assms(3), of "wanted_blocks ds chk"] lg that by simp
    then show "1 \<le> blk ! i" using p lg pe(2) that by (simp add: blk_def pos_imp_zdiv_nonneg_iff)
    show "ms ! i = axis_blocks (ds ! i) (chk ! i) (blk ! i) (pe ! i)" using that assms(2) len pe(2) by (simp add: ms_def)
  qed
  have il: "int (length (ms ! i)) \<le> pe ! i" if "i < length ds" for i
    using axis_blocks_sorted(3) [of "ds ! i" "blk ! i" "pe ! i" "chk ! i"] nth(1,2,3) [OF that] nth(5) [OF that] by simp
  have v: "list_all2 (\<lambda>m d. \<forall>r. map_valid (int (length m), d, m @ r)) ms ds"
    using nth axis_blocks_valid len by (auto simp: list_all2_conv_all_nth)
  have le: "list_all2 (\<lambda>x y. 0 \<le> x \<and> x \<le> y) (map (\<lambda>m. int (length m)) ms) pe"
    using il len pe(2) by (simp add: list_all2_conv_all_nth)
  have len32: "map (\<lambda>m. s32 (int (length m))) ms = map (\<lambda>m. int (length m)) ms"
  proof (rule map_cong [OF refl])
    fix m assume "m \<in> set ms"
    then obtain i where i: "i < length ds" "m = ms ! i" using len by (metis in_set_conv_nth)
    then have "int (length m) \<le> pe ! i" using il by simp
    then show "s32 (int (length m)) = int (length m)" using nth(4) [OF i(1)] by (intro s32_id) auto
  qed
  have "default_map ds chk npes = Some (Inr (map (\<lambda>m. s32 (int (length m))) ms, concat ms @ [-1]))"
    using pe(1) by (simp add: default_map_def Let_def blk_def [symmetric] ms_def del: map_map)
  then have "default_map ds chk npes = Some (Inr (map (\<lambda>m. int (length m)) ms, concat ms @ [-1]))"
    unfolding len32 .
  then show thesis using that axes_of_concat [OF len(2) v] prod_list_mono [OF le] pe(4) len(2) by simp
qed

section \<open>Allocation\<close>

text \<open>What \<open>pnga_set_data\<close> and \<open>pnga_set_chunk\<close> leave behind.\<close>

definition data_set :: "global_array_t \<Rightarrow> bool" where
  "data_set a \<longleftrightarrow> dims a \<noteq> [] \<and> ndim a = int (length (dims a)) \<and> length (chunk a) = length (dims a) \<and>
     (\<forall>d\<in>set (dims a). 1 \<le> d \<and> d < 9007199254740992)"

definition handle_ok :: "ga_state \<Rightarrow> int \<Rightarrow> bool" where
  "handle_ok st g_a \<longleftrightarrow> 0 \<le> GA_OFFSET + g_a \<and> GA_OFFSET + g_a < int (length (GA st))"

lemma resolve_group_simps [simp]:
  "dims (resolve_group st a) = dims a" "chunk (resolve_group st a) = chunk a"
  "ndim (resolve_group st a) = ndim a" "mapc (resolve_group st a) = mapc a"
  "nblock (resolve_group st a) = nblock a" "distr_type (resolve_group st a) = distr_type a"
  "num_rstrctd (resolve_group st a) = num_rstrctd a" "rstrctd_list (resolve_group st a) = rstrctd_list a"
  "rank_rstrctd (resolve_group st a) = rank_rstrctd a" "property (resolve_group st a) = property a"
  by (simp_all add: resolve_group_def)

lemma activate_simps [simp]:
  "actv (activate st a) = 1" "dims (activate st a) = dims a" "distr_type (activate st a) = distr_type a"
  "nblock (activate st a) = nblock a" "mapc (activate st a) = mapc a" "num_rstrctd (activate st a) = num_rstrctd a"
  "rstrctd_list (activate st a) = rstrctd_list a" "rank_rstrctd (activate st a) = rank_rstrctd a"
  "property (activate st a) = property a" "ndim (activate st a) = ndim a"
  by (simp_all add: activate_def Let_def)

lemma ga_upd_same: "handle_ok st g_a \<Longrightarrow> ga (upd_ga g_a f st) g_a = f (ga st g_a)"
  by (simp add: ga_def upd_ga_def handle_ok_def add.commute nat_less_iff)

lemma ga_upd_other:
  "handle_ok st g_a \<Longrightarrow> handle_ok st g_b \<Longrightarrow> g_b \<noteq> g_a \<Longrightarrow> ga (upd_ga g_a f st) g_b = ga st g_b"
  by (simp add: ga_def upd_ga_def handle_ok_def add.commute nat_eq_iff)

lemma handle_ok_upd [simp]: "handle_ok (upd_ga g_a f st) g_b \<longleftrightarrow> handle_ok st g_b"
  by (simp add: handle_ok_def upd_ga_def)

lemma active_handle: "ga_active st g_a \<longleftrightarrow> handle_ok st g_a \<and> actv (ga st g_a) \<noteq> 0"
  by (auto simp: ga_active_def handle_ok_def)

lemma allocate_uninitialized:
  "ndim (ga st g_a) \<noteq> -1 \<Longrightarrow> \<not> GAinitialized st \<Longrightarrow> allocate_setup g_a st = Some (Inl (''GA not initialized '', 0))"
  by (simp add: allocate_setup_def Let_def)

text \<open>What the distribution of a regular array, given or computed, has to satisfy after \<open>set_distribution\<close>.\<close>

lemma allocate_regular:
  assumes "handle_ok st g_a" "ndim (ga st g_a) \<noteq> -1" and init: "GAinitialized st"
    and s: "set_distribution st (resolve_group st (ga st g_a)) = Some (Inr (a, n))"
    and reg: "distr_type a = REGULAR"
    and shape: "dims a \<noteq> []" "length (nblock a) = length (dims a)" "mapc a \<noteq> None"
      "list_all map_valid (axes_of (nblock a) (dims a) (the (mapc a)))"
  obtains st' mem where "allocate_setup g_a st = Some (Inr (st', mem))" "ga_active st' g_a" "regular_ok (ga st' g_a)"
    "nblock (ga st' g_a) = nblock a" "dims (ga st' g_a) = dims a" "num_rstrctd (ga st' g_a) = num_rstrctd a"
    "rstrctd_list (ga st' g_a) = rstrctd_list a" "rank_rstrctd (ga st' g_a) = rank_rstrctd a"
    "property (ga st' g_a) = property a"
proof -
  define b where "b = (activate st a)\<lparr>scale := map2 axis_scale (nblock a) (dims a), corner_flag := ndim a\<rparr>"
  define st1 where "st1 = upd_ga g_a (\<lambda>_. b) st"
  have b: "actv b = 1" "distr_type b = REGULAR" "dims b = dims a" "nblock b = nblock a" "mapc b = mapc a"
    "scale b = map2 axis_scale (nblock a) (dims a)" "num_rstrctd b = num_rstrctd a" "rstrctd_list b = rstrctd_list a"
    "rank_rstrctd b = rank_rstrctd a" "property b = property a"
    using reg by (simp_all add: b_def)
  have h1: "handle_ok st1 g_a" "ga st1 g_a = b" using assms(1) by (simp_all add: st1_def ga_upd_same)
  have act: "ga_active st1 g_a" using h1 b(1) by (simp add: active_handle)
  let ?ph = "p_handle (resolve_group st (ga st g_a))"
  define me where "me = (if ?ph \<ge> 0 then map_proc_list (PGRP_LIST st ! nat ?ph) ! nat (GAme st) else GAme st)"
  obtain l where l: "pnga_distribution st1 g_a me = Inr l" using act by (simp add: pnga_distribution_def Let_def)
  define st2 where "st2 = upd_ga g_a (\<lambda>a. a\<lparr>my_lo := fst l\<rparr>) st1"
  have ga2: "ga st2 g_a = b\<lparr>my_lo := fst l\<rparr>" "handle_ok st2 g_a" using h1 by (simp_all add: st2_def ga_upd_same)
  have "allocate_setup g_a st = Some (Inr (st2, regular_elems b l * elemsize b))"
    using assms(2) init s l reg
    by (simp add: allocate_setup_def Let_def b_def [symmetric] st1_def [symmetric] st2_def [symmetric] me_def [symmetric])
  then show thesis
    using ga2 b shape by (intro that) (auto simp: active_handle regular_ok_def mapped_def)
qed

section \<open>Restricted arrays\<close>

lemma ranks_ok_snoc:
  assumes "ranks_ok l r" "p \<notin> set l" "0 \<le> p" "p < int (length r)"
  shows "ranks_ok (l @ [p]) (r[nat p := int (length l)])"
proof -
  have "0 \<le> (l @ [p]) ! i \<and> (l @ [p]) ! i < int (length r) \<and> r[nat p := int (length l)] ! nat ((l @ [p]) ! i) = int i"
    if i: "i < Suc (length l)" for i
  proof (cases "i = length l")
    case False
    then have "i < length l" using i by simp
    then have o: "0 \<le> l ! i" "l ! i < int (length r)" "r ! nat (l ! i) = int i" "l ! i \<noteq> p"
      using assms(1,2) by (auto simp: ranks_ok_def)
    then have "nat p \<noteq> nat (l ! i)" using assms(3) by linarith
    then show ?thesis using o \<open>i < length l\<close> by (simp add: nth_append)
  qed (use assms(3,4) in simp)
  moreover have "r[nat p := int (length l)] ! q = -1 \<or>
      0 \<le> r[nat p := int (length l)] ! q \<and> r[nat p := int (length l)] ! q < int (length (l @ [p])) \<and>
      (l @ [p]) ! nat (r[nat p := int (length l)] ! q) = int q" if q: "q < length r" for q
  proof (cases "q = nat p")
    case False
    then show ?thesis using assms(1) q by (auto simp: ranks_ok_def nth_append)
  qed (use assms(3,4) q in simp)
  ultimately show ?thesis by (simp add: ranks_ok_def)
qed

lemma restrict_loop_ok:
  assumes "ranks_ok l rank" "distinct (l @ ps)" "\<forall>p\<in>set ps. 0 \<le> p \<and> p < nproc" "nproc \<le> int (length rank)"
  shows "\<exists>rank' has' pos'. restrict_loop me nproc ps (int (length l)) rank has pos0 = Inr (rank', has', pos') \<and>
    ranks_ok (l @ ps) rank' \<and> length rank' = length rank"
  using assms
proof (induction ps arbitrary: l rank has pos0)
  case (Cons p ps)
  have p: "0 \<le> p" "p < nproc" "p \<notin> set l" using Cons.prems by auto
  have "ranks_ok (l @ [p]) (rank[nat p := int (length l)])" using ranks_ok_snoc Cons.prems p by simp
  then have "\<exists>rank' has' pos'. restrict_loop me nproc ps (int (length (l @ [p]))) (rank[nat p := int (length l)])
      (if me = p then 1 else has) (if me = p then int (length l) else pos0) = Inr (rank', has', pos') \<and>
    ranks_ok ((l @ [p]) @ ps) rank' \<and> length rank' = length (rank[nat p := int (length l)])"
    using Cons.prems by (intro Cons.IH) auto
  then show ?case using p by (simp add: Let_def add.commute)
qed simp

lemma restrict_loop_bad:
  "\<exists>p\<in>set ps. p < 0 \<or> p \<ge> nproc \<Longrightarrow> \<exists>p. restrict_loop me nproc ps i rank has pos0 = Inl (''Invalid processor in list'', p)"
proof (induction ps arbitrary: i rank has pos0)
  case (Cons p ps)
  show ?case
  proof (cases "p < 0 \<or> p \<ge> nproc")
    case False
    then have "\<exists>p\<in>set ps. p < 0 \<or> p \<ge> nproc" using Cons.prems by auto
    then show ?thesis using Cons.IH False by (simp add: Let_def)
  qed (simp add: Let_def)
qed simp

section \<open>Irregular distributions\<close>

lemma check_rest_None:
  "check_rest d x ms = None \<Longrightarrow> sorted (x # ms) \<and> (\<forall>m\<in>set ms. m \<le> d + 1)"
  by (induction d x ms rule: check_rest.induct) (auto split: if_splits)

text \<open>What the checks of a map guarantee, also for the copy of it that is stored.\<close>

lemma check_mapc_None:
  "check_mapc ds ns ms = None \<Longrightarrow> length ns = length ds \<Longrightarrow> \<forall>n\<in>set ns. 1 \<le> n \<Longrightarrow> sum_list ns \<le> int (length ms) \<Longrightarrow>
   take (nat (sum_list ns)) ms' = take (nat (sum_list ns)) ms \<Longrightarrow> sum_list ns \<le> int (length ms') \<Longrightarrow>
   list_all (\<lambda>(n, d, m). n \<le> int (length m) \<and> sorted (take (nat n) m) \<and> (\<forall>x\<in>set (take (nat n) m). x \<le> d + 1)) (axes_of ns ds ms')"
proof (induction ds ns ms arbitrary: ms' rule: check_mapc.induct)
  case (1 d ds n ns ms)
  have n: "1 \<le> n" "0 \<le> sum_list ns" using 1(4) by (auto intro!: sum_list_nonneg)
  have sum: "nat (sum_list (n # ns)) = nat n + nat (sum_list ns)" using n by (simp add: nat_add_distrib)
  have pos: "1 \<le> int (length ms)" "1 \<le> int (length ms')" using n 1(5,7) by auto
  have c: "ms ! 0 \<le> d + 1" "check_rest d (ms ! 0) (take (nat (n - 1)) (drop 1 ms)) = None"
    "check_mapc ds ns (drop (1 + nat (n - 1)) ms) = None"
    using 1(2) by (auto simp: Let_def split: if_splits option.splits)
  have n1: "1 + nat (n - 1) = nat n" using n by simp
  have eq: "take (nat n) ms' = take (nat n) ms" "take (nat (sum_list ns)) (drop (nat n) ms') = take (nat (sum_list ns)) (drop (nat n) ms)"
  proof -
    show "take (nat n) ms' = take (nat n) ms" using arg_cong [OF 1(6), of "take (nat n)"] unfolding sum by simp
    show "take (nat (sum_list ns)) (drop (nat n) ms') = take (nat (sum_list ns)) (drop (nat n) ms)"
      using arg_cong [OF 1(6), of "drop (nat n)"] unfolding sum by (simp add: drop_take)
  qed
  have hd: "take (nat n) ms = ms ! 0 # take (nat (n - 1)) (drop 1 ms)"
  proof -
    obtain x xs where "ms = x # xs" using pos by (cases ms) auto
    then show ?thesis using n1 by (metis drop0 drop_Suc_Cons nth_Cons_0 One_nat_def plus_1_eq_Suc take_Suc_Cons)
  qed
  have "list_all (\<lambda>(n, d, m). n \<le> int (length m) \<and> sorted (take (nat n) m) \<and> (\<forall>x\<in>set (take (nat n) m). x \<le> d + 1))
    (axes_of ns ds (drop (nat n) ms'))"
  proof (rule 1(1) [where x = "ms ! 0"])
    show "\<not> (ms ! 0 < 1 \<or> d + 1 < ms ! 0)" using 1(2) by (auto simp: Let_def split: if_splits)
    show "check_rest d (ms ! 0) (take (nat (n - 1)) (drop 1 ms)) = None" using c(2) .
    show "sum_list ns \<le> int (length (drop (1 + nat (n - 1)) ms))" "sum_list ns \<le> int (length (drop (nat n) ms'))"
      using 1(5,7) n by (auto simp: n1)
  qed (use c(3) 1(3,4) eq(2) n1 in auto)
  moreover have "sorted (take (nat n) ms')" "\<forall>x\<in>set (take (nat n) ms'). x \<le> d + 1"
    unfolding eq(1) hd using check_rest_None [OF c(2)] c(1) by auto
  moreover have "n \<le> int (length ms')" using 1(7) n by simp
  ultimately show ?case by simp
qed auto

text \<open>The first entries of the axes, in a copy of the map.\<close>

lemma axes_first:
  "length ns = length ds \<Longrightarrow> \<forall>n\<in>set ns. 1 \<le> n \<Longrightarrow> take (nat (sum_list ns)) ms' = take (nat (sum_list ns)) ms \<Longrightarrow>
   sum_list ns \<le> int (length ms) \<Longrightarrow> sum_list ns \<le> int (length ms') \<Longrightarrow>
   list_all (\<lambda>(n, d, m). m ! 0 = 1) (axes_of ns ds ms) \<Longrightarrow> list_all (\<lambda>(n, d, m). m ! 0 = 1) (axes_of ns ds ms')"
proof (induction ns ds arbitrary: ms ms' rule: list_induct2)
  case (Cons n ns d ds)
  have n: "1 \<le> n" "0 \<le> sum_list ns" using Cons.prems(1) by (auto intro!: sum_list_nonneg)
  have sum: "nat (sum_list (n # ns)) = nat n + nat (sum_list ns)" using n by (simp add: nat_add_distrib)
  have "ms' ! 0 = ms ! 0"
  proof -
    have "take (nat (sum_list (n # ns))) ms' ! 0 = take (nat (sum_list (n # ns))) ms ! 0" using Cons.prems(2) by simp
    then show ?thesis using n unfolding sum by simp
  qed
  moreover have "take (nat (sum_list ns)) (drop (nat n) ms') = take (nat (sum_list ns)) (drop (nat n) ms)"
    using arg_cong [OF Cons.prems(2), of "drop (nat n)"] unfolding sum by (simp add: drop_take)
  ultimately show ?case using Cons.IH [of "drop (nat n) ms'" "drop (nat n) ms"] Cons.prems n by auto
qed simp

lemma restrict_loop_has:
  "restrict_loop me nproc ps i rank has pos0 = Inr (rank', has', pos') \<Longrightarrow> has' = (if me \<in> set ps then 1 else has)"
proof (induction ps arbitrary: i rank has pos0)
  case (Cons p ps)
  have "restrict_loop me nproc ps (i + 1) (rank[nat p := i]) (if me = p then 1 else has) (if me = p then i else pos0) =
      Inr (rank', has', pos')"
    using Cons.prems by (simp add: Let_def split: if_splits)
  from Cons.IH [OF this] show ?case by simp
qed simp

end
