(* ===== verification/GA_Storage.thy ===== *)
theory GA_Storage
  imports GA_Setup
begin

text \<open>
  The memory of block-cyclic and tiled arrays: the shares of the processes that \<open>pnga_allocate\<close> computes add up
  to the size of the array.
\<close>

section \<open>Loops with a stride\<close>

lemma set_stepped: "0 < s \<Longrightarrow> set (stepped i n s) = {j. i \<le> j \<and> j < n \<and> s dvd j - i} \<and> distinct (stepped i n s)"
proof (induction "nat (n - i)" arbitrary: i rule: less_induct)
  case less
  show ?case
  proof (cases "i < n")
    case True
    have e: "stepped i n s = i # stepped (i + s) n s" using True less.prems by (subst stepped.simps) simp
    have IH: "set (stepped (i + s) n s) = {j. i + s \<le> j \<and> j < n \<and> s dvd j - (i + s)}" "distinct (stepped (i + s) n s)"
      using less.hyps [of "i + s"] True less.prems by auto
    have "i \<le> j \<and> j < n \<and> s dvd j - i \<longleftrightarrow> j = i \<or> i + s \<le> j \<and> j < n \<and> s dvd j - (i + s)" for j
    proof -
      have "s dvd j - (i + s) \<longleftrightarrow> s dvd j - i" using dvd_diff_commute dvd_add_triv_right_iff [of s "j - (i + s)"] by simp
      moreover have "i + s \<le> j" if "i \<le> j" "j \<noteq> i" "s dvd j - i" using that less.prems zdvd_imp_le [of s "j - i"] by simp
      ultimately show ?thesis using True less.prems by auto
    qed
    then show ?thesis unfolding e using IH less.prems by auto
  next
    case False
    then show ?thesis by (subst (1 2) stepped.simps) auto
  qed
qed

lemma sum_stepped:
  assumes "0 < s" "0 \<le> i" "i < s"
  shows "sum_list (map f (stepped i n s)) = sum f {j \<in> {0..<n}. j mod s = i}"
proof -
  have "i \<le> j \<and> j < n \<and> s dvd j - i \<longleftrightarrow> j \<in> {0..<n} \<and> j mod s = i" for j
  proof
    assume "i \<le> j \<and> j < n \<and> s dvd j - i"
    then show "j \<in> {0..<n} \<and> j mod s = i" using assms mod_eq_dvd_iff [of j s i] by auto
  next
    assume a: "j \<in> {0..<n} \<and> j mod s = i"
    then have "s dvd j - i" by (metis dvd_minus_mod)
    moreover have "j mod s \<le> j" using a assms(1) by (intro zmod_le_nonneg_dividend) auto
    ultimately show "i \<le> j \<and> j < n \<and> s dvd j - i" using a by auto
  qed
  then have "set (stepped i n s) = {j \<in> {0..<n}. j mod s = i}" using set_stepped [OF assms(1)] by auto
  then show ?thesis using set_stepped [OF assms(1), of i n] by (simp add: sum_list_distinct_conv_sum_set)
qed

text \<open>The strided loops of all the processes go through every index once.\<close>

lemma sum_strides: "0 < s \<Longrightarrow> (\<Sum>i\<in>{0..<s}. sum_list (map f (stepped i n s))) = sum f {0..<n}" for n s :: int
proof -
  assume s: "0 < s"
  have "(\<Sum>i\<in>{0..<s}. sum_list (map f (stepped i n s))) = (\<Sum>i\<in>{0..<s}. sum f {j \<in> {0..<n}. j mod s = i})"
  proof (rule sum.cong [OF refl])
    fix i assume "i \<in> {0..<s}"
    then show "sum_list (map f (stepped i n s)) = sum f {j \<in> {0..<n}. j mod s = i}" using s by (intro sum_stepped) auto
  qed
  also have "\<dots> = sum f {0..<n}" using s by (intro sum.group) auto
  finally show ?thesis .
qed

section \<open>Sums over a grid\<close>

lemma proc_indices_Cons:
  "0 < n \<Longrightarrow> 0 \<le> k \<Longrightarrow> gam_find_proc_indices (n # ns) k = k mod n # gam_find_proc_indices ns (k div n)"
  by (simp add: Let_def minus_mod_eq_mult_div pos_imp_zdiv_nonneg_iff)

lemma sum_mod_div:
  fixes g h :: "int \<Rightarrow> int"
  assumes "0 < n" "0 \<le> p"
  shows "(\<Sum>k\<in>{0..<n * p}. g (k mod n) * h (k div n)) = sum g {0..<n} * sum h {0..<p}"
proof -
  have q: "k div n \<in> {0..<p}" if "k \<in> {0..<n * p}" for k
    using that assms div_less [of n k p] by (auto simp: pos_imp_zdiv_nonneg_iff)
  have "(\<Sum>k\<in>{0..<n * p}. g (k mod n) * h (k div n)) = (\<Sum>(r, q)\<in>{0..<n} \<times> {0..<p}. g r * h q)"
  proof (rule sum.reindex_bij_witness [where i = "\<lambda>(r, q). r + n * q" and j = "\<lambda>k. (k mod n, k div n)"])
    fix x assume x: "x \<in> {0..<n} \<times> {0..<p}"
    then obtain r q where rq: "x = (r, q)" "0 \<le> r" "r < n" "0 \<le> q" "q + 1 \<le> p" by auto
    have "n * (q + 1) \<le> n * p" using rq assms by (intro mult_left_mono) auto
    then have "r + n * q < n * p" using rq by (simp add: distrib_left)
    then show "(\<lambda>(r, q). r + n * q) x \<in> {0..<n * p}" using rq assms by simp
    show "((\<lambda>(r, q). r + n * q) x mod n, (\<lambda>(r, q). r + n * q) x div n) = x" using rq by simp
  qed (use assms q in auto)
  also have "\<dots> = sum g {0..<n} * sum h {0..<p}" by (simp add: sum_product sum.cartesian_product)
  finally show ?thesis .
qed

lemma sum_grid:
  "length xs = length ns \<Longrightarrow> grid_ok ns \<Longrightarrow>
   (\<Sum>k\<in>{0..<prod_list ns}. prod_list (map2 F xs (gam_find_proc_indices ns k))) =
   prod_list (map2 (\<lambda>x n. \<Sum>i\<in>{0..<n}. F x i) xs ns)" for F :: "'x \<Rightarrow> int \<Rightarrow> int"
proof (induction xs ns rule: list_induct2)
  case (Cons x xs n ns)
  have n: "0 < n" "grid_ok ns" "0 \<le> prod_list ns" using Cons.prems grid_prod_pos [of ns] by auto
  have "(\<Sum>k\<in>{0..<n * prod_list ns}. prod_list (map2 F (x # xs) (gam_find_proc_indices (n # ns) k))) =
    (\<Sum>k\<in>{0..<n * prod_list ns}. F x (k mod n) * prod_list (map2 F xs (gam_find_proc_indices ns (k div n))))"
    by (rule sum.cong) (use n proc_indices_Cons in auto)
  also have "\<dots> = sum (F x) {0..<n} * (\<Sum>k\<in>{0..<prod_list ns}. prod_list (map2 F xs (gam_find_proc_indices ns k)))"
    using sum_mod_div [OF n(1,3), of "F x"] .
  finally show ?case using Cons.IH [OF n(2)] by simp
qed simp

section \<open>Sums along an axis\<close>

lemma telescope: "0 \<le> n \<Longrightarrow> (\<Sum>j\<in>{0..<n}. F (j + 1) - F j) = F n - F (0 :: int)" for F :: "int \<Rightarrow> int"
proof (induction n rule: int_ge_induct)
  case (step i)
  have "{0..<i + 1} = insert i {0..<i}" using step.hyps by auto
  then show ?case using step.IH by simp
qed simp

lemma blk_sum: "blk_valid x \<Longrightarrow> (\<Sum>i\<in>{0..<blk_count x}. blk_final x i - blk_first x i + 1) = blk_extent x"
proof -
  assume v: "blk_valid x"
  obtain b d where x: "x = (b, d)" by (cases x) auto
  have bd: "0 < b" "0 < d" using v x by (auto simp: blk_valid_def)
  define n where "n = (d - 1) div b + 1"
  have n: "blk_count x = n" "0 \<le> n" using bd x by (auto simp: blk_count_def count_blocks_div n_def pos_imp_zdiv_nonneg_iff)
  have last: "d \<le> n * b" using div_block [OF bd(1), of "d - 1"] by (simp add: n_def)
  have "(\<Sum>i\<in>{0..<n}. blk_final x i - blk_first x i + 1) = (\<Sum>i\<in>{0..<n}. min ((i + 1) * b) d - min (i * b) d)"
  proof (rule sum.cong [OF refl])
    fix i assume "i \<in> {0..<n}"
    then have "i \<le> (d - 1) div b" by (auto simp: n_def)
    then have "i * b \<le> (d - 1) div b * b" using bd by (intro mult_right_mono) auto
    also have "\<dots> \<le> d - 1" using div_block [OF bd(1), of "d - 1"] by simp
    finally show "blk_final x i - blk_first x i + 1 = min ((i + 1) * b) d - min (i * b) d"
      by (auto simp: x blk_final_def blk_first_def min_def)
  qed
  also have "\<dots> = min (n * b) d - min (0 * b) d" using telescope [OF n(2), of "\<lambda>i. min (i * b) d"] by simp
  finally show ?thesis using last bd x n by (simp add: blk_extent_def)
qed

lemma map_sum: "map_valid x \<Longrightarrow> (\<Sum>i\<in>{0..<map_count x}. map_final x i - map_first x i + 1) = map_extent x"
proof -
  assume v: "map_valid x"
  obtain n d m where x: "x = (n, d, m)" by (cases x) auto
  have n: "0 < n" "m ! 0 = 1" using v x by (auto simp: map_valid_def)
  define F where "F i = (if i = n then d else m ! nat i - 1)" for i
  have "(\<Sum>i\<in>{0..<n}. map_final x i - map_first x i + 1) = (\<Sum>i\<in>{0..<n}. F (i + 1) - F i)"
    by (rule sum.cong) (auto simp: x map_final_def map_first_def F_def)
  also have "\<dots> = F n - F 0" using telescope [of n F] n by simp
  finally show ?thesis using n x by (simp add: map_count_def map_extent_def F_def)
qed

section \<open>Shares\<close>

text \<open>The elements of a block, as a product over the axes.\<close>

lemma patch_size_blocks:
  "length is = length xs \<Longrightarrow> patch_size (map2 blk_first xs is, map2 blk_final xs is) =
   prod_list (map2 (\<lambda>x i. blk_final x i - blk_first x i + 1) xs is)"
proof (induction xs arbitrary: "is")
  case (Cons x xs)
  then show ?case by (cases "is") (auto simp: patch_size_def)
qed (simp add: patch_size_def)

lemma blk_prod:
  assumes "blocks_ok a"
  shows "prod_list (map2 (\<lambda>x n. \<Sum>i\<in>{0..<n}. blk_final x i - blk_first x i + 1) (blk_axes a) (num_blocks a)) = prod_list (dims a)"
proof -
  note ax = blocks_axes [OF assms]
  have "map2 (\<lambda>x n. \<Sum>i\<in>{0..<n}. blk_final x i - blk_first x i + 1) xs (map blk_count xs) = map blk_extent xs"
    if "list_all blk_valid xs" for xs using that by (induction xs) (auto simp: blk_sum)
  from this [OF ax(1)] show ?thesis using ax(2,3) by simp
qed

lemma cyclic_total:
  assumes "blocks_ok a" "0 < nproc"
  shows "(\<Sum>me\<in>{0..<nproc}. cyclic_share a me nproc) = prod_list (dims a)"
proof -
  note ax = blocks_axes [OF assms(1)]
  have t: "block_total a = prod_list (num_blocks a)" using assms(1) unfolding blocks_ok_def by blast
  have l: "length (blk_axes a) = length (num_blocks a)" using ax(2) by (metis length_map)
  have "(\<Sum>me\<in>{0..<nproc}. cyclic_share a me nproc) = (\<Sum>k\<in>{0..<block_total a}. patch_size (ga_ownsM a k))"
    unfolding cyclic_share_def using sum_strides [OF assms(2)] .
  also have "\<dots> = (\<Sum>k\<in>{0..<prod_list (num_blocks a)}.
      prod_list (map2 (\<lambda>x i. blk_final x i - blk_first x i + 1) (blk_axes a) (gam_find_proc_indices (num_blocks a) k)))"
  proof (rule sum.cong)
    fix k assume k: "k \<in> {0..<prod_list (num_blocks a)}"
    then have "length (gam_find_proc_indices (num_blocks a) k) = length (blk_axes a)"
      using proc_indices_pos [OF ax(5), of k] in_grid_length l by auto
    then show "patch_size (ga_ownsM a k) =
      prod_list (map2 (\<lambda>x i. blk_final x i - blk_first x i + 1) (blk_axes a) (gam_find_proc_indices (num_blocks a) k))"
      using blk_owns [OF assms(1), of k] k t patch_size_blocks by simp
  qed (simp add: t)
  also have "\<dots> = prod_list (dims a)" using sum_grid [OF l ax(5)] blk_prod [OF assms(1)] by simp
  finally show ?thesis .
qed

text \<open>The share of a process along one axis, over the positions of the process grid, makes the whole axis.\<close>

lemma axis_total:
  "blk_valid (b, d) \<Longrightarrow> 0 < s \<Longrightarrow> (\<Sum>i\<in>{0..<s}. axis_share i s (count_blocks d b) b d) = d"
  using sum_strides [of s "\<lambda>j. (if (j + 1) * b > d then d else (j + 1) * b) - (j * b + 1) + 1" "count_blocks d b"]
    blk_sum [of "(b, d)"]
  by (simp add: axis_share_def Let_def blk_count_def blk_final_def blk_first_def blk_extent_def)

lemma tile_total:
  assumes "blocks_ok a" "length (nblock a) = length (dims a)" "grid_ok (nblock a)"
  shows "(\<Sum>me\<in>{0..<prod_list (nblock a)}.
     tile_share (gam_find_proc_indices (nblock a) me) (nblock a) (num_blocks a) (block_dims a) (dims a)) = prod_list (dims a)"
proof -
  let ?F = "\<lambda>(s, b, d) i. axis_share i s (count_blocks d b) b d"
  have b: "length (block_dims a) = length (dims a)" "num_blocks a = map2 count_blocks (dims a) (block_dims a)"
    "list_all blk_valid (zip (block_dims a) (dims a))" using assms(1) by (auto simp: blocks_ok_def)
  have share: "tile_share is ss (map2 count_blocks ds bs) bs ds = prod_list (map2 ?F (zip ss (zip bs ds)) is)"
    if "length ss = length ds" "length bs = length ds" "length is = length ds" for "is" ss bs ds
    using that
  proof (induction ds arbitrary: "is" ss bs)
    case (Cons d ds)
    then obtain i is' s ss' b bs' where "is = i # is'" "ss = s # ss'" "bs = b # bs'" by (metis length_Suc_conv)
    then show ?case using Cons by simp
  qed simp
  have total: "prod_list (map2 (\<lambda>x n. \<Sum>i\<in>{0..<n}. ?F x i) (zip ss (zip bs ds)) ss) = prod_list ds"
    if "length ss = length ds" "length bs = length ds" "grid_ok ss" "list_all blk_valid (zip bs ds)" for ss bs ds
    using that
  proof (induction ds arbitrary: ss bs)
    case (Cons d ds)
    then obtain s ss' b bs' where "ss = s # ss'" "bs = b # bs'" by (metis length_Suc_conv)
    then show ?case using Cons axis_total by simp
  qed simp
  have "(\<Sum>me\<in>{0..<prod_list (nblock a)}.
     tile_share (gam_find_proc_indices (nblock a) me) (nblock a) (num_blocks a) (block_dims a) (dims a)) =
    (\<Sum>me\<in>{0..<prod_list (nblock a)}. prod_list (map2 ?F (zip (nblock a) (zip (block_dims a) (dims a))) (gam_find_proc_indices (nblock a) me)))"
  proof (rule sum.cong [OF refl])
    fix me assume "me \<in> {0..<prod_list (nblock a)}"
    then have "length (gam_find_proc_indices (nblock a) me) = length (dims a)"
      using proc_indices_pos [OF assms(3), of me] in_grid_length assms(2) by auto
    then show "tile_share (gam_find_proc_indices (nblock a) me) (nblock a) (num_blocks a) (block_dims a) (dims a) =
      prod_list (map2 ?F (zip (nblock a) (zip (block_dims a) (dims a))) (gam_find_proc_indices (nblock a) me))"
      unfolding b(2) using share assms(2) b(1) by blast
  qed
  also have "\<dots> = prod_list (map2 (\<lambda>x n. \<Sum>i\<in>{0..<n}. ?F x i) (zip (nblock a) (zip (block_dims a) (dims a))) (nblock a))"
    using assms(2,3) b(1) by (intro sum_grid) auto
  also have "\<dots> = prod_list (dims a)" using total assms(2,3) b(1,3) by blast
  finally show ?thesis .
qed

lemma irreg_axis_total:
  "map_valid (n, d, m) \<Longrightarrow> 0 < s \<Longrightarrow>
   (\<Sum>i\<in>{0..<s}. sum_list (map (\<lambda>j. (if j < n - 1 then m ! nat (j + 1) - 1 else d) - m ! nat j + 1) (stepped i n s))) = d"
proof -
  assume v: "map_valid (n, d, m)" and s: "0 < s"
  have "(\<Sum>j\<in>{0..<n}. (if j < n - 1 then m ! nat (j + 1) - 1 else d) - m ! nat j + 1) =
    (\<Sum>j\<in>{0..<n}. map_final (n, d, m) j - map_first (n, d, m) j + 1)"
    by (rule sum.cong) (auto simp: map_final_def map_first_def)
  then show ?thesis unfolding sum_strides [OF s] using map_sum [OF v] by (simp add: map_count_def map_extent_def)
qed

lemma irreg_total:
  assumes "mapped a (num_blocks a)" "length (nblock a) = length (dims a)" "grid_ok (nblock a)"
  shows "(\<Sum>me\<in>{0..<prod_list (nblock a)}.
     irreg_share (gam_find_proc_indices (nblock a) me) (nblock a) (num_blocks a) (dims a) (the (mapc a))) = prod_list (dims a)"
proof -
  let ?F = "\<lambda>(s, n, d, m) i. sum_list (map (\<lambda>j. (if j < n - 1 then m ! nat (j + 1) - 1 else d) - m ! nat j + 1) (stepped i n s))"
  note ax = mapped_axes [OF assms(1)]
  have share: "irreg_share is ss ns ds m = prod_list (map2 ?F (zip ss (axes_of ns ds m)) is)"
    if "length ss = length ds" "length ns = length ds" "length is = length ds" for "is" ss ns ds m
    using that
  proof (induction ds arbitrary: "is" ss ns m)
    case (Cons d ds)
    then obtain i is' s ss' n ns' where "is = i # is'" "ss = s # ss'" "ns = n # ns'" by (metis length_Suc_conv)
    then show ?case using Cons by simp
  qed (auto split: list.splits)
  have total: "prod_list (map2 (\<lambda>x n. \<Sum>i\<in>{0..<n}. ?F x i) (zip ss (axes_of ns ds m)) ss) = prod_list ds"
    if "length ss = length ds" "length ns = length ds" "grid_ok ss" "list_all map_valid (axes_of ns ds m)" for ss ns ds m
    using that
  proof (induction ds arbitrary: ss ns m)
    case (Cons d ds)
    then obtain s ss' n ns' where "ss = s # ss'" "ns = n # ns'" by (metis length_Suc_conv)
    then show ?case using Cons irreg_axis_total by simp
  qed simp
  have "(\<Sum>me\<in>{0..<prod_list (nblock a)}.
     irreg_share (gam_find_proc_indices (nblock a) me) (nblock a) (num_blocks a) (dims a) (the (mapc a))) =
    (\<Sum>me\<in>{0..<prod_list (nblock a)}. prod_list (map2 ?F (zip (nblock a) (array_axes a (num_blocks a))) (gam_find_proc_indices (nblock a) me)))"
  proof (rule sum.cong [OF refl])
    fix me assume "me \<in> {0..<prod_list (nblock a)}"
    then have "length (gam_find_proc_indices (nblock a) me) = length (dims a)"
      using proc_indices_pos [OF assms(3), of me] in_grid_length assms(2) by auto
    then show "irreg_share (gam_find_proc_indices (nblock a) me) (nblock a) (num_blocks a) (dims a) (the (mapc a)) =
      prod_list (map2 ?F (zip (nblock a) (array_axes a (num_blocks a))) (gam_find_proc_indices (nblock a) me))"
      unfolding array_axes_def using share assms(2) ax(5) by blast
  qed
  also have "\<dots> = prod_list (map2 (\<lambda>x n. \<Sum>i\<in>{0..<n}. ?F x i) (zip (nblock a) (array_axes a (num_blocks a))) (nblock a))"
    using assms(2,3) ax(4) by (intro sum_grid) auto
  also have "\<dots> = prod_list (dims a)" using total assms(2,3) ax(1,5) unfolding array_axes_def by blast
  finally show ?thesis .
qed

end
