(* ===== verification/GA_Tiles.thy ===== *)
theory GA_Tiles
  imports GA_Iterator GA_Storage
begin

text \<open>
  The blocks of a process in a tiled array: the walk through them, first axis fastest, and their places one after
  the other in the memory of the process. The lemmas are proved once for every way to cut an axis into blocks.
\<close>

section \<open>Blocks with a stride\<close>

lemma stepped_Cons: "i < n \<Longrightarrow> 0 < s \<Longrightarrow> stepped i n s = i # stepped (i + s) n s"
  by (subst stepped.simps) simp

lemma stepped_Nil: "n \<le> i \<Longrightarrow> stepped i n s = []"
  by (subst stepped.simps) simp

locale tiling = partition valid extent count find first final
  for valid :: "'a \<Rightarrow> bool" and extent :: "'a \<Rightarrow> int" and count :: "'a \<Rightarrow> int"
    and find :: "'a \<Rightarrow> int \<Rightarrow> int" and first :: "'a \<Rightarrow> int \<Rightarrow> int" and final :: "'a \<Rightarrow> int \<Rightarrow> int" +
  assumes len_nonneg: "valid a \<Longrightarrow> 0 \<le> i \<Longrightarrow> i < count a \<Longrightarrow> first a i \<le> final a i + 1"
begin

text \<open>
  The length of a block; the elements of the process with start \<open>p\<close> and stride \<open>s\<close> before a block and in all, along
  one axis.
\<close>

definition len :: "'a \<Rightarrow> int \<Rightarrow> int" where
  "len a i = final a i - first a i + 1"

definition before :: "'a \<Rightarrow> int \<Rightarrow> int \<Rightarrow> int \<Rightarrow> int" where
  "before a p s i = sum_list (map (len a) (filter (\<lambda>j. j < i) (stepped p (count a) s)))"

definition share :: "'a \<Rightarrow> int \<Rightarrow> int \<Rightarrow> int" where
  "share a p s = sum_list (map (len a) (stepped p (count a) s))"

lemma len_pos: "valid a \<Longrightarrow> 0 \<le> i \<Longrightarrow> i < count a \<Longrightarrow> 0 \<le> len a i"
  using len_nonneg [of a i] by (simp add: len_def)

lemma before_sum:
  assumes "0 < s"
  shows "before a p s i = sum (len a) {j. p \<le> j \<and> j < count a \<and> s dvd j - p \<and> j < i}"
proof -
  have "set (filter (\<lambda>j. j < i) (stepped p (count a) s)) = {j. p \<le> j \<and> j < count a \<and> s dvd j - p \<and> j < i}"
    using set_stepped [OF assms, of p "count a"] by auto
  then show ?thesis
    using set_stepped [OF assms, of p "count a"] by (simp add: before_def sum_list_distinct_conv_sum_set)
qed

lemma before_all: "0 < s \<Longrightarrow> count a \<le> i \<Longrightarrow> before a p s i = share a p s"
proof -
  assume s: "0 < s" and i: "count a \<le> i"
  have "filter (\<lambda>j. j < i) (stepped p (count a) s) = stepped p (count a) s"
    using set_stepped [OF s, of p "count a"] i by (auto intro: filter_True)
  then show ?thesis by (simp add: before_def share_def)
qed

lemma before_start: "0 < s \<Longrightarrow> before a p s p = 0"
proof -
  have "{j. p \<le> j \<and> j < count a \<and> s dvd j - p \<and> j < p} = {}" by auto
  then show "0 < s \<Longrightarrow> before a p s p = 0" unfolding before_sum by (metis before_sum sum.empty)
qed

lemma before_step:
  assumes "0 < s" "p \<le> i" "i < count a" "s dvd i - p"
  shows "before a p s (i + s) = before a p s i + len a i"
proof -
  let ?S = "\<lambda>i. {j. p \<le> j \<and> j < count a \<and> s dvd j - p \<and> j < i}"
  have "p \<le> j \<and> j < count a \<and> s dvd j - p \<and> j < i + s \<longleftrightarrow> j = i \<or> p \<le> j \<and> j < count a \<and> s dvd j - p \<and> j < i" for j
  proof -
    have "j = i" if "i \<le> j" "j < i + s" "s dvd j - p"
    proof -
      have "s dvd j - i" using dvd_diff [OF that(3) assms(4)] by simp
      then have "\<not> 0 < j - i" using that(2) zdvd_imp_le [of s "j - i"] by linarith
      then show ?thesis using that(1) by simp
    qed
    moreover have "i \<le> j \<or> j < i" by linarith
    ultimately show ?thesis using assms by auto
  qed
  then have e: "?S (i + s) = insert i (?S i)" by blast
  have "finite (?S i)" by (rule finite_subset [of _ "{p..<i}"]) auto
  then show ?thesis using assms(1) by (simp add: before_sum e)
qed

lemma before_mono:
  assumes "valid a" "0 < s" "0 \<le> p" "i \<le> i'"
  shows "before a p s i \<le> before a p s i'" "0 \<le> before a p s i"
proof -
  let ?S = "\<lambda>i. {j. p \<le> j \<and> j < count a \<and> s dvd j - p \<and> j < i}"
  have f: "finite (?S i)" for i by (rule finite_subset [of _ "{p..<i}"]) auto
  have "?S i \<subseteq> ?S i'" using assms(4) by auto
  then show "before a p s i \<le> before a p s i'"
    unfolding before_sum [OF assms(2)] using len_pos [OF assms(1)] assms(3) by (intro sum_mono2 [OF f]) auto
  show "0 \<le> before a p s i"
    unfolding before_sum [OF assms(2)] using len_pos [OF assms(1)] assms(3) by (intro sum_nonneg) auto
qed

section \<open>Positions of a process\<close>

text \<open>
  The block at a position belongs to the process with the starts \<open>ps\<close>; the size of the block, and its place in the
  memory of the process.
\<close>

definition on_grid :: "'a list \<Rightarrow> int list \<Rightarrow> int list \<Rightarrow> int list \<Rightarrow> bool" where
  "on_grid as ps ss is \<longleftrightarrow> list_all2 (\<lambda>(a, p, s) i. p \<le> i \<and> i < count a \<and> s dvd i - p) (zip as (zip ps ss)) is"

definition starts_ok :: "'a list \<Rightarrow> int list \<Rightarrow> int list \<Rightarrow> bool" where
  "starts_ok as ps ss \<longleftrightarrow> length ps = length as \<and> length ss = length as \<and> list_all valid as \<and>
     list_all (\<lambda>(a, p, s). 0 < s \<and> 0 \<le> p \<and> p < count a) (zip as (zip ps ss))"

definition bsize :: "'a list \<Rightarrow> int list \<Rightarrow> int" where
  "bsize as is = prod_list (map2 len as is)"

fun toff :: "'a list \<Rightarrow> int list \<Rightarrow> int list \<Rightarrow> int list \<Rightarrow> int" where
  "toff (a # as) (p # ps) (s # ss) (i # is) = share a p s * toff as ps ss is + before a p s i * bsize as is"
| "toff _ _ _ _ = 0"

text \<open>The positions from \<open>is\<close> on, first axis fastest.\<close>

fun tiles_from :: "'a list \<Rightarrow> int list \<Rightarrow> int list \<Rightarrow> int list \<Rightarrow> int list list" where
  "tiles_from (a # as) (p # ps) (s # ss) (i # is) =
     (case tiles_from as ps ss is of [] \<Rightarrow> []
      | y # ys \<Rightarrow> map (\<lambda>x. x # y) (stepped i (count a) s) @ concat (map (\<lambda>y. map (\<lambda>x. x # y) (stepped p (count a) s)) ys))"
| "tiles_from _ _ _ _ = [[]]"

lemma on_grid_Cons [simp]:
  "on_grid (a # as) (p # ps) (s # ss) (i # is) \<longleftrightarrow> p \<le> i \<and> i < count a \<and> s dvd i - p \<and> on_grid as ps ss is"
  by (simp add: on_grid_def)

lemma starts_ok_Cons [simp]:
  "starts_ok (a # as) (p # ps) (s # ss) \<longleftrightarrow> valid a \<and> 0 < s \<and> 0 \<le> p \<and> p < count a \<and> starts_ok as ps ss"
  by (auto simp: starts_ok_def)

lemma bsize_simps [simp]: "bsize [] is = 1" "bsize (a # as) (i # is) = len a i * bsize as is"
  by (simp_all add: bsize_def)

lemma starts_cases:
  assumes "starts_ok (a # as) ps ss"
  obtains p ps' s ss' where "ps = p # ps'" "ss = s # ss'"
proof -
  have "length ps = Suc (length as)" "length ss = Suc (length as)" using assms by (auto simp: starts_ok_def)
  then show thesis using that by (metis length_Suc_conv)
qed

lemma on_grid_length: "starts_ok as ps ss \<Longrightarrow> on_grid as ps ss is \<Longrightarrow> length is = length as"
  by (auto simp: on_grid_def starts_ok_def dest!: list_all2_lengthD)

lemma on_grid_cases:
  assumes "starts_ok (a # as) ps ss" "on_grid (a # as) ps ss is"
  obtains i is' where "is = i # is'"
  using on_grid_length [OF assms] that by (cases "is") auto

lemma tiles_head:
  "starts_ok as ps ss \<Longrightarrow> on_grid as ps ss is \<Longrightarrow> as \<noteq> [] \<Longrightarrow>
   tiles_from as ps ss is = is # tiles_from as ps ss (is[0 := hd is + hd ss])"
proof (induction as arbitrary: ps ss "is")
  case (Cons a as)
  obtain p ps' s ss' where ps: "ps = p # ps'" "ss = s # ss'" using starts_cases [OF Cons.prems(1)] by blast
  obtain i is' where i: "is = i # is'" using on_grid_cases [OF Cons.prems(1,2)] by blast
  have ok: "starts_ok as ps' ss'" "on_grid as ps' ss' is'" "0 < s" "i < count a" using Cons.prems ps i by auto
  have "\<exists>ys. tiles_from as ps' ss' is' = is' # ys"
  proof (cases "as = []")
    case True
    then show ?thesis using ok on_grid_length [of as ps' ss' is'] by auto
  qed (use Cons.IH [OF ok(1,2)] in blast)
  then show ?case using ps i ok stepped_Cons by auto
qed simp

lemma carry_id:
  "starts_ok as ps ss \<Longrightarrow> on_grid as ps ss is \<Longrightarrow> carry_index is ps (map count as) ss = is"
proof (induction as arbitrary: ps ss "is")
  case Nil
  then show ?case by (auto simp: starts_ok_def on_grid_def)
next
  case (Cons a as)
  obtain p ps' s ss' where ps: "ps = p # ps'" "ss = s # ss'" using starts_cases [OF Cons.prems(1)] by blast
  obtain i is' where i: "is = i # is'" using on_grid_cases [OF Cons.prems(1,2)] by blast
  have ok: "starts_ok as ps' ss'" "on_grid as ps' ss' is'" "i < count a" using Cons.prems ps i by auto
  have "length is' = length as" "length ss' = length as" using on_grid_length [OF ok(1,2)] ok(1) by (simp_all add: starts_ok_def)
  then show ?case using Cons.IH [OF ok(1,2)] ps i ok(3) by (cases is'; cases ss') auto
qed

text \<open>
  A position whose first index may have run over: carrying keeps the place and the rest of the walk, and gives a
  position of the process unless the last axis has run over, at the end of the walk.
\<close>

lemma carry_spec:
  assumes "starts_ok (a # as) (p # ps) (s # ss)" "p \<le> i" "s dvd i - p" "on_grid as ps ss is"
  defines "idx \<equiv> carry_index (i # is) (p # ps) (map count (a # as)) (s # ss)"
  shows "length idx = Suc (length as) \<and>
    toff (a # as) (p # ps) (s # ss) idx = toff (a # as) (p # ps) (s # ss) (i # is) \<and>
    tiles_from (a # as) (p # ps) (s # ss) idx = tiles_from (a # as) (p # ps) (s # ss) (i # is) \<and>
    (if last idx \<ge> count (last (a # as)) then tiles_from (a # as) (p # ps) (s # ss) idx = []
     else on_grid (a # as) (p # ps) (s # ss) idx)"
  using assms(1-4) unfolding idx_def
proof (induction as arbitrary: a p ps s ss i "is")
  case Nil
  then have "ps = []" "ss = []" "is = []" by (auto simp: starts_ok_def on_grid_def)
  then show ?case using Nil by (auto simp: stepped_Nil)
next
  case (Cons b as)
  have ok: "starts_ok (b # as) ps ss" "0 < s" "p < count a" "valid a" "0 \<le> p" using Cons.prems(1) by auto
  obtain q ps' t ss' where ps: "ps = q # ps'" "ss = t # ss'" using starts_cases [OF ok(1)] by blast
  obtain j is' where j: "is = j # is'" using on_grid_cases [OF ok(1) Cons.prems(4)] by blast
  have g: "q \<le> j" "j < count b" "t dvd j - q" "on_grid as ps' ss' is'" "starts_ok as ps' ss'" "0 < t"
    using Cons.prems(4) ok(1) ps j by auto
  show ?case
  proof (cases "i \<ge> count a")
    case False
    have e: "carry_index (i # is) (p # ps) (map count (a # b # as)) (s # ss) = i # is"
      using carry_id [OF ok(1) Cons.prems(4)] False ps j by simp
    have "on_grid (a # b # as) (p # ps) (s # ss) (i # is)" using False Cons.prems by simp
    moreover have "last (i # is) < count (last (a # b # as))"
    proof -
      have "on_grid as ps ss is \<Longrightarrow> starts_ok as ps ss \<Longrightarrow> as \<noteq> [] \<Longrightarrow> last is < count (last as)" for as ps ss "is"
      proof (induction as arbitrary: ps ss "is")
        case (Cons a as)
        obtain p ps' s ss' where ps: "ps = p # ps'" "ss = s # ss'" using starts_cases [OF Cons.prems(2)] by blast
        obtain i is' where i: "is = i # is'" using on_grid_cases [OF Cons.prems(2,1)] by blast
        show ?case using Cons ps i on_grid_length [of as ps' ss' is'] by (cases "as = []") auto
      qed simp
      from this [OF Cons.prems(4) ok(1)] show ?thesis using j by simp
    qed
    moreover have "length is = Suc (length as)" using on_grid_length [OF ok(1) Cons.prems(4)] by simp
    ultimately show ?thesis unfolding e by simp
  next
    case True
    let ?t = "carry_index ((j + t) # is') ps (map count (b # as)) ss"
    have e: "carry_index (i # is) (p # ps) (map count (a # b # as)) (s # ss) = p # ?t"
      using True ps j by simp
    have IH: "length ?t = Suc (length as) \<and> toff (b # as) ps ss ?t = toff (b # as) ps ss ((j + t) # is') \<and>
      tiles_from (b # as) ps ss ?t = tiles_from (b # as) ps ss ((j + t) # is') \<and>
      (if last ?t \<ge> count (last (b # as)) then tiles_from (b # as) ps ss ?t = [] else on_grid (b # as) ps ss ?t)"
    proof -
      have "t dvd (j - q) + t" using g(3) by simp
      then have "t dvd j + t - q" by (simp add: algebra_simps)
      moreover have "q \<le> j + t" using g by simp
      ultimately show ?thesis unfolding ps using Cons.IH [OF ok(1) [unfolded ps] _ _ g(4)] by blast
    qed
    have h: "tiles_from (b # as) ps ss is = is # tiles_from (b # as) ps ss ((j + t) # is')"
      using tiles_head [OF ok(1) Cons.prems(4)] ps j by simp
    have "toff (b # as) ps ss ((j + t) # is') = toff (b # as) ps ss is + bsize (b # as) is"
      using ps j g before_step [OF g(6,1,2,3)] by (simp add: algebra_simps)
    then have "toff (a # b # as) (p # ps) (s # ss) (p # ?t) = toff (a # b # as) (p # ps) (s # ss) (i # is)"
      using IH before_all [OF ok(2) True] before_start [OF ok(2)] by (simp add: algebra_simps)
    moreover have "tiles_from (a # b # as) (p # ps) (s # ss) (p # ?t) = tiles_from (a # b # as) (p # ps) (s # ss) (i # is)"
      using IH h stepped_Nil [OF True] by (simp split: list.splits)
    moreover have "last (p # ?t) = last ?t" using IH by auto
    ultimately show ?thesis unfolding e using IH ok by auto
  qed
qed

lemma next_pos:
  assumes "starts_ok as ps ss" "on_grid as ps ss is" "as \<noteq> []"
  defines "idx \<equiv> carry_index (is[0 := is ! 0 + ss ! 0]) ps (map count as) ss"
  shows "length idx = length as \<and> toff as ps ss idx = toff as ps ss is + bsize as is \<and>
    tiles_from as ps ss is = is # tiles_from as ps ss idx \<and>
    (if last idx \<ge> count (last as) then tiles_from as ps ss idx = [] else on_grid as ps ss idx)"
proof -
  obtain a as' where as: "as = a # as'" using assms(3) by (cases as) auto
  obtain p ps' s ss' where ps: "ps = p # ps'" "ss = s # ss'" using starts_cases assms(1) as by blast
  obtain i is' where i: "is = i # is'" using on_grid_cases assms(1,2) as by blast
  have g: "p \<le> i" "i < count a" "s dvd i - p" "on_grid as' ps' ss' is'" "0 < s" using assms(1,2) as ps i by auto
  have "s dvd (i - p) + s" using g(3) by simp
  then have d: "s dvd i + s - p" "p \<le> i + s" using g by (simp_all add: algebra_simps)
  have t: "tiles_from as ps ss is = is # tiles_from as ps ss ((i + s) # is')"
    using tiles_head [OF assms(1-3)] ps i by simp
  have o: "toff as ps ss ((i + s) # is') = toff as ps ss is + bsize as is"
    using as ps i before_step [OF g(5,1,2,3)] by (simp add: algebra_simps)
  have e: "idx = carry_index ((i + s) # is') (p # ps') (map count (a # as')) (s # ss')"
    unfolding idx_def using as ps i by simp
  have c: "length idx = Suc (length as')" "toff as ps ss idx = toff as ps ss ((i + s) # is')"
    "tiles_from as ps ss idx = tiles_from as ps ss ((i + s) # is')"
    "if last idx \<ge> count (last as) then tiles_from as ps ss idx = [] else on_grid as ps ss idx"
    using carry_spec [OF assms(1) [unfolded as ps] d(2,1) g(4)] unfolding as ps e by blast+
  show ?thesis using c(4) unfolding t o [symmetric] c(2,3) by (simp add: c(1) as)
qed

text \<open>From its start the walk goes through every block of the process once.\<close>

lemma tiles_all:
  "starts_ok as ps ss \<Longrightarrow> set (tiles_from as ps ss ps) = {is. on_grid as ps ss is} \<and> distinct (tiles_from as ps ss ps)"
proof (induction as arbitrary: ps ss)
  case Nil
  then show ?case by (auto simp: on_grid_def starts_ok_def)
next
  case (Cons a as)
  obtain p ps' s ss' where ps: "ps = p # ps'" "ss = s # ss'" using starts_cases [OF Cons.prems(1)] by blast
  have ok: "starts_ok as ps' ss'" "0 < s" "p < count a" using Cons.prems ps by auto
  let ?T = "tiles_from as ps' ss' ps'" let ?S = "stepped p (count a) s"
  have e: "tiles_from (a # as) ps ss ps = concat (map (\<lambda>y. map (\<lambda>x. x # y) ?S) ?T)"
    using ps by (auto split: list.splits)
  note S = set_stepped [OF ok(2), of p "count a"] and T = Cons.IH [OF ok(1)]
  have "is \<in> set (tiles_from (a # as) ps ss ps) \<longleftrightarrow> on_grid (a # as) ps ss is" for "is"
  proof (cases "is")
    case Nil
    then show ?thesis unfolding e by (auto simp: on_grid_def ps)
  next
    case (Cons i is')
    have "is \<in> set (tiles_from (a # as) ps ss ps) \<longleftrightarrow> i \<in> set ?S \<and> is' \<in> set ?T" unfolding e Cons by auto
    then show ?thesis using S T ps Cons by auto
  qed
  moreover have "distinct (tiles_from (a # as) ps ss ps)"
    unfolding e using S T ok(3) by (intro distinct_concat) (auto simp: distinct_map inj_on_def dest: spec [of _ p])
  ultimately show ?case by blast
qed

section \<open>Places in memory\<close>

definition pshare :: "'a list \<Rightarrow> int list \<Rightarrow> int list \<Rightarrow> int" where
  "pshare as ps ss = prod_list (map (\<lambda>(a, p, s). share a p s) (zip as (zip ps ss)))"

lemma axis_inside:
  assumes "valid a" "0 < s" "0 \<le> p" "p \<le> i" "i < count a" "s dvd i - p"
  shows "0 \<le> before a p s i" "before a p s i + len a i \<le> share a p s" "0 \<le> len a i" "0 \<le> share a p s"
proof -
  show b: "0 \<le> before a p s i" "0 \<le> len a i" using before_mono(2) [OF assms(1-3)] len_pos assms by auto
  have "before a p s (i + s) \<le> before a p s (max (count a) (i + s))" using before_mono(1) [OF assms(1-3)] by simp
  also have "\<dots> = share a p s" using before_all [OF assms(2)] by simp
  finally show "before a p s i + len a i \<le> share a p s" using before_step [OF assms(2,4-6)] by simp
  then show "0 \<le> share a p s" using b by simp
qed

lemma before_apart:
  assumes "valid a" "0 < s" "0 \<le> p" "k < l" "p \<le> k" "k < count a" "s dvd k - p" "s dvd l - p"
  shows "before a p s k + len a k \<le> before a p s l"
proof -
  have "s dvd l - k" using dvd_diff [OF assms(8,7)] by simp
  then have "s \<le> l - k" using assms(4) zdvd_imp_le [of s "l - k"] by simp
  then show ?thesis using before_step [OF assms(2,5-7)] before_mono(1) [OF assms(1-3), of "k + s" l] by simp
qed

lemma bsize_nonneg: "starts_ok as ps ss \<Longrightarrow> on_grid as ps ss is \<Longrightarrow> 0 \<le> bsize as is"
proof (induction as arbitrary: ps ss "is")
  case (Cons a as)
  obtain p ps' s ss' where ps: "ps = p # ps'" "ss = s # ss'" using starts_cases [OF Cons.prems(1)] by blast
  obtain i is' where i: "is = i # is'" using on_grid_cases [OF Cons.prems(1,2)] by blast
  show ?case using Cons ps i axis_inside(3) [of a s p i] by auto
qed simp

lemma toff_bound:
  "starts_ok as ps ss \<Longrightarrow> on_grid as ps ss is \<Longrightarrow> 0 \<le> toff as ps ss is \<and> toff as ps ss is + bsize as is \<le> pshare as ps ss"
proof (induction as arbitrary: ps ss "is")
  case Nil
  then show ?case by (simp add: pshare_def)
next
  case (Cons a as)
  obtain p ps' s ss' where ps: "ps = p # ps'" "ss = s # ss'" using starts_cases [OF Cons.prems(1)] by blast
  obtain i is' where i: "is = i # is'" using on_grid_cases [OF Cons.prems(1,2)] by blast
  have ok: "starts_ok as ps' ss'" "on_grid as ps' ss' is'" using Cons.prems ps i by auto
  have x: "0 \<le> before a p s i" "before a p s i + len a i \<le> share a p s" "0 \<le> share a p s"
    using axis_inside [of a s p i] Cons.prems ps i by auto
  note IH = Cons.IH [OF ok] and b = bsize_nonneg [OF ok]
  have "(before a p s i + len a i) * bsize as is' \<le> share a p s * bsize as is'" using x b by (intro mult_right_mono) auto
  moreover have "share a p s * (toff as ps' ss' is' + bsize as is') \<le> share a p s * pshare as ps' ss'"
    using x IH by (intro mult_left_mono) auto
  moreover have "0 \<le> share a p s * toff as ps' ss' is'" "0 \<le> before a p s i * bsize as is'" using x IH b by simp_all
  ultimately show ?case using ps i by (simp add: pshare_def algebra_simps)
qed

text \<open>Two blocks of a process do not overlap.\<close>

lemma toff_apart:
  "starts_ok as ps ss \<Longrightarrow> on_grid as ps ss is \<Longrightarrow> on_grid as ps ss is' \<Longrightarrow> is \<noteq> is' \<Longrightarrow>
   toff as ps ss is + bsize as is \<le> toff as ps ss is' \<or> toff as ps ss is' + bsize as is' \<le> toff as ps ss is"
proof (induction as arbitrary: ps ss "is" is')
  case Nil
  then show ?case by (auto simp: on_grid_def)
next
  case (Cons a as)
  obtain p ps' s ss' where ps: "ps = p # ps'" "ss = s # ss'" using starts_cases [OF Cons.prems(1)] by blast
  obtain i u where i: "is = i # u" using on_grid_cases [OF Cons.prems(1,2)] by blast
  obtain j v where j: "is' = j # v" using on_grid_cases [OF Cons.prems(1,3)] by blast
  have ok: "starts_ok as ps' ss'" "on_grid as ps' ss' u" "on_grid as ps' ss' v" "valid a" "0 < s" "0 \<le> p"
    using Cons.prems ps i j by auto
  have x: "before a p s i + len a i \<le> share a p s" "0 \<le> share a p s" "0 \<le> before a p s i"
    and y: "before a p s j + len a j \<le> share a p s" "0 \<le> before a p s j"
    using axis_inside [of a s p i] axis_inside [of a s p j] Cons.prems ps i j by auto
  have far: "share a p s * toff as ps' ss' u + before a p s k * bsize as u + len a k * bsize as u \<le>
      share a p s * toff as ps' ss' v + before a p s l * bsize as v"
    if "toff as ps' ss' u + bsize as u \<le> toff as ps' ss' v" "before a p s k + len a k \<le> share a p s" "0 \<le> bsize as u"
      "0 \<le> bsize as v" "0 \<le> before a p s l" for u v k l
  proof -
    have "(before a p s k + len a k) * bsize as u \<le> share a p s * bsize as u" using that by (intro mult_right_mono) auto
    moreover have "share a p s * (toff as ps' ss' u + bsize as u) \<le> share a p s * toff as ps' ss' v"
      using that x(2) by (intro mult_left_mono) auto
    moreover have "0 \<le> before a p s l * bsize as v" using that by simp
    ultimately show ?thesis by (simp add: algebra_simps)
  qed
  note b = bsize_nonneg [OF ok(1,2)] bsize_nonneg [OF ok(1,3)]
  show ?case
  proof (cases "u = v")
    case False
    then have "toff as ps' ss' u + bsize as u \<le> toff as ps' ss' v \<or> toff as ps' ss' v + bsize as v \<le> toff as ps' ss' u"
      using Cons.IH [OF ok(1-3)] by blast
    then show ?thesis using far [of u v i j] far [of v u j i] b x y unfolding ps i j by (auto simp: algebra_simps)
  next
    case True
    have "before a p s i + len a i \<le> before a p s j \<or> before a p s j + len a j \<le> before a p s i"
      using before_apart [OF ok(4-6), of i j] before_apart [OF ok(4-6), of j i] Cons.prems ps i j True by (cases "i < j") auto
    then have "(before a p s i + len a i) * bsize as v \<le> before a p s j * bsize as v \<or>
      (before a p s j + len a j) * bsize as v \<le> before a p s i * bsize as v"
      using b(2) by (auto intro: mult_right_mono)
    then show ?thesis using True unfolding ps i j by (simp add: algebra_simps)
  qed
qed

section \<open>Processes\<close>

lemma on_grid_iff:
  "length ss = length as \<Longrightarrow> length ps = length as \<Longrightarrow> grid_ok ss \<Longrightarrow> in_grid ss ps \<Longrightarrow>
   on_grid as ps ss is \<longleftrightarrow> in_grid (map count as) is \<and> map2 (\<lambda>i s. i mod s) is ss = ps"
proof (induction as arbitrary: ps ss "is")
  case Nil
  then show ?case by (auto simp: on_grid_def)
next
  case (Cons a as)
  then obtain s ss' p ps' where l: "ss = s # ss'" "ps = p # ps'" by (metis length_Suc_conv)
  show ?case
  proof (cases "is")
    case Nil
    then show ?thesis using l by (simp add: on_grid_def in_grid_def)
  next
    case (Cons i is')
    have s: "0 < s" "0 \<le> p" "p < s" using Cons.prems l by auto
    have "p \<le> i \<and> s dvd i - p \<longleftrightarrow> 0 \<le> i \<and> i mod s = p"
    proof
      assume "p \<le> i \<and> s dvd i - p"
      then show "0 \<le> i \<and> i mod s = p" using s mod_eq_dvd_iff [of i s p] by auto
    next
      assume a: "0 \<le> i \<and> i mod s = p"
      then show "p \<le> i \<and> s dvd i - p" using s zmod_le_nonneg_dividend [of i s] by (metis dvd_minus_mod)
    qed
    then show ?thesis using Cons.IH [of ss' ps' is'] Cons.prems l Cons by auto
  qed
qed

end

end
