(* ===== verification/GA_Walk.thy ===== *)
theory GA_Walk
  imports GA_Tiles
begin

text \<open>
  What a client of an iterator relies on, as an interface: the calls go through a list of positions and return a
  block for those that hold data of the patch. The iterator over tiled arrays provides it.
\<close>

section \<open>The contract of an iterator\<close>

text \<open>The calls of a client, until there is no block: the blocks and the handle at the end.\<close>

inductive walks :: "('h \<Rightarrow> (ga_error + ('h \<times> 'b option)) option) \<Rightarrow> 'h \<Rightarrow> 'b list \<Rightarrow> 'h \<Rightarrow> bool" for nxt where
  stop: "nxt h = Some (Inr (h', None)) \<Longrightarrow> walks nxt h [] h'"
| more: "nxt h = Some (Inr (h', Some b)) \<Longrightarrow> walks nxt h' bs h'' \<Longrightarrow> walks nxt h (b # bs) h''"

inductive_simps walks_Nil: "walks nxt h [] h'"
  and walks_Cons: "walks nxt h (b # bs) h'"

locale block_walk =
  fixes nxt :: "'h \<Rightarrow> (ga_error + ('h \<times> 'b option)) option" and all :: "'h \<Rightarrow> (ga_error + 'b list) option"
    and sits :: "'x list \<Rightarrow> 'h \<Rightarrow> bool" and hit :: "'x \<Rightarrow> bool" and blk :: "'x \<Rightarrow> 'b"
  assumes all_unfold: "all h = Option.bind (nxt h) (\<lambda>r. case r of Inl e \<Rightarrow> Some (Inl e)
       | Inr (h', None) \<Rightarrow> Some (Inr [])
       | Inr (h', Some b) \<Rightarrow> Option.bind (all h') (\<lambda>r. Some (case r of Inl e \<Rightarrow> Inl e | Inr bs \<Rightarrow> Inr (b # bs))))"
    and at_end: "sits [] h \<Longrightarrow> nxt h = Some (Inr (h, None))"
    and at_hit: "sits (x # xs) h \<Longrightarrow> hit x \<Longrightarrow> \<exists>h'. nxt h = Some (Inr (h', Some (blk x))) \<and> sits xs h'"
    and at_miss: "sits (x # xs) h \<Longrightarrow> \<not> hit x \<Longrightarrow> \<exists>h'. nxt h = nxt h' \<and> sits xs h'"
begin

text \<open>The loop of the client ends, after exactly the blocks with data.\<close>

lemma all_blocks: "sits xs h \<Longrightarrow> all h = Some (Inr (map blk (filter hit xs)))"
proof (induction xs arbitrary: h)
  case Nil
  then have "nxt h = Some (Inr (h, None))" by (rule at_end)
  then show ?case by (subst all_unfold) simp
next
  case (Cons x xs)
  show ?case
  proof (cases "hit x")
    case True
    then obtain h' where "nxt h = Some (Inr (h', Some (blk x)))" "sits xs h'" using at_hit Cons.prems by blast
    then show ?thesis using Cons.IH True by (subst all_unfold) simp
  next
    case False
    then obtain h' where h: "nxt h = nxt h'" "sits xs h'" using at_miss Cons.prems by blast
    have "all h = all h'" unfolding all_unfold [of h] all_unfold [of h'] h(1) ..
    then show ?thesis using Cons.IH [OF h(2)] False by simp
  qed
qed

lemma walk_blocks: "sits xs h \<Longrightarrow> \<exists>h'. walks nxt h (map blk (filter hit xs)) h' \<and> sits [] h'"
proof (induction xs arbitrary: h)
  case Nil
  then show ?case using at_end [OF Nil] by (auto simp: walks_Nil)
next
  case (Cons x xs)
  show ?case
  proof (cases "hit x")
    case True
    then obtain h' where "nxt h = Some (Inr (h', Some (blk x)))" "sits xs h'" using at_hit Cons.prems by blast
    then show ?thesis using Cons.IH [of h'] True by (auto simp: walks_Cons)
  next
    case False
    then obtain h' where h: "nxt h = nxt h'" "sits xs h'" using at_miss Cons.prems by blast
    then obtain h'' where w: "walks nxt h' (map blk (filter hit xs)) h''" "sits [] h''" using Cons.IH by blast
    have "walks nxt h bs h'' \<longleftrightarrow> walks nxt h' bs h''" for bs by (cases bs) (simp_all add: walks_Nil walks_Cons h(1))
    then show ?thesis using w False by auto
  qed
qed

end

section \<open>The walk through a tiled array\<close>

text \<open>What the handle of a tiled or ScaLAPACK array keeps from the start.\<close>

definition hdl_for :: "global_array_t \<Rightarrow> iterator_hdl \<Rightarrow> bool" where
  "hdl_for a h \<longleftrightarrow> (distr_type a \<noteq> TILED_IRREG \<longrightarrow> blk_size h = block_dims a) \<and>
     (distr_type a = SCALAPACK \<longrightarrow>
        blk_dim h = map2 (*) (block_dims a) (nblock a) \<and>
        blk_inc h = map (\<lambda>(d, n, l). d - n * l) (zip (dims a) (zip (map2 cdiv (dims a) (blk_dim h)) (blk_dim h))) \<and>
        blk_ld h = map2 (*) (map2 cdiv (dims a) (blk_dim h)) (block_dims a) \<and>
        hlf_blk h = map2 cdiv (blk_inc h) (block_dims a))"

definition proc_starts :: "global_array_t \<Rightarrow> int \<Rightarrow> int list" where
  "proc_starts a p = gam_find_proc_indices (nblock a) p"

context tiling
begin

definition blk_at :: "'a list \<Rightarrow> int list \<Rightarrow> int list \<times> int list" where
  "blk_at as is = (map2 first as is, map2 final as is)"

definition tiled_by :: "global_array_t \<Rightarrow> 'a list \<Rightarrow> bool" where
  "tiled_by a as \<longleftrightarrow> as \<noteq> [] \<and> list_all valid as \<and> map count as = num_blocks a \<and> map extent as = dims a \<and>
     length (nblock a) = length as \<and> grid_ok (nblock a) \<and> list_all2 (\<le>) (nblock a) (num_blocks a) \<and>
     (distr_type a = SCALAPACK \<or> distr_type a = TILED \<or> distr_type a = TILED_IRREG) \<and> p_handle a = -1 \<and> num_rstrctd a = 0 \<and>
     (distr_type a = SCALAPACK \<longrightarrow> length (block_dims a) = length (dims a)) \<and>
     (\<forall>h. hdl_for a h \<longrightarrow> in_grid (num_blocks a) (it_index h) \<longrightarrow> tile_bounds a h = blk_at as (it_index h))"

definition later :: "global_array_t \<Rightarrow> 'a list \<Rightarrow> int \<Rightarrow> int \<Rightarrow> (int \<times> int list) list" where
  "later a as n p = concat (map (\<lambda>q. map (Pair q) (tiles_from as (proc_starts a q) (nblock a) (proc_starts a q))) [p..n - 1])"

definition sits :: "ga_state \<Rightarrow> int \<Rightarrow> 'a list \<Rightarrow> int list \<Rightarrow> int list \<Rightarrow> (int \<times> int list) list \<Rightarrow> iterator_hdl \<Rightarrow> bool" where
  "sits st g_a as lo hi xs h \<longleftrightarrow>
     (let a = ga st g_a; ps = proc_starts a (iproc h) in
      tiled_by a as \<and> prod_list (nblock a) = GAnproc st \<and> it_g_a h = g_a \<and> it_lo h = lo \<and> it_hi h = hi \<and>
      hdl_for a h \<and> 0 \<le> iproc h \<and>
      (if iproc h < GAnproc st
       then proc_index h = ps \<and> on_grid as ps (nblock a) (it_index h) \<and> it_offset h = toff as ps (nblock a) (it_index h) \<and>
         xs = map (Pair (iproc h)) (tiles_from as ps (nblock a) (it_index h)) @ later a as (GAnproc st) (iproc h + 1)
       else xs = []))"

definition tile_hit :: "'a list \<Rightarrow> int list \<Rightarrow> int list \<Rightarrow> int \<times> int list \<Rightarrow> bool" where
  "tile_hit as lo hi x = it_overlap lo hi (blk_at as (snd x))"

definition tile_piece :: "global_array_t \<Rightarrow> 'a list \<Rightarrow> int list \<Rightarrow> int list \<Rightarrow> int \<times> int list \<Rightarrow> it_block" where
  "tile_piece a as lo hi x =
     (let b = blk_at as (snd x); ps = proc_starts a (fst x);
          c = gam_GetBlockPatch b lo hi;
          ld = (if distr_type a = SCALAPACK then sl_ld ps (nblock a) (block_dims a) (dims a) else block_strides b);
          off = (if distr_type a = SCALAPACK
                 then sl_offset (fst c) (fst b) (map2 (*) (block_dims a) (nblock a)) (block_dims a) ld 1
                 else block_offset (fst c) (fst b) (snd b) 1 + toff as ps (nblock a) (snd x))
      in \<lparr>ib_proc = fst x, ib_lo = fst c, ib_hi = snd c, ib_ptr = ptr a ! nat (fst x) + off * elemsize a, ib_ld = ld\<rparr>)"

lemma tiled_starts:
  assumes "tiled_by a as" "0 \<le> p" "p < prod_list (nblock a)"
  shows "starts_ok as (proc_starts a p) (nblock a)" "in_grid (nblock a) (proc_starts a p)"
proof -
  have t: "length (nblock a) = length as" "grid_ok (nblock a)" "list_all2 (\<le>) (nblock a) (map count as)" "list_all valid as"
    using assms(1) by (auto simp: tiled_by_def)
  show g: "in_grid (nblock a) (proc_starts a p)" using proc_indices_pos [OF t(2) assms(2,3)] by (simp add: proc_starts_def)
  have "length ss = length as \<Longrightarrow> grid_ok ss \<Longrightarrow> list_all2 (\<le>) ss (map count as) \<Longrightarrow> in_grid ss ps \<Longrightarrow> list_all valid as \<Longrightarrow>
    starts_ok as ps ss" for ss ps as
  proof (induction as arbitrary: ps ss)
    case (Cons a as)
    then obtain s ss' where s: "ss = s # ss'" by (cases ss) auto
    obtain p ps' where p: "ps = p # ps'" using Cons.prems(4) s by (cases ps) auto
    show ?case using Cons s p by auto
  qed (auto simp: starts_ok_def in_grid_def)
  then show "starts_ok as (proc_starts a p) (nblock a)" using t g by blast
qed

lemma on_grid_in: "starts_ok as ps ss \<Longrightarrow> on_grid as ps ss is \<Longrightarrow> in_grid (map count as) is"
proof (induction as arbitrary: ps ss "is")
  case Nil
  then show ?case by (auto simp: on_grid_def)
next
  case (Cons a as)
  obtain p ps' s ss' where ps: "ps = p # ps'" "ss = s # ss'" using starts_cases [OF Cons.prems(1)] by blast
  obtain i is' where i: "is = i # is'" using on_grid_cases [OF Cons.prems(1,2)] by blast
  show ?case using Cons ps i by auto
qed

lemma bsize_patch: "length is = length as \<Longrightarrow> patch_size (blk_at as is) = bsize as is"
proof (induction as arbitrary: "is")
  case (Cons a as)
  then obtain i is' where "is = i # is'" by (cases "is") auto
  then show ?case using Cons by (auto simp: patch_size_def blk_at_def len_def)
qed (simp add: patch_size_def blk_at_def)

lemma start_pos: "starts_ok as ps ss \<Longrightarrow> on_grid as ps ss ps \<and> toff as ps ss ps = 0"
proof (induction as arbitrary: ps ss)
  case Nil
  then show ?case by (auto simp: starts_ok_def on_grid_def)
next
  case (Cons a as)
  obtain p ps' s ss' where ps: "ps = p # ps'" "ss = s # ss'" using starts_cases [OF Cons.prems(1)] by blast
  show ?case using Cons ps before_start [of s a p] by auto
qed

lemma later_Cons:
  "p < n \<Longrightarrow> later a as n p =
   map (Pair p) (tiles_from as (proc_starts a p) (nblock a) (proc_starts a p)) @ later a as n (p + 1)"
  by (simp add: later_def upto_rec1)

lemma later_Nil: "n \<le> p \<Longrightarrow> later a as n p = []"
  by (simp add: later_def)

text \<open>A handle that sits at a position; the move to the next one.\<close>

lemma sits_Cons:
  assumes "sits st g_a as lo hi (x # xs) h"
  shows "x = (iproc h, it_index h)" "0 \<le> iproc h" "iproc h < GAnproc st" "hdl_for (ga st g_a) h" "tiled_by (ga st g_a) as"
    "starts_ok as (proc_starts (ga st g_a) (iproc h)) (nblock (ga st g_a))"
    "on_grid as (proc_starts (ga st g_a) (iproc h)) (nblock (ga st g_a)) (it_index h)"
    "tile_bounds (ga st g_a) h = blk_at as (it_index h)" "length (it_index h) = length as"
proof -
  let ?a = "ga st g_a" let ?ps = "proc_starts ?a (iproc h)"
  have h: "tiled_by ?a as" "prod_list (nblock ?a) = GAnproc st" "0 \<le> iproc h" "hdl_for ?a h"
    "if iproc h < GAnproc st
       then proc_index h = ?ps \<and> on_grid as ?ps (nblock ?a) (it_index h) \<and> it_offset h = toff as ?ps (nblock ?a) (it_index h) \<and>
         x # xs = map (Pair (iproc h)) (tiles_from as ?ps (nblock ?a) (it_index h)) @ later ?a as (GAnproc st) (iproc h + 1)
       else x # xs = []"
    using assms unfolding sits_def Let_def by blast+
  then have p: "iproc h < GAnproc st" and on: "on_grid as ?ps (nblock ?a) (it_index h)"
    and e: "x # xs = map (Pair (iproc h)) (tiles_from as ?ps (nblock ?a) (it_index h)) @ later ?a as (GAnproc st) (iproc h + 1)"
    by (auto split: if_splits)
  show s: "starts_ok as ?ps (nblock ?a)" using tiled_starts [OF h(1,3)] p h(2) by simp
  have "as \<noteq> []" "map count as = num_blocks ?a" using h(1) by (auto simp: tiled_by_def)
  then show "x = (iproc h, it_index h)" using e unfolding tiles_head [OF s on \<open>as \<noteq> []\<close>] by simp
  show "tile_bounds ?a h = blk_at as (it_index h)"
    using h(1,4) on_grid_in [OF s on] by (auto simp: tiled_by_def)
  show "length (it_index h) = length as" using on_grid_length [OF s on] .
  show "0 \<le> iproc h" "iproc h < GAnproc st" "hdl_for ?a h" "tiled_by ?a as" "on_grid as ?ps (nblock ?a) (it_index h)"
    using h p on by blast+
qed

lemma sits_step:
  assumes "sits st g_a as lo hi (x # xs) h"
  shows "sits st g_a as lo hi xs (tile_step (ga st g_a) h)"
    "last (next_index (ga st g_a) h) \<ge> last (num_blocks (ga st g_a)) \<Longrightarrow> iproc h + 1 \<ge> GAnproc st \<Longrightarrow> xs = []"
proof -
  let ?a = "ga st g_a" let ?ps = "proc_starts ?a (iproc h)" let ?n = "next_index ?a h"
  note h = sits_Cons [OF assms]
  have t: "as \<noteq> []" "map count as = num_blocks ?a" "length (nblock ?a) = length as" using h(5) by (auto simp: tiled_by_def)
  have f: "proc_index h = ?ps" "it_offset h = toff as ?ps (nblock ?a) (it_index h)" "prod_list (nblock ?a) = GAnproc st"
    "it_g_a h = g_a" "it_lo h = lo" "it_hi h = hi"
    "x # xs = map (Pair (iproc h)) (tiles_from as ?ps (nblock ?a) (it_index h)) @ later ?a as (GAnproc st) (iproc h + 1)"
    using assms h(3) unfolding sits_def Let_def by auto
  have n: "length ?n = length as" "toff as ?ps (nblock ?a) ?n = toff as ?ps (nblock ?a) (it_index h) + bsize as (it_index h)"
    "tiles_from as ?ps (nblock ?a) (it_index h) = it_index h # tiles_from as ?ps (nblock ?a) ?n"
    "if last ?n \<ge> count (last as) then tiles_from as ?ps (nblock ?a) ?n = [] else on_grid as ?ps (nblock ?a) ?n"
    using next_pos [OF h(6,7) t(1)] unfolding next_index_def f(1) t(2) by blast+
  have l: "last (num_blocks ?a) = count (last as)" using t(1) unfolding t(2) [symmetric] by (simp add: last_map)
  have xs: "xs = map (Pair (iproc h)) (tiles_from as ?ps (nblock ?a) ?n) @ later ?a as (GAnproc st) (iproc h + 1)"
    using f(7) unfolding n(3) by simp
  show "xs = []" if "last ?n \<ge> last (num_blocks ?a)" "iproc h + 1 \<ge> GAnproc st"
    using xs n(4) that later_Nil unfolding l by simp
  have b: "patch_size (tile_bounds ?a h) = bsize as (it_index h)" using bsize_patch [OF h(9)] h(8) by simp
  show "sits st g_a as lo hi xs (tile_step ?a h)"
  proof (cases "last ?n \<ge> last (num_blocks ?a)")
    case False
    have "tile_step ?a h = h\<lparr>it_offset := it_offset h + patch_size (tile_bounds ?a h), it_index := ?n\<rparr>"
      using False by (simp add: tile_step_def Let_def)
    moreover have "on_grid as ?ps (nblock ?a) ?n" using n(4) False unfolding l by simp
    ultimately show ?thesis using h f n(2) b xs by (simp add: sits_def Let_def hdl_for_def)
  next
    case True
    let ?q = "proc_starts ?a (iproc h + 1)"
    have e: "tile_step ?a h = h\<lparr>it_offset := 0, it_index := ?q, iproc := iproc h + 1, proc_index := ?q\<rparr>"
      using True by (simp add: tile_step_def Let_def proc_starts_def)
    have x: "xs = later ?a as (GAnproc st) (iproc h + 1)" using xs n(4) True unfolding l by simp
    show ?thesis
    proof (cases "iproc h + 1 < GAnproc st")
      case False
      then show ?thesis using h f x later_Nil unfolding e by (simp add: sits_def Let_def hdl_for_def)
    next
      case True
      have s: "starts_ok as ?q (nblock ?a)" using tiled_starts(1) [OF h(5), of "iproc h + 1"] True h(2) f(3) by simp
      have "on_grid as ?q (nblock ?a) ?q \<and> toff as ?q (nblock ?a) ?q = 0" using start_pos [OF s] .
      then show ?thesis using h f x True later_Cons [OF True, of ?a as] unfolding e by (simp add: sits_def Let_def hdl_for_def add.commute)
    qed
  qed
qed

lemma tile_next_eq:
  assumes "tiled_by (ga st (it_g_a h)) as"
  shows "gai_iterator_next st h = tile_next st h"
  using assms by (auto simp: gai_iterator_next_def tiled_by_def)

text \<open>The three laws of the contract.\<close>

lemma tile_end: "sits st g_a as lo hi [] h \<Longrightarrow> gai_iterator_next st h = Some (Inr (h, None))"
proof -
  assume s: "sits st g_a as lo hi [] h"
  have "\<not> iproc h < GAnproc st"
  proof
    assume p: "iproc h < GAnproc st"
    have t: "tiled_by (ga st g_a) as" "0 \<le> iproc h" "prod_list (nblock (ga st g_a)) = GAnproc st"
      "on_grid as (proc_starts (ga st g_a) (iproc h)) (nblock (ga st g_a)) (it_index h)"
      "[] = map (Pair (iproc h)) (tiles_from as (proc_starts (ga st g_a) (iproc h)) (nblock (ga st g_a)) (it_index h)) @
        later (ga st g_a) as (GAnproc st) (iproc h + 1)"
      using s p unfolding sits_def Let_def by auto
    have "as \<noteq> []" using t(1) by (simp add: tiled_by_def)
    then show False using t(5) tiles_head [OF tiled_starts(1) t(4)] t(1-3) p by simp
  qed
  moreover have "tiled_by (ga st (it_g_a h)) as" using s by (auto simp: sits_def Let_def)
  ultimately show ?thesis
    unfolding tile_next_eq [OF \<open>tiled_by (ga st (it_g_a h)) as\<close>]
    by (simp add: tile_next_def Let_def pnga_pgroup_nnodes_def tiled_by_def)
qed

lemma tile_miss:
  assumes "sits st g_a as lo hi (x # xs) h" "\<not> tile_hit as lo hi x"
  shows "\<exists>h'. gai_iterator_next st h = gai_iterator_next st h' \<and> sits st g_a as lo hi xs h'"
proof -
  let ?a = "ga st g_a"
  let ?h1 = "h\<lparr>it_offset := it_offset h + patch_size (tile_bounds ?a h), it_index := next_index ?a h\<rparr>"
  note h = sits_Cons [OF assms(1)] and step = sits_step [OF assms(1)]
  have f: "it_g_a h = g_a" "it_lo h = lo" "it_hi h = hi" "p_handle ?a = -1" "num_rstrctd ?a = 0"
    "prod_list (nblock ?a) = GAnproc st"
    using assms(1) by (auto simp: sits_def Let_def tiled_by_def)
  have np: "(if num_rstrctd ?a > 0 then num_rstrctd ?a else pnga_pgroup_nnodes (p_handle ?a) st) = GAnproc st"
    using f by (simp add: pnga_pgroup_nnodes_def)
  have nx: "gai_iterator_next st g = tile_next st g" if "it_g_a g = g_a" for g using tile_next_eq that h(5) by simp
  have miss: "\<not> it_overlap (it_lo h) (it_hi h) (tile_bounds ?a h)" using assms(2) h(1,8) f by (simp add: tile_hit_def)
  show ?thesis
  proof (cases "last (next_index ?a h) \<ge> last (num_blocks ?a) \<and> iproc h + 1 \<ge> GAnproc st")
    case True
    let ?g = "?h1\<lparr>iproc := iproc h + 1\<rparr>"
    have "tile_find ?a (GAnproc st) h = Some (?g, False)"
      using True miss by (subst tile_find.simps) (simp add: Let_def)
    then have "tile_next st h = Some (Inr (?g, None))"
      using h(3) unfolding tile_next_def Let_def f(1) np by simp
    moreover have g: "it_g_a ?g = g_a" using f(1) by simp
    moreover have "tile_next st ?g = Some (Inr (?g, None))"
      using True unfolding tile_next_def Let_def g np by simp
    moreover have "sits st g_a as lo hi xs ?g"
      using True step(2) h f by (simp add: sits_def Let_def hdl_for_def)
    ultimately show ?thesis using nx [of h] nx [of ?g] f(1) by (intro exI [of _ ?g]) simp
  next
    case False
    let ?g = "tile_step ?a h"
    have ga: "it_g_a ?g = g_a" using f(1) by (simp add: tile_step_def Let_def)
    have "iproc ?g < GAnproc st" using False h(3) by (auto simp: tile_step_def Let_def)
    moreover have "tile_find ?a (GAnproc st) h = tile_find ?a (GAnproc st) ?g"
      using False miss by (subst tile_find.simps) (auto simp: Let_def)
    ultimately have "tile_next st h = tile_next st ?g"
      using h(3) unfolding tile_next_def Let_def f(1) ga np by simp
    then show ?thesis using nx [OF f(1)] nx [OF ga] step(1) by (intro exI [of _ ?g]) simp
  qed
qed

lemma sl_strides_ld:
  assumes "hdl_for a h" "distr_type a = SCALAPACK" "proc_index h = ps" "length ps = length (dims a)"
    "length (nblock a) = length (dims a)" "length (block_dims a) = length (dims a)"
  shows "sl_strides a h = sl_ld ps (nblock a) (block_dims a) (dims a)"
proof -
  have "map (\<lambda>(l, i, f, b, p, d). sl_extent l i f b p d)
      (zip (map2 (*) (map2 cdiv ds (map2 (*) bs ss)) bs)
      (zip (map (\<lambda>(d, n, l). d - n * l) (zip ds (zip (map2 cdiv ds (map2 (*) bs ss)) (map2 (*) bs ss))))
      (zip (map2 cdiv (map (\<lambda>(d, n, l). d - n * l) (zip ds (zip (map2 cdiv ds (map2 (*) bs ss)) (map2 (*) bs ss)))) bs)
      (zip bs (zip ps ds))))) =
    map (\<lambda>(p, s, b, d). let blk_dim = b * s; blk_num = cdiv d blk_dim; blk_inc = d - blk_num * blk_dim in
       sl_extent (blk_num * b) blk_inc (cdiv blk_inc b) b p d) (zip ps (zip ss (zip bs ds)))"
    if "length ps = length ds" "length ss = length ds" "length bs = length ds" for ps ss bs ds
    using that
  proof (induction ds arbitrary: ps ss bs)
    case (Cons d ds)
    then obtain p ps' s ss' b bs' where "ps = p # ps'" "ss = s # ss'" "bs = b # bs'" by (metis length_Suc_conv)
    then show ?case using Cons by (simp add: Let_def)
  qed simp
  from arg_cong [OF this [OF assms(4-6)], of butlast] show ?thesis
    using assms(1-3) unfolding sl_strides_def sl_ld_def hdl_for_def by (simp add: map_butlast)
qed

lemma tile_take:
  assumes "sits st g_a as lo hi (x # xs) h" "tile_hit as lo hi x"
  shows "\<exists>h'. gai_iterator_next st h = Some (Inr (h', Some (tile_piece (ga st g_a) as lo hi x))) \<and> sits st g_a as lo hi xs h'"
proof -
  let ?a = "ga st g_a"
  note h = sits_Cons [OF assms(1)]
  have f: "it_g_a h = g_a" "it_lo h = lo" "it_hi h = hi" "p_handle ?a = -1" "num_rstrctd ?a = 0"
    "proc_index h = proc_starts ?a (iproc h)" "it_offset h = toff as (proc_starts ?a (iproc h)) (nblock ?a) (it_index h)"
    using assms(1) h(3) by (auto simp: sits_def Let_def tiled_by_def)
  let ?c = "gam_GetBlockPatch (blk_at as (it_index h)) lo hi"
  let ?h = "h\<lparr>lobuf := fst ?c, hibuf := snd ?c\<rparr>"
  have np: "(if num_rstrctd ?a > 0 then num_rstrctd ?a else pnga_pgroup_nnodes (p_handle ?a) st) = GAnproc st"
    using f by (simp add: pnga_pgroup_nnodes_def)
  have "tile_find ?a (GAnproc st) h = Some (h, True)"
    using assms(2) h(1,8) f by (subst tile_find.simps) (simp add: tile_hit_def)
  moreover have "sl_strides ?a h = sl_ld (proc_starts ?a (iproc h)) (nblock ?a) (block_dims ?a) (dims ?a)
      \<and> blk_dim h = map2 (*) (block_dims ?a) (nblock ?a) \<and> blk_size h = block_dims ?a" if "distr_type ?a = SCALAPACK"
  proof -
    have "length (dims ?a) = length as" using h(5) by (metis tiled_by_def length_map)
    moreover have "length (block_dims ?a) = length (dims ?a)" "length (nblock ?a) = length as"
      using h(5) that by (auto simp: tiled_by_def)
    moreover have "length (proc_starts ?a (iproc h)) = length as" using h(6) by (simp add: starts_ok_def)
    ultimately show ?thesis using sl_strides_ld [OF h(4) that f(6)] h(4) that by (simp add: hdl_for_def)
  qed
  ultimately have "tile_next st h = Some (Inr (tile_step ?a ?h, Some (tile_piece ?a as lo hi x)))"
    using h(1-3,8) f(4-7)
    unfolding tile_next_def Let_def f(1) np by (auto simp: tile_piece_def Let_def f(2,3) case_prod_unfold)
  moreover have "sits st g_a as lo hi (x # xs) ?h" using assms(1) by (simp add: sits_def Let_def hdl_for_def)
  ultimately show ?thesis
    using tile_next_eq [of st h as] h(5) f(1) sits_step(1) by auto
qed

end

end
