(* ===== verification/GA_Theorems.thy ===== *)
theory GA_Theorems
  imports GA_Pieces
begin

text \<open>
  The properties of the distribution routines of src/global/src/base.c, with concrete arrays on which
  their hypotheses hold.
\<close>

section \<open>Arrays for the witnesses\<close>

definition blank_array :: global_array_t where
  "blank_array = \<lparr>ndim = -1, irreg = 0, gtype = 1004, actv = 0, actv_handle = 0, elemsize = 8, ghosts = 0, dims = [],
     chunk = [], nblock = [], width = [], scale = [], ptr = [], mapc = None, name = [], p_handle = -1,
     corner_flag = -1, distr_type = REGULAR, block_dims = [], num_blocks = [], block_total = -1,
     rstrctd_list = None, num_rstrctd = 0, has_data = 1, rstrctd_id = 0, rank_rstrctd = None,
     property = NO_PROPERTY, my_lo = []\<rparr>"

text \<open>A 10 by 6 array on a 2 by 3 grid of processes, restricted to six of eight processes, in another order.\<close>

definition demo_regular :: global_array_t where
  "demo_regular = blank_array\<lparr>ndim := 2, actv := 1, actv_handle := 1, dims := [10, 6], nblock := [2, 3],
     width := [1, 0], scale := map2 axis_scale [2, 3] [10, 6], mapc := Some [1, 6, 1, 3, 5, -1],
     ptr := [1000, 2000, 3000, 4000, 5000, 6000, 7000, 8000],
     rstrctd_list := Some [7, 5, 4, 3, 1, 0], num_rstrctd := 6,
     rank_rstrctd := Some [5, 4, -1, 3, 2, 1, -1, 0]\<rparr>"

text \<open>A 10 by 6 array in blocks of 4 by 3.\<close>

definition demo_cyclic :: "data_distribution \<Rightarrow> global_array_t" where
  "demo_cyclic t = blank_array\<lparr>ndim := 2, actv := 1, actv_handle := 1, dims := [10, 6], nblock := [2, 2],
     distr_type := t, block_dims := [4, 3], num_blocks := [3, 2], block_total := 6\<rparr>"

definition demo_state :: ga_state where
  "demo_state = \<lparr>GA = [demo_regular, demo_cyclic BLOCK_CYCLIC, demo_cyclic SCALAPACK], PGRP_LIST = [], GAme = 0,
     GAnproc = 8, GA_Default_Proc_Group = -1, ga_types = ga_types_init, cluster_nprocs = (\<lambda>_. 8), cluster_nnodes = 1,
     GAinitialized = True\<rparr>"

lemma demo_ga [simp]:
  "ga demo_state (-1000) = demo_regular" "ga demo_state (-999) = demo_cyclic BLOCK_CYCLIC"
  "ga demo_state (-998) = demo_cyclic SCALAPACK"
  by (simp_all add: ga_def demo_state_def GA_OFFSET_def)

lemma demo_active [simp]: "ga_active demo_state (-1000)" "ga_active demo_state (-999)" "ga_active demo_state (-998)"
  by (simp_all add: ga_active_def) (simp_all add: demo_state_def GA_OFFSET_def demo_regular_def demo_cyclic_def)

lemma demo_map_valid: "map_valid (2, 10, [1, 6, 1, 3, 5, -1])" "map_valid (3, 6, [1, 3, 5, -1])"
  by (simp_all add: map_valid_def eval_nat_numeral)

lemma demo_regular_ok: "regular_ok demo_regular"
  using demo_map_valid by (simp add: regular_ok_def mapped_def demo_regular_def blank_array_def eval_nat_numeral)

lemma demo_restricted_ok: "restricted_ok demo_regular"
  by (simp add: restricted_ok_def ranks_ok_def demo_regular_def blank_array_def All_less_Suc eval_nat_numeral)

lemma demo_blocks_ok: "t \<in> {BLOCK_CYCLIC, SCALAPACK, TILED} \<Longrightarrow> blocks_ok (demo_cyclic t)"
  by (auto simp: blocks_ok_def demo_cyclic_def blank_array_def blk_valid_def count_blocks_def Let_def)

section \<open>Elements and their owners\<close>

text \<open>
  C23. \<open>findblock\<close> is exact: started from the guess \<open>(int)(scale * elem)\<close> in double arithmetic, on an axis
  of \<open>n\<close> blocks whose map is ordered and starts at 1, it returns the block that contains the element, and
  no other block of the axis contains it. It never reads outside the map: the guess is between 0 and \<open>n\<close>.
\<close>

theorem findblock_exact:
  assumes "map_valid (n, d, m)" "1 \<le> e" "e \<le> d"
  shows "0 \<le> axis_candidate (axis_scale n d) e \<and> axis_candidate (axis_scale n d) e \<le> n \<and>
    (\<exists>b. findblock m n (axis_candidate (axis_scale n d) e) e = b \<and> 0 \<le> b \<and> b < n \<and>
      (\<forall>c. 0 \<le> c \<and> c < n \<longrightarrow> (m ! nat c \<le> e \<and> e \<le> (if c = n - 1 then d else m ! nat (c + 1) - 1) \<longleftrightarrow> c = b)))"
proof (intro conjI)
  have v: "0 < n" "n < 2147483648" "0 < d" "d < 9007199254740992" using assms(1) by (auto simp: map_valid_def)
  show "0 \<le> axis_candidate (axis_scale n d) e" "axis_candidate (axis_scale n d) e \<le> n"
    using axis_candidate_bound [OF v] assms by auto
  have "map_first (n, d, m) c \<le> e \<and> e \<le> map_final (n, d, m) c \<longleftrightarrow> c = map_find (n, d, m) e" if "0 \<le> c \<and> c < n" for c
    using mp.unique [OF assms(1), of c e] mp.find_holds [OF assms(1), of e] assms that
    by (auto simp: map_extent_def map_count_def)
  then show "\<exists>b. findblock m n (axis_candidate (axis_scale n d) e) e = b \<and> 0 \<le> b \<and> b < n \<and>
      (\<forall>c. 0 \<le> c \<and> c < n \<longrightarrow> (m ! nat c \<le> e \<and> e \<le> (if c = n - 1 then d else m ! nat (c + 1) - 1) \<longleftrightarrow> c = b))"
    using map_find_spec [OF assms] by (auto simp: map_find_def map_first_def map_final_def)
qed

theorem findblock_exact_witness: "map_valid (3, 6, [1, 3, 5, -1]) \<and>
  (\<exists>b. findblock [1, 3, 5, -1] 3 (axis_candidate (axis_scale 3 6) 4) 4 = b \<and> 0 \<le> b \<and> b < 3)"
  using findblock_exact [OF demo_map_valid(2), of 4] demo_map_valid(2) by fastforce

text \<open>
  C24. The numbers of processes and of blocks are a one-to-one coding of the positions of their grids:
  \<open>ga_ComputeIndexM\<close> and \<open>gam_find_proc_indices\<close> are inverse to each other, and so are
  \<open>gam_find_block_from_indices\<close> and \<open>gam_find_block_indices\<close> as long as the number of blocks fits an int.
\<close>

theorem ga_grid_numbering:
  assumes "grid_ok ns"
  shows "bij_betw (\<lambda>is. ga_ComputeIndexM is ns) {is. in_grid ns is} {0..<prod_list ns} \<and>
    (\<forall>is. in_grid ns is \<longrightarrow> gam_find_proc_indices ns (ga_ComputeIndexM is ns) = is) \<and>
    (prod_list ns \<le> 2147483648 \<longrightarrow>
      bij_betw (gam_find_block_from_indices ns) {is. in_grid ns is} {0..<prod_list ns} \<and>
      (\<forall>is. in_grid ns is \<longrightarrow> gam_find_block_indices ns (gam_find_block_from_indices ns is) = is))"
  using pg.one_to_one [of ns] pg.decode_encode [of ns] bg.one_to_one [of ns] bg.decode_encode [of ns] assms by auto

theorem ga_grid_numbering_witness:
  "grid_ok [2, 3] \<and> gam_find_proc_indices [2, 3] (ga_ComputeIndexM [1, 2] [2, 3]) = [1, 2] \<and>
   gam_find_block_indices [2, 3] (gam_find_block_from_indices [2, 3] [1, 2]) = [1, 2]"
proof -
  have g: "grid_ok [2, 3]" "prod_list [2, 3 :: int] \<le> 2147483648" "in_grid [2, 3] [1, 2]" by simp_all
  then show ?thesis using ga_grid_numbering [OF g(1)] by blast
qed



text \<open>
  C26. In a block-cyclic, ScaLAPACK, tiled or irregularly tiled array, \<open>pnga_locate\<close> returns the number of the
  one block that contains the element: the block whose limits \<open>ga_ownsM\<close> computes contain it, and those of
  no other block do.
\<close>

theorem pnga_locate_block:
  assumes "ga_active st g_a" "blocks_ok (ga st g_a) \<or> tiled_irreg_ok (ga st g_a)" "subscript_of (ga st g_a) ss"
  shows "\<exists>b. pnga_locate st g_a ss = Inr (True, b) \<and> 0 \<le> b \<and> b < block_total (ga st g_a) \<and>
    (\<forall>i. 0 \<le> i \<and> i < block_total (ga st g_a) \<longrightarrow>
      (in_patch (fst (ga_ownsM (ga st g_a) i)) (snd (ga_ownsM (ga st g_a) i)) ss \<longleftrightarrow> i = b))"
  using assms(2)
proof
  assume b: "blocks_ok (ga st g_a)"
  show ?thesis
    using locate_blocks [OF assms(1) b assms(3)] blk_owner_range [OF b assms(3)] blk_block_iff [OF b assms(3)] by auto
next
  assume t: "tiled_irreg_ok (ga st g_a)"
  then have m: "mapped (ga st g_a) (num_blocks (ga st g_a))" "block_total (ga st g_a) = prod_list (num_blocks (ga st g_a))"
    by (simp_all add: tiled_irreg_ok_def)
  show ?thesis
    using locate_irreg [OF assms(1) t assms(3)] map_owner_range(1,2) [OF m(1) assms(3)]
      map_block_iff [OF m(1) assms(3)] irreg_owns [OF t] m(2) by auto
qed

theorem pnga_locate_block_witness:
  "subscript_of (ga demo_state (-999)) [7, 4] \<and> (\<exists>b. pnga_locate demo_state (-999) [7, 4] = Inr (True, b) \<and> 0 \<le> b \<and> b < 6)"
proof -
  have s: "subscript_of (ga demo_state (-999)) [7, 4]"
    by (simp add: subscript_of_def) (simp add: demo_cyclic_def eval_nat_numeral)
  then show ?thesis
    using pnga_locate_block [of demo_state "-999" "[7, 4]"] demo_blocks_ok [of BLOCK_CYCLIC]
    by (auto simp: demo_cyclic_def)
qed

section \<open>Patches\<close>

text \<open>The owner that \<open>pnga_locate\<close> reports.\<close>

definition owner_of :: "ga_state \<Rightarrow> int \<Rightarrow> int list \<Rightarrow> int" where
  "owner_of st g_a ss = (case pnga_locate st g_a ss of Inr (_, p) \<Rightarrow> p | Inl _ \<Rightarrow> -1)"

lemma region_result:
  "ga_active st g_a \<Longrightarrow> \<not> bad_region (ga st g_a) lo hi \<Longrightarrow>
   pnga_locate_region st g_a lo hi =
     Inr (Some (int (length (region_pieces st g_a lo hi)), map fst (region_pieces st g_a lo hi),
       concat (map (\<lambda>(_, l, h). l @ h) (region_pieces st g_a lo hi))))"
  by (simp add: pnga_locate_region_def Let_def)

text \<open>
  C27. For a regular array, restricted or not, and for an irregularly tiled one, \<open>pnga_locate_region\<close> splits
  every patch of the array exactly: each owner is listed once, its piece of the patch has exactly the
  elements that \<open>pnga_locate\<close> assigns to it, and no element of the patch is left out. It refuses a patch
  that is empty or reaches outside the array.
\<close>

theorem pnga_locate_region_exact:
  assumes "ga_active st g_a" "length lo = length (dims (ga st g_a))" "length hi = length (dims (ga st g_a))"
    and "regular_ok (ga st g_a) \<and> restricted_ok (ga st g_a) \<or> tiled_irreg_ok (ga st g_a)"
  shows "if bad_region (ga st g_a) lo hi then pnga_locate_region st g_a lo hi = Inr None
    else \<exists>ps. pnga_locate_region st g_a lo hi =
        Inr (Some (int (length ps), map fst ps, concat (map (\<lambda>(_, l, h). l @ h) ps))) \<and>
      exact_pieces (owner_of st g_a) lo hi ps"
proof (cases "bad_region (ga st g_a) lo hi")
  case True
  then show ?thesis using assms(1) by (simp add: pnga_locate_region_def)
next
  case False
  note g = good_region [OF False assms(2,3)]
  have "exact_pieces (owner_of st g_a) lo hi (region_pieces st g_a lo hi)"
    using assms(4)
  proof
    assume r: "regular_ok (ga st g_a) \<and> restricted_ok (ga st g_a)"
    then have "num_rstrctd (ga st g_a) \<ge> 0" by (auto simp: restricted_ok_def)
    with r have "exact_pieces (\<lambda>ss. proc_of (ga st g_a) (map_owner (ga st g_a) (nblock (ga st g_a)) ss)) lo hi
      (region_pieces st g_a lo hi)" using regular_pieces g by blast
    then show ?thesis
      by (rule exact_pieces_cong)
        (use locate_regular [OF assms(1) conjunct1 [OF r] subscript_between [OF g(1,2)]] in \<open>simp add: owner_of_def\<close>)
  next
    assume t: "tiled_irreg_ok (ga st g_a)"
    show ?thesis
      by (rule exact_pieces_cong [OF irreg_pieces [OF t g]])
        (use locate_irreg [OF assms(1) t subscript_between [OF g(1,2)]] in \<open>simp add: owner_of_def\<close>)
  qed
  then show ?thesis using region_result [OF assms(1) False] False by auto
qed

theorem pnga_locate_region_exact_witness:
  "\<exists>ps. pnga_locate_region demo_state (-1000) [2, 2] [9, 5] =
     Inr (Some (int (length ps), map fst ps, concat (map (\<lambda>(_, l, h). l @ h) ps))) \<and>
     exact_pieces (owner_of demo_state (-1000)) [2, 2] [9, 5] ps"
proof -
  have d: "dims (ga demo_state (-1000)) = [10, 6]" by (simp add: demo_regular_def)
  have "\<not> bad_region (ga demo_state (-1000)) [2, 2] [9, 5]" unfolding bad_region_def d by simp
  then show ?thesis
    using pnga_locate_region_exact [of demo_state "-1000" "[2, 2]" "[9, 5]"] demo_regular_ok demo_restricted_ok d by auto
qed

text \<open>
  C28. For a block-cyclic array that is not restricted, \<open>pnga_locate_region\<close> splits a patch exactly if on no axis the patch lies strictly
  inside a block; if on some axis it does, the routine reports success with no piece at all, because its
  test asks whether an end of the block lies in the patch.
\<close>

theorem pnga_locate_region_block_cyclic:
  assumes "ga_active st g_a" "blocks_ok (ga st g_a)" "distr_type (ga st g_a) = BLOCK_CYCLIC"
    and "property (ga st g_a) \<noteq> READ_ONLY" "num_rstrctd (ga st g_a) = 0"
    and "length lo = length (dims (ga st g_a))" "length hi = length (dims (ga st g_a))" "\<not> bad_region (ga st g_a) lo hi"
  shows "if strictly_inside (ga st g_a) lo hi then pnga_locate_region st g_a lo hi = Inr (Some (0, [], []))
    else \<exists>ps. pnga_locate_region st g_a lo hi =
        Inr (Some (int (length ps), map fst ps, concat (map (\<lambda>(_, l, h). l @ h) ps))) \<and>
      exact_pieces (owner_of st g_a) lo hi ps"
proof -
  note g = good_region [OF assms(8,6,7)]
  note c = cyclic_pieces [OF assms(1-5) g(1-3)]
  have "exact_pieces (owner_of st g_a) lo hi (region_pieces st g_a lo hi)" if "\<not> strictly_inside (ga st g_a) lo hi"
    by (rule exact_pieces_cong [OF c(2) [OF that]])
      (use locate_blocks [OF assms(1,2) subscript_between [OF g(1,2)]] in \<open>simp add: owner_of_def\<close>)
  then show ?thesis using region_result [OF assms(1,8)] c(1) by auto
qed

theorem pnga_locate_region_block_cyclic_witness:
  "strictly_inside (ga demo_state (-999)) [2, 1] [3, 6] \<and>
   pnga_locate_region demo_state (-999) [2, 1] [3, 6] = Inr (Some (0, [], []))"
proof -
  have d: "dims (ga demo_state (-999)) = [10, 6]" "distr_type (ga demo_state (-999)) = BLOCK_CYCLIC"
    "property (ga demo_state (-999)) \<noteq> READ_ONLY" "num_rstrctd (ga demo_state (-999)) = 0"
    by (simp_all add: demo_cyclic_def blank_array_def)
  have "strictly_inside (ga demo_state (-999)) [2, 1] [3, 6]"
    by (simp add: strictly_inside_def blk_axes_def)
      (simp add: demo_cyclic_def blk_first_def blk_final_def blk_find_def)
  moreover have "\<not> bad_region (ga demo_state (-999)) [2, 1] [3, 6]" unfolding bad_region_def d by simp
  ultimately show ?thesis
    using pnga_locate_region_block_cyclic [of demo_state "-999" "[2, 1]" "[3, 6]"] demo_blocks_ok [of BLOCK_CYCLIC] d by auto
qed

text \<open>The number that the code gives to a block of a two-dimensional array, from the products of the wrong dimensions.\<close>

lemma block_idx_two:
  assumes "length nb = 2" "in_grid nb c"
  shows "block_idx 0 1 (rev (zip c nb)) = pos nb c \<longleftrightarrow> nb ! 0 = nb ! 1 \<or> pos nb c < nb ! 0"
proof -
  obtain n0 n1 c0 c1 where n: "nb = [n0, n1]" "c = [c0, c1]"
    using assms(1) in_grid_length [OF assms(2)] by (auto simp: eval_nat_numeral length_Suc_conv)
  have bnd: "0 \<le> c0" "c0 < n0" "0 \<le> c1" "c1 < n1" using assms(2) n by auto
  have "c0 + n0 * c1 < n0 \<longleftrightarrow> c1 = 0"
  proof
    assume "c0 + n0 * c1 < n0"
    then have "n0 * c1 < n0 * 1" using bnd by linarith
    then have "c1 < 1" using bnd mult_less_cancel_left_pos [of n0 c1 1] by linarith
    then show "c1 = 0" using bnd by simp
  qed (use bnd in simp)
  then show ?thesis by (auto simp: n algebra_simps)
qed

text \<open>
  C29. For a ScaLAPACK or tiled array \<open>pnga_locate_region\<close> lists exactly the blocks that meet the patch, each
  once, with the limits of the whole block. The number it gives for a block of a two-dimensional array is the
  right one exactly if the array has as many blocks on the first axis as on the second, or the block is in
  the first column.
\<close>

theorem pnga_locate_region_tiled:
  assumes "ga_active st g_a" "blocks_ok (ga st g_a)" "distr_type (ga st g_a) = SCALAPACK \<or> distr_type (ga st g_a) = TILED"
    and "length lo = length (dims (ga st g_a))" "length hi = length (dims (ga st g_a))" "\<not> bad_region (ga st g_a) lo hi"
  shows "\<exists>bs idx. pnga_locate_region st g_a lo hi =
      Inr (Some (int (length bs), map idx bs,
        concat (map (\<lambda>b. fst (ga_ownsM (ga st g_a) b) @ snd (ga_ownsM (ga st g_a) b)) bs))) \<and>
    distinct bs \<and> set bs = owner_of st g_a ` {ss. in_patch lo hi ss} \<and>
    (length (dims (ga st g_a)) = 2 \<longrightarrow> (\<forall>b\<in>set bs. idx b = b \<longleftrightarrow>
       num_blocks (ga st g_a) ! 0 = num_blocks (ga st g_a) ! 1 \<or> b < num_blocks (ga st g_a) ! 0))"
proof -
  let ?a = "ga st g_a" let ?nb = "num_blocks ?a"
  note g = good_region [OF assms(6,4,5)] and ax = blocks_axes [OF assms(2)]
  obtain C where C: "distinct C" "\<And>c. c \<in> set C \<longleftrightarrow> (\<exists>ss. in_patch lo hi ss \<and> map2 blk_find (blk_axes ?a) ss = c)"
    "region_pieces st g_a lo hi = map (\<lambda>c. (block_idx 0 1 (rev (zip c ?nb)), ga_ownsM ?a (pos ?nb c))) C"
    using tiled_pieces [OF assms(2,3) g(1-3)] by blast
  have grid: "in_grid ?nb c" if "c \<in> set C" for c
  proof -
    obtain ss where "in_patch lo hi ss" "map2 blk_find (blk_axes ?a) ss = c" using \<open>c \<in> set C\<close> C(2) by blast
    then show ?thesis using blk_owner_range(3) [OF assms(2) subscript_between [OF g(1,2)]] by blast
  qed
  have dec: "gam_find_proc_indices ?nb (pos ?nb c) = c" if "c \<in> set C" for c
    using proc_indices_of_pos [OF ax(5) grid [OF that]] .
  define idx where "idx b = block_idx 0 1 (rev (zip (gam_find_proc_indices ?nb b) ?nb))" for b
  let ?bs = "map (pos ?nb) C"
  have own: "owner_of st g_a ss = pos ?nb (map2 blk_find (blk_axes ?a) ss)" if "in_patch lo hi ss" for ss
    using locate_blocks [OF assms(1,2) subscript_between [OF g(1,2) that]] by (simp add: owner_of_def blk_owner_def)
  have e: "map idx ?bs = map fst (region_pieces st g_a lo hi)" using dec by (simp add: C(3) idx_def)
  have r: "pnga_locate_region st g_a lo hi =
      Inr (Some (int (length ?bs), map idx ?bs, concat (map (\<lambda>b. fst (ga_ownsM ?a b) @ snd (ga_ownsM ?a b)) ?bs)))"
    unfolding region_result [OF assms(1,6)] e by (simp add: C(3) comp_def case_prod_unfold)
  have "inj_on (pos ?nb) (set C)" by (rule inj_on_inverseI [where g = "gam_find_proc_indices ?nb"]) (rule dec)
  then have d: "distinct ?bs" using C(1) by (simp add: distinct_map)
  have s: "set ?bs = owner_of st g_a ` {ss. in_patch lo hi ss}"
  proof (intro set_eqI iffI)
    fix b assume "b \<in> set ?bs"
    then obtain c where "c \<in> set C" "b = pos ?nb c" by auto
    then obtain ss where "in_patch lo hi ss" "b = owner_of st g_a ss" using C(2) own by metis
    then show "b \<in> owner_of st g_a ` {ss. in_patch lo hi ss}" by blast
  next
    fix b assume "b \<in> owner_of st g_a ` {ss. in_patch lo hi ss}"
    then obtain ss where "in_patch lo hi ss" "b = pos ?nb (map2 blk_find (blk_axes ?a) ss)" using own by auto
    then show "b \<in> set ?bs" using C(2) by auto
  qed
  have two: "idx b = b \<longleftrightarrow> ?nb ! 0 = ?nb ! 1 \<or> b < ?nb ! 0" if "length (dims ?a) = 2" and b: "b \<in> set ?bs" for b
  proof -
    obtain c where c: "c \<in> set C" "b = pos ?nb c" using b by auto
    have "length ?nb = 2" using that(1) ax(2,4) by (metis length_map)
    then show ?thesis using block_idx_two [OF _ grid [OF c(1)]] dec [OF c(1)] c(2) by (simp add: idx_def)
  qed
  show ?thesis using r d s two by blast
qed

theorem pnga_locate_region_tiled_witness:
  "length (dims (ga demo_state (-998))) = 2 \<and> num_blocks (ga demo_state (-998)) ! 0 \<noteq> num_blocks (ga demo_state (-998)) ! 1 \<and>
   (\<exists>bs idx. pnga_locate_region demo_state (-998) [2, 2] [9, 5] =
      Inr (Some (int (length bs), map idx bs,
        concat (map (\<lambda>b. fst (ga_ownsM (ga demo_state (-998)) b) @ snd (ga_ownsM (ga demo_state (-998)) b)) bs))) \<and>
    distinct bs \<and> (\<forall>b\<in>set bs. idx b = b \<longleftrightarrow> b < 3))"
proof -
  have d: "dims (ga demo_state (-998)) = [10, 6]" "distr_type (ga demo_state (-998)) = SCALAPACK"
    "num_blocks (ga demo_state (-998)) = [3, 2]" by (simp_all add: demo_cyclic_def)
  have "\<not> bad_region (ga demo_state (-998)) [2, 2] [9, 5]" unfolding bad_region_def d by simp
  then show ?thesis
    using pnga_locate_region_tiled [of demo_state "-998" "[2, 2]" "[9, 5]"] demo_blocks_ok [of SCALAPACK] d by auto
qed

section \<open>Addresses\<close>

lemma loc_offset_pos:
  "in_patch lo hi ss \<Longrightarrow> length ws = length lo \<Longrightarrow>
   loc_offset ss lo hi ws factor =
     factor * pos (map2 (\<lambda>n w. n + 2 * w) (sizes lo hi) ws) (map2 (+) (shift lo ss) ws)"
proof (induction lo hi ss arbitrary: ws factor rule: in_patch.induct)
  case (1 l lo h hi s ss)
  obtain w ws' where "ws = w # ws'" using 1(3) by (cases ws) auto
  then show ?case using 1 by (simp add: algebra_simps)
qed auto

lemma padded_grid:
  "in_patch lo hi ss \<Longrightarrow> length ws = length lo \<Longrightarrow> \<forall>w\<in>set ws. 0 \<le> w \<Longrightarrow>
   in_grid (map2 (\<lambda>n w. n + 2 * w) (sizes lo hi) ws) (map2 (+) (shift lo ss) ws) \<and>
   grid_ok (map2 (\<lambda>n w. n + 2 * w) (sizes lo hi) ws)"
proof (induction lo hi ss arbitrary: ws rule: in_patch.induct)
  case (1 l lo h hi s ss)
  obtain w ws' where "ws = w # ws'" using 1(3) by (cases ws) auto
  then show ?case using 1 by auto
qed auto

lemma check_subscript_iff:
  "length lo = length ss \<Longrightarrow> length hi = length ss \<Longrightarrow> gaCheckSubscriptM ss lo hi = None \<longleftrightarrow> in_patch lo hi ss"
proof -
  assume l: "length lo = length ss" "length hi = length ss"
  have "length lo = length ss \<Longrightarrow> length hi = length ss \<Longrightarrow> length ds = length ss \<Longrightarrow>
    List.find (\<lambda>(d, s, l, h). s < l \<or> s > h) (zip ds (zip ss (zip lo hi))) = None \<longleftrightarrow> in_patch lo hi ss" for ds :: "nat list"
  proof (induction ss arbitrary: lo hi ds)
    case (Cons s ss)
    then obtain l lo' h hi' d ds' where "lo = l # lo'" "hi = h # hi'" "ds = d # ds'" by (metis length_Suc_conv)
    then show ?case using Cons by auto
  qed simp
  from this [OF l, of "[0..<length ss]"] show ?thesis by (auto simp: gaCheckSubscriptM_def split: option.splits)
qed

lemma padded_inj:
  "in_patch lo hi ss \<Longrightarrow> in_patch lo hi ss' \<Longrightarrow> length ws = length lo \<Longrightarrow>
   map2 (+) (shift lo ss) ws = map2 (+) (shift lo ss') ws \<Longrightarrow> ss = ss'"
proof (induction lo hi ss arbitrary: ss' ws rule: in_patch.induct)
  case (1 l lo h hi s ss)
  obtain w ws' where w: "ws = w # ws'" using 1(4) by (cases ws) auto
  obtain s' t' where s: "ss' = s' # t'" using 1(3) by (cases ss') auto
  show ?case using 1 w s by auto
next
  case 2
  then show ?case by (cases ss') auto
qed auto

text \<open>
  C30. \<open>gam_Loc_ptr\<close> lays the block of a process out without collisions: inside the block, ghost cells
  included in the layout, every element gets an offset from the start of the process's memory that is within
  the memory the block takes, different elements get different offsets, and a subscript outside the block is
  refused.
\<close>

theorem gam_Loc_ptr_layout:
  assumes "ga_ownsM (ga st g_a) proc = (lo, hi)" "length ss = length lo" "length ss' = length lo" "length hi = length lo"
    and "length (width (ga st g_a)) = length lo" "\<forall>w\<in>set (width (ga st g_a)). 0 \<le> w"
  shows "(\<not> in_patch lo hi ss \<longrightarrow> (\<exists>e. gam_Loc_ptr st g_a proc ss = Inl e)) \<and>
    (in_patch lo hi ss \<and> in_patch lo hi ss' \<longrightarrow> (\<exists>base x y.
      gam_Loc_ptr st g_a proc ss = Inr (base + x * elemsize (ga st g_a)) \<and>
      gam_Loc_ptr st g_a proc ss' = Inr (base + y * elemsize (ga st g_a)) \<and>
      0 \<le> x \<and> x < prod_list (map2 (\<lambda>n w. n + 2 * w) (sizes lo hi) (width (ga st g_a))) \<and> (x = y \<longleftrightarrow> ss = ss')))"
proof (intro conjI impI)
  show "\<exists>e. gam_Loc_ptr st g_a proc ss = Inl e" if "\<not> in_patch lo hi ss"
    using that check_subscript_iff [of lo ss hi] assms
    by (cases "gaCheckSubscriptM ss lo hi") (auto simp: gam_Loc_ptr_def Let_def)
  assume "in_patch lo hi ss \<and> in_patch lo hi ss'"
  then have p: "in_patch lo hi ss" "in_patch lo hi ss'" by auto
  let ?ws = "width (ga st g_a)" let ?g = "map2 (\<lambda>n w. n + 2 * w) (sizes lo hi) ?ws"
  define iproc where "iproc = (let i = (if p_handle (ga st g_a) = 0 then inv_map_proc_list (PGRP_LIST st ! 0) ! nat proc else proc)
    in if num_rstrctd (ga st g_a) > 0 then the (rstrctd_list (ga st g_a)) ! nat i else i)"
  have loc: "gam_Loc_ptr st g_a proc t = Inr (ptr (ga st g_a) ! nat iproc + loc_offset t lo hi ?ws 1 * elemsize (ga st g_a))"
    if "in_patch lo hi t" "length t = length lo" for t
    using that check_subscript_iff [of lo t hi] assms by (simp add: gam_Loc_ptr_def Let_def iproc_def)
  have o: "loc_offset t lo hi ?ws 1 = pos ?g (map2 (+) (shift lo t) ?ws)" if "in_patch lo hi t" for t
    using loc_offset_pos [OF that assms(5)] by simp
  note g = padded_grid [OF p(1) assms(5,6)] padded_grid [OF p(2) assms(5,6)]
  have b: "0 \<le> pos ?g (map2 (+) (shift lo ss) ?ws) \<and> pos ?g (map2 (+) (shift lo ss) ?ws) < prod_list ?g"
    using pos_bound g(1) by blast
  have "pos ?g (map2 (+) (shift lo ss) ?ws) = pos ?g (map2 (+) (shift lo ss') ?ws) \<longleftrightarrow> ss = ss'"
    using proc_indices_of_pos [of ?g] g padded_inj [OF p assms(5)] by metis
  then show "\<exists>base x y. gam_Loc_ptr st g_a proc ss = Inr (base + x * elemsize (ga st g_a)) \<and>
      gam_Loc_ptr st g_a proc ss' = Inr (base + y * elemsize (ga st g_a)) \<and>
      0 \<le> x \<and> x < prod_list (map2 (\<lambda>n w. n + 2 * w) (sizes lo hi) (width (ga st g_a))) \<and> (x = y \<longleftrightarrow> ss = ss')"
    using loc [OF p(1) assms(2)] loc [OF p(2) assms(3)] b unfolding o [OF p(1)] o [OF p(2)]
    by (intro exI [of _ "ptr (ga st g_a) ! nat iproc"] exI [of _ "pos ?g (map2 (+) (shift lo ss) ?ws)"]
        exI [of _ "pos ?g (map2 (+) (shift lo ss') ?ws)"]) simp
qed

theorem gam_Loc_ptr_layout_witness:
  "ga_ownsM (ga demo_state (-1000)) 1 = ([6, 1], [10, 2]) \<and>
   (\<exists>base x y. gam_Loc_ptr demo_state (-1000) 1 [7, 2] = Inr (base + x * 8) \<and>
     gam_Loc_ptr demo_state (-1000) 1 [8, 2] = Inr (base + y * 8) \<and> 0 \<le> x \<and> x < 14 \<and> x \<noteq> y)"
proof -
  have d: "ga_ownsM (ga demo_state (-1000)) 1 = ([6, 1], [10, 2])"
    by (simp add: ga_ownsM_def) (simp add: demo_regular_def blank_array_def ga_ownsM_no_handle_def Let_def)
  have w: "width (ga demo_state (-1000)) = [1, 0]" "elemsize (ga demo_state (-1000)) = 8"
    by (simp_all add: demo_regular_def blank_array_def)
  show ?thesis using gam_Loc_ptr_layout [OF d, of "[7, 2]" "[8, 2]"] d w by auto
qed

end
