(* ===== verification/GA_Layout.thy ===== *)
theory GA_Layout
  imports GA_Walk GA_Theorems
begin

text \<open>
  Where the elements of a tiled array are: the place of an element in the memory of its process, for the blocks
  one after the other of a tiled array and for the local matrix of a ScaLAPACK array. Different elements have
  different places inside the memory that \<open>pnga_allocate\<close> reserves, and the blocks of the iterator lead to them.
\<close>

section \<open>Addressing with strides\<close>

text \<open>The distance in elements from the corner \<open>lo\<close> to an element, for a client that uses the strides \<open>ld\<close>.\<close>

fun strided :: "int list \<Rightarrow> int list \<Rightarrow> int list \<Rightarrow> int \<Rightarrow> int" where
  "strided (s # ss) (l # lo) ld f = (s - l) * f + strided ss lo (tl ld) (f * hd ld)"
| "strided _ _ _ f = 0"

text \<open>
  The blocks of an iterator serve a patch: every element of the patch is in exactly one block, and the pointer and
  the strides of a block lead to the places of its elements.
\<close>

definition serves :: "(int list \<Rightarrow> int \<times> int) \<Rightarrow> global_array_t \<Rightarrow> int list \<Rightarrow> int list \<Rightarrow> it_block list \<Rightarrow> bool" where
  "serves place a lo hi bs \<longleftrightarrow>
     (\<forall>ss. in_patch lo hi ss \<longrightarrow> (\<exists>!k. k < length bs \<and> in_patch (ib_lo (bs ! k)) (ib_hi (bs ! k)) ss)) \<and>
     (\<forall>b\<in>set bs. \<forall>ss. in_patch (ib_lo b) (ib_hi b) ss \<longrightarrow> in_patch lo hi ss \<and> fst (place ss) = ib_proc b \<and>
        ib_ptr b + strided ss (ib_lo b) (ib_ld b) 1 * elemsize a = ptr a ! nat (ib_proc b) + snd (place ss) * elemsize a)"

text \<open>A list of positions with different keys has one that belongs to an element of the keys.\<close>

lemma unique_position:
  assumes "distinct (map g xs)" "y \<in> set xs" "\<And>x. x \<in> set xs \<Longrightarrow> P x \<longleftrightarrow> g x = g y"
  shows "\<exists>!k. k < length xs \<and> P (xs ! k)"
proof -
  obtain k where k: "k < length xs" "xs ! k = y" using assms(2) by (metis in_set_conv_nth)
  have "j = k" if "j < length xs" "P (xs ! j)" for j
    using nth_eq_iff_index_eq [OF assms(1), of j k] assms(3) [OF nth_mem [OF that(1)]] that k by simp
  then show ?thesis using k assms(3) [OF assms(2)] by blast
qed

lemma serves_map:
  assumes key: "\<And>x ss. x \<in> set Q \<Longrightarrow> in_patch (ib_lo (f x)) (ib_hi (f x)) ss \<longleftrightarrow> in_patch lo hi ss \<and> owner ss = g x"
    and "distinct (map g Q)" "\<And>ss. in_patch lo hi ss \<Longrightarrow> owner ss \<in> g ` set Q"
    and addr: "\<And>x ss. x \<in> set Q \<Longrightarrow> in_patch (ib_lo (f x)) (ib_hi (f x)) ss \<Longrightarrow> fst (place ss) = ib_proc (f x) \<and>
      ib_ptr (f x) + strided ss (ib_lo (f x)) (ib_ld (f x)) 1 * elemsize a = ptr a ! nat (ib_proc (f x)) + snd (place ss) * elemsize a"
  shows "serves place a lo hi (map f Q)"
  unfolding serves_def
proof (intro conjI allI impI ballI)
  fix ss assume ss: "in_patch lo hi ss"
  then obtain y where "y \<in> set Q" "owner ss = g y" using assms(3) by blast
  then have "\<exists>!k. k < length Q \<and> in_patch (ib_lo (f (Q ! k))) (ib_hi (f (Q ! k))) ss"
    using key ss by (intro unique_position [OF assms(2)]) auto
  then show "\<exists>!k. k < length (map f Q) \<and> in_patch (ib_lo (map f Q ! k)) (ib_hi (map f Q ! k)) ss" by (simp cong: conj_cong)
next
  fix b ss assume "b \<in> set (map f Q)" and p: "in_patch (ib_lo b) (ib_hi b) ss"
  then obtain x where "x \<in> set Q" "b = f x" by auto
  then show "in_patch lo hi ss" "fst (place ss) = ib_proc b"
    "ib_ptr b + strided ss (ib_lo b) (ib_ld b) 1 * elemsize a = ptr a ! nat (ib_proc b) + snd (place ss) * elemsize a"
    using key addr p by blast+
qed

text \<open>
  A block that is not empty, with strides that leave room for it: the block is part of a block with the sizes \<open>L\<close> inside
  memory of \<open>sz\<close> elements, and these give the strides.
\<close>

definition roomy :: "it_block \<Rightarrow> int \<Rightarrow> bool" where
  "roomy b sz \<longleftrightarrow> ib_lo b \<noteq> [] \<and> in_patch (ib_lo b) (ib_hi b) (ib_lo b) \<and>
     (\<exists>L. list_all2 (\<le>) (sizes (ib_lo b) (ib_hi b)) L \<and> take (length L - 1) (ib_ld b) = butlast L \<and> prod_list L \<le> sz)"

lemma block_offset_strided:
  "length c = length l \<Longrightarrow> length h = length l \<Longrightarrow> length ss = length l \<Longrightarrow>
   ld = (if length l = 1 then map2 (\<lambda>l h. h - l + 1) l h else butlast (map2 (\<lambda>l h. h - l + 1) l h)) \<Longrightarrow>
   block_offset c l h f + strided ss c ld f = block_offset ss l h f"
proof (induction l arbitrary: c h ss ld f)
  case (Cons l ls)
  then obtain c' cs h' hs s' ss' where e: "c = c' # cs" "h = h' # hs" "ss = s' # ss'" by (metis length_Suc_conv)
  show ?case
  proof (cases ls)
    case Nil
    then show ?thesis using Cons.prems e by (simp add: algebra_simps)
  next
    case (Cons l2 ls2)
    then obtain h2 hs2 where h2: "hs = h2 # hs2" using Cons.prems e by (cases hs) auto
    have ld: "ld = (h' - l + 1) # butlast (map2 (\<lambda>l h. h - l + 1) ls hs)" using Cons.prems(4) e Cons h2 by simp
    define ld' where "ld' = (if length ls = 1 then map2 (\<lambda>l h. h - l + 1) ls hs else butlast (map2 (\<lambda>l h. h - l + 1) ls hs))"
    have st: "strided ss' cs (butlast (map2 (\<lambda>l h. h - l + 1) ls hs)) f' = strided ss' cs ld' f'" for f'
    proof (cases ls2)
      case Nil
      then obtain a b where "cs = [a]" "ss' = [b]" using Cons Cons.prems e by (auto simp: length_Suc_conv)
      then show ?thesis by simp
    qed (use Cons in \<open>simp add: ld'_def\<close>)
    have "block_offset cs ls hs (f * (h' - l + 1)) + strided ss' cs ld' (f * (h' - l + 1)) = block_offset ss' ls hs (f * (h' - l + 1))"
      using Cons.prems e by (intro Cons.IH) (simp_all add: ld'_def)
    moreover have "(c' - l) * f + (s' - c') * f = (s' - l) * f" by (simp add: left_diff_distrib)
    ultimately show ?thesis
      unfolding e ld block_offset.simps strided.simps list.sel st by linarith
  qed
qed simp

lemma sl_offset_strided:
  "length c = length l \<Longrightarrow> length us = length l \<Longrightarrow> length bs = length l \<Longrightarrow> length ss = length l \<Longrightarrow>
   sl_offset c l us bs ld f + strided ss c ld f = sl_offset ss l us bs ld f"
proof (induction l arbitrary: c us bs ss ld f)
  case (Cons l ls)
  then obtain c' cs u' us' b' bs' s' ss' where e: "c = c' # cs" "us = u' # us'" "bs = b' # bs'" "ss = s' # ss'"
    by (metis length_Suc_conv)
  show ?case
  proof (cases ls)
    case Nil
    then show ?thesis using Cons.prems e by (simp add: algebra_simps)
  next
    case (Cons l2 ls2)
    then have "cs \<noteq> []" "ss' \<noteq> []" using Cons.prems e by auto
    moreover have "sl_offset cs ls us' bs' (tl ld) (f * hd ld) + strided ss' cs (tl ld) (f * hd ld) = sl_offset ss' ls us' bs' (tl ld) (f * hd ld)"
      using Cons.prems e by (intro Cons.IH) simp_all
    moreover have "(c' - l + cdiv (l - 1) u' * b') * f + (s' - c') * f = (s' - l + cdiv (l - 1) u' * b') * f"
      by (simp add: left_diff_distrib distrib_right)
    ultimately show ?thesis unfolding e sl_offset.simps strided.simps by simp
  qed
qed simp

section \<open>Patches of blocks\<close>

lemma get_block_patch_iff:
  "length l = length lo \<Longrightarrow> length h = length lo \<Longrightarrow> length hi = length lo \<Longrightarrow> it_overlap lo hi (l, h) \<Longrightarrow>
   list_all2 (\<le>) lo hi \<Longrightarrow>
   in_patch (fst (gam_GetBlockPatch (l, h) lo hi)) (snd (gam_GetBlockPatch (l, h) lo hi)) ss \<longleftrightarrow>
   in_patch lo hi ss \<and> in_patch l h ss"
proof (induction lo arbitrary: l h hi ss)
  case Nil
  then show ?case by (cases ss) (auto simp: gam_GetBlockPatch_def)
next
  case (Cons x lo)
  then obtain l' ls h' hs y his where e: "l = l' # ls" "h = h' # hs" "hi = y # his" by (metis length_Suc_conv)
  have o: "it_overlap lo his (ls, hs)" "list_all2 (\<le>) lo his" "x \<le> y"
    "(l' \<ge> x \<and> l' \<le> y \<or> h' \<ge> x \<and> h' \<le> y) \<or> (x \<ge> l' \<and> x \<le> h') \<and> (y \<ge> l' \<and> y \<le> h')"
    using Cons.prems(4,5) e by (auto simp: it_overlap_def)
  show ?case
  proof (cases ss)
    case Nil
    then show ?thesis by (simp add: gam_GetBlockPatch_def e)
  next
    case (Cons s ss')
    have "(if x \<le> h' \<and> x \<ge> l' then x else l') \<le> s \<and> s \<le> (if y \<le> h' \<and> y \<ge> l' then y else h') \<longleftrightarrow>
      (x \<le> s \<and> s \<le> y) \<and> l' \<le> s \<and> s \<le> h'" using o(3,4) by auto
    moreover have "in_patch (fst (gam_GetBlockPatch (ls, hs) lo his)) (snd (gam_GetBlockPatch (ls, hs) lo his)) ss' \<longleftrightarrow>
      in_patch lo his ss' \<and> in_patch ls hs ss'"
      using Cons.IH [of ls hs his ss'] Cons.prems e o by simp
    ultimately show ?thesis using Cons e by (auto simp: gam_GetBlockPatch_def)
  qed
qed

lemma get_block_patch_fits:
  "length l = length lo \<Longrightarrow> length h = length lo \<Longrightarrow> length hi = length lo \<Longrightarrow> it_overlap lo hi (l, h) \<Longrightarrow>
   list_all2 (\<le>) lo hi \<Longrightarrow> list_all2 (\<le>) l h \<Longrightarrow>
   in_patch (fst (gam_GetBlockPatch (l, h) lo hi)) (snd (gam_GetBlockPatch (l, h) lo hi)) (fst (gam_GetBlockPatch (l, h) lo hi)) \<and>
   list_all2 (\<le>) (sizes (fst (gam_GetBlockPatch (l, h) lo hi)) (snd (gam_GetBlockPatch (l, h) lo hi))) (sizes l h)"
proof (induction lo arbitrary: l h hi)
  case Nil
  then show ?case by (auto simp: gam_GetBlockPatch_def sizes_def)
next
  case (Cons x lo)
  then obtain l' ls h' hs y his where e: "l = l' # ls" "h = h' # hs" "hi = y # his" by (metis length_Suc_conv)
  have o: "it_overlap lo his (ls, hs)" "list_all2 (\<le>) lo his" "list_all2 (\<le>) ls hs" "x \<le> y" "l' \<le> h'"
    "(l' \<ge> x \<and> l' \<le> y \<or> h' \<ge> x \<and> h' \<le> y) \<or> (x \<ge> l' \<and> x \<le> h') \<and> (y \<ge> l' \<and> y \<le> h')"
    using Cons.prems(4,5,6) e by (auto simp: it_overlap_def)
  have "(if x \<le> h' \<and> x \<ge> l' then x else l') \<le> (if y \<le> h' \<and> y \<ge> l' then y else h')" using o(4-6) by auto
  moreover have "(if y \<le> h' \<and> y \<ge> l' then y else h') - (if x \<le> h' \<and> x \<ge> l' then x else l') + 1 \<le> h' - l' + 1" using o(4,5) by auto
  ultimately show ?case using Cons.IH [of ls hs his] Cons.prems e o(1-3) by (simp add: gam_GetBlockPatch_def sizes_def)
qed

lemma overlap_common:
  "in_patch lo hi ss \<Longrightarrow> in_patch l h ss \<Longrightarrow> it_overlap lo hi (l, h)"
proof (induction lo hi ss arbitrary: l h rule: in_patch.induct)
  case (1 x lo y hi s ss)
  then obtain l' ls h' hs where e: "l = l' # ls" "h = h' # hs" by (cases l; cases h) auto
  have "it_overlap lo hi (ls, hs)" using 1 e by simp
  moreover have "(l' \<ge> x \<and> l' \<le> y \<or> h' \<ge> x \<and> h' \<le> y) \<or> (x \<ge> l' \<and> x \<le> h') \<and> (y \<ge> l' \<and> y \<le> h')" using 1(2,3) e by auto
  ultimately show ?case using e by (auto simp: it_overlap_def)
qed (auto simp: it_overlap_def)

lemma block_offset_loc: "block_offset c l h f = loc_offset c l h (map (\<lambda>_. 0) l) f"
  by (induction c l h f rule: block_offset.induct) auto

lemma block_offset_bounds:
  assumes "in_patch l h ss" "length h = length l"
  shows "0 \<le> block_offset ss l h 1 \<and> block_offset ss l h 1 < prod_list (map2 (\<lambda>l h. h - l + 1) l h)"
    "in_patch l h ss' \<Longrightarrow> block_offset ss l h 1 = block_offset ss' l h 1 \<longleftrightarrow> ss = ss'"
proof -
  let ?w = "map (\<lambda>_. 0 :: int) l" let ?g = "map2 (\<lambda>n w. n + 2 * w) (sizes l h) ?w"
  have w: "length ?w = length l" "\<forall>x\<in>set ?w. 0 \<le> x" by auto
  have gg: "?g = map2 (\<lambda>l h. h - l + 1) l h"
    using assms(2) by (induction h l rule: list_induct2) (auto simp: sizes_def)
  have o: "block_offset t l h 1 = pos ?g (map2 (+) (shift l t) ?w)" if "in_patch l h t" for t
    using loc_offset_pos [OF that w(1), of 1] by (simp add: block_offset_loc)
  note g = padded_grid [OF assms(1) w]
  show "0 \<le> block_offset ss l h 1 \<and> block_offset ss l h 1 < prod_list (map2 (\<lambda>l h. h - l + 1) l h)"
    using pos_bound [of ?g "map2 (+) (shift l ss) ?w"] g unfolding o [OF assms(1)] gg by auto
  show "block_offset ss l h 1 = block_offset ss' l h 1 \<longleftrightarrow> ss = ss'" if p: "in_patch l h ss'"
    using proc_indices_of_pos [of ?g] g padded_grid [OF p w] padded_inj [OF assms(1) p w(1)]
    unfolding o [OF assms(1)] o [OF p] by metis
qed

section \<open>Places\<close>

context tiling
begin

text \<open>The coordinates of an element in the local matrix of its process.\<close>

definition coords :: "'a list \<Rightarrow> int list \<Rightarrow> int list \<Rightarrow> int list \<Rightarrow> int list \<Rightarrow> int list" where
  "coords as ps ss is xs = map (\<lambda>(a, p, s, i, x). before a p s i + (x - first a i)) (zip as (zip ps (zip ss (zip is xs))))"

definition shares :: "'a list \<Rightarrow> int list \<Rightarrow> int list \<Rightarrow> int list" where
  "shares as ps ss = map (\<lambda>(a, p, s). share a p s) (zip as (zip ps ss))"

definition starts_of :: "global_array_t \<Rightarrow> int list \<Rightarrow> int list" where
  "starts_of a is = map2 (\<lambda>i s. i mod s) is (nblock a)"

definition offset_at :: "global_array_t \<Rightarrow> 'a list \<Rightarrow> int list \<Rightarrow> int list \<Rightarrow> int" where
  "offset_at a as is xs =
     (let ps = starts_of a is in
      if distr_type a = SCALAPACK then pos (shares as ps (nblock a)) (coords as ps (nblock a) is xs)
      else toff as ps (nblock a) is + block_offset xs (fst (blk_at as is)) (snd (blk_at as is)) 1)"

definition place :: "global_array_t \<Rightarrow> 'a list \<Rightarrow> int list \<Rightarrow> int \<times> int" where
  "place a as xs = (let is = map2 find as xs in (pos (nblock a) (starts_of a is), offset_at a as is xs))"

text \<open>The process of a block, and the blocks of a process.\<close>

lemma grid_starts:
  assumes "tiled_by a as" "in_grid (num_blocks a) is"
  shows "in_grid (nblock a) (starts_of a is)" "on_grid as (starts_of a is) (nblock a) is"
    "proc_starts a (pos (nblock a) (starts_of a is)) = starts_of a is"
    "0 \<le> pos (nblock a) (starts_of a is)" "pos (nblock a) (starts_of a is) < prod_list (nblock a)"
proof -
  have t: "length (nblock a) = length as" "grid_ok (nblock a)" "map count as = num_blocks a" using assms(1) by (auto simp: tiled_by_def)
  have "length is = length ss \<Longrightarrow> grid_ok ss \<Longrightarrow> in_grid ss (map2 (\<lambda>i s. i mod s) is ss)" for "is" ss :: "int list"
    by (induction "is" ss rule: list_induct2) auto
  moreover have "length is = length (nblock a)" using in_grid_length [OF assms(2)] t by (metis length_map)
  ultimately show g: "in_grid (nblock a) (starts_of a is)" using t(2) by (simp add: starts_of_def)
  then show "on_grid as (starts_of a is) (nblock a) is"
    using on_grid_iff [OF t(1) _ t(2) g] in_grid_length [OF g] t assms(2) by (simp add: starts_of_def)
  show "proc_starts a (pos (nblock a) (starts_of a is)) = starts_of a is"
    using proc_indices_of_pos [OF t(2) g] by (simp add: proc_starts_def)
  show "0 \<le> pos (nblock a) (starts_of a is)" "pos (nblock a) (starts_of a is) < prod_list (nblock a)"
    using pos_bound [OF t(2) g] by auto
qed

lemma on_grid_starts:
  assumes "tiled_by a as" "0 \<le> p" "p < prod_list (nblock a)" "on_grid as (proc_starts a p) (nblock a) is"
  shows "starts_of a is = proc_starts a p" "pos (nblock a) (starts_of a is) = p" "in_grid (num_blocks a) is"
proof -
  have t: "length (nblock a) = length as" "grid_ok (nblock a)" "map count as = num_blocks a" using assms(1) by (auto simp: tiled_by_def)
  note s = tiled_starts [OF assms(1-3)]
  have l: "length (proc_starts a p) = length as" using s(1) by (simp add: starts_ok_def)
  show "in_grid (num_blocks a) is" "starts_of a is = proc_starts a p"
    using on_grid_iff [OF t(1) l t(2) s(2)] assms(4) t(3) by (simp_all add: starts_of_def)
  then show "pos (nblock a) (starts_of a is) = p"
    using proc_indices_pos [OF t(2) assms(2,3)] by (simp add: proc_starts_def)
qed

lemma later_set:
  assumes "tiled_by a as" "n = prod_list (nblock a)"
  shows "set (later a as n 0) = {(pos (nblock a) (starts_of a is), is) |is. in_grid (num_blocks a) is}"
    "distinct (map snd (later a as n 0))"
proof -
  have T: "set (tiles_from as (proc_starts a q) (nblock a) (proc_starts a q)) = {is. on_grid as (proc_starts a q) (nblock a) is}"
    "distinct (tiles_from as (proc_starts a q) (nblock a) (proc_starts a q))" if "0 \<le> q" "q < n" for q
    using tiles_all tiled_starts(1) [OF assms(1)] that assms(2) by blast+
  have mem: "x \<in> set (later a as n 0) \<longleftrightarrow> (\<exists>q is. x = (q, is) \<and> 0 \<le> q \<and> q < n \<and> on_grid as (proc_starts a q) (nblock a) is)" for x
    unfolding later_def using T(1) by (auto simp: image_iff)
  show "set (later a as n 0) = {(pos (nblock a) (starts_of a is), is) |is. in_grid (num_blocks a) is}"
  proof (intro equalityI subsetI)
    fix x assume "x \<in> set (later a as n 0)"
    then obtain q "is" where q: "x = (q, is)" "0 \<le> q" "q < n" "on_grid as (proc_starts a q) (nblock a) is" using mem by blast
    then show "x \<in> {(pos (nblock a) (starts_of a is), is) |is. in_grid (num_blocks a) is}"
      using on_grid_starts [OF assms(1) q(2) _ q(4)] assms(2) by auto
  next
    fix x assume "x \<in> {(pos (nblock a) (starts_of a is), is) |is. in_grid (num_blocks a) is}"
    then obtain "is" where i: "x = (pos (nblock a) (starts_of a is), is)" "in_grid (num_blocks a) is" by blast
    show "x \<in> set (later a as n 0)" unfolding mem using grid_starts [OF assms(1) i(2)] i(1) assms(2) by auto
  qed
  have "distinct (map snd (concat (map (\<lambda>q. map (Pair q) (tiles_from as (proc_starts a q) (nblock a) (proc_starts a q))) qs)))"
    if "distinct qs" "\<forall>q\<in>set qs. 0 \<le> q \<and> q < n" for qs
    using that
  proof (induction qs)
    case (Cons q qs)
    have "is \<noteq> is'" if "on_grid as (proc_starts a q) (nblock a) is" "q' \<in> set qs" "on_grid as (proc_starts a q') (nblock a) is'" for "is" q' is'
      using on_grid_starts(2) [OF assms(1), of q "is"] on_grid_starts(2) [OF assms(1), of q' is'] that Cons.prems assms(2) by auto
    then show ?case using Cons T by (fastforce simp: comp_def image_iff)
  qed simp
  from this [of "[0..n - 1]"] show "distinct (map snd (later a as n 0))" unfolding later_def by auto
qed

lemma coords_grid:
  "starts_ok as ps ss \<Longrightarrow> on_grid as ps ss is \<Longrightarrow> in_patch (map2 first as is) (map2 final as is) xs \<Longrightarrow>
   in_grid (shares as ps ss) (coords as ps ss is xs) \<and> grid_ok (shares as ps ss)"
proof (induction as arbitrary: ps ss "is" xs)
  case Nil
  then show ?case by (simp add: shares_def coords_def)
next
  case (Cons a as)
  obtain p ps' s ss' where ps: "ps = p # ps'" "ss = s # ss'" using starts_cases [OF Cons.prems(1)] by blast
  obtain i is' where i: "is = i # is'" using on_grid_cases [OF Cons.prems(1,2)] by blast
  obtain x xs' where x: "xs = x # xs'" using Cons.prems(3) i by (cases xs) auto
  have "0 \<le> before a p s i" "before a p s i + len a i \<le> share a p s" "first a i \<le> x" "x \<le> final a i"
    using axis_inside [of a s p i] Cons.prems ps i x by auto
  then show ?case using Cons.IH [of ps' ss' is' xs'] Cons.prems ps i x by (auto simp: shares_def coords_def len_def)
qed

lemma coords_inj:
  "starts_ok as ps ss \<Longrightarrow> on_grid as ps ss is \<Longrightarrow> on_grid as ps ss is' \<Longrightarrow>
   in_patch (map2 first as is) (map2 final as is) xs \<Longrightarrow> in_patch (map2 first as is') (map2 final as is') xs' \<Longrightarrow>
   coords as ps ss is xs = coords as ps ss is' xs' \<Longrightarrow> xs = xs'"
proof (induction as arbitrary: ps ss "is" is' xs xs')
  case Nil
  then show ?case by (cases xs; cases xs') auto
next
  case (Cons a as)
  obtain p ps' s ss' where ps: "ps = p # ps'" "ss = s # ss'" using starts_cases [OF Cons.prems(1)] by blast
  obtain i u where i: "is = i # u" using on_grid_cases [OF Cons.prems(1,2)] by blast
  obtain j v where j: "is' = j # v" using on_grid_cases [OF Cons.prems(1,3)] by blast
  obtain x xs2 where x: "xs = x # xs2" using Cons.prems(4) i by (cases xs) auto
  obtain y ys2 where y: "xs' = y # ys2" using Cons.prems(5) j by (cases xs') auto
  have ok: "valid a" "0 < s" "0 \<le> p" "p \<le> i" "i < count a" "s dvd i - p" "p \<le> j" "j < count a" "s dvd j - p"
    "first a i \<le> x" "x \<le> final a i" "first a j \<le> y" "y \<le> final a j"
    using Cons.prems ps i j x y by auto
  have e: "before a p s i + (x - first a i) = before a p s j + (y - first a j)"
    using Cons.prems(6) unfolding ps i j x y by (simp add: coords_def)
  have "i = j"
  proof (rule ccontr)
    assume "i \<noteq> j"
    then have "before a p s i + len a i \<le> before a p s j \<or> before a p s j + len a j \<le> before a p s i"
      using before_apart [OF ok(1-3), of i j] before_apart [OF ok(1-3), of j i] ok by (cases "i < j") auto
    then show False using e ok by (auto simp: len_def)
  qed
  then have "x = y" using e by simp
  moreover have "xs2 = ys2"
    using Cons.IH [of ps' ss' u v xs2 ys2] Cons.prems unfolding ps i j x y by (simp add: coords_def)
  ultimately show ?case using x y by simp
qed

lemma block_patch_size:
  "length is = length as \<Longrightarrow> prod_list (map2 (\<lambda>l h. h - l + 1) (map2 first as is) (map2 final as is)) = bsize as is"
proof (induction as arbitrary: "is")
  case (Cons a as)
  then obtain i is' where "is = i # is'" by (cases "is") auto
  then show ?case using Cons by (auto simp: len_def)
qed simp

lemma offset_bounds:
  assumes "tiled_by a as" "in_grid (num_blocks a) is" "in_patch (map2 first as is) (map2 final as is) xs"
  shows "0 \<le> offset_at a as is xs" "offset_at a as is xs < pshare as (starts_of a is) (nblock a)"
proof -
  let ?ps = "starts_of a is"
  note g = grid_starts [OF assms(1,2)]
  have s: "starts_ok as ?ps (nblock a)" using tiled_starts(1) [OF assms(1) g(4,5)] g(3) by simp
  have l: "length is = length as" using on_grid_length [OF s g(2)] .
  have sh: "prod_list (shares as ?ps (nblock a)) = pshare as ?ps (nblock a)" by (simp add: shares_def pshare_def)
  note c = coords_grid [OF s g(2) assms(3)]
  note t = toff_bound [OF s g(2)] block_offset_bounds(1) [OF assms(3)]
  show "0 \<le> offset_at a as is xs" "offset_at a as is xs < pshare as ?ps (nblock a)"
    using pos_bound [of "shares as ?ps (nblock a)" "coords as ?ps (nblock a) is xs"] c sh t block_patch_size [OF l] l
    by (auto simp: offset_at_def Let_def blk_at_def)
qed

lemma offset_inj:
  assumes "tiled_by a as" "in_grid (num_blocks a) is" "in_grid (num_blocks a) is'" "starts_of a is = starts_of a is'"
    "in_patch (map2 first as is) (map2 final as is) xs" "in_patch (map2 first as is') (map2 final as is') xs'"
    "offset_at a as is xs = offset_at a as is' xs'"
  shows "xs = xs'"
proof -
  let ?ps = "starts_of a is" let ?nb = "nblock a"
  note g = grid_starts [OF assms(1,2)] and g' = grid_starts [OF assms(1,3)]
  have s: "starts_ok as ?ps ?nb" using tiled_starts(1) [OF assms(1) g(4,5)] g(3) by simp
  have on': "on_grid as ?ps ?nb is'" using g'(2) assms(4) by simp
  have l: "length is = length as" "length is' = length as" using on_grid_length [OF s] g(2) on' by auto
  show ?thesis
  proof (cases "distr_type a = SCALAPACK")
    case True
    note c = coords_grid [OF s g(2) assms(5)] coords_grid [OF s on' assms(6)]
    have "pos (shares as ?ps ?nb) (coords as ?ps ?nb is xs) = pos (shares as ?ps ?nb) (coords as ?ps ?nb is' xs')"
      using assms(4,7) True by (simp add: offset_at_def Let_def)
    from arg_cong [OF this, of "gam_find_proc_indices (shares as ?ps ?nb)"]
    have "coords as ?ps ?nb is xs = coords as ?ps ?nb is' xs'" using c by (simp add: proc_indices_of_pos)
    then show ?thesis using coords_inj [OF s g(2) on' assms(5,6)] by simp
  next
    case False
    have b: "0 \<le> block_offset xs (map2 first as is) (map2 final as is) 1" "block_offset xs (map2 first as is) (map2 final as is) 1 < bsize as is"
      "0 \<le> block_offset xs' (map2 first as is') (map2 final as is') 1" "block_offset xs' (map2 first as is') (map2 final as is') 1 < bsize as is'"
      using block_offset_bounds(1) [OF assms(5)] block_offset_bounds(1) [OF assms(6)] block_patch_size l by auto
    have e: "toff as ?ps ?nb is + block_offset xs (map2 first as is) (map2 final as is) 1 =
        toff as ?ps ?nb is' + block_offset xs' (map2 first as is') (map2 final as is') 1"
      using assms(4,7) False by (simp add: offset_at_def Let_def blk_at_def)
    have i: "is = is'" using toff_apart [OF s g(2) on'] e b by fastforce
    then have "block_offset xs (map2 first as is) (map2 final as is) 1 = block_offset xs' (map2 first as is) (map2 final as is) 1"
      using e by simp
    then show ?thesis using block_offset_bounds(2) [OF assms(5), of xs'] assms(6) i by simp
  qed
qed

text \<open>The addressing of the local matrix of a ScaLAPACK array by the iterator is the column-major one.\<close>

definition sl_ok :: "global_array_t \<Rightarrow> 'a list \<Rightarrow> bool" where
  "sl_ok a as \<longleftrightarrow> (distr_type a = SCALAPACK \<longrightarrow> (\<forall>is xs. in_grid (num_blocks a) is \<longrightarrow>
     in_patch (map2 first as is) (map2 final as is) xs \<longrightarrow>
     sl_offset xs (map2 first as is) (map2 (*) (block_dims a) (nblock a)) (block_dims a)
       (sl_ld (starts_of a is) (nblock a) (block_dims a) (dims a)) 1 =
     pos (shares as (starts_of a is) (nblock a)) (coords as (starts_of a is) (nblock a) is xs)))"

definition sl_ld_ok :: "global_array_t \<Rightarrow> 'a list \<Rightarrow> bool" where
  "sl_ld_ok a as \<longleftrightarrow> (distr_type a = SCALAPACK \<longrightarrow> (\<forall>is. in_grid (num_blocks a) is \<longrightarrow>
     sl_ld (starts_of a is) (nblock a) (block_dims a) (dims a) = butlast (shares as (starts_of a is) (nblock a))))"

definition full :: "'a list \<Rightarrow> bool" where
  "full as \<longleftrightarrow> (\<forall>a\<in>set as. \<forall>i. 0 \<le> i \<longrightarrow> i < count a \<longrightarrow> first a i \<le> final a i)"

lemma tile_walk:
  "block_walk (gai_iterator_next st) (it_blocks st) (sits st g_a as lo hi) (tile_hit as lo hi) (tile_piece (ga st g_a) as lo hi)"
proof unfold_locales
  fix h x xs
  show "it_blocks st h = Option.bind (gai_iterator_next st h) (\<lambda>r. case r of Inl e \<Rightarrow> Some (Inl e)
       | Inr (h', None) \<Rightarrow> Some (Inr [])
       | Inr (h', Some b) \<Rightarrow> Option.bind (it_blocks st h') (\<lambda>r. Some (case r of Inl e \<Rightarrow> Inl e | Inr bs \<Rightarrow> Inr (b # bs))))"
    by (rule it_blocks.simps)
  show "gai_iterator_next st h = Some (Inr (h, None))" if "sits st g_a as lo hi [] h" using tile_end [OF that] .
  assume s: "sits st g_a as lo hi (x # xs) h"
  show "\<exists>h'. gai_iterator_next st h = Some (Inr (h', Some (tile_piece (ga st g_a) as lo hi x))) \<and> sits st g_a as lo hi xs h'"
    if "tile_hit as lo hi x" using tile_take [OF s that] .
  show "\<exists>h'. gai_iterator_next st h = gai_iterator_next st h' \<and> sits st g_a as lo hi xs h'"
    if "\<not> tile_hit as lo hi x" using tile_miss [OF s that] .
qed

lemma get_block_patch_length:
  "length l = length lo \<Longrightarrow> length h = length lo \<Longrightarrow> length hi = length lo \<Longrightarrow>
   length (fst (gam_GetBlockPatch (l, h) lo hi)) = length lo \<and> length (snd (gam_GetBlockPatch (l, h) lo hi)) = length lo"
  by (simp add: gam_GetBlockPatch_def)

lemma in_patch_length: "in_patch lo hi ss \<Longrightarrow> length lo = length ss \<and> length hi = length ss"
  by (induction lo hi ss rule: in_patch.induct) auto

lemma piece_address:
  assumes "tiled_by a as" "sl_ok a as" "in_grid (num_blocks a) is" "p = pos (nblock a) (starts_of a is)"
    "length lo = length as" "length hi = length as" "list_all2 (\<le>) lo hi" "tile_hit as lo hi (p, is)"
    "in_patch (ib_lo (tile_piece a as lo hi (p, is))) (ib_hi (tile_piece a as lo hi (p, is))) ss"
  shows "in_patch lo hi ss" "in_patch (map2 first as is) (map2 final as is) ss"
    "ib_ptr (tile_piece a as lo hi (p, is)) +
       strided ss (ib_lo (tile_piece a as lo hi (p, is))) (ib_ld (tile_piece a as lo hi (p, is))) 1 * elemsize a =
     ptr a ! nat p + offset_at a as is ss * elemsize a"
proof -
  let ?b = "blk_at as is" let ?c = "gam_GetBlockPatch ?b lo hi" let ?ps = "starts_of a is"
  note g = grid_starts [OF assms(1,3)]
  have s: "starts_ok as ?ps (nblock a)" using tiled_starts(1) [OF assms(1) g(4,5)] g(3) by simp
  have l: "length is = length as" using on_grid_length [OF s g(2)] .
  have pp: "proc_starts a p = ?ps" using g(3) assms(4) by simp
  have lo: "ib_lo (tile_piece a as lo hi (p, is)) = fst ?c" "ib_hi (tile_piece a as lo hi (p, is)) = snd ?c"
    by (simp_all add: tile_piece_def Let_def)
  have b: "?b = (map2 first as is, map2 final as is)" by (simp add: blk_at_def)
  have lb: "length (map2 first as is) = length lo" "length (map2 final as is) = length lo" "length hi = length lo" using l assms(5,6) by auto
  have hit: "it_overlap lo hi (map2 first as is, map2 final as is)" using assms(8) by (simp add: tile_hit_def blk_at_def)
  have both: "in_patch lo hi ss \<and> in_patch (map2 first as is) (map2 final as is) ss"
    using get_block_patch_iff [OF lb hit assms(7)] assms(9) unfolding lo b by blast
  then show "in_patch lo hi ss" and x: "in_patch (map2 first as is) (map2 final as is) ss" by auto
  have lc: "length (fst ?c) = length as" "length ss = length as"
    using get_block_patch_length [OF lb] in_patch_length [of lo hi ss] both assms(5) unfolding b by auto
  have lengths: "distr_type a = SCALAPACK \<longrightarrow> length (block_dims a) = length as" "length (nblock a) = length as"
    using assms(1) unfolding tiled_by_def by (metis length_map)+
  show "ib_ptr (tile_piece a as lo hi (p, is)) +
       strided ss (ib_lo (tile_piece a as lo hi (p, is))) (ib_ld (tile_piece a as lo hi (p, is))) 1 * elemsize a =
     ptr a ! nat p + offset_at a as is ss * elemsize a"
  proof (cases "distr_type a = SCALAPACK")
    case True
    let ?ld = "sl_ld ?ps (nblock a) (block_dims a) (dims a)" let ?u = "map2 (*) (block_dims a) (nblock a)"
    have "sl_offset (fst ?c) (fst ?b) ?u (block_dims a) ?ld 1 + strided ss (fst ?c) ?ld 1 = sl_offset ss (fst ?b) ?u (block_dims a) ?ld 1"
      using lc l lengths True by (intro sl_offset_strided) (simp_all add: b)
    moreover have "sl_offset ss (fst ?b) ?u (block_dims a) ?ld 1 = offset_at a as is ss"
      using assms(2,3) True x by (simp add: sl_ok_def offset_at_def Let_def b)
    ultimately show ?thesis using True pp unfolding lo by (simp add: tile_piece_def Let_def flip: distrib_right)
  next
    case False
    have "block_offset (fst ?c) (fst ?b) (snd ?b) 1 + strided ss (fst ?c) (block_strides ?b) 1 = block_offset ss (fst ?b) (snd ?b) 1"
      using lc l by (intro block_offset_strided) (simp_all add: b block_strides_def)
    then have "block_offset (fst ?c) (fst ?b) (snd ?b) 1 + toff as ?ps (nblock a) is + strided ss (fst ?c) (block_strides ?b) 1 = offset_at a as is ss"
      using False by (simp add: offset_at_def Let_def)
    then show ?thesis using False pp unfolding lo by (simp add: tile_piece_def Let_def flip: distrib_right)
  qed
qed

lemma len_shares:
  "starts_ok as ps ss \<Longrightarrow> on_grid as ps ss is \<Longrightarrow> list_all2 (\<le>) (map2 len as is) (shares as ps ss)"
proof (induction as arbitrary: ps ss "is")
  case Nil
  then show ?case by (simp add: shares_def)
next
  case (Cons a as)
  obtain p ps' s ss' where ps: "ps = p # ps'" "ss = s # ss'" using starts_cases [OF Cons.prems(1)] by blast
  obtain i is' where i: "is = i # is'" using on_grid_cases [OF Cons.prems(1,2)] by blast
  have "0 \<le> before a p s i" "before a p s i + len a i \<le> share a p s" using axis_inside [of a s p i] Cons.prems ps i by auto
  then show ?case using Cons.IH [of ps' ss' is'] Cons.prems ps i by (simp add: shares_def)
qed

lemma piece_roomy:
  assumes "tiled_by a as" "sl_ld_ok a as" "full as" "in_grid (num_blocks a) is" "p = pos (nblock a) (starts_of a is)"
    "length lo = length as" "length hi = length as" "list_all2 (\<le>) lo hi" "tile_hit as lo hi (p, is)"
  shows "roomy (tile_piece a as lo hi (p, is)) (pshare as (proc_starts a p) (nblock a))"
proof -
  let ?l = "map2 first as is" let ?h = "map2 final as is" let ?c = "gam_GetBlockPatch (?l, ?h) lo hi" let ?ps = "starts_of a is"
  note g = grid_starts [OF assms(1,4)]
  have s: "starts_ok as ?ps (nblock a)" using tiled_starts(1) [OF assms(1) g(4,5)] g(3) by simp
  have l: "length is = length as" using on_grid_length [OF s g(2)] .
  have pp: "proc_starts a p = ?ps" using g(3) assms(5) by simp
  have ne: "as \<noteq> []" "map count as = num_blocks a" using assms(1) by (auto simp: tiled_by_def)
  have "0 \<le> is ! k \<and> is ! k < count (as ! k)" if "k < length as" for k
    using assms(4) that l unfolding ne(2) [symmetric] in_grid_def by (simp add: list_all2_conv_all_nth)
  then have "list_all2 (\<le>) ?l ?h" using assms(3) l by (simp add: full_def list_all2_conv_all_nth)
  moreover have "it_overlap lo hi (?l, ?h)" using assms(9) by (simp add: tile_hit_def blk_at_def)
  ultimately have c: "in_patch (fst ?c) (snd ?c) (fst ?c)" "list_all2 (\<le>) (sizes (fst ?c) (snd ?c)) (sizes ?l ?h)"
    using get_block_patch_fits [of ?l lo ?h hi] assms(6-8) l by auto
  have z: "sizes ?l ?h = map2 len as is" using l by (intro nth_equalityI) (simp_all add: sizes_def len_def)
  have b: "ib_lo (tile_piece a as lo hi (p, is)) = fst ?c" "ib_hi (tile_piece a as lo hi (p, is)) = snd ?c"
    by (simp_all add: tile_piece_def Let_def blk_at_def)
  have "fst ?c \<noteq> []" using get_block_patch_length [of ?l lo ?h hi] l assms(6,7) ne(1) by auto
  moreover have "\<exists>L. list_all2 (\<le>) (sizes (fst ?c) (snd ?c)) L \<and> take (length L - 1) (ib_ld (tile_piece a as lo hi (p, is))) = butlast L \<and>
      prod_list L \<le> pshare as ?ps (nblock a)"
  proof (cases "distr_type a = SCALAPACK")
    case True
    then have "ib_ld (tile_piece a as lo hi (p, is)) = butlast (shares as ?ps (nblock a))"
      using assms(2,4) pp by (simp add: tile_piece_def Let_def sl_ld_ok_def)
    moreover have "list_all2 (\<le>) (sizes (fst ?c) (snd ?c)) (shares as ?ps (nblock a))"
      using list_all2_trans [OF _ c(2), of "(\<le>)" "(\<le>)"] len_shares [OF s g(2)] unfolding z by (meson order_trans list_all2_trans)
    ultimately show ?thesis by (intro exI [of _ "shares as ?ps (nblock a)"]) (simp add: shares_def pshare_def)
  next
    case False
    then have "ib_ld (tile_piece a as lo hi (p, is)) = (if length (sizes ?l ?h) = 1 then sizes ?l ?h else butlast (sizes ?l ?h))"
      by (simp add: tile_piece_def Let_def block_strides_def blk_at_def sizes_def)
    moreover have "prod_list (sizes ?l ?h) \<le> pshare as ?ps (nblock a)" using toff_bound [OF s g(2)] unfolding z by (simp add: bsize_def)
    ultimately show ?thesis using c(2) by (intro exI [of _ "sizes ?l ?h"]) (auto simp: butlast_conv_take)
  qed
  ultimately show ?thesis using c(1) unfolding roomy_def b pp by blast
qed

lemma tile_hits:
  assumes "tiled_by a as" "n = prod_list (nblock a)" "x \<in> set (filter (tile_hit as lo hi) (later a as n 0))"
  shows "\<exists>is. x = (pos (nblock a) (starts_of a is), is) \<and> in_grid (num_blocks a) is \<and> tile_hit as lo hi x"
  using assms(3) later_set(1) [OF assms(1,2)] by auto

lemma piece_elems:
  assumes "tiled_by a as" "in_grid (num_blocks a) is" "length lo = length as" "length hi = length as" "list_all2 (\<le>) lo hi"
    "tile_hit as lo hi (p, is)" "\<And>ss. in_patch lo hi ss \<Longrightarrow> in_patch (replicate (length as) 1) (map extent as) ss"
  shows "in_patch (ib_lo (tile_piece a as lo hi (p, is))) (ib_hi (tile_piece a as lo hi (p, is))) ss \<longleftrightarrow>
    in_patch lo hi ss \<and> map2 find as ss = is"
proof -
  have t: "list_all valid as" and g: "in_grid (map count as) is" using assms(1,2) by (auto simp: tiled_by_def)
  have "length (map2 first as is) = length lo" "length (map2 final as is) = length lo" using in_grid_length [OF g] assms(3) by auto
  then have "in_patch (ib_lo (tile_piece a as lo hi (p, is))) (ib_hi (tile_piece a as lo hi (p, is))) ss \<longleftrightarrow>
      in_patch lo hi ss \<and> in_patch (map2 first as is) (map2 final as is) ss"
    using get_block_patch_iff [of "map2 first as is" lo "map2 final as is" hi ss] assms(3-6)
    by (simp add: tile_piece_def Let_def tile_hit_def blk_at_def)
  then show ?thesis using holds_iff [OF t assms(7) g] by auto
qed

lemma tiles_serve:
  assumes "tiled_by a as" "sl_ok a as" "n = prod_list (nblock a)" "length lo = length as" "length hi = length as" "list_all2 (\<le>) lo hi"
    and sub: "\<And>ss. in_patch lo hi ss \<Longrightarrow> in_patch (replicate (length as) 1) (map extent as) ss"
  shows "serves (place a as) a lo hi (map (tile_piece a as lo hi) (filter (tile_hit as lo hi) (later a as n 0)))"
proof (rule serves_map [where owner = "map2 find as" and g = snd])
  let ?Q = "filter (tile_hit as lo hi) (later a as n 0)"
  have t: "list_all valid as" "map count as = num_blocks a" using assms(1) by (auto simp: tiled_by_def)
  show "distinct (map snd ?Q)" using later_set(2) [OF assms(1,3)] by (simp add: distinct_map_filter)
  fix ss
  show key: "in_patch (ib_lo (tile_piece a as lo hi x)) (ib_hi (tile_piece a as lo hi x)) ss \<longleftrightarrow> in_patch lo hi ss \<and> map2 find as ss = snd x"
    if "x \<in> set ?Q" for x
    using tile_hits [OF assms(1,3) that] piece_elems [OF assms(1) _ assms(4-6) _ sub] by auto
  show "map2 find as ss \<in> snd ` set ?Q" if ss: "in_patch lo hi ss"
  proof -
    let ?is = "map2 find as ss"
    have g: "in_grid (map count as) ?is" using found_in_grid [OF t(1) sub [OF ss]] .
    have "in_patch (map2 first as ?is) (map2 final as ?is) ss" using holds_iff [OF t(1) sub [OF ss] g] by simp
    then have "tile_hit as lo hi (p, ?is)" for p using overlap_common [OF ss] by (simp add: tile_hit_def blk_at_def)
    moreover have "(pos (nblock a) (starts_of a ?is), ?is) \<in> set (later a as n 0)"
      unfolding later_set(1) [OF assms(1,3)] using g t(2) by auto
    ultimately have "(pos (nblock a) (starts_of a ?is), ?is) \<in> set ?Q" by simp
    then show ?thesis by (metis image_eqI snd_conv)
  qed
  fix x assume x: "x \<in> set ?Q" and ss: "in_patch (ib_lo (tile_piece a as lo hi x)) (ib_hi (tile_piece a as lo hi x)) ss"
  obtain "is" where e: "x = (pos (nblock a) (starts_of a is), is)" "in_grid (num_blocks a) is" "tile_hit as lo hi x"
    using tile_hits [OF assms(1,3) x] by blast
  have "is = map2 find as ss" using key [OF x] ss e(1) by simp
  then show "fst (place a as ss) = ib_proc (tile_piece a as lo hi x) \<and>
      ib_ptr (tile_piece a as lo hi x) + strided ss (ib_lo (tile_piece a as lo hi x)) (ib_ld (tile_piece a as lo hi x)) 1 * elemsize a =
      ptr a ! nat (ib_proc (tile_piece a as lo hi x)) + snd (place a as ss) * elemsize a"
    using piece_address(3) [OF assms(1,2) e(2) refl assms(4-6) e(3) [unfolded e(1)] ss [unfolded e(1)]] e(1)
    by (simp add: place_def Let_def) (simp add: tile_piece_def Let_def)
qed

lemma tile_serves:
  assumes "tiled_by (ga st g_a) as" "sl_ok (ga st g_a) as" "sits st g_a as lo hi (later (ga st g_a) as (GAnproc st) 0) h"
    "subscript_of (ga st g_a) lo" "subscript_of (ga st g_a) hi" "list_all2 (\<le>) lo hi" "prod_list (nblock (ga st g_a)) = GAnproc st"
  shows "\<exists>bs h'. walks (gai_iterator_next st) h bs h' \<and> sits st g_a as lo hi [] h' \<and> serves (place (ga st g_a) as) (ga st g_a) lo hi bs \<and>
    (\<forall>b\<in>set bs. 0 \<le> ib_proc b \<and> ib_proc b < GAnproc st \<and>
      (sl_ld_ok (ga st g_a) as \<and> full as \<longrightarrow> roomy b (pshare as (proc_starts (ga st g_a) (ib_proc b)) (nblock (ga st g_a)))))"
proof -
  let ?a = "ga st g_a" let ?Q = "filter (tile_hit as lo hi) (later ?a as (GAnproc st) 0)"
  have t: "list_all valid as" "map extent as = dims ?a" using assms(1) by (auto simp: tiled_by_def)
  have d: "length (dims ?a) = length as" using t(2) by (metis length_map)
  have len: "length lo = length as" "length hi = length as"
    using in_patch_length [OF assms(4) [unfolded subscript_of_def]] in_patch_length [OF assms(5) [unfolded subscript_of_def]] d by auto
  have "in_patch (replicate (length as) 1) (map extent as) lo" "in_patch (replicate (length as) 1) (map extent as) hi"
    using assms(4,5) unfolding subscript_of_def d t(2) .
  note sv = tiles_serve [OF assms(1,2) assms(7) [symmetric] len assms(6) patch_inside [OF t(1) this]]
  have room: "0 \<le> ib_proc b \<and> ib_proc b < GAnproc st \<and>
      (sl_ld_ok ?a as \<and> full as \<longrightarrow> roomy b (pshare as (proc_starts ?a (ib_proc b)) (nblock ?a)))"
    if b: "b \<in> set (map (tile_piece ?a as lo hi) ?Q)" for b
  proof -
    obtain x where x: "x \<in> set ?Q" "b = tile_piece ?a as lo hi x" using b by (auto simp del: set_filter)
    obtain "is" where q: "x = (pos (nblock ?a) (starts_of ?a is), is)" "in_grid (num_blocks ?a) is" "tile_hit as lo hi x"
      using tile_hits [OF assms(1) assms(7) [symmetric] x(1)] by blast
    have "ib_proc b = pos (nblock ?a) (starts_of ?a is)" using x(2) q(1) by (simp add: tile_piece_def Let_def)
    then show ?thesis
      using grid_starts(4,5) [OF assms(1) q(2)] piece_roomy [OF assms(1) _ _ q(2) refl len assms(6) q(3) [unfolded q(1)]] assms(7) x(2) q(1) by simp
  qed
  have "\<exists>h'. walks (gai_iterator_next st) h (map (tile_piece ?a as lo hi) ?Q) h' \<and> sits st g_a as lo hi [] h'"
    using block_walk.walk_blocks [OF tile_walk assms(3)] .
  then show ?thesis using sv room by blast
qed

end

end
