(* ===== verification/GA_Regular.thy ===== *)
theory GA_Regular
  imports GA_Layout "HOL-Library.Multiset"
begin

text \<open>
  The iterator over regular arrays: the shuffled list of processes is a permutation, the walk is an instance of the
  contract of an iterator, and the blocks lead to the places of the elements in the blocks of their owners, ghost
  cells included.
\<close>

section \<open>The order of the processes\<close>

lemma mset_swap_at: "i < length xs \<Longrightarrow> j < length xs \<Longrightarrow> mset (swap_at xs i j) = mset xs"
  unfolding swap_at_def by (simp add: mset_swap)

lemma foldl_swap_mset:
  "(\<And>i. i \<in> set is \<Longrightarrow> i < length xs \<and> f i < length xs) \<Longrightarrow> mset (foldl (\<lambda>xs i. swap_at xs (f i) i) xs is) = mset xs"
proof (induction "is" arbitrary: xs)
  case (Cons i "is")
  have "length (swap_at xs (f i) i) = length xs" by (simp add: swap_at_def)
  then show ?case using Cons.IH [of "swap_at xs (f i) i"] Cons.prems mset_swap_at [of "f i" xs i] by simp
qed simp

lemma abs_cmod_less: "0 < b \<Longrightarrow> \<bar>cmod a b\<bar> < b"
proof (cases "0 \<le> a")
  case False
  assume b: "0 < b"
  have "cmod a b = - (- a mod b)" using False b by (simp add: cmod_def cdiv_def minus_div_mult_eq_mod [symmetric])
  then show ?thesis using b pos_mod_bound [OF b, of "- a"] pos_mod_sign [OF b, of "- a"] by linarith
qed (simp add: abs_of_nonneg)

lemma permute_mset:
  assumes "0 \<le> n" "n \<le> GAnproc st" "GAnproc st \<le> 2147483648"
  shows "\<exists>perm. gaPermuteProcList rnd n st = Inr perm \<and> mset perm = mset [0..n - 1]"
proof (cases "n = 1")
  case False
  have "nat (s32 (cmod (rnd i) n)) < nat n" if "0 < n" for i
  proof -
    have "\<bar>cmod (rnd i) n\<bar> < n" using that by (rule abs_cmod_less)
    then have "s32 (cmod (rnd i) n) = cmod (rnd i) n" using assms by (intro s32_id) auto
    then show ?thesis using \<open>\<bar>cmod (rnd i) n\<bar> < n\<close> by auto
  qed
  then have "mset (foldl (\<lambda>xs i. swap_at xs (nat (s32 (cmod (rnd i) n))) i) [0..n - 1] [0..<nat n]) = mset [0..n - 1]"
    by (intro foldl_swap_mset) auto
  then show ?thesis using False assms by (simp add: gaPermuteProcList_def)
qed (simp add: gaPermuteProcList_def)

section \<open>Places\<close>

definition reg_place :: "global_array_t \<Rightarrow> int list \<Rightarrow> int \<times> int" where
  "reg_place a ss =
     (let k = map_owner a (nblock a) ss; b = ga_ownsM a k in (proc_of a k, loc_offset ss (fst b) (snd b) (width a) 1))"

text \<open>The elements of a block with its ghost cells.\<close>

definition block_elems :: "global_array_t \<Rightarrow> int \<Rightarrow> int" where
  "block_elems a k = prod_list (map2 (\<lambda>n w. n + 2 * w) (sizes (fst (ga_ownsM a k)) (snd (ga_ownsM a k))) (width a))"

definition regular_spread :: "ga_state \<Rightarrow> global_array_t \<Rightarrow> bool" where
  "regular_spread st a \<longleftrightarrow> regular_ok a \<and> restricted_ok a \<and> p_handle a = -1 \<and> ndim a = int (length (dims a)) \<and>
     length (width a) = length (dims a) \<and> (\<forall>w\<in>set (width a). 0 \<le> w) \<and>
     prod_list (nblock a) \<le> GAnproc st \<and> GAnproc st \<le> 2147483648 \<and>
     (num_rstrctd a > 0 \<longrightarrow> (\<forall>p\<in>set (the (rstrctd_list a)). 0 \<le> p \<and> p < GAnproc st)) \<and>
     0 < elemsize a \<and> (\<forall>k. 0 \<le> k \<longrightarrow> k < prod_list (nblock a) \<longrightarrow> elemsize a * block_elems a k \<le> MAX_INT_VALUE)"

lemma spread_proc:
  assumes "regular_spread st a" "0 \<le> k" "k < prod_list (nblock a)"
  shows "0 \<le> proc_of a k" "proc_of a k < GAnproc st" "s32 (proc_of a k) = proc_of a k"
    "(if num_rstrctd a = 0 then proc_of a k else the (rank_rstrctd a) ! nat (proc_of a k)) = k"
    "(if num_rstrctd a = 0 then k else the (rstrctd_list a) ! nat k) = proc_of a k"
proof -
  have r: "restricted_ok a" "prod_list (nblock a) \<le> GAnproc st" "GAnproc st \<le> 2147483648"
    "num_rstrctd a > 0 \<longrightarrow> (\<forall>p\<in>set (the (rstrctd_list a)). 0 \<le> p \<and> p < GAnproc st)"
    using assms(1) by (auto simp: regular_spread_def)
  have "0 \<le> proc_of a k \<and> proc_of a k < GAnproc st"
  proof (cases "num_rstrctd a > 0")
    case True
    then have "nat k < length (the (rstrctd_list a))" using r(1) assms(2,3) by (auto simp: restricted_ok_def)
    then show ?thesis using r(4) True by (simp add: proc_of_def)
  qed (use assms r in \<open>simp add: proc_of_def\<close>)
  then show "0 \<le> proc_of a k" "proc_of a k < GAnproc st" "s32 (proc_of a k) = proc_of a k"
    using r(3) by (auto intro!: s32_id)
  have "num_rstrctd a \<ge> 0" using r(1) by (auto simp: restricted_ok_def)
  then show "(if num_rstrctd a = 0 then proc_of a k else the (rank_rstrctd a) ! nat (proc_of a k)) = k"
    "(if num_rstrctd a = 0 then k else the (rstrctd_list a) ! nat k) = proc_of a k"
    using proc_of_rank [OF r(1) proc_of_known [OF r(1) assms(2,3)] assms(2,3)] by (auto simp: proc_of_def)
qed

text \<open>The block of an owner, and the offsets of its elements.\<close>

lemma loc_offset_layout:
  assumes "in_patch l h ss" "length w = length l" "\<forall>x\<in>set w. 0 \<le> x"
  shows "0 \<le> loc_offset ss l h w 1" "loc_offset ss l h w 1 < prod_list (map2 (\<lambda>n w. n + 2 * w) (sizes l h) w)"
    "in_patch l h ss' \<Longrightarrow> loc_offset ss l h w 1 = loc_offset ss' l h w 1 \<longleftrightarrow> ss = ss'"
proof -
  let ?g = "map2 (\<lambda>n w. n + 2 * w) (sizes l h) w"
  have o: "loc_offset t l h w 1 = pos ?g (map2 (+) (shift l t) w)" if "in_patch l h t" for t
    using loc_offset_pos [OF that assms(2)] by simp
  note g = padded_grid [OF assms]
  show "0 \<le> loc_offset ss l h w 1" "loc_offset ss l h w 1 < prod_list ?g"
    using pos_bound [of ?g "map2 (+) (shift l ss) w"] g unfolding o [OF assms(1)] by auto
  show "loc_offset ss l h w 1 = loc_offset ss' l h w 1 \<longleftrightarrow> ss = ss'" if p: "in_patch l h ss'"
    using proc_indices_of_pos [of ?g] g padded_grid [OF p assms(2,3)] padded_inj [OF assms(1) p assms(2)]
    unfolding o [OF assms(1)] o [OF p] by metis
qed

lemma loc_offset_strided:
  "length c = length l \<Longrightarrow> length h = length l \<Longrightarrow> length w = length l \<Longrightarrow> length ss = length l \<Longrightarrow>
   loc_offset c l h w f + strided ss c (loc_ld l h w) f = loc_offset ss l h w f"
proof (induction l arbitrary: c h w ss f)
  case (Cons l ls)
  then obtain c' cs h' hs w' ws s' ss' where e: "c = c' # cs" "h = h' # hs" "w = w' # ws" "ss = s' # ss'"
    by (metis length_Suc_conv)
  have k: "(c' - l + w') * f + (s' - c') * f = (s' - l + w') * f" by (simp add: algebra_simps)
  show ?case
  proof (cases ls)
    case Nil
    then show ?thesis using Cons.prems e k by simp
  next
    case (Cons l2 ls2)
    then obtain h2 hs2 w2 ws2 where h2: "hs = h2 # hs2" "ws = w2 # ws2" using Cons.prems e by (cases hs; cases ws) auto
    have ld: "loc_ld (l # ls) (h' # hs) (w' # ws) =
        (h' - l + 1 + 2 * w') # butlast (map (\<lambda>(l, h, w). h - l + 1 + 2 * w) (zip ls (zip hs ws)))"
      using Cons h2 by (simp add: loc_ld_def)
    have st: "strided ss' cs (butlast (map (\<lambda>(l, h, w). h - l + 1 + 2 * w) (zip ls (zip hs ws)))) f' = strided ss' cs (loc_ld ls hs ws) f'" for f'
    proof (cases ls2)
      case Nil
      then obtain a b where "cs = [a]" "ss' = [b]" using Cons Cons.prems e by (auto simp: length_Suc_conv)
      then show ?thesis by simp
    next
      case (Cons l3 ls3)
      then show ?thesis using \<open>ls = l2 # ls2\<close> Cons.prems e h2 by (cases hs2; cases ws2) (auto simp: loc_ld_def)
    qed
    have "loc_offset cs ls hs ws (f * (h' - l + 1 + 2 * w')) + strided ss' cs (loc_ld ls hs ws) (f * (h' - l + 1 + 2 * w')) =
        loc_offset ss' ls hs ws (f * (h' - l + 1 + 2 * w'))"
      using Cons.prems e by (intro Cons.IH) simp_all
    then show ?thesis using k unfolding e ld loc_offset.simps strided.simps list.sel st by linarith
  qed
qed simp

lemma reg_block:
  assumes "regular_spread st a" "subscript_of a ss"
  defines "k \<equiv> map_owner a (nblock a) ss"
  shows "0 \<le> k" "k < prod_list (nblock a)" "in_patch (fst (ga_ownsM a k)) (snd (ga_ownsM a k)) ss"
    "length (fst (ga_ownsM a k)) = length (dims a)" "length (snd (ga_ownsM a k)) = length (dims a)"
proof -
  have r: "regular_ok a" "restricted_ok a" "mapped a (nblock a)" using assms(1) by (auto simp: regular_spread_def regular_ok_def)
  show k: "0 \<le> k" "k < prod_list (nblock a)" using map_owner_range [OF r(3) assms(2)] by (auto simp: k_def)
  show p: "in_patch (fst (ga_ownsM a k)) (snd (ga_ownsM a k)) ss" using regular_block_iff [OF r(1,2) assms(2)] by (simp add: k_def)
  show "length (fst (ga_ownsM a k)) = length (dims a)" "length (snd (ga_ownsM a k)) = length (dims a)"
    using in_patch_lengths [OF p] in_patch_lengths [OF assms(2) [unfolded subscript_of_def]] by auto
qed

lemma reg_place_ok:
  assumes "regular_spread st a" "subscript_of a ss"
  shows "0 \<le> fst (reg_place a ss)" "fst (reg_place a ss) < GAnproc st" "0 \<le> snd (reg_place a ss)"
    "snd (reg_place a ss) < block_elems a (map_owner a (nblock a) ss)"
    "fst (reg_place a ss) = proc_of a (map_owner a (nblock a) ss)"
proof -
  note b = reg_block [OF assms]
  have w: "length (width a) = length (dims a)" "\<forall>x\<in>set (width a). 0 \<le> x" using assms(1) by (auto simp: regular_spread_def)
  show "0 \<le> fst (reg_place a ss)" "fst (reg_place a ss) < GAnproc st" "0 \<le> snd (reg_place a ss)"
    "snd (reg_place a ss) < block_elems a (map_owner a (nblock a) ss)"
    "fst (reg_place a ss) = proc_of a (map_owner a (nblock a) ss)"
    using spread_proc [OF assms(1) b(1,2)] loc_offset_layout [OF b(3) _ w(2)] b(4) w(1)
    by (simp_all add: reg_place_def Let_def block_elems_def)
qed

lemma reg_place_inj:
  assumes "regular_spread st a"
  shows "inj_on (reg_place a) {ss. subscript_of a ss}"
proof (rule inj_onI)
  fix ss ss' assume "ss \<in> {ss. subscript_of a ss}" "ss' \<in> {ss. subscript_of a ss}" and e: "reg_place a ss = reg_place a ss'"
  then have s: "subscript_of a ss" "subscript_of a ss'" by auto
  note b = reg_block [OF assms s(1)] and b' = reg_block [OF assms s(2)]
  have w: "length (width a) = length (dims a)" "\<forall>x\<in>set (width a). 0 \<le> x" using assms by (auto simp: regular_spread_def)
  have k: "map_owner a (nblock a) ss = map_owner a (nblock a) ss'"
    using spread_proc(4) [OF assms b(1,2)] spread_proc(4) [OF assms b'(1,2)] reg_place_ok(5) [OF assms s(1)]
      reg_place_ok(5) [OF assms s(2)] e by metis
  then have "loc_offset ss (fst (ga_ownsM a (map_owner a (nblock a) ss))) (snd (ga_ownsM a (map_owner a (nblock a) ss))) (width a) 1 =
      loc_offset ss' (fst (ga_ownsM a (map_owner a (nblock a) ss))) (snd (ga_ownsM a (map_owner a (nblock a) ss))) (width a) 1"
    using e by (simp add: reg_place_def Let_def)
  then show "ss = ss'" using loc_offset_layout(3) [OF b(3) _ w(2), of ss'] b(4) w(1) b'(3) k by simp
qed

section \<open>The walk\<close>

text \<open>The pieces of a patch, and the block that the iterator returns for one.\<close>

definition good_pieces :: "global_array_t \<Rightarrow> piece list \<Rightarrow> bool" where
  "good_pieces a ps \<longleftrightarrow> (\<forall>(p, l, h)\<in>set ps. length l = length (dims a) \<and> length h = length (dims a) \<and>
     (\<exists>k. 0 \<le> k \<and> k < prod_list (nblock a) \<and> p = proc_of a k \<and>
       (\<forall>ss. in_patch l h ss \<longrightarrow> in_patch (fst (ga_ownsM a k)) (snd (ga_ownsM a k)) ss)))"

definition reg_hit :: "piece list \<Rightarrow> int \<Rightarrow> bool" where
  "reg_hit ps i \<longleftrightarrow> \<not> list_ex (\<lambda>(l, u). u < l) (zip (fst (snd (ps ! nat i))) (snd (snd (ps ! nat i))))"

definition reg_piece :: "global_array_t \<Rightarrow> piece list \<Rightarrow> int \<Rightarrow> it_block" where
  "reg_piece a ps i =
     (let (p, l, h) = ps ! nat i; k = (if num_rstrctd a = 0 then p else the (rank_rstrctd a) ! nat p); b = ga_ownsM a k
      in \<lparr>ib_proc = p, ib_lo = l, ib_hi = h, ib_ptr = ptr a ! nat p + loc_offset l (fst b) (snd b) (width a) 1 * elemsize a,
          ib_ld = loc_ld (fst b) (snd b) (width a)\<rparr>)"

definition reg_sits :: "ga_state \<Rightarrow> int \<Rightarrow> piece list \<Rightarrow> int list \<Rightarrow> int list \<Rightarrow> iterator_hdl \<Rightarrow> bool" where
  "reg_sits st g_a ps perm xs h \<longleftrightarrow> proclistperm h = perm \<and> regular_spread st (ga st g_a) \<and> good_pieces (ga st g_a) ps \<and>
     it_g_a h = g_a \<and> oversize h = 0 \<and> it_nproc h = int (length ps) \<and> it_map h = concat (map (\<lambda>(_, l, u). l @ u) ps) \<and>
     proclist h = map fst ps \<and> 0 \<le> it_count h \<and> length (proclistperm h) = length ps \<and>
     (\<forall>i\<in>set (proclistperm h). 0 \<le> i \<and> i < int (length ps)) \<and> xs = drop (nat (it_count h)) (proclistperm h)"

lemma range_from_map:
  assumes "\<forall>(p, l, h)\<in>set ps. length l = n \<and> length h = n" "0 \<le> i" "i < int (length ps)"
  shows "gam_GetRangeFromMap (concat (map (\<lambda>(_, l, u). l @ u) ps)) i (int n) = snd (ps ! nat i)"
proof -
  have "drop (j * n * 2) (concat (map (\<lambda>(_, l, u). l @ u) ps)) = concat (map (\<lambda>(_, l, u). l @ u) (drop j ps))" for j
    using assms(1)
  proof (induction j arbitrary: ps)
    case (Suc j)
    show ?case
    proof (cases ps)
      case (Cons x xs)
      obtain p l u where x: "x = (p, l, u)" by (cases x) auto
      have "length (l @ u) = n * 2" using Suc.prems Cons x by simp
      then have "drop (Suc j * n * 2) (concat (map (\<lambda>(_, l, u). l @ u) ps)) = drop (j * n * 2) (concat (map (\<lambda>(_, l, u). l @ u) xs))"
        using Cons x by (simp add: algebra_simps)
      then show ?thesis using Suc.IH [of xs] Suc.prems Cons by simp
    qed simp
  qed simp
  from this [of "nat i"] have d: "drop (nat i * n * 2) (concat (map (\<lambda>(_, l, u). l @ u) ps)) =
      concat (map (\<lambda>(_, l, u). l @ u) (ps ! nat i # drop (Suc (nat i)) ps))"
    using assms(2,3) by (simp add: Cons_nth_drop_Suc)
  obtain p l u where x: "ps ! nat i = (p, l, u)" by (cases "ps ! nat i") auto
  have "ps ! nat i \<in> set ps" using assms(2,3) by simp
  then have "length l = n" "length u = n" using assms(1) x by auto
  moreover have "nat (i * int n * 2) = nat i * n * 2" using assms(2) by (simp add: nat_mult_distrib)
  ultimately show ?thesis using d x by (simp add: gam_GetRangeFromMap_def)
qed

lemma nonempty_corner:
  "length h = length l \<Longrightarrow> \<not> list_ex (\<lambda>(l, u). u < l) (zip l h) \<longleftrightarrow> in_patch l h l"
  "length h = length l \<Longrightarrow> in_patch l h l \<Longrightarrow> in_patch l h h"
  by (induction h l rule: list_induct2) auto

lemma piece_small:
  "in_patch l h l \<Longrightarrow> in_patch L H l \<Longrightarrow> in_patch L H h \<Longrightarrow> length w = length L \<Longrightarrow> \<forall>x\<in>set w. 0 \<le> x \<Longrightarrow>
   0 < prod_list (map2 (\<lambda>l u. u - l + 1) l h) \<and>
   prod_list (map2 (\<lambda>l u. u - l + 1) l h) \<le> prod_list (map2 (\<lambda>n w. n + 2 * w) (sizes L H) w)"
proof (induction l arbitrary: h L H w)
  case (Cons l lo)
  obtain h0 hi L0 L' H0 H' where e: "h = h0 # hi" "L = L0 # L'" "H = H0 # H'"
    using Cons.prems(1,2) by (cases h; cases L; cases H) auto
  obtain w0 w' where w: "w = w0 # w'" using Cons.prems(4) e by (cases w) auto
  have ih: "0 < prod_list (map2 (\<lambda>l u. u - l + 1) lo hi)"
    "prod_list (map2 (\<lambda>l u. u - l + 1) lo hi) \<le> prod_list (map2 (\<lambda>n w. n + 2 * w) (sizes L' H') w')"
    using Cons.IH [of hi L' H' w'] Cons.prems e w by auto
  have "(h0 - l + 1) * prod_list (map2 (\<lambda>l u. u - l + 1) lo hi) \<le> (H0 - L0 + 1 + 2 * w0) * prod_list (map2 (\<lambda>n w. n + 2 * w) (sizes L' H') w')"
    using Cons.prems e w ih by (intro mult_mono) auto
  moreover have "0 < (h0 - l + 1) * prod_list (map2 (\<lambda>l u. u - l + 1) lo hi)" using Cons.prems e ih by (intro mult_pos_pos) auto
  ultimately show ?case using e w by (simp add: sizes_def)
next
  case Nil
  then show ?case by (cases h; cases L; cases H) (auto simp: sizes_def)
qed

text \<open>What is known at a position of the walk.\<close>

lemma reg_sits_Cons:
  assumes "reg_sits st g_a ps perm (x # xs) h"
  defines "a \<equiv> ga st g_a"
  obtains p l u k where "ps ! nat x = (p, l, u)" "0 \<le> k" "k < prod_list (nblock a)" "p = proc_of a k"
    "length l = length (dims a)" "length u = length (dims a)"
    "\<And>ss. in_patch l u ss \<Longrightarrow> in_patch (fst (ga_ownsM a k)) (snd (ga_ownsM a k)) ss"
    "regular_spread st a" "it_g_a h = g_a" "0 \<le> x" "x < int (length ps)" "it_count h < it_nproc h"
    "proclistperm h ! nat (it_count h) = x" "gam_GetRangeFromMap (it_map h) x (ndim a) = (l, u)" "proclist h ! nat x = p"
    "reg_sits st g_a ps perm xs (count_block h)" "distr_type a = REGULAR"
proof -
  have s: "regular_spread st a" "good_pieces a ps" "it_g_a h = g_a" "oversize h = 0" "it_nproc h = int (length ps)"
    "it_map h = concat (map (\<lambda>(_, l, u). l @ u) ps)" "proclist h = map fst ps" "0 \<le> it_count h"
    "length (proclistperm h) = length ps" "\<forall>i\<in>set (proclistperm h). 0 \<le> i \<and> i < int (length ps)"
    "x # xs = drop (nat (it_count h)) (proclistperm h)" using assms(1) by (auto simp: reg_sits_def a_def)
  have c: "nat (it_count h) < length ps"
  proof (rule ccontr)
    assume "\<not> nat (it_count h) < length ps"
    then show False using s(9,11) by simp
  qed
  then have d: "drop (nat (it_count h)) (proclistperm h) = proclistperm h ! nat (it_count h) # drop (Suc (nat (it_count h))) (proclistperm h)"
    using s(9) by (simp add: Cons_nth_drop_Suc)
  have x: "proclistperm h ! nat (it_count h) = x" "xs = drop (Suc (nat (it_count h))) (proclistperm h)" using s(11) d by auto
  have r: "0 \<le> x" "x < int (length ps)" using s(9,10) c x(1) nth_mem [of "nat (it_count h)" "proclistperm h"] by auto
  obtain p l u where p: "ps ! nat x = (p, l, u)" by (cases "ps ! nat x") auto
  have "(p, l, u) \<in> set ps" using r p nth_mem [of "nat x" ps] by auto
  then obtain k where k: "length l = length (dims a)" "length u = length (dims a)" "0 \<le> k" "k < prod_list (nblock a)" "p = proc_of a k"
    "\<And>ss. in_patch l u ss \<Longrightarrow> in_patch (fst (ga_ownsM a k)) (snd (ga_ownsM a k)) ss"
    using s(2) unfolding good_pieces_def by blast
  have n: "ndim a = int (length (dims a))" "distr_type a = REGULAR" using s(1) by (auto simp: regular_spread_def regular_ok_def)
  have "gam_GetRangeFromMap (it_map h) x (ndim a) = (l, u)"
  proof -
    have "\<forall>(p, l, h)\<in>set ps. length l = length (dims a) \<and> length h = length (dims a)" using s(2) unfolding good_pieces_def by blast
    from range_from_map [OF this r] show ?thesis using s(6) p n by simp
  qed
  moreover have "reg_sits st g_a ps perm xs (count_block h)"
    using assms(1) s x(2) by (simp add: reg_sits_def count_block_def nat_add_distrib)
  ultimately show ?thesis using that [of p l u k] p k s r x c n by simp
qed

lemma reg_next_eq: "distr_type (ga st (it_g_a h)) = REGULAR \<Longrightarrow> gai_iterator_next st h = regular_next st h"
  by (simp add: gai_iterator_next_def)

lemma reg_end: "reg_sits st g_a ps perm [] h \<Longrightarrow> gai_iterator_next st h = Some (Inr (h, None))"
proof -
  assume s: "reg_sits st g_a ps perm [] h"
  then have d: "distr_type (ga st (it_g_a h)) = REGULAR" by (auto simp: reg_sits_def regular_spread_def regular_ok_def)
  have "it_nproc h \<le> it_count h" using s by (auto simp: reg_sits_def)
  then show ?thesis unfolding reg_next_eq [OF d] by (subst regular_next.simps) simp
qed

lemma reg_miss:
  assumes "reg_sits st g_a ps perm (x # xs) h" "\<not> reg_hit ps x"
  shows "\<exists>h'. gai_iterator_next st h = gai_iterator_next st h' \<and> reg_sits st g_a ps perm xs h'"
proof -
  from reg_sits_Cons [OF assms(1)] obtain p l u k where s: "ps ! nat x = (p, l, u)" "it_g_a h = g_a" "it_count h < it_nproc h"
    "proclistperm h ! nat (it_count h) = x" "gam_GetRangeFromMap (it_map h) x (ndim (ga st g_a)) = (l, u)"
    "reg_sits st g_a ps perm xs (count_block h)" "distr_type (ga st g_a) = REGULAR" by metis
  have "list_ex (\<lambda>(l, u). u < l) (zip l u)" using assms(2) s(1) by (simp add: reg_hit_def)
  then have "regular_next st h = regular_next st (count_block h)"
    using s by (subst regular_next.simps) (simp add: Let_def)
  moreover have "it_g_a (count_block h) = g_a" using s(6) by (simp add: reg_sits_def)
  ultimately show ?thesis using s(2,6,7) by (intro exI [of _ "count_block h"]) (simp add: reg_next_eq)
qed

lemma reg_take:
  assumes "reg_sits st g_a ps perm (x # xs) h" "reg_hit ps x"
  shows "\<exists>h'. gai_iterator_next st h = Some (Inr (h', Some (reg_piece (ga st g_a) ps x))) \<and> reg_sits st g_a ps perm xs h'"
proof -
  let ?a = "ga st g_a"
  from reg_sits_Cons [OF assms(1)] obtain p l u k where s: "ps ! nat x = (p, l, u)" "it_g_a h = g_a" "it_count h < it_nproc h"
    "proclistperm h ! nat (it_count h) = x" "gam_GetRangeFromMap (it_map h) x (ndim ?a) = (l, u)" "proclist h ! nat x = p"
    "reg_sits st g_a ps perm xs (count_block h)" "distr_type ?a = REGULAR" and k: "0 \<le> k" "k < prod_list (nblock ?a)" "p = proc_of ?a k"
    and l: "length l = length (dims ?a)" "length u = length (dims ?a)" and r: "regular_spread st ?a"
    and sub: "\<And>ss. in_patch l u ss \<Longrightarrow> in_patch (fst (ga_ownsM ?a k)) (snd (ga_ownsM ?a k)) ss" by metis
  let ?b = "ga_ownsM ?a k"
  note p = spread_proc [OF r k(1,2)]
  have ne: "\<not> list_ex (\<lambda>(l, u). u < l) (zip l u)" using assms(2) s(1) by (simp add: reg_hit_def)
  then have c: "in_patch l u l" "in_patch l u u" using nonempty_corner [of u l] l by auto
  have w: "length (width ?a) = length (dims ?a)" "\<forall>x\<in>set (width ?a). 0 \<le> x" "p_handle ?a = -1" "0 < elemsize ?a"
    using r by (auto simp: regular_spread_def)
  have bl: "length (fst ?b) = length l" "length (snd ?b) = length l" using in_patch_lengths [OF sub [OF c(1)]] by auto
  have "elemsize ?a * prod_list (map2 (\<lambda>l u. u - l + 1) l u) \<le> elemsize ?a * block_elems ?a k"
    using piece_small [OF c(1) sub [OF c(1)] sub [OF c(2)] _ w(2)] w bl l by (simp add: block_elems_def)
  also have "\<dots> \<le> MAX_INT_VALUE" using r k by (simp add: regular_spread_def)
  finally have small: "split_large (elemsize ?a) l u h = Some h" by (simp add: split_large_def Let_def not_less)
  have o: "oversize h = 0" using assms(1) by (simp add: reg_sits_def)
  have "gaCheckSubscriptM l (fst ?b) (snd ?b) = None" using check_subscript_iff bl sub [OF c(1)] by simp
  then have loc: "gam_Location st k g_a l = Inr (ptr ?a ! nat p + loc_offset l (fst ?b) (snd ?b) (width ?a) 1 * elemsize ?a, loc_ld (fst ?b) (snd ?b) (width ?a))"
    using p(5) w(3) k(3) by (simp add: gam_Location_def Let_def case_prod_unfold)
  have rank: "(if num_rstrctd ?a = 0 then p else the (rank_rstrctd ?a) ! nat p) = k" and p32: "s32 p = p"
    unfolding k(3) by (rule p(4), rule p(3))
  have "regular_result st h x l u = Some (Inr (count_block h, Some (reg_piece ?a ps x)))"
    using w(3) unfolding regular_result_def Let_def s(2) small reg_piece_def s(1) rank
    by (simp add: sub_block_def o s(1,2,6) p32 rank loc cong: if_cong split del: if_split)
  moreover have "regular_next st h = regular_result st h x l u"
    using s ne by (subst regular_next.simps) (simp add: Let_def)
  ultimately show ?thesis using s(2,7,8) by (simp add: reg_next_eq)
qed

interpretation rw: block_walk "gai_iterator_next st" "it_blocks st" "reg_sits st g_a ps perm" "reg_hit ps" "reg_piece (ga st g_a) ps"
  for st g_a ps perm
  by unfold_locales (rule it_blocks.simps, erule reg_end, erule (1) reg_take, erule (1) reg_miss)

section \<open>Serving a patch\<close>

lemma reg_pieces_good:
  assumes "regular_spread st (ga st g_a)" "subscript_of (ga st g_a) lo" "subscript_of (ga st g_a) hi" "list_all2 (\<le>) lo hi"
  shows "exact_pieces (\<lambda>ss. fst (reg_place (ga st g_a) ss)) lo hi (region_pieces st g_a lo hi)"
    "good_pieces (ga st g_a) (region_pieces st g_a lo hi)" "int (length (region_pieces st g_a lo hi)) \<le> GAnproc st"
proof -
  let ?a = "ga st g_a" let ?ps = "region_pieces st g_a lo hi" let ?cs = "corner_pieces ?a (nblock ?a) lo hi"
  have r: "regular_ok ?a" "restricted_ok ?a" "num_rstrctd ?a \<ge> 0" "mapped ?a (nblock ?a)" "distr_type ?a = REGULAR"
    using assms(1) by (auto simp: regular_spread_def regular_ok_def restricted_ok_def)
  have c: "in_patch lo hi lo" "in_patch lo hi hi" using assms(4) by (induction lo hi rule: list_all2_induct) auto
  note ex = regular_pieces [OF r(1-3) assms(2,3) c] and cs = corner_exact [OF r(4) regular_block [OF r(1,2)] assms(2,3) c]
  show e: "exact_pieces (\<lambda>ss. fst (reg_place ?a ss)) lo hi ?ps"
    using ex by (rule exact_pieces_cong) (simp add: reg_place_def Let_def)
  have ps: "?ps = map (\<lambda>(k, b). (proc_of ?a k, b)) ?cs" using r(3,5) by (auto simp: region_pieces_def Let_def proc_of_def)
  have len: "length l = length (dims ?a) \<and> length h = length (dims ?a)" if x: "(k, l, h) \<in> set ?cs" for k l h
  proof -
    have k: "0 \<le> k" "k < prod_list (nblock ?a)" using cs(2) x by auto
    have "(l, h) = clip lo hi (ga_ownsM ?a k)" using x by (auto simp: corner_pieces_def Let_def case_prod_unfold)
    then have "l = fst (clip lo hi (map_block ?a (nblock ?a) k))" "h = snd (clip lo hi (map_block ?a (nblock ?a) k))"
      using regular_block [OF r(1,2) k] by (metis fst_conv, metis snd_conv)
    then show ?thesis
      using map_block_lengths [OF r(4) k] in_patch_lengths [OF assms(2) [unfolded subscript_of_def]]
        in_patch_lengths [OF assms(3) [unfolded subscript_of_def]] by (simp add: clip_def)
  qed
  show "good_pieces ?a ?ps" unfolding good_pieces_def
  proof (intro ballI, clarify)
    fix p l h assume "(p, l, h) \<in> set ?ps"
    then obtain k where k: "(k, l, h) \<in> set ?cs" "p = proc_of ?a k" using ps by auto
    have "in_patch l h ss \<longleftrightarrow> in_patch lo hi ss \<and> map_owner ?a (nblock ?a) ss = k" for ss
      using cs(1) k(1) unfolding exact_pieces_def by blast
    then have own: "in_patch lo hi ss" "map_owner ?a (nblock ?a) ss = k" if "in_patch l h ss" for ss using that by auto
    have "in_patch (fst (ga_ownsM ?a k)) (snd (ga_ownsM ?a k)) ss" if i: "in_patch l h ss" for ss
      using regular_block_iff [OF r(1,2) subscript_between [OF assms(2,3) own(1) [OF i]], of k] own(2) [OF i] by simp
    then show "length l = length (dims ?a) \<and> length h = length (dims ?a) \<and> (\<exists>k. 0 \<le> k \<and> k < prod_list (nblock ?a) \<and> p = proc_of ?a k \<and>
        (\<forall>ss. in_patch l h ss \<longrightarrow> in_patch (fst (ga_ownsM ?a k)) (snd (ga_ownsM ?a k)) ss))"
      using len [OF k(1)] bspec [OF cs(2) k(1)] k(2) by (intro conjI exI [of _ k]) auto
  qed
  have "fst ` set ?cs \<subseteq> {0..<prod_list (nblock ?a)}" using cs(2) by auto
  then have "card (fst ` set ?cs) \<le> card {0..<prod_list (nblock ?a)}" by (intro card_mono) auto
  moreover have "length ?cs = card (fst ` set ?cs)" using cs(1) distinct_card [of "map fst ?cs"] by (simp add: exact_pieces_def)
  moreover have "0 \<le> GAnproc st" using grid_prod_pos [OF mapped_axes(6) [OF r(4)]] assms(1) by (auto simp: regular_spread_def)
  ultimately show "int (length ?ps) \<le> GAnproc st" using ps assms(1) by (auto simp: regular_spread_def)
qed

lemma piece_within:
  "in_patch L H l \<Longrightarrow> length h = length l \<Longrightarrow> in_patch L H h \<Longrightarrow> length w = length L \<Longrightarrow> \<forall>x\<in>set w. 0 \<le> x \<Longrightarrow>
   list_all2 (\<le>) (sizes l h) (map2 (\<lambda>n w. n + 2 * w) (sizes L H) w)"
proof (induction L H l arbitrary: h w rule: in_patch.induct)
  case (1 L Ls H Hs l ls)
  then obtain h' hs w' ws where "h = h' # hs" "w = w' # ws" by (cases h; cases w) auto
  then show ?case using 1 by (auto simp: sizes_def)
qed (auto simp: sizes_def)

lemma reg_piece_roomy:
  assumes "regular_spread st a" "good_pieces a ps" "ps ! nat x \<in> set ps" "reg_hit ps x"
  shows "\<exists>k. 0 \<le> k \<and> k < prod_list (nblock a) \<and> ib_proc (reg_piece a ps x) = proc_of a k \<and> roomy (reg_piece a ps x) (block_elems a k)"
proof -
  obtain p l h where e: "ps ! nat x = (p, l, h)" by (cases "ps ! nat x") auto
  obtain k where k: "length l = length (dims a)" "length h = length (dims a)" "0 \<le> k" "k < prod_list (nblock a)" "p = proc_of a k"
    "\<And>ss. in_patch l h ss \<Longrightarrow> in_patch (fst (ga_ownsM a k)) (snd (ga_ownsM a k)) ss"
    using assms(2,3) e unfolding good_pieces_def by fastforce
  let ?L = "fst (ga_ownsM a k)" let ?H = "snd (ga_ownsM a k)"
  let ?S = "map2 (\<lambda>n w. n + 2 * w) (sizes ?L ?H) (width a)"
  have w: "length (width a) = length (dims a)" "\<forall>x\<in>set (width a). 0 \<le> x" "dims a \<noteq> []"
    using assms(1) by (auto simp: regular_spread_def regular_ok_def mapped_def)
  have rank: "(if num_rstrctd a = 0 then p else the (rank_rstrctd a) ! nat p) = k" unfolding k(5) by (rule spread_proc(4) [OF assms(1) k(3,4)])
  have b: "reg_piece a ps x = \<lparr>ib_proc = p, ib_lo = l, ib_hi = h, ib_ptr = ptr a ! nat p + loc_offset l ?L ?H (width a) 1 * elemsize a,
      ib_ld = loc_ld ?L ?H (width a)\<rparr>" unfolding reg_piece_def Let_def e prod.case rank ..
  have c: "in_patch l h l" "in_patch l h h"
    using assms(4) e nonempty_corner [of h l] k(1,2) by (simp_all add: reg_hit_def)
  have o: "in_patch ?L ?H l" "in_patch ?L ?H h" using k(6) c by auto
  have len: "length ?L = length (dims a)" "length ?H = length (dims a)" using in_patch_lengths [OF o(1)] k(1) by auto
  have "list_all2 (\<le>) (sizes l h) ?S"
    using piece_within [OF o(1) k(2) [folded k(1)] o(2)] w(1,2) len by simp
  moreover have "take (length ?S - 1) (loc_ld ?L ?H (width a)) = butlast ?S"
  proof -
    have "map (\<lambda>(l, h, w). h - l + 1 + 2 * w) (zip ?L (zip ?H (width a))) = ?S"
      using len w(1) by (intro nth_equalityI) (simp_all add: sizes_def)
    then show ?thesis by (auto simp: loc_ld_def Let_def butlast_conv_take)
  qed
  ultimately have "roomy (reg_piece a ps x) (block_elems a k)"
    using c(1) k(1) w(3) unfolding roomy_def b block_elems_def by auto
  then show ?thesis using k(3-5) by (auto simp: b)
qed

text \<open>The elements of a piece, and where its pointer and strides lead.\<close>

lemma reg_piece_address:
  assumes "regular_spread st a" "ps ! nat x = (p, l, u)" "length u = length l" "0 \<le> k" "k < prod_list (nblock a)" "p = proc_of a k"
    "subscript_of a ss" "fst (reg_place a ss) = p" "in_patch l u ss"
  shows "ib_ptr (reg_piece a ps x) + strided ss (ib_lo (reg_piece a ps x)) (ib_ld (reg_piece a ps x)) 1 * elemsize a =
    ptr a ! nat (ib_proc (reg_piece a ps x)) + snd (reg_place a ss) * elemsize a"
proof -
  note b = reg_block [OF assms(1,7)]
  have k: "map_owner a (nblock a) ss = k"
    using spread_proc(4) [OF assms(1) b(1,2)] spread_proc(4) [OF assms(1,4,5)] reg_place_ok(5) [OF assms(1,7)] assms(6,8) by metis
  have rank: "(if num_rstrctd a = 0 then p else the (rank_rstrctd a) ! nat p) = k" unfolding assms(6) by (rule spread_proc(4) [OF assms(1,4,5)])
  have l: "length l = length ss" using in_patch_lengths [OF assms(9)] by simp
  have bl: "length (fst (ga_ownsM a k)) = length ss" "length (snd (ga_ownsM a k)) = length ss" "length (width a) = length ss"
    using in_patch_lengths [OF b(3)] b(4) k assms(1) unfolding regular_spread_def by metis+
  have "loc_offset l (fst (ga_ownsM a k)) (snd (ga_ownsM a k)) (width a) 1 +
      strided ss l (loc_ld (fst (ga_ownsM a k)) (snd (ga_ownsM a k)) (width a)) 1 = snd (reg_place a ss)"
    unfolding reg_place_def Let_def k snd_conv by (rule loc_offset_strided) (simp_all only: bl l)
  then show ?thesis unfolding reg_piece_def Let_def assms(2) prod.case rank by (simp flip: distrib_right)
qed

lemma reg_pieces_serve:
  assumes "regular_spread st a" "subscript_of a lo" "subscript_of a hi" "exact_pieces (\<lambda>ss. fst (reg_place a ss)) lo hi ps"
    "good_pieces a ps" "set xs = {0..int (length ps) - 1}" "distinct xs"
  shows "serves (reg_place a) a lo hi (map (reg_piece a ps) (filter (reg_hit ps) xs))"
proof (rule serves_map [where owner = "\<lambda>ss. fst (reg_place a ss)" and g = "\<lambda>x. fst (ps ! nat x)"])
  let ?Q = "filter (reg_hit ps) xs" let ?b = "reg_piece a ps"
  have piece: "\<exists>p l u k. ps ! nat x = (p, l, u) \<and> (p, l, u) \<in> set ps \<and> length u = length l \<and> 0 \<le> k \<and> k < prod_list (nblock a) \<and> p = proc_of a k"
    if x: "x \<in> set xs" for x
  proof -
    obtain p l u where e: "ps ! nat x = (p, l, u)" by (cases "ps ! nat x") auto
    have "nat x < length ps" using x assms(6) by auto
    then have i: "(p, l, u) \<in> set ps" using e nth_mem by metis
    have "length l = length (dims a) \<and> length u = length (dims a) \<and> (\<exists>k. 0 \<le> k \<and> k < prod_list (nblock a) \<and> p = proc_of a k)"
      using assms(5) i unfolding good_pieces_def by blast
    then show ?thesis using e i by auto
  qed
  have ex: "(p, l, u) \<in> set ps \<Longrightarrow> in_patch l u ss \<longleftrightarrow> in_patch lo hi ss \<and> fst (reg_place a ss) = p" "distinct (map fst ps)"
    "in_patch lo hi ss \<Longrightarrow> fst (reg_place a ss) \<in> fst ` set ps" for p l u ss
    using assms(4) unfolding exact_pieces_def by blast+
  show "in_patch (ib_lo (?b x)) (ib_hi (?b x)) ss \<longleftrightarrow> in_patch lo hi ss \<and> fst (reg_place a ss) = fst (ps ! nat x)"
    if x: "x \<in> set ?Q" for x ss
  proof -
    obtain p l u where "ps ! nat x = (p, l, u)" "(p, l, u) \<in> set ps" using piece [of x] x by auto
    then show ?thesis using ex(1) by (simp add: reg_piece_def Let_def)
  qed
  show "distinct (map (\<lambda>x. fst (ps ! nat x)) ?Q)"
  proof -
    have "x = y" if x: "x \<in> set xs" "y \<in> set xs" and e: "fst (ps ! nat x) = fst (ps ! nat y)" for x y
    proof -
      have r: "0 \<le> x" "nat x < length ps" "0 \<le> y" "nat y < length ps" using x assms(6) by auto
      then show ?thesis using nth_eq_iff_index_eq [OF ex(2), of "nat x" "nat y"] e by simp
    qed
    then show ?thesis using assms(7) by (auto simp: distinct_map inj_on_def)
  qed
  show "fst (reg_place a ss) \<in> (\<lambda>x. fst (ps ! nat x)) ` set ?Q" if ss: "in_patch lo hi ss" for ss
  proof -
    obtain j where j: "j < length ps" "fst (ps ! j) = fst (reg_place a ss)" using ex(3) [OF ss] by (metis imageE in_set_conv_nth)
    have jx: "int j \<in> set xs" using assms(6) j(1) by auto
    obtain p l u where e: "ps ! j = (p, l, u)" "length u = length l" "(p, l, u) \<in> set ps" using piece [OF jx] by auto
    have "in_patch l u ss" using ex(1) [OF e(3)] ss j(2) e(1) by simp
    then have "in_patch l u l" using e(2) by (induction l u ss rule: in_patch.induct) auto
    then have "int j \<in> set ?Q" using jx e nonempty_corner(1) [of u l] by (simp add: reg_hit_def)
    then show ?thesis using j(2) by force
  qed
  fix x ss assume x: "x \<in> set ?Q" and ss: "in_patch (ib_lo (?b x)) (ib_hi (?b x)) ss"
  obtain p l u k where e: "ps ! nat x = (p, l, u)" "(p, l, u) \<in> set ps" "length u = length l" "0 \<le> k" "k < prod_list (nblock a)" "p = proc_of a k"
    using piece [of x] x by auto
  have b: "ib_lo (?b x) = l" "ib_hi (?b x) = u" "ib_proc (?b x) = p" by (simp_all add: reg_piece_def Let_def e(1))
  have s: "in_patch lo hi ss" "fst (reg_place a ss) = p" using ex(1) [OF e(2)] ss unfolding b by auto
  show "fst (reg_place a ss) = ib_proc (?b x) \<and> ib_ptr (?b x) + strided ss (ib_lo (?b x)) (ib_ld (?b x)) 1 * elemsize a =
      ptr a ! nat (ib_proc (?b x)) + snd (reg_place a ss) * elemsize a"
    using reg_piece_address [OF assms(1) e(1,3-6) subscript_between [OF assms(2,3) s(1)] s(2)] ss s(2) unfolding b by simp
qed

lemma reg_serves:
  assumes "regular_spread st (ga st g_a)" "subscript_of (ga st g_a) lo" "subscript_of (ga st g_a) hi" "list_all2 (\<le>) lo hi"
    "reg_sits st g_a (region_pieces st g_a lo hi) perm xs h" "mset xs = mset [0..int (length (region_pieces st g_a lo hi)) - 1]"
  shows "\<exists>bs h'. walks (gai_iterator_next st) h bs h' \<and> reg_sits st g_a (region_pieces st g_a lo hi) perm [] h' \<and> serves (reg_place (ga st g_a)) (ga st g_a) lo hi bs \<and>
    (\<forall>b\<in>set bs. \<exists>k. 0 \<le> k \<and> k < prod_list (nblock (ga st g_a)) \<and> ib_proc b = proc_of (ga st g_a) k \<and> roomy b (block_elems (ga st g_a) k))"
proof -
  let ?a = "ga st g_a" let ?ps = "region_pieces st g_a lo hi" let ?Q = "filter (reg_hit ?ps) xs" let ?b = "reg_piece ?a ?ps"
  note g = reg_pieces_good [OF assms(1-4)]
  have xs: "set xs = {0..int (length ?ps) - 1}" "distinct xs"
    using mset_eq_setD [OF assms(6)] mset_eq_imp_distinct_iff [OF assms(6)] by auto
  have room: "\<exists>k. 0 \<le> k \<and> k < prod_list (nblock ?a) \<and> ib_proc b = proc_of ?a k \<and> roomy b (block_elems ?a k)"
    if b: "b \<in> set (map ?b ?Q)" for b
  proof -
    obtain x where x: "x \<in> set xs" "reg_hit ?ps x" "b = ?b x" using b by auto
    have "nat x < length ?ps" using x(1) xs(1) by auto
    then have i: "?ps ! nat x \<in> set ?ps" by simp
    from reg_piece_roomy [OF assms(1) g(2) i x(2)] show ?thesis unfolding x(3) .
  qed
  have "\<exists>h'. walks (gai_iterator_next st) h (map ?b ?Q) h' \<and> reg_sits st g_a ?ps perm [] h'" using rw.walk_blocks [OF assms(5)] .
  then show ?thesis using room reg_pieces_serve [OF assms(1-3) g(1,2) xs] by blast
qed

section \<open>Layouts\<close>

text \<open>The elements for which \<open>pnga_allocate\<close> reserves memory on a process.\<close>

definition reserved :: "ga_state \<Rightarrow> global_array_t \<Rightarrow> int \<Rightarrow> ga_error + int" where
  "reserved st a p =
     (if distr_type a = REGULAR
      then Inr (regular_elems (a\<lparr>has_data := 1\<rparr>) (ga_ownsM a (if num_rstrctd a = 0 then p else the (rank_rstrctd a) ! nat p)))
      else block_size a p (GAnproc st) (GAnproc st))"

text \<open>
  A layout of an array: where its elements are, a process and an offset in its memory. All places are different and
  inside the memory that \<open>pnga_allocate\<close> reserves on the process, and the blocks of an iterator on any patch, started
  and reset, lead to them. The blocks are not empty, and their strides are those of a larger block in the memory of the
  process, unless the map of an irregularly tiled array has empty tiles: these the iterator returns as empty blocks.
  A handle that is reset after the last block goes through the patch again.
\<close>

definition solid :: "global_array_t \<Rightarrow> bool" where
  "solid a \<longleftrightarrow> (distr_type a = TILED_IRREG \<longrightarrow>
     (\<forall>x\<in>set (array_axes a (num_blocks a)). \<forall>i\<in>{0..<map_count x}. map_first x i \<le> map_final x i))"

definition blocks_for :: "ga_state \<Rightarrow> int \<Rightarrow> (int list \<Rightarrow> int \<times> int) \<Rightarrow> int list \<Rightarrow> int list \<Rightarrow> it_block list \<Rightarrow> bool" where
  "blocks_for st g_a place lo hi bs \<longleftrightarrow> serves place (ga st g_a) lo hi bs \<and>
     (\<forall>b\<in>set bs. \<exists>sz. 0 \<le> ib_proc b \<and> ib_proc b < GAnproc st \<and> reserved st (ga st g_a) (ib_proc b) = Inr sz \<and>
       (solid (ga st g_a) \<longrightarrow> roomy b sz))"

definition lays_out :: "ga_state \<Rightarrow> int \<Rightarrow> (int list \<Rightarrow> int \<times> int) \<Rightarrow> bool" where
  "lays_out st g_a place \<longleftrightarrow> inj_on place {ss. subscript_of (ga st g_a) ss} \<and>
    (\<forall>ss. subscript_of (ga st g_a) ss \<longrightarrow> 0 \<le> fst (place ss) \<and> fst (place ss) < GAnproc st \<and>
      (\<exists>sz. reserved st (ga st g_a) (fst (place ss)) = Inr sz \<and> 0 \<le> snd (place ss) \<and> snd (place ss) < sz)) \<and>
    (\<forall>rnd lo hi h. subscript_of (ga st g_a) lo \<and> subscript_of (ga st g_a) hi \<and> list_all2 (\<le>) lo hi \<longrightarrow>
      (\<exists>h' bs h1 bs' h2. gai_iterator_init rnd st g_a lo hi h = Inr h' \<and>
        walks (gai_iterator_next st) (gai_iterator_reset st h') bs h1 \<and> blocks_for st g_a place lo hi bs \<and>
        walks (gai_iterator_next st) (gai_iterator_reset st h1) bs' h2 \<and> blocks_for st g_a place lo hi bs'))"

lemma walks_it_blocks: "walks (gai_iterator_next st) h bs h' \<Longrightarrow> it_blocks st h = Some (Inr bs)"
  by (induction rule: walks.induct) (subst it_blocks.simps, simp)+

lemma layout_iterates:
  assumes "lays_out st g_a place" "subscript_of (ga st g_a) lo \<and> subscript_of (ga st g_a) hi \<and> list_all2 (\<le>) lo hi"
  shows "\<exists>h' bs. gai_iterator_init rnd st g_a lo hi h = Inr h' \<and> it_blocks st (gai_iterator_reset st h') = Some (Inr bs) \<and>
    serves place (ga st g_a) lo hi bs"
proof -
  obtain h' bs h1 where "gai_iterator_init rnd st g_a lo hi h = Inr h'"
    "walks (gai_iterator_next st) (gai_iterator_reset st h') bs h1" "blocks_for st g_a place lo hi bs"
    using assms unfolding lays_out_def by metis
  then show ?thesis using walks_it_blocks by (auto simp: blocks_for_def)
qed

lemma subscripts_good: "subscript_of a lo \<Longrightarrow> subscript_of a hi \<Longrightarrow> list_all2 (\<le>) lo hi \<Longrightarrow> \<not> bad_region a lo hi"
proof -
  have "in_patch (replicate (length ds) 1) ds lo \<Longrightarrow> in_patch (replicate (length ds) 1) ds hi \<Longrightarrow> list_all2 (\<le>) lo hi \<Longrightarrow>
    \<not> list_ex (\<lambda>(l, h, d). (l < 1 \<or> h > d) \<or> l > h) (zip lo (zip hi ds))" for ds
    by (induction ds arbitrary: lo hi) (case_tac [!] lo, case_tac [!] hi, auto)
  then show "subscript_of a lo \<Longrightarrow> subscript_of a hi \<Longrightarrow> list_all2 (\<le>) lo hi \<Longrightarrow> \<not> bad_region a lo hi"
    by (simp add: subscript_of_def bad_region_def)
qed

lemma reg_reserved:
  assumes "regular_spread st a" "subscript_of a ss"
  shows "reserved st a (fst (reg_place a ss)) = Inr (block_elems a (map_owner a (nblock a) ss))"
proof -
  let ?k = "map_owner a (nblock a) ss" let ?b = "ga_ownsM a ?k"
  note b = reg_block [OF assms]
  have w: "length (width a) = length (dims a)" "distr_type a = REGULAR" using assms(1) by (auto simp: regular_spread_def regular_ok_def)
  have rank: "(if num_rstrctd a = 0 then fst (reg_place a ss) else the (rank_rstrctd a) ! nat (fst (reg_place a ss))) = ?k"
    unfolding reg_place_ok(5) [OF assms] by (rule spread_proc(4) [OF assms(1) b(1,2)])
  have "map (\<lambda>(l, h, w). h - l + 1 + 2 * w) (zip (fst ?b) (zip (snd ?b) (width a))) = map2 (\<lambda>n w. n + 2 * w) (sizes (fst ?b) (snd ?b)) (width a)"
    using b(4,5) w(1) by (intro nth_equalityI) (simp_all add: sizes_def)
  then show ?thesis unfolding reserved_def rank using w(2) by (simp add: regular_elems_def block_elems_def)
qed

lemma reg_blocks_for:
  assumes "regular_spread st (ga st g_a)" "subscript_of (ga st g_a) lo" "subscript_of (ga st g_a) hi" "serves (reg_place (ga st g_a)) (ga st g_a) lo hi bs"
    "\<forall>b\<in>set bs. \<exists>k. 0 \<le> k \<and> k < prod_list (nblock (ga st g_a)) \<and> ib_proc b = proc_of (ga st g_a) k \<and> roomy b (block_elems (ga st g_a) k)"
  shows "blocks_for st g_a (reg_place (ga st g_a)) lo hi bs"
proof -
  let ?a = "ga st g_a"
  have "\<exists>sz. 0 \<le> ib_proc b \<and> ib_proc b < GAnproc st \<and> reserved st ?a (ib_proc b) = Inr sz \<and> roomy b sz" if b: "b \<in> set bs" for b
  proof -
    obtain k where k: "0 \<le> k" "k < prod_list (nblock ?a)" "ib_proc b = proc_of ?a k" "roomy b (block_elems ?a k)" using assms(5) b by blast
    have "in_patch (ib_lo b) (ib_hi b) (ib_lo b)" using k(4) by (simp add: roomy_def)
    then have i: "in_patch lo hi (ib_lo b)" "fst (reg_place ?a (ib_lo b)) = ib_proc b" using assms(4) b unfolding serves_def by blast+
    have sub: "subscript_of ?a (ib_lo b)" using subscript_between [OF assms(2,3) i(1)] .
    note o = reg_block [OF assms(1) sub]
    have "map_owner ?a (nblock ?a) (ib_lo b) = k"
      using spread_proc(4) [OF assms(1) o(1,2)] spread_proc(4) [OF assms(1) k(1,2)] reg_place_ok(5) [OF assms(1) sub] i(2) k(3) by metis
    then show ?thesis using reg_reserved [OF assms(1) sub] i(2) k spread_proc(1,2) [OF assms(1) k(1,2)] by auto
  qed
  then show ?thesis using assms(4) unfolding blocks_for_def by blast
qed

lemma layout_regular:
  assumes "ga_active st g_a" "regular_spread st (ga st g_a)"
  shows "lays_out st g_a (reg_place (ga st g_a))"
  unfolding lays_out_def
proof (intro conjI allI impI)
  let ?a = "ga st g_a"
  show "inj_on (reg_place ?a) {ss. subscript_of ?a ss}" using reg_place_inj [OF assms(2)] .
  fix ss assume s: "subscript_of ?a ss"
  note p = reg_place_ok [OF assms(2) s]
  show "0 \<le> fst (reg_place ?a ss)" "fst (reg_place ?a ss) < GAnproc st" using p by auto
  show "\<exists>sz. reserved st ?a (fst (reg_place ?a ss)) = Inr sz \<and> 0 \<le> snd (reg_place ?a ss) \<and> snd (reg_place ?a ss) < sz"
    using reg_reserved [OF assms(2) s] p by simp
next
  let ?a = "ga st g_a"
  fix rnd :: "nat \<Rightarrow> int" and lo hi and h :: iterator_hdl
  let ?ps = "region_pieces st g_a lo hi"
  assume "subscript_of ?a lo \<and> subscript_of ?a hi \<and> list_all2 (\<le>) lo hi"
  then have s: "subscript_of ?a lo" "subscript_of ?a hi" "list_all2 (\<le>) lo hi" by auto
  note g = reg_pieces_good [OF assms(2) s]
  have d: "distr_type ?a = REGULAR" "GAnproc st \<le> 2147483648" using assms(2) by (auto simp: regular_spread_def regular_ok_def)
  obtain perm where perm: "gaPermuteProcList rnd (int (length ?ps)) st = Inr perm" "mset perm = mset [0..int (length ?ps) - 1]"
    using permute_mset [of "int (length ?ps)" st rnd] g(3) d(2) by auto
  have good: "\<not> bad_region ?a lo hi" using s by (rule subscripts_good)
  define h' where "h' = h\<lparr>it_g_a := g_a, it_count := 0, oversize := 0, it_lo := lo, it_hi := hi, it_map := concat (map (\<lambda>(_, l, u). l @ u) ?ps),
    proclist := map fst ?ps, it_nproc := int (length ?ps), proclistperm := perm\<rparr>"
  have init: "gai_iterator_init rnd st g_a lo hi h = Inr h'" "gai_iterator_reset st h' = h'"
    using d(1) perm(1) region_result [OF assms(1) good] by (simp_all add: gai_iterator_init_def Let_def h'_def gai_iterator_reset_def)
  have "set perm = {0..int (length ?ps) - 1}" "length perm = length ?ps"
    using mset_eq_setD [OF perm(2)] mset_eq_length [OF perm(2)] by auto
  then have "reg_sits st g_a ?ps perm perm h'" using assms(2) g(2) by (auto simp: reg_sits_def h'_def)
  moreover have again: "\<exists>bs h2. walks (gai_iterator_next st) h1 bs h2 \<and> reg_sits st g_a ?ps perm [] h2 \<and> blocks_for st g_a (reg_place ?a) lo hi bs"
    if "reg_sits st g_a ?ps perm perm h1" for h1
    using reg_serves [OF assms(2) s that perm(2)] reg_blocks_for [OF assms(2) s(1,2)] by blast
  ultimately obtain bs h1 where p1: "walks (gai_iterator_next st) h' bs h1" "reg_sits st g_a ?ps perm [] h1" "blocks_for st g_a (reg_place ?a) lo hi bs"
    by blast
  have r: "gai_iterator_reset st h1 = h1\<lparr>it_count := 0\<rparr>" using p1(2) d(1) by (simp add: reg_sits_def gai_iterator_reset_def Let_def)
  have "reg_sits st g_a ?ps perm perm (gai_iterator_reset st h1)" using p1(2) unfolding r reg_sits_def by auto
  then obtain bs' h2 where "walks (gai_iterator_next st) (gai_iterator_reset st h1) bs' h2" "blocks_for st g_a (reg_place ?a) lo hi bs'"
    using again by blast
  then show "\<exists>h' bs h1 bs' h2. gai_iterator_init rnd st g_a lo hi h = Inr h' \<and>
      walks (gai_iterator_next st) (gai_iterator_reset st h') bs h1 \<and> blocks_for st g_a (reg_place ?a) lo hi bs \<and>
      walks (gai_iterator_next st) (gai_iterator_reset st h1) bs' h2 \<and> blocks_for st g_a (reg_place ?a) lo hi bs'"
    using init p1(1,3) by metis
qed

end
