(* ===== verification/GA_Moves.thy ===== *)
theory GA_Moves
  imports GA_OneSided CX_Transfer GA_Regular
begin

text \<open>
  The transfer of a block of the iterator moves the elements of the block between the buffer and the array.
\<close>

section \<open>Strides of an array\<close>

text \<open>The strides in bytes without wrap-around, and the distance of an element from the corner in terms of them.\<close>

fun weights :: "int \<Rightarrow> int list \<Rightarrow> int list" where
  "weights f (l # ld) = f * l # weights (f * l) ld"
| "weights f [] = []"

lemma weights_length [simp]: "length (weights f ld) = length ld"
  by (induction f ld rule: weights.induct) simp_all

lemma strided_dot:
  "length ss = length lo \<Longrightarrow> lo \<noteq> [] \<Longrightarrow> length lo - 1 \<le> length ld \<Longrightarrow>
   strided ss lo ld f = dot (shift lo ss) (f # weights f (take (length lo - 1) ld))"
proof (induction lo arbitrary: ss ld f)
  case (Cons l lo)
  then obtain s ss' where s: "ss = s # ss'" by (cases ss) auto
  show ?case
  proof (cases lo)
    case Nil
    then show ?thesis using Cons.prems s by simp
  next
    case (Cons l2 lo2)
    then obtain d ld' where "ld = d # ld'" using Cons.prems by (cases ld) auto
    then show ?thesis using Cons.IH [of ss' ld' "f * d"] Cons.prems s Cons by simp
  qed
qed simp

lemma strided_mult: "strided ss lo ld (f * g) = f * strided ss lo ld g"
  by (induction ss lo ld g rule: strided.induct) (simp_all add: algebra_simps)

lemma strided_trans:
  "length ss = length lo \<Longrightarrow> length c = length lo \<Longrightarrow> strided c lo ld f + strided ss c ld f = strided ss lo ld f"
proof (induction lo arbitrary: ss c ld f)
  case (Cons l lo)
  then obtain s ss' x c' where e: "ss = s # ss'" "c = x # c'" by (metis length_Suc_conv)
  show ?case using Cons.IH [of ss' c' "tl ld" "f * hd ld"] Cons.prems e by (simp add: algebra_simps)
qed simp

lemma patch_index_strided:
  assumes "length plo = length lo" "lo \<noteq> []" "length lo - 1 \<le> length ld"
  shows "gam_ComputePatchIndex lo plo ld = strided plo lo ld 1"
proof -
  have "length plo = length lo \<Longrightarrow> length lo \<le> length ld \<Longrightarrow> patch_index lo plo ld f = strided plo lo (tl ld) (f * hd ld)" for lo plo ld f
  proof (induction lo arbitrary: plo ld f)
    case (Cons l lo)
    then obtain p plo' d ld' where e: "plo = p # plo'" "ld = d # ld'" by (metis Suc_le_length_iff length_Suc_conv list.size(4) One_nat_def add.right_neutral add_Suc_right)
    show ?case
    proof (cases lo)
      case Nil
      then show ?thesis using Cons.prems e by (simp add: algebra_simps)
    next
      case (Cons a list)
      then show ?thesis using Cons.IH [of plo' ld' "f * d"] Cons.prems e by (simp add: algebra_simps)
    qed
  qed (cases plo; simp)
  then show ?thesis using assms by (cases lo; cases plo) (simp_all add: gam_ComputePatchIndex_def)
qed

lemma strides_weights:
  "0 < f \<Longrightarrow> grid_ok ld \<Longrightarrow> f * prod_list ld < 2147483648 \<Longrightarrow> take (length ld) (strides f ld) = weights f ld"
proof (induction f ld rule: weights.induct)
  case (1 f l ld)
  have p: "0 < l" "0 < f * l" "0 < prod_list ld" using 1 grid_prod_pos by auto
  have "f * l * 1 \<le> f * l * prod_list ld" using p by (intro mult_left_mono) auto
  then have fl: "f * l < 2147483648" using "1.prems"(3) by (simp add: mult.assoc)
  have "1 * l \<le> f * l" using "1.prems"(1) p by (intro mult_right_mono) auto
  then have "l < 2147483648" using fl by linarith
  then have "s32 l = l" "s32 (f * l) = f * l" using fl p(1) s32_id [of l] s32_id [of "f * l"] p(2) by linarith+
  then show ?case using 1 p by (simp add: mult.assoc)
qed simp

lemma nested_weights:
  "0 < f \<Longrightarrow> list_all2 (\<le>) (c # cs) L \<Longrightarrow> grid_ok (c # cs) \<Longrightarrow> nested (f * c) cs (weights f (butlast L))"
proof (induction cs arbitrary: f c L)
  case Nil
  then obtain l where "L = [l]" by (auto simp: list_all2_Cons1)
  then show ?case by simp
next
  case (Cons c' cs)
  then obtain l l' L' where L: "L = l # l' # L'" by (auto simp: list_all2_Cons1)
  have "f * c \<le> f * l" "0 < f * l" using Cons.prems L by auto
  then show ?case using Cons.IH [of "f * l" c' "l' # L'"] Cons.prems L by simp
qed

lemma chain_weights: "0 < f \<Longrightarrow> 0 < u \<Longrightarrow> u dvd f \<Longrightarrow> grid_ok ld \<Longrightarrow> chain u (weights f ld)"
  by (induction f ld arbitrary: u rule: weights.induct) simp_all

lemma grid_le: "list_all2 (\<le>) cs L \<Longrightarrow> grid_ok cs \<Longrightarrow> grid_ok L \<and> prod_list cs \<le> prod_list L"
proof (induction rule: list_all2_induct)
  case (Cons c cs l L)
  have "c * prod_list cs \<le> l * prod_list L" using Cons grid_prod_pos [of cs] by (intro mult_mono) auto
  then show ?case using Cons by simp
qed simp

text \<open>The arguments of a transfer are in order when the sizes of the block fit a block with the given physical sizes.\<close>

lemma weights_strided:
  assumes "0 < z" "list_all2 (\<le>) (c # cs) L" "grid_ok (c # cs)" "length L \<le> 7" "z * prod_list L < 2147483648"
  shows "well_strided ((z * c) # cs) (weights z (butlast L))" "take (length L - 1) (strides (s32 z) (butlast L)) = weights z (butlast L)"
    "s32 (c * z) = z * c" "s32 (c - 1) + 1 = c" "\<forall>x\<in>set cs. s32 (x - 1) + 1 = x"
proof -
  have g: "grid_ok L" "prod_list (c # cs) \<le> prod_list L" using grid_le [OF assms(2,3)] by auto
  have l: "length L = Suc (length cs)" using assms(2) by (auto dest: list_all2_lengthD)
  then have ne: "L \<noteq> []" by auto
  have gb: "grid_ok (butlast L)" using g(1) by (auto simp: grid_ok_def dest: in_set_butlastD)
  have tot: "z * prod_list (c # cs) \<le> z * prod_list L" using g(2) assms(1) by (intro mult_left_mono) auto
  have "prod_list L = prod_list (butlast L) * last L" using ne by (metis append_butlast_last_id prod_list.append prod_list.Cons prod_list.Nil mult.right_neutral)
  moreover have "0 < last L" "0 < prod_list (butlast L)" using g(1) ne grid_prod_pos [OF gb] by (auto simp: grid_ok_def)
  ultimately have bl: "prod_list (butlast L) \<le> prod_list L" using mult_left_mono [of 1 "last L" "prod_list (butlast L)"] by simp
  then have "z * prod_list (butlast L) \<le> z * prod_list L" using assms(1) by (intro mult_left_mono) auto
  then have sb: "z * prod_list (butlast L) < 2147483648" using assms(5) by simp
  have "z * 1 \<le> z * prod_list (butlast L)" using \<open>0 < prod_list (butlast L)\<close> assms(1) by (intro mult_left_mono) auto
  then have "z < 2147483648" using sb by linarith
  then have sz: "s32 z = z" using assms(1) by (intro s32_id) auto
  show "take (length L - 1) (strides (s32 z) (butlast L)) = weights z (butlast L)"
    using strides_weights [OF assms(1) gb sb] sz by simp
  have c: "0 < c" "grid_ok cs" "0 < prod_list cs" using assms(3) grid_prod_pos by auto
  have tot': "z * (c * prod_list cs) < 2147483648" using le_less_trans [OF tot assms(5)] by simp
  show "well_strided ((z * c) # cs) (weights z (butlast L))"
    unfolding well_strided_def
    using nested_weights [OF assms(1-3)] chain_weights [OF assms(1), of 1 "butlast L"] gb assms(1,4) c l tot'
    by (simp add: mult.assoc)
  have small: "x < 2147483648" "0 < x" if "x \<in> set (c # cs)" for x
  proof -
    have "x dvd prod_list (c # cs)" using that by (rule prod_list_dvd)
    then have "x \<le> prod_list (c # cs)" using grid_prod_pos [OF assms(3)] by (rule zdvd_imp_le)
    moreover have "1 * prod_list (c # cs) \<le> z * prod_list (c # cs)" using grid_prod_pos [OF assms(3)] assms(1) by (intro mult_right_mono) auto
    ultimately show "x < 2147483648" using tot assms(5) by linarith
    show "0 < x" using assms(3) that by (auto simp: grid_ok_def)
  qed
  have "c * z * 1 \<le> c * z * prod_list cs" using c assms(1) by (intro mult_left_mono) auto
  then have "c * z < 2147483648" using tot assms(5) by (simp add: algebra_simps)
  moreover have "0 < c * z" using c assms(1) by simp
  ultimately have "s32 (c * z) = c * z" by (intro s32_id) auto
  then show "s32 (c * z) = z * c" by (simp add: mult.commute)
  have "s32 (x - 1) + 1 = x" if "x \<in> set (c # cs)" for x using small [OF that] by (simp add: s32_id)
  then show "s32 (c - 1) + 1 = c" "\<forall>x\<in>set cs. s32 (x - 1) + 1 = x" by auto
qed

section \<open>Elements\<close>

text \<open>
  The bytes of elements: \<open>D\<close> and \<open>S\<close> give the process and the address of an element at the destination and at the
  source, \<open>z\<close> is the size of an element.
\<close>

definition elem_moves :: "int \<Rightarrow> ('e \<Rightarrow> int \<times> int) \<Rightarrow> ('e \<Rightarrow> int \<times> int) \<Rightarrow> 'e set \<Rightarrow> ((int \<times> int) \<times> (int \<times> int)) set" where
  "elem_moves z D S E = (\<Union>x\<in>E. seg (fst (D x)) (snd (D x)) (fst (S x)) (snd (S x)) z)"

definition spaced :: "int \<Rightarrow> ('e \<Rightarrow> int \<times> int) \<Rightarrow> 'e set \<Rightarrow> bool" where
  "spaced z D E \<longleftrightarrow> (\<forall>x\<in>E. \<forall>y\<in>E. x \<noteq> y \<longrightarrow> fst (D x) = fst (D y) \<longrightarrow> snd (D x) + z \<le> snd (D y) \<or> snd (D y) + z \<le> snd (D x))"

lemma elem_moves_simps [simp]:
  "elem_moves z D S {} = {}" "elem_moves z D S (A \<union> B) = elem_moves z D S A \<union> elem_moves z D S B"
  "elem_moves z D S (\<Union>x\<in>X. E x) = (\<Union>x\<in>X. elem_moves z D S (E x))"
  by (auto simp: elem_moves_def)

lemma elem_moves_Domain: "Domain (elem_moves z D S E) = (\<Union>x\<in>E. Pair (fst (D x)) ` {snd (D x)..<snd (D x) + z})"
  by (simp add: elem_moves_def Domain_Union image_image seg_Domain)

lemma elem_moves_Range: "Range (elem_moves z D S E) = (\<Union>x\<in>E. Pair (fst (S x)) ` {snd (S x)..<snd (S x) + z})"
  by (simp add: elem_moves_def Range_Union image_image seg_Range)

lemma spaced_disjoint:
  assumes "spaced z D A" "E \<subseteq> A" "E' \<subseteq> A" "E \<inter> E' = {}"
  shows "Domain (elem_moves z D S E) \<inter> Domain (elem_moves z D S E') = {}"
proof -
  have "False" if "x \<in> E" "y \<in> E'" "fst (D x) = fst (D y)" "snd (D x) \<le> a" "a < snd (D x) + z" "snd (D y) \<le> a" "a < snd (D y) + z" for x y a
  proof -
    have "x \<noteq> y" "x \<in> A" "y \<in> A" using that(1,2) assms(2-4) by auto
    then show False using assms(1) that(3-7) unfolding spaced_def by fastforce
  qed
  then show ?thesis unfolding elem_moves_Domain by fastforce
qed

lemma elem_moves_mono: "E \<subseteq> A \<Longrightarrow> elem_moves z D S E \<subseteq> elem_moves z D S A"
  by (auto simp: elem_moves_def)

lemma elem_moves_seq:
  assumes "spaced z D A" "separate (elem_moves z D S A)" "E \<subseteq> A" "E' \<subseteq> A" "E \<inter> E' = {}"
    "moved m (elem_moves z D S E) m m1" "moved m1 (elem_moves z D S E') m1 m2"
  shows "moved m (elem_moves z D S (E \<union> E')) m m2"
  using moved_seq [OF assms(6,7) spaced_disjoint [OF assms(1,3-5)] separate_subset [OF assms(2)]] elem_moves_mono [OF assms(3)] elem_moves_mono [OF assms(4)] by simp

section \<open>In any order\<close>

lemma each_block_issues:
  assumes "walks (gai_iterator_next st) h bs h'" "\<And>h b. b \<in> set bs \<Longrightarrow> f h b = (if P b then [g b] else [])"
  shows "each_block st f h = Some (Inr (h', map g (filter P bs)))"
  using assms
proof (induction rule: walks.induct)
  case (stop h h')
  then show ?case by (subst each_block.simps) simp
next
  case (more h h' b bs h'')
  then show ?case by (subst each_block.simps) simp
qed

text \<open>
  Transfers that move elements with different places give one result, in whatever order they take effect: the memory
  in which all these elements have moved.
\<close>

lemma moved_unique: "moved m0 R m m1 \<Longrightarrow> moved m0 R m m2 \<Longrightarrow> m1 = m2"
proof (intro ext)
  fix p x assume a: "moved m0 R m m1" "moved m0 R m m2"
  have "peek m1 (p, x) = peek m2 (p, x)"
    using moved_to [OF a(1)] moved_to [OF a(2)] moved_frame [OF a(1)] moved_frame [OF a(2)]
    by (cases "(p, x) \<in> Domain R") (auto elim!: DomainE)
  then show "m1 p x = m2 p x" by (simp add: peek_def)
qed

definition moves_apart :: "int \<Rightarrow> ('e \<Rightarrow> int \<times> int) \<Rightarrow> ('e \<Rightarrow> int \<times> int) \<Rightarrow> 'e set \<Rightarrow> ('b \<Rightarrow> 'e set) \<Rightarrow> ('b \<Rightarrow> issue) \<Rightarrow> 'b list \<Rightarrow> bool" where
  "moves_apart z D S A E g bs \<longleftrightarrow> sorted_wrt (\<lambda>b b'. E b \<inter> E b' = {}) bs \<and>
     (\<forall>b\<in>set bs. E b \<subseteq> A \<and> (\<forall>m. \<exists>m'. g b m = Some (Inr m') \<and> moved m (elem_moves z D S (E b)) m m'))"

lemma moves_apart_pick:
  assumes "moves_apart z D S A E g (as @ b # bs)"
  shows "moves_apart z D S A E g (as @ bs)" "E b \<inter> (\<Union>x\<in>set (as @ bs). E x) = {}" "E b \<subseteq> A" "(\<Union>x\<in>set (as @ bs). E x) \<subseteq> A"
    "\<exists>m'. g b m = Some (Inr m') \<and> moved m (elem_moves z D S (E b)) m m'"
  using assms unfolding moves_apart_def by (auto simp: sorted_wrt_append)

lemma completes_moved:
  assumes "completes ts ps m r" "spaced z D A" "separate (elem_moves z D S A)"
    "ts = map g as" "ps = map g bs" "moves_apart z D S A E g (bs @ as)"
  shows "\<exists>m'. r = Some (Inr m') \<and> moved m (elem_moves z D S (\<Union>b\<in>set (bs @ as). E b)) m m'"
  using assms(1,4-)
proof (induction arbitrary: as bs rule: completes.induct)
  case (all_done m)
  then show ?case by (simp add: moved_empty)
next
  case (issue ts ps t m r)
  then obtain b as' where "as = b # as'" "t = g b" "ts = map g as'" by auto
  then show ?case using issue.IH [of as' "bs @ [b]"] issue.prems by simp
next
  case (effect t m m' ts ps qs r)
  then obtain b1 b b2 where b: "bs = b1 @ b # b2" "ps = map g b1" "t = g b" "qs = map g b2"
    by (auto simp: append_eq_map_conv Cons_eq_map_conv)
  have ap: "moves_apart z D S A E g (b1 @ b # (b2 @ as))" using effect.prems(3) b(1) by simp
  note k = moves_apart_pick [OF ap]
  have m': "moved m (elem_moves z D S (E b)) m m'" using k(5) [of m] effect.hyps(1) b(3) by auto
  obtain m2 where m2: "r = Some (Inr m2)" "moved m' (elem_moves z D S (\<Union>x\<in>set (b1 @ b2 @ as). E x)) m' m2"
    using effect.IH [of as "b1 @ b2"] effect.prems(1) b k(1) by auto
  have "E b \<union> (\<Union>x\<in>set (b1 @ b2 @ as). E x) = (\<Union>x\<in>set (bs @ as). E x)" using b(1) by auto
  then show ?case using elem_moves_seq [OF assms(2,3) k(3,4,2) m' m2(2)] m2(1) by metis
next
  case (failure t m e ts ps qs)
  have "t \<in> set (map g bs)" unfolding failure.prems(2) [symmetric] by simp
  then obtain b where "b \<in> set bs" "t = g b" by auto
  then have "\<exists>m'. t m = Some (Inr m')" using failure.prems(3) unfolding moves_apart_def by (metis UnCI set_append)
  then show ?case using failure.hyps by auto
next
  case (hang t m ts ps qs)
  have "t \<in> set (map g bs)" unfolding hang.prems(2) [symmetric] by simp
  then obtain b where "b \<in> set bs" "t = g b" by auto
  then have "\<exists>m'. t m = Some (Inr m')" using hang.prems(3) unfolding moves_apart_def by (metis UnCI set_append)
  then show ?case using hang.hyps by auto
qed

lemma completes_exists:
  assumes "moves_apart z D S A E g bs"
  shows "\<exists>m'. completes (map g bs) [] m (Some (Inr m'))"
  using assms
proof (induction bs arbitrary: m)
  case Nil
  then show ?case using completes.all_done by auto
next
  case (Cons b bs)
  obtain m1 where m1: "g b m = Some (Inr m1)" using moves_apart_pick(5) [of z D S A E g "[]" b bs m] Cons.prems by auto
  obtain m' where "completes (map g bs) [] m1 (Some (Inr m'))"
    using Cons.IH [of m1] moves_apart_pick(1) [of z D S A E g "[]" b bs] Cons.prems by auto
  then have "completes (map g bs) ([] @ [g b]) m (Some (Inr m'))"
    using completes.effect [of "g b" m m1 "map g bs" "[]" "[]"] m1 by simp
  then have "completes (g b # map g bs) [] m (Some (Inr m'))" by (rule completes.issue)
  then show ?case by auto
qed

text \<open>All outcomes of a list of such transfers are the one memory.\<close>

lemma completes_all:
  assumes "spaced z D A" "separate (elem_moves z D S A)" "moves_apart z D S A E g bs" "(\<Union>b\<in>set bs. E b) = A"
  shows "\<exists>m'. moved m (elem_moves z D S A) m m' \<and> (\<forall>r. completes (map g bs) [] m r \<longleftrightarrow> r = Some (Inr m'))"
proof -
  have out: "\<exists>m'. r = Some (Inr m') \<and> moved m (elem_moves z D S A) m m'" if "completes (map g bs) [] m r" for r
    using completes_moved [OF that assms(1,2) refl, of "[]" E] assms(3,4) by simp
  obtain m' where m': "completes (map g bs) [] m (Some (Inr m'))" using completes_exists [OF assms(3)] by blast
  then show ?thesis using out moved_unique by blast
qed

end
