(* ===== verification/GA_Blocks.thy ===== *)
theory GA_Blocks
  imports GA_Moves
begin

text \<open>
  The transfer of one block of the iterator: the arguments that put and get compute for it, and the elements that move.
\<close>

section \<open>The bytes of a block are those of its elements\<close>

lemma shift_patch: "length hi = length lo \<Longrightarrow> {e. in_grid (sizes lo hi) e} = shift lo ` {ss. in_patch lo hi ss}"
proof (induction hi lo rule: list_induct2)
  case Nil
  have "{ss. in_patch [] [] ss} = {[]}" by (rule set_eqI) (case_tac x; simp)
  then show ?case by (simp add: sizes_def)
next
  case (Cons h hi l lo)
  show ?case
  proof (intro set_eqI iffI)
    fix e assume "e \<in> {e. in_grid (sizes (l # lo) (h # hi)) e}"
    then obtain i e' where e: "e = i # e'" "0 \<le> i" "i < h - l + 1" "in_grid (sizes lo hi) e'" by (cases e) (auto simp: sizes_def)
    then obtain ss where "in_patch lo hi ss" "e' = shift lo ss" using Cons.IH by blast
    then show "e \<in> shift (l # lo) ` {ss. in_patch (l # lo) (h # hi) ss}" using e by (intro image_eqI [of _ _ "(l + i) # ss"]) auto
  next
    fix e assume "e \<in> shift (l # lo) ` {ss. in_patch (l # lo) (h # hi) ss}"
    then obtain ss where "in_patch (l # lo) (h # hi) ss" "e = shift (l # lo) ss" by blast
    then show "e \<in> {e. in_grid (sizes (l # lo) (h # hi)) e}" using in_grid_shift by blast
  qed
qed

lemma scaled_grid:
  fixes z :: int
  assumes "0 < z"
  shows "{e. in_grid (z * c # cs) e} = (\<Union>e\<in>{e. in_grid (c # cs) e}. (\<lambda>k. (z * hd e + k) # tl e) ` {0..<z})"
proof (intro set_eqI iffI)
  fix e assume "e \<in> {e. in_grid (z * c # cs) e}"
  then obtain x es where e: "e = x # es" "0 \<le> x" "x < z * c" "in_grid cs es" by (cases e) auto
  have "x = z * hd (x div z # es) + x mod z" by simp
  moreover have "in_grid (c # cs) (x div z # es)" using e assms div_less by (simp add: pos_imp_zdiv_nonneg_iff)
  moreover have "x mod z \<in> {0..<z}" using assms by simp
  ultimately show "e \<in> (\<Union>e\<in>{e. in_grid (c # cs) e}. (\<lambda>k. (z * hd e + k) # tl e) ` {0..<z})"
    using e(1) by (intro UN_I [of "x div z # es"]) (auto intro!: image_eqI [of _ _ "x mod z"])
next
  fix e assume "e \<in> (\<Union>e\<in>{e. in_grid (c # cs) e}. (\<lambda>k. (z * hd e + k) # tl e) ` {0..<z})"
  then obtain f k where f: "in_grid (c # cs) f" "0 \<le> k" "k < z" "e = (z * hd f + k) # tl f" by auto
  obtain i es where i: "f = i # es" "0 \<le> i" "i + 1 \<le> c" "in_grid cs es" using f(1) by (cases f) auto
  have "z * (i + 1) \<le> z * c" using i(3) assms by (intro mult_left_mono) auto
  then have "z * i + k < z * c" using f(3) unfolding distrib_left by linarith
  then show "e \<in> {e. in_grid (z * c # cs) e}" using f i assms by simp
qed

lemma block_elems_moves:
  assumes "0 < z" "lo \<noteq> []" "length hi = length lo" "length lo - 1 \<le> length ldd" "length lo - 1 \<le> length lds" "sizes lo hi = c # cs"
  shows "block q d (weights z (take (length lo - 1) ldd)) p s (weights z (take (length lo - 1) lds)) (z * c # cs) =
    elem_moves z (\<lambda>ss. (q, d + z * strided ss lo ldd 1)) (\<lambda>ss. (p, s + z * strided ss lo lds 1)) {ss. in_patch lo hi ss}"
proof -
  let ?W = "\<lambda>ld. weights z (take (length lo - 1) ld)"
  have w: "dot ((z * hd (shift lo ss) + k) # tl (shift lo ss)) (1 # ?W ld) = z * strided ss lo ld 1 + k"
    if "in_patch lo hi ss" "length lo - 1 \<le> length ld" for ss k ld
  proof -
    have l: "length ss = length lo" using in_patch_lengths [OF that(1)] by simp
    obtain i e where i: "shift lo ss = i # e" using l assms(2) by (cases lo; cases ss) auto
    have "z * strided ss lo ld 1 = strided ss lo ld z" using strided_mult [of ss lo ld z 1] by simp
    also have "\<dots> = dot (shift lo ss) (z # ?W ld)" using strided_dot [OF l assms(2) that(2)] .
    finally show ?thesis using i by (simp add: algebra_simps)
  qed
  have "block q d (?W ldd) p s (?W lds) (z * c # cs) =
      (\<lambda>e. ((q, d + dot e (1 # ?W ldd)), (p, s + dot e (1 # ?W lds)))) ` (\<Union>ss\<in>{ss. in_patch lo hi ss}. (\<lambda>k. (z * hd (shift lo ss) + k) # tl (shift lo ss)) ` {0..<z})"
    unfolding block_def scaled_grid [OF assms(1)] assms(6) [symmetric] shift_patch [OF assms(3)] by simp
  also have "\<dots> = elem_moves z (\<lambda>ss. (q, d + z * strided ss lo ldd 1)) (\<lambda>ss. (p, s + z * strided ss lo lds 1)) {ss. in_patch lo hi ss}"
  proof -
    have "((q, d + dot ((z * hd (shift lo ss) + k) # tl (shift lo ss)) (1 # ?W ldd)), (p, s + dot ((z * hd (shift lo ss) + k) # tl (shift lo ss)) (1 # ?W lds))) =
        ((q, d + z * strided ss lo ldd 1 + k), (p, s + z * strided ss lo lds 1 + k))" if "in_patch lo hi ss" for ss k
      unfolding w [OF that assms(4)] w [OF that assms(5)] by (simp only: add.assoc)
    then show ?thesis unfolding elem_moves_def image_UN image_image seg_def fst_conv snd_conv
      by (intro SUP_cong refl image_cong) (simp only: mem_Collect_eq)
  qed
  finally show ?thesis .
qed

lemma reach_Domain: "Pair q ` reach d ds cs = Domain (block q d ds p s ss cs)"
  and reach_Range: "Pair p ` reach s ss cs = Range (block q d ds p s ss cs)"
  by (simp_all add: reach_def block_def Domain_fst Range_snd image_image)

section \<open>Blocks that fit\<close>

text \<open>The strides \<open>ld\<close> of the array or the buffer hold the block from \<open>lo\<close> to \<open>hi\<close>.\<close>

definition holds_block :: "int \<Rightarrow> int list \<Rightarrow> int list \<Rightarrow> int list \<Rightarrow> bool" where
  "holds_block z lo hi ld \<longleftrightarrow> (\<exists>L. list_all2 (\<le>) (sizes lo hi) L \<and> take (length L - 1) ld = butlast L \<and> z * prod_list L < 2147483648)"

lemma holds_block_strided:
  assumes "holds_block z lo hi ld" "0 < z" "lo \<noteq> []" "in_patch lo hi lo" "length lo \<le> 7" "sizes lo hi = c # cs"
  shows "well_strided (z * c # cs) (weights z (take (length lo - 1) ld))" "length lo - 1 \<le> length ld"
    "take (length lo - 1) (strides (s32 z) (take (length lo - 1) ld)) = weights z (take (length lo - 1) ld)"
    "gam_ComputeCount lo hi = c # cs" "s32 (c * z) = z * c"
proof -
  obtain L where L: "list_all2 (\<le>) (c # cs) L" "take (length L - 1) ld = butlast L" "z * prod_list L < 2147483648"
    using assms(1,6) unfolding holds_block_def by auto
  have l: "length hi = length lo" using in_patch_lengths [OF assms(4)] by simp
  have "length (sizes lo hi) = length lo" using l by (simp add: sizes_def)
  then have n: "length L = length lo" using list_all2_lengthD [OF L(1)] assms(6) by simp
  have g: "grid_ok (c # cs)" using sizes_ok [OF assms(4)] assms(6) by simp
  have t: "take (length lo - 1) ld = butlast L" using L(2) n by simp
  note w = weights_strided [OF assms(2) L(1) g _ L(3)]
  show "well_strided (z * c # cs) (weights z (take (length lo - 1) ld))"
    "take (length lo - 1) (strides (s32 z) (take (length lo - 1) ld)) = weights z (take (length lo - 1) ld)" "s32 (c * z) = z * c"
    using w n assms(5) unfolding t by simp_all
  show "length lo - 1 \<le> length ld" using arg_cong [OF t, of length] n by simp
  have "s32 (x - 1) + 1 = x" if "x \<in> set (sizes lo hi)" for x using w(4,5) n assms(5) that unfolding assms(6) by auto
  then have "gam_ComputeCount lo hi = sizes lo hi"
    unfolding gam_ComputeCount_def sizes_def by (intro map_cong) (force simp: in_set_zip)+
  then show "gam_ComputeCount lo hi = c # cs" using assms(6) by simp
qed

context strided_transport
begin

lemma put_elems:
  assumes "avail q b k" "0 < z" "lo \<noteq> []" "in_patch lo hi lo" "length lo \<le> 7" "sizes lo hi = c # cs"
    "holds_block z lo hi ldd" "holds_block z lo hi lds" "0 < s"
    "\<And>ss. in_patch lo hi ss \<Longrightarrow> b \<le> d + z * strided ss lo ldd 1 \<and> d + z * strided ss lo ldd 1 + z \<le> b + k"
    "separate (elem_moves z (\<lambda>ss. (q, d + z * strided ss lo ldd 1)) (\<lambda>ss. (me, s + z * strided ss lo lds 1)) {ss. in_patch lo hi ss})"
  shows "\<exists>m'. put s (weights z (take (length lo - 1) lds)) d (weights z (take (length lo - 1) ldd)) (z * c # cs) q m = Some (Inr m') \<and>
    moved m (elem_moves z (\<lambda>ss. (q, d + z * strided ss lo ldd 1)) (\<lambda>ss. (me, s + z * strided ss lo lds 1)) {ss. in_patch lo hi ss}) m m'"
proof -
  note dd = holds_block_strided [OF assms(7,2-6)] and sd = holds_block_strided [OF assms(8,2-6)]
  have l: "length hi = length lo" using in_patch_lengths [OF assms(4)] by simp
  note e = block_elems_moves [OF assms(2,3) l dd(2) sd(2) assms(6), of q d me s]
  have "Pair q ` reach d (weights z (take (length lo - 1) ldd)) (z * c # cs) \<subseteq> Pair q ` {b..<b + k}"
    unfolding reach_Domain [of q d _ _ me s "weights z (take (length lo - 1) lds)"] e elem_moves_Domain using assms(10) by fastforce
  then have "reach d (weights z (take (length lo - 1) ldd)) (z * c # cs) \<subseteq> {b..<b + k}" by blast
  from put_block [OF assms(1) sd(1) dd(1) assms(9) this] show ?thesis unfolding e using assms(11) by blast
qed

lemma get_elems:
  assumes "avail q b k" "0 < z" "lo \<noteq> []" "in_patch lo hi lo" "length lo \<le> 7" "sizes lo hi = c # cs"
    "holds_block z lo hi ldd" "holds_block z lo hi lds" "0 < d"
    "\<And>ss. in_patch lo hi ss \<Longrightarrow> b \<le> s + z * strided ss lo lds 1 \<and> s + z * strided ss lo lds 1 + z \<le> b + k"
    "separate (elem_moves z (\<lambda>ss. (me, d + z * strided ss lo ldd 1)) (\<lambda>ss. (q, s + z * strided ss lo lds 1)) {ss. in_patch lo hi ss})"
  shows "\<exists>m'. get s (weights z (take (length lo - 1) lds)) d (weights z (take (length lo - 1) ldd)) (z * c # cs) q m = Some (Inr m') \<and>
    moved m (elem_moves z (\<lambda>ss. (me, d + z * strided ss lo ldd 1)) (\<lambda>ss. (q, s + z * strided ss lo lds 1)) {ss. in_patch lo hi ss}) m m'"
proof -
  note dd = holds_block_strided [OF assms(7,2-6)] and sd = holds_block_strided [OF assms(8,2-6)]
  have l: "length hi = length lo" using in_patch_lengths [OF assms(4)] by simp
  note e = block_elems_moves [OF assms(2,3) l dd(2) sd(2) assms(6), of me d q s]
  have "Pair q ` reach s (weights z (take (length lo - 1) lds)) (z * c # cs) \<subseteq> Pair q ` {b..<b + k}"
    unfolding reach_Range [of q s _ _ me d "weights z (take (length lo - 1) ldd)"] e elem_moves_Range using assms(10) by fastforce
  then have "reach s (weights z (take (length lo - 1) lds)) (z * c # cs) \<subseteq> {b..<b + k}" by blast
  from get_block [OF assms(1) sd(1) dd(1) assms(9) this] show ?thesis unfolding e using assms(11) by blast
qed

end

section \<open>Buffers\<close>

text \<open>The buffer of the caller: the physical dimensions are at least those of the patch; its length in bytes.\<close>

definition buffer_len :: "int \<Rightarrow> int list \<Rightarrow> int list \<Rightarrow> int list \<Rightarrow> int" where
  "buffer_len z lo hi ld = z * (prod_list (take (length lo - 1) ld) * last (sizes lo hi))"

definition buffer_ok :: "int \<Rightarrow> int list \<Rightarrow> int list \<Rightarrow> int list \<Rightarrow> bool" where
  "buffer_ok z lo hi ld \<longleftrightarrow> list_all2 (\<le>) (butlast (sizes lo hi)) (take (length lo - 1) ld) \<and> buffer_len z lo hi ld < 2147483648"

lemma buffer_sizes:
  assumes "buffer_ok z lo hi ld" "in_patch lo hi lo" "lo \<noteq> []"
  defines "L \<equiv> take (length lo - 1) ld @ [last (sizes lo hi)]"
  shows "list_all2 (\<le>) (sizes lo hi) L" "take (length L - 1) ld = butlast L" "z * prod_list L = buffer_len z lo hi ld" "length L = length lo"
    "grid_ok L"
proof -
  have l: "length (sizes lo hi) = length lo" "sizes lo hi \<noteq> []"
    using in_patch_lengths [OF assms(2)] assms(3) by (auto simp: sizes_def)
  have "list_all2 (\<le>) (butlast (sizes lo hi) @ [last (sizes lo hi)]) L"
    using assms(1) unfolding L_def buffer_ok_def by (intro list_all2_appendI) auto
  then show a: "list_all2 (\<le>) (sizes lo hi) L" using l(2) by simp
  show n: "length L = length lo" using list_all2_lengthD [OF a] l(1) by simp
  show "take (length L - 1) ld = butlast L" using n by (simp add: L_def)
  show "z * prod_list L = buffer_len z lo hi ld" by (simp add: L_def buffer_len_def)
  show "grid_ok L" using grid_le [OF a sizes_ok [OF assms(2)]] by simp
qed

lemma strided_pos:
  "length ss = length lo \<Longrightarrow> length L = length lo \<Longrightarrow> take (length L - 1) ld = butlast L \<Longrightarrow>
   strided ss lo ld f = f * pos L (shift lo ss)"
proof (induction lo arbitrary: ss L ld f)
  case (Cons l lo)
  then obtain s ss' x L' where e: "ss = s # ss'" "L = x # L'" by (metis length_Suc_conv)
  show ?case
  proof (cases L')
    case Nil
    then show ?thesis using Cons.prems e by simp
  next
    case (Cons y L2)
    have "take (length L') ld = x # butlast L'" using Cons.prems(3) e Cons by simp
    then obtain ld' where ld: "ld = x # ld'" "take (length L' - 1) ld' = butlast L'" using Cons by (cases ld) auto
    then show ?thesis using Cons.IH [of ss' L' ld' "f * x"] Cons.prems e by (simp add: algebra_simps)
  qed
qed simp

lemma in_grid_le: "in_grid cs e \<Longrightarrow> list_all2 (\<le>) cs L \<Longrightarrow> in_grid L e"
  unfolding in_grid_def by (auto simp: list_all2_conv_all_nth) force

lemma buffer_elems:
  assumes "buffer_ok z lo hi ld" "0 < z" "in_patch lo hi lo" "lo \<noteq> []" "in_patch lo hi ss"
  shows "0 \<le> z * strided ss lo ld 1" "z * strided ss lo ld 1 + z \<le> buffer_len z lo hi ld"
    "in_patch lo hi ss' \<Longrightarrow> strided ss lo ld 1 = strided ss' lo ld 1 \<longleftrightarrow> ss = ss'"
proof -
  let ?L = "take (length lo - 1) ld @ [last (sizes lo hi)]"
  note L = buffer_sizes [OF assms(1,3,4)]
  have p: "strided t lo ld 1 = pos ?L (shift lo t)" "in_grid ?L (shift lo t)" if "in_patch lo hi t" for t
    using strided_pos [of t lo ?L ld 1] L(2,4) in_patch_lengths [OF that] in_grid_le [OF in_grid_shift [OF that] L(1)] by simp_all
  have b: "0 \<le> strided ss lo ld 1" "strided ss lo ld 1 + 1 \<le> prod_list ?L"
    using pos_bound [OF L(5) p(2) [OF assms(5)]] p(1) [OF assms(5)] by auto
  show "0 \<le> z * strided ss lo ld 1" using b(1) assms(2) by simp
  have "z * (strided ss lo ld 1 + 1) \<le> z * prod_list ?L" using b(2) assms(2) by (intro mult_left_mono) auto
  then show "z * strided ss lo ld 1 + z \<le> buffer_len z lo hi ld" unfolding L(3) distrib_left by simp
  show "strided ss lo ld 1 = strided ss' lo ld 1 \<longleftrightarrow> ss = ss'" if s: "in_patch lo hi ss'"
  proof -
    have "shift lo ss = shift lo ss'" if "strided ss lo ld 1 = strided ss' lo ld 1"
      using arg_cong [OF that [unfolded p(1) [OF assms(5)] p(1) [OF s]], of "gam_find_proc_indices ?L"]
      unfolding proc_indices_of_pos [OF L(5) p(2) [OF assms(5)]] proc_indices_of_pos [OF L(5) p(2) [OF s]] .
    then show ?thesis using shift_inj [of ss lo ss'] in_patch_lengths [OF assms(5)] in_patch_lengths [OF s] by auto
  qed
qed

lemma buffer_holds:
  assumes "buffer_ok z lo hi ld" "in_patch lo hi lo" "lo \<noteq> []" "in_patch lo hi plo" "in_patch lo hi phi"
  shows "holds_block z plo phi ld"
proof -
  let ?L = "take (length lo - 1) ld @ [last (sizes lo hi)]"
  note L = buffer_sizes [OF assms(1-3)]
  have "in_patch lo hi plo \<Longrightarrow> in_patch lo hi phi \<Longrightarrow> list_all2 (\<le>) (sizes plo phi) (sizes lo hi)"
  proof (induction lo hi plo arbitrary: phi rule: in_patch.induct)
    case (1 l lo h hi s ss)
    then obtain t ts where "phi = t # ts" by (cases phi) auto
    then show ?case using 1 by (auto simp: sizes_def)
  qed (auto simp: sizes_def)
  from list_all2_trans [OF order_trans this [OF assms(4,5)] L(1)] have "list_all2 (\<le>) (sizes plo phi) ?L" .
  then show ?thesis unfolding holds_block_def using L(2,3) assms(1) by (intro exI [of _ ?L]) (auto simp: buffer_ok_def)
qed

end
