(* ===== verification/GA_Tiled.thy ===== *)
theory GA_Tiled
  imports GA_Layout
begin

text \<open>
  The tiled and ScaLAPACK arrays as instances of the tilings: their axes, the leading dimensions of the local
  matrices, and the memory that \<open>pnga_allocate\<close> reserves for them.
\<close>

section \<open>Instances\<close>

interpretation bt: tiling blk_valid blk_extent blk_count blk_find blk_first blk_final
proof unfold_locales
  fix x :: "int \<times> int" and i
  obtain b d where x: "x = (b, d)" by (cases x) auto
  assume v: "blk_valid x" and i: "0 \<le> i" "i < blk_count x"
  then have bd: "0 < b" "0 < d" by (auto simp: x blk_valid_def)
  have "i \<le> (d - 1) div b" using i bd by (simp add: x blk_count_def count_blocks_div)
  then have "i * b \<le> (d - 1) div b * b" using bd by (intro mult_right_mono) auto
  also have "\<dots> \<le> d - 1" using div_block [OF bd(1), of "d - 1"] by simp
  finally show "blk_first x i \<le> blk_final x i + 1" using bd by (simp add: x blk_first_def blk_final_def distrib_right)
qed

interpretation mt: tiling map_valid map_extent map_count map_find map_first map_final
proof unfold_locales
  fix x :: "int \<times> int \<times> int list" and i
  obtain n d m where x: "x = (n, d, m)" by (cases x) auto
  assume v: "map_valid x" and i: "0 \<le> i" "i < map_count x"
  have i': "0 \<le> i" "i < n" using i by (auto simp: x map_count_def)
  show "map_first x i \<le> map_final x i + 1"
  proof (cases "i = n - 1")
    case True
    then show ?thesis using map_valid_entry(3) [of n d m i i] v i' by (simp add: x map_first_def map_final_def)
  next
    case False
    then show ?thesis using map_valid_entry(1) [of n d m i "i + 1"] v i' by (simp add: x map_first_def map_final_def)
  qed
qed

section \<open>Local matrices\<close>

text \<open>The elements of a block, also past the end of the axis.\<close>

definition blk_part :: "int \<Rightarrow> int \<Rightarrow> int \<Rightarrow> int" where
  "blk_part b d j = min ((j + 1) * b) d - min (j * b) d"

lemma blk_count_bounds:
  assumes "0 < b" "0 < d"
  shows "d \<le> blk_count (b, d) * b" "(blk_count (b, d) - 1) * b < d"
  using div_block [OF assms(1), of "d - 1"] assms by (auto simp: blk_count_def count_blocks_div)

lemma blk_len_part: "0 < b \<Longrightarrow> 0 < d \<Longrightarrow> j < blk_count (b, d) \<Longrightarrow> bt.len (b, d) j = blk_part b d j"
proof -
  assume b: "0 < b" "0 < d" and j: "j < blk_count (b, d)"
  have "j * b \<le> (blk_count (b, d) - 1) * b" using b j by (intro mult_right_mono) auto
  then have "j * b \<le> d" using blk_count_bounds(2) [OF b] by simp
  then show ?thesis unfolding bt.len_def by (simp add: blk_part_def blk_final_def blk_first_def min_def)
qed

lemma blk_before_sum:
  assumes "0 < b" "0 < d" "0 < s" "0 \<le> p"
  shows "bt.before (b, d) p s (p + int k * s) = (\<Sum>i<k. blk_part b d (p + int i * s))"
proof (induction k)
  case 0
  then show ?case using bt.before_start [OF assms(3)] by simp
next
  case (Suc k)
  let ?j = "p + int k * s"
  have e: "p + int (Suc k) * s = ?j + s" by (simp add: algebra_simps)
  show ?case
  proof (cases "?j < blk_count (b, d)")
    case True
    have "bt.before (b, d) p s (?j + s) = bt.before (b, d) p s ?j + bt.len (b, d) ?j"
      using True assms by (intro bt.before_step) auto
    then show ?thesis using Suc.IH blk_len_part [OF assms(1,2) True] unfolding e by simp
  next
    case False
    have "blk_count (b, d) * b \<le> ?j * b" using False assms by (intro mult_right_mono) auto
    then have "blk_part b d ?j = 0" using blk_count_bounds(1) [OF assms(1,2)] assms(1) by (simp add: blk_part_def distrib_right)
    moreover have "bt.before (b, d) p s (?j + s) = bt.before (b, d) p s ?j"
      using False assms bt.before_all [OF assms(3)] by simp
    ultimately show ?thesis using Suc.IH unfolding e by simp
  qed
qed

lemma blk_before_full:
  assumes "0 < b" "0 < d" "0 < s" "0 \<le> p" "(p + int k * s) * b \<le> d + (s - 1) * b"
  shows "bt.before (b, d) p s (p + int k * s) = int k * b"
proof -
  have "blk_part b d (p + int i * s) = b" if "i < k" for i
  proof -
    have "int i + 1 \<le> int k" using that by simp
    then have "(int i + 1) * s \<le> int k * s" using assms(3) by (intro mult_right_mono) auto
    then have "p + int i * s + 1 \<le> p + int k * s - (s - 1)" by (simp add: algebra_simps)
    then have "(p + int i * s + 1) * b \<le> (p + int k * s - (s - 1)) * b" using assms(1) by (intro mult_right_mono) auto
    then have le: "(p + int i * s + 1) * b \<le> d" using assms(5) by (simp add: left_diff_distrib)
    then have "(p + int i * s) * b \<le> d" using assms(1) by (simp add: distrib_right)
    then show ?thesis using le by (simp add: blk_part_def min_def distrib_right)
  qed
  then show ?thesis unfolding blk_before_sum [OF assms(1-4)] by simp
qed

lemma blk_before:
  assumes "0 < b" "0 < d" "0 < s" "0 \<le> p" "p < s" "p \<le> i" "i < blk_count (b, d)" "s dvd i - p"
  shows "bt.before (b, d) p s i = i div s * b"
proof -
  define k where "k = nat ((i - p) div s)"
  have i: "i = p + int k * s" using assms(3,6,8) by (simp add: k_def pos_imp_zdiv_nonneg_iff)
  have "i div s = int k" using assms(3-5) unfolding i by simp
  moreover have "bt.before (b, d) p s (p + int k * s) = int k * b"
  proof (rule blk_before_full [OF assms(1-4)])
    have "(p + int k * s) * b \<le> (blk_count (b, d) - 1) * b" using assms(1,7) i by (intro mult_right_mono) auto
    then have "(p + int k * s) * b \<le> d" using blk_count_bounds(2) [OF assms(1,2)] by simp
    moreover have "0 \<le> (s - 1) * b" using assms(1,3) by simp
    ultimately show "(p + int k * s) * b \<le> d + (s - 1) * b" by linarith
  qed
  ultimately show ?thesis using i by simp
qed

lemma sl_extent_share:
  assumes "0 < b" "0 < d" "0 < s" "0 \<le> p" "p < s"
  defines "q \<equiv> cdiv d (b * s)"
  shows "sl_extent (q * b) (d - q * (b * s)) (cdiv (d - q * (b * s)) b) b p d = bt.share (b, d) p s"
proof -
  let ?u = "b * s" define r where "r = d - q * ?u"
  have u: "0 < ?u" using assms by simp
  have q: "q = d div ?u" "0 \<le> q" using assms u by (simp_all add: q_def pos_imp_zdiv_nonneg_iff)
  have r: "0 \<le> r" "r < ?u" "d = q * s * b + r" using div_block [OF u, of d] q by (auto simp: r_def algebra_simps)
  define k where "k = nat q"
  have k: "int k = q" using q(2) by (simp add: k_def)
  have "bt.before (b, d) p s (p + int k * s) = q * b"
  proof -
    have "p * b \<le> (s - 1) * b" using assms by (intro mult_right_mono) auto
    then have "(p + int k * s) * b \<le> d + (s - 1) * b" using r by (simp add: k algebra_simps)
    from blk_before_full [OF assms(1-4) this] show ?thesis by (simp add: k)
  qed
  then have sum: "(\<Sum>i<k. blk_part b d (p + int i * s)) = q * b" using blk_before_sum [OF assms(1-4), of k] by simp
  have last: "blk_part b d (p + q * s) = min ((p + 1) * b) r - min (p * b) r"
  proof -
    have "(p + q * s + 1) * b = q * s * b + (p + 1) * b" "(p + q * s) * b = q * s * b + p * b" by (simp_all add: algebra_simps)
    then show ?thesis unfolding blk_part_def r(3) by simp
  qed
  have "blk_count (b, d) \<le> p + int (Suc k) * s"
  proof -
    have "(blk_count (b, d) - 1) * b < (q + 1) * s * b" using blk_count_bounds(2) [OF assms(1,2)] r by (simp add: algebra_simps)
    then have "blk_count (b, d) - 1 < (q + 1) * s" using assms(1) by (rule mult_right_less_imp_less [OF _ less_imp_le])
    then show ?thesis using assms(4) k by (simp add: algebra_simps)
  qed
  then have "bt.share (b, d) p s = q * b + (min ((p + 1) * b) r - min (p * b) r)"
    using bt.before_all [OF assms(3)] blk_before_sum [OF assms(1-4), of "Suc k"] sum last k by simp
  moreover have "min ((p + 1) * b) r - min (p * b) r = (if r > 0 then if p < cdiv r b then b else if p = cdiv r b then cmod r b else 0 else cmod d b)"
  proof (cases "r > 0")
    case True
    have db: "r div b * b \<le> r" "r < (r div b + 1) * b" "r mod b = r - r div b * b"
      using div_block [OF assms(1), of r] by (auto simp: minus_div_mult_eq_mod)
    have c: "cdiv r b = r div b" "cmod r b = r mod b" using True assms(1) by simp_all
    consider "p < r div b" | "p = r div b" | "r div b + 1 \<le> p" by linarith
    then show ?thesis
    proof cases
      case 1
      then have "(p + 1) * b \<le> r div b * b" using assms(1) by (intro mult_right_mono) auto
      moreover have "p * b \<le> (p + 1) * b" using assms(1) by (intro mult_right_mono) auto
      ultimately show ?thesis using True 1 c db by (simp add: min_def distrib_right)
    next
      case 2
      then show ?thesis using True c db by (simp add: min_def)
    next
      case 3
      then have "(r div b + 1) * b \<le> p * b" using assms(1) by (intro mult_right_mono) auto
      moreover have "p * b \<le> (p + 1) * b" using assms(1) by (intro mult_right_mono) auto
      ultimately show ?thesis using True 3 c db by (simp add: min_def)
    qed
  next
    case False
    then have z: "r = 0" using r by simp
    have "d mod b = 0" using r(3) z by simp
    moreover have "0 \<le> p * b" "0 \<le> (p + 1) * b" using assms(1,4) by simp_all
    ultimately show ?thesis using z assms(1,2) by (simp add: min_absorb2)
  qed
  ultimately show ?thesis unfolding sl_extent_def r_def [symmetric] by simp
qed

lemma sl_matrix:
  assumes "length bs = length ds" "length ss = length ds" "length ps = length ds" "grid_ok ss" "in_grid ss ps"
    "list_all blk_valid (zip bs ds)" "bt.starts_ok (zip bs ds) ps ss" "bt.on_grid (zip bs ds) ps ss is"
    "in_patch (map2 blk_first (zip bs ds) is) (map2 blk_final (zip bs ds) is) xs"
  shows "sl_offset xs (map2 blk_first (zip bs ds) is) (map2 (*) bs ss) bs (sl_ld ps ss bs ds) f =
    f * pos (bt.shares (zip bs ds) ps ss) (bt.coords (zip bs ds) ps ss is xs)"
  using assms
proof (induction ds arbitrary: bs ss ps "is" xs f)
  case Nil
  then show ?case by (simp add: bt.shares_def bt.coords_def)
next
  case (Cons d ds)
  obtain b bs' s ss' p ps' where e: "bs = b # bs'" "ss = s # ss'" "ps = p # ps'" using Cons.prems(1-3) by (metis length_Suc_conv)
  obtain i is' where i: "is = i # is'" using bt.on_grid_cases [of "(b, d)" "zip bs' ds" ps ss "is"] Cons.prems(7,8) e by auto
  obtain x xs' where x: "xs = x # xs'" using Cons.prems(9) i e by (cases xs) auto
  have v: "0 < b" "0 < d" "0 < s" "0 \<le> p" "p < s" "p \<le> i" "i < blk_count (b, d)" "s dvd i - p"
    using Cons.prems e i by (auto simp: blk_valid_def)
  have ip: "0 \<le> i" using v by simp
  have "cdiv (blk_first (b, d) i - 1) (b * s) = i div s"
    using v ip by (simp add: blk_first_def zdiv_zmult2_eq mult.commute)
  then have c: "x - blk_first (b, d) i + cdiv (blk_first (b, d) i - 1) (b * s) * b = bt.before (b, d) p s i + (x - blk_first (b, d) i)"
    using blk_before [OF v] by simp
  show ?case
  proof (cases ds)
    case Nil
    then show ?thesis using Cons.prems c unfolding e i x by (simp add: bt.shares_def bt.coords_def algebra_simps)
  next
    case ds: (Cons d2 ds2)
    have "xs' \<noteq> []" using Cons.prems(1,8,9) e i x ds bt.on_grid_length [OF Cons.prems(7,8)] by (cases xs'; cases bs'; cases is') auto
    have ne: "zip ps' (zip ss' (zip bs' ds)) \<noteq> []" using Cons.prems(1-3) e ds by (cases ps'; cases ss'; cases bs') auto
    have ld: "sl_ld ps ss bs (d # ds) = bt.share (b, d) p s # sl_ld ps' ss' bs' ds"
      using ne sl_extent_share [OF v(1-5)] unfolding e by (simp add: sl_ld_def Let_def)
    have IH: "sl_offset xs' (map2 blk_first (zip bs' ds) is') (map2 (*) bs' ss') bs' (sl_ld ps' ss' bs' ds) (f * bt.share (b, d) p s) =
        f * bt.share (b, d) p s * pos (bt.shares (zip bs' ds) ps' ss') (bt.coords (zip bs' ds) ps' ss' is' xs')"
      by (rule Cons.IH) (use Cons.prems e i x in auto)
    have l: "sl_offset xs (map2 blk_first (zip bs (d # ds)) is) (map2 (*) bs ss) bs (sl_ld ps ss bs (d # ds)) f =
        (x - blk_first (b, d) i + cdiv (blk_first (b, d) i - 1) (b * s) * b) * f +
        sl_offset xs' (map2 blk_first (zip bs' ds) is') (map2 (*) bs' ss') bs' (sl_ld ps' ss' bs' ds) (f * bt.share (b, d) p s)"
      unfolding ld unfolding e i x using \<open>xs' \<noteq> []\<close> by simp
    show ?thesis unfolding l IH c unfolding e i x by (simp add: bt.shares_def bt.coords_def algebra_simps)
  qed
qed

section \<open>Arrays\<close>

text \<open>
  The arrays that the walk covers: a ScaLAPACK or tiled array of the world group, not restricted, with a processor grid
  of as many positions as there are processes, and on every axis no more positions than blocks, so that every process has
  a block. The program accepts arrays beyond this: it asks of the grid only that its entries are positive and, at the
  allocation, that the product fits, and it takes restricted arrays. There the iterator goes wrong: \<open>idle_position_repeats\<close> in
  \<open>GA_Iteration\<close> has an array with an idle position that it visits all the same.
\<close>

definition grid_spread :: "ga_state \<Rightarrow> global_array_t \<Rightarrow> bool" where
  "grid_spread st a \<longleftrightarrow> (blocks_ok a \<and> distr_type a \<noteq> BLOCK_CYCLIC \<or> tiled_irreg_ok a) \<and> p_handle a = -1 \<and> num_rstrctd a = 0 \<and>
     length (nblock a) = length (dims a) \<and> grid_ok (nblock a) \<and> list_all2 (\<le>) (nblock a) (num_blocks a) \<and>
     prod_list (nblock a) = GAnproc st"

lemma tile_limits_blocks:
  "length bs = length ds \<Longrightarrow> length is = length ds \<Longrightarrow> tile_limits bs ds is = bt.blk_at (zip bs ds) is"
proof -
  assume l: "length bs = length ds" "length is = length ds"
  have "map2 (\<lambda>i b. i * b + 1) is bs = map2 blk_first (zip bs ds) is \<and>
    map2 (\<lambda>h d. if h > d then d else h) (map2 (\<lambda>i b. (i + 1) * b) is bs) ds = map2 blk_final (zip bs ds) is"
    using l
  proof (induction ds arbitrary: bs "is")
    case (Cons d ds)
    then obtain b bs' i is' where "bs = b # bs'" "is = i # is'" by (metis length_Suc_conv)
    then show ?case using Cons by (simp add: blk_first_def blk_final_def)
  qed simp
  then show ?thesis by (simp add: tile_limits_def bt.blk_at_def)
qed

lemma irreg_limits_map:
  "length ns = length ds \<Longrightarrow> length is = length ds \<Longrightarrow>
   irreg_limits ns ds m is = map2 (\<lambda>a i. (map_first a i, map_final a i)) (axes_of ns ds m) is"
  by (induction ns ds m "is" rule: irreg_limits.induct) (auto simp: map_first_def map_final_def)

lemma tiled_by_blocks:
  assumes "blocks_ok a" "distr_type a \<noteq> BLOCK_CYCLIC" "grid_spread st a"
  shows "bt.tiled_by a (blk_axes a)"
proof -
  note ax = blocks_axes [OF assms(1)]
  have b: "length (block_dims a) = length (dims a)" "dims a \<noteq> []"
    "distr_type a = BLOCK_CYCLIC \<or> distr_type a = SCALAPACK \<or> distr_type a = TILED"
    using assms(1) unfolding blocks_ok_def by blast+
  then have t: "distr_type a = SCALAPACK \<or> distr_type a = TILED" using assms(2) by blast
  have n: "length (num_blocks a) = length (dims a)" using ax(2,4) by (metis length_map)
  have "tile_bounds a h = bt.blk_at (blk_axes a) (it_index h)" if "hdl_for a h" "in_grid (num_blocks a) (it_index h)" for h
  proof -
    have "blk_size h = block_dims a" "distr_type a \<noteq> TILED_IRREG" using that(1) t by (auto simp: hdl_for_def)
    then show ?thesis
      using tile_limits_blocks [OF b(1)] in_grid_length [OF that(2)] n by (simp add: tile_bounds_def blk_axes_def)
  qed
  moreover have "blk_axes a \<noteq> []" using b by (cases "block_dims a"; cases "dims a") (auto simp: blk_axes_def)
  moreover have "distr_type a = SCALAPACK \<or> distr_type a = TILED \<or> distr_type a = TILED_IRREG" using t by blast
  ultimately show ?thesis
    using ax b assms(3) unfolding bt.tiled_by_def grid_spread_def by simp
qed

lemma tiled_by_irreg:
  assumes "tiled_irreg_ok a" "grid_spread st a"
  shows "mt.tiled_by a (array_axes a (num_blocks a))"
proof -
  have m: "mapped a (num_blocks a)" "distr_type a = TILED_IRREG" using assms(1) by (auto simp: tiled_irreg_ok_def)
  note ax = mapped_axes [OF m(1)]
  have "tile_bounds a h = mt.blk_at (array_axes a (num_blocks a)) (it_index h)" if "in_grid (num_blocks a) (it_index h)" for h
    using irreg_limits_map [OF ax(5)] in_grid_length [OF that] ax(5) m(2)
    by (simp add: tile_bounds_def mt.blk_at_def array_axes_def Let_def case_prod_unfold)
  moreover have "array_axes a (num_blocks a) \<noteq> []" using ax(4) m(1) by (auto simp: mapped_def)
  ultimately show ?thesis using ax m(2) assms(2) unfolding mt.tiled_by_def grid_spread_def by simp
qed

lemma sl_ok_blocks:
  assumes "blocks_ok a" "bt.tiled_by a (blk_axes a)"
  shows "bt.sl_ok a (blk_axes a)"
  unfolding bt.sl_ok_def
proof (intro impI allI)
  fix "is" xs
  assume d: "distr_type a = SCALAPACK" and i: "in_grid (num_blocks a) is"
    and x: "in_patch (map2 blk_first (blk_axes a) is) (map2 blk_final (blk_axes a) is) xs"
  note g = bt.grid_starts [OF assms(2) i]
  have s: "bt.starts_ok (blk_axes a) (bt.starts_of a is) (nblock a)" using bt.tiled_starts(1) [OF assms(2) g(4,5)] g(3) by simp
  have l: "length (block_dims a) = length (dims a)" "list_all blk_valid (zip (block_dims a) (dims a))"
    using assms(1) unfolding blocks_ok_def by blast+
  have n: "length (nblock a) = length (dims a)" "grid_ok (nblock a)"
    using assms(2) blocks_axes(4) [OF assms(1)] by (simp_all add: bt.tiled_by_def)
  have p: "length (bt.starts_of a is) = length (dims a)" using in_grid_length [OF g(1)] n by simp
  show "sl_offset xs (map2 blk_first (blk_axes a) is) (map2 (*) (block_dims a) (nblock a)) (block_dims a)
       (sl_ld (bt.starts_of a is) (nblock a) (block_dims a) (dims a)) 1 =
     pos (bt.shares (blk_axes a) (bt.starts_of a is) (nblock a)) (bt.coords (blk_axes a) (bt.starts_of a is) (nblock a) is xs)"
    using sl_matrix [OF l(1) n(1) p n(2) g(1) l(2), of "is" xs 1] s g(2) x by (simp add: blk_axes_def)
qed

lemma sl_ld_shares:
  assumes "length bs = length ds" "length ss = length ds" "in_grid ss ps" "grid_ok ss" "list_all blk_valid (zip bs ds)"
  shows "sl_ld ps ss bs ds = butlast (bt.shares (zip bs ds) ps ss)"
proof -
  let ?f = "\<lambda>(p, s, b, d). let blk_dim = b * s; blk_num = cdiv d blk_dim; blk_inc = d - blk_num * blk_dim in
    sl_extent (blk_num * b) blk_inc (cdiv blk_inc b) b p d"
  have p: "length ps = length ds" using in_grid_length [OF assms(3)] assms(2) by simp
  have "map ?f (zip ps (zip ss (zip bs ds))) = bt.shares (zip bs ds) ps ss"
  proof (rule nth_equalityI)
    fix i assume "i < length (map ?f (zip ps (zip ss (zip bs ds))))"
    then have i: "i < length ds" by simp
    have "0 < bs ! i" "0 < ds ! i" using assms(1,5) i by (auto simp: list_all_length blk_valid_def)
    moreover have "0 < ss ! i" "0 \<le> ps ! i" "ps ! i < ss ! i"
      using assms(2-4) i by (auto simp: grid_ok_def in_grid_def list_all2_conv_all_nth)
    ultimately show "map ?f (zip ps (zip ss (zip bs ds))) ! i = bt.shares (zip bs ds) ps ss ! i"
      using sl_extent_share [of "bs ! i" "ds ! i" "ss ! i" "ps ! i"] i p assms(1,2) by (simp add: bt.shares_def Let_def)
  qed (use p assms(1,2) in \<open>simp add: bt.shares_def\<close>)
  then show ?thesis unfolding sl_ld_def map_butlast by simp
qed

lemma sl_ld_ok_blocks:
  assumes "blocks_ok a" "bt.tiled_by a (blk_axes a)"
  shows "bt.sl_ld_ok a (blk_axes a)"
  unfolding bt.sl_ld_ok_def
proof (intro impI allI)
  fix "is" assume i: "in_grid (num_blocks a) is"
  have l: "length (block_dims a) = length (dims a)" "list_all blk_valid (zip (block_dims a) (dims a))"
    using assms(1) unfolding blocks_ok_def by blast+
  have n: "length (nblock a) = length (dims a)" "grid_ok (nblock a)"
    using assms(2) blocks_axes(4) [OF assms(1)] by (simp_all add: bt.tiled_by_def)
  show "sl_ld (bt.starts_of a is) (nblock a) (block_dims a) (dims a) = butlast (bt.shares (blk_axes a) (bt.starts_of a is) (nblock a))"
    using sl_ld_shares [OF l(1) n(1) bt.grid_starts(1) [OF assms(2) i] n(2) l(2)] by (simp add: blk_axes_def)
qed

lemma full_blocks:
  assumes "blocks_ok a"
  shows "bt.full (blk_axes a)"
  unfolding bt.full_def
proof (intro ballI allI impI)
  fix x i assume x: "x \<in> set (blk_axes a)" and i: "0 \<le> i" "i < blk_count x"
  obtain b d where e: "x = (b, d)" by (cases x) auto
  have "list_all blk_valid (blk_axes a)" using assms unfolding blocks_ok_def blk_axes_def by blast
  then have bd: "0 < b" "0 < d" using x by (auto simp: e list_all_iff blk_valid_def)
  have "i \<le> (d - 1) div b" using i bd by (simp add: e blk_count_def count_blocks_div)
  then have "i * b \<le> (d - 1) div b * b" using bd by (intro mult_right_mono) auto
  also have "\<dots> \<le> d - 1" using div_block [OF bd(1), of "d - 1"] by simp
  finally show "blk_first x i \<le> blk_final x i" using bd by (simp add: e blk_first_def blk_final_def distrib_right)
qed

section \<open>Memory\<close>

lemma tile_share_blocks:
  "length bs = length ds \<Longrightarrow> length ss = length ds \<Longrightarrow> length ps = length ds \<Longrightarrow>
   tile_share ps ss (map blk_count (zip bs ds)) bs ds = bt.pshare (zip bs ds) ps ss"
proof (induction ds arbitrary: bs ss ps)
  case Nil
  then show ?case by (simp add: bt.pshare_def)
next
  case (Cons d ds)
  then obtain b bs' s ss' p ps' where e: "bs = b # bs'" "ss = s # ss'" "ps = p # ps'" by (metis length_Suc_conv)
  have "axis_share p s (blk_count (b, d)) b d = bt.share (b, d) p s"
    unfolding axis_share_def bt.share_def bt.len_def by (simp add: Let_def blk_first_def blk_final_def)
  then show ?case using Cons.IH [of bs' ss' ps'] Cons.prems unfolding e by (simp add: bt.pshare_def)
qed

lemma irreg_share_map:
  "length ns = length ds \<Longrightarrow> length ss = length ds \<Longrightarrow> length ps = length ds \<Longrightarrow> grid_ok ss \<Longrightarrow> in_grid ss ps \<Longrightarrow>
   irreg_share ps ss ns ds m = mt.pshare (axes_of ns ds m) ps ss"
proof (induction ds arbitrary: ns ss ps m)
  case Nil
  then show ?case by (simp add: mt.pshare_def)
next
  case (Cons d ds)
  then obtain n ns' s ss' p ps' where e: "ns = n # ns'" "ss = s # ss'" "ps = p # ps'" by (metis length_Suc_conv)
  have "map (\<lambda>j. (if j < n - 1 then m ! nat (j + 1) - 1 else d) - m ! nat j + 1) (stepped p n s) = map (mt.len (n, d, m)) (stepped p n s)"
    using set_stepped [of s p n] Cons.prems unfolding e mt.len_def by (auto simp: map_first_def map_final_def)
  then have "sum_list (map (\<lambda>j. (if j < n - 1 then m ! nat (j + 1) - 1 else d) - m ! nat j + 1) (stepped p n s)) = mt.share (n, d, m) p s"
    unfolding mt.share_def by (simp only:) (simp add: map_count_def)
  then show ?case using Cons.IH [of ns' ss' ps' "drop (nat n) m"] Cons.prems unfolding e by (simp add: mt.pshare_def)
qed

lemma block_size_blocks:
  assumes "blocks_ok a" "distr_type a \<noteq> BLOCK_CYCLIC" "grid_spread st a" "0 \<le> p" "p < GAnproc st"
  shows "block_size a p (GAnproc st) (GAnproc st) = Inr (bt.pshare (blk_axes a) (proc_starts a p) (nblock a))"
proof -
  note ax = blocks_axes [OF assms(1)]
  have l: "length (block_dims a) = length (dims a)" "distr_type a = SCALAPACK \<or> distr_type a = TILED"
    using assms(1,2) unfolding blocks_ok_def by blast+
  have n: "length (nblock a) = length (dims a)" "grid_ok (nblock a)" "prod_list (nblock a) = GAnproc st"
    using assms(3) by (auto simp: grid_spread_def)
  have g: "length (proc_starts a p) = length (dims a)"
    using proc_indices_pos [OF n(2) assms(4)] in_grid_length n assms(5) by (metis proc_starts_def)
  have "tile_share (proc_starts a p) (nblock a) (num_blocks a) (block_dims a) (dims a) = bt.pshare (blk_axes a) (proc_starts a p) (nblock a)"
    using tile_share_blocks [OF l(1) n(1) g] ax(2) by (simp add: blk_axes_def)
  then show ?thesis using l(2) n(3) by (auto simp: block_size_def Let_def proc_starts_def)
qed

lemma block_size_irreg:
  assumes "tiled_irreg_ok a" "grid_spread st a" "0 \<le> p" "p < GAnproc st"
  shows "block_size a p (GAnproc st) (GAnproc st) = Inr (mt.pshare (array_axes a (num_blocks a)) (proc_starts a p) (nblock a))"
proof -
  have m: "mapped a (num_blocks a)" "distr_type a = TILED_IRREG" using assms(1) by (auto simp: tiled_irreg_ok_def)
  note ax = mapped_axes [OF m(1)]
  have n: "length (nblock a) = length (dims a)" "grid_ok (nblock a)" "prod_list (nblock a) = GAnproc st"
    using assms(2) by (auto simp: grid_spread_def)
  have g: "in_grid (nblock a) (proc_starts a p)"
    using proc_indices_pos [OF n(2) assms(3)] n assms(4) by (simp add: proc_starts_def)
  then have "length (proc_starts a p) = length (dims a)" using in_grid_length n by metis
  then have "irreg_share (proc_starts a p) (nblock a) (num_blocks a) (dims a) (the (mapc a)) =
      mt.pshare (array_axes a (num_blocks a)) (proc_starts a p) (nblock a)"
    using irreg_share_map [OF ax(5) n(1) _ n(2) g] by (simp add: array_axes_def)
  then show ?thesis using m(2) n(3) by (simp add: block_size_def Let_def proc_starts_def)
qed

end
