(* ===== verification/GA_Local.thy ===== *)
theory GA_Local
  imports GA_Tiled
begin

text \<open>
  The pointers that the access routines give for the blocks of tiled and ScaLAPACK arrays, in terms of the places of
  the elements.
\<close>

section \<open>Offsets of blocks\<close>

lemma sum_list_Suc: "sum_list (map f [0..<Suc n]) = f 0 + sum_list (map (\<lambda>i. f (Suc i)) [0..<n])" for f :: "nat \<Rightarrow> int"
  by (simp add: upt_conv_Cons map_Suc_upt [symmetric] comp_def del: upt_Suc map_Suc_upt)

lemma prod_list_Suc: "prod_list (map f [0..<Suc n]) = f 0 * prod_list (map (\<lambda>i. f (Suc i)) [0..<n])" for f :: "nat \<Rightarrow> int"
  by (simp add: upt_conv_Cons map_Suc_upt [symmetric] comp_def del: upt_Suc map_Suc_upt)

lemma prod_list_shift: "prod_list (map f [Suc i..<Suc n]) = prod_list (map (\<lambda>j. f (Suc j)) [i..<n])" for f :: "nat \<Rightarrow> int"
  by (simp add: map_Suc_upt [symmetric] comp_def del: upt_Suc map_Suc_upt)

lemma irreg_offset_Cons:
  "length bs = length ss \<Longrightarrow> length ls = length ss \<Longrightarrow>
   irreg_offset (s # ss) (b # bs) (l # ls) = b * prod_list ls + s * irreg_offset ss bs ls"
proof -
  assume l: "length bs = length ss" "length ls = length ss"
  have "prod_list (map (\<lambda>j. ls ! j) [0..<length ss]) = prod_list ls" using l(2) by (metis map_nth)
  then have "irreg_offset (s # ss) (b # bs) (l # ls) = b * prod_list ls +
    sum_list (map (\<lambda>i. s * (prod_list (map (\<lambda>j. ss ! j) [0..<i]) * bs ! i * prod_list (map (\<lambda>j. ls ! j) [i + 1..<length ss]))) [0..<length ss])"
    unfolding irreg_offset_def list.size add_Suc_right add_0_right sum_list_Suc
    by (simp add: prod_list_shift [of _ 0, simplified] prod_list_shift prod_list_Suc mult.assoc del: upt_Suc)
  then show ?thesis by (simp add: irreg_offset_def sum_list_const_mult)
qed

context tiling
begin

lemma toff_offset:
  "starts_ok as ps ss \<Longrightarrow> length is = length as \<Longrightarrow>
   irreg_offset (map (\<lambda>(a, p, s). share a p s) (zip as (zip ps ss)))
     (map (\<lambda>(a, p, s, i). before a p s i) (zip as (zip ps (zip ss is)))) (map2 len as is) = toff as ps ss is"
proof (induction as arbitrary: ps ss "is")
  case Nil
  then show ?case by (simp add: irreg_offset_def)
next
  case (Cons a as)
  obtain p ps' s ss' where ps: "ps = p # ps'" "ss = s # ss'" using starts_cases [OF Cons.prems(1)] by blast
  obtain i is' where i: "is = i # is'" using Cons.prems(2) by (cases "is") auto
  have l: "length ps' = length as" "length ss' = length as" using Cons.prems(1) ps by (auto simp: starts_ok_def)
  show ?case using Cons l ps i by (simp add: irreg_offset_Cons bsize_def)
qed

end

lemma strided_block:
  "length ss = length l \<Longrightarrow> length h = length l \<Longrightarrow>
   strided ss l (butlast (map2 (\<lambda>l h. h - l + 1) l h)) f = block_offset ss l h f"
proof (induction l arbitrary: h ss f)
  case (Cons l ls)
  then obtain h' hs s' ss' where e: "h = h' # hs" "ss = s' # ss'" by (metis length_Suc_conv)
  show ?case
  proof (cases ls)
    case (Cons l2 ls2)
    then obtain h2 hs2 where "hs = h2 # hs2" using Cons.prems e by (cases hs) auto
    then show ?thesis using Cons.IH [of ss' hs "f * (h' - l + 1)"] Cons.prems e Cons by simp
  qed (use Cons.prems e in simp)
qed simp

lemma find_outside_None: "in_grid ns is \<Longrightarrow> List.find (\<lambda>(i, n). i < 0 \<or> i \<ge> n) (zip is ns) = None"
  by (auto simp: find_None_iff in_grid_def list_all2_conv_all_nth set_zip)

lemma proc_from_indices:
  "length is = length ns \<Longrightarrow> grid_ok ns \<Longrightarrow> \<forall>i\<in>set is. 0 \<le> i \<Longrightarrow>
   gam_find_proc_from_sl_indices ns is = pos ns (map2 (\<lambda>i n. i mod n) is ns)"
proof -
  assume l: "length is = length ns" "grid_ok ns" "\<forall>i\<in>set is. 0 \<le> i"
  have e: "map2 (\<lambda>i n. cmod i n) is ns = map2 (\<lambda>i n. i mod n) is ns"
    using l by (induction "is" ns rule: list_induct2) auto
  show ?thesis unfolding gam_find_proc_from_sl_indices_def e using l(1) by (simp add: block_from_indices_pos)
qed

lemma in_grid_nonneg: "in_grid ns is \<Longrightarrow> \<forall>i\<in>set is. 0 \<le> i"
  by (auto simp: in_grid_def list_all2_conv_all_nth in_set_conv_nth)

section \<open>Irregular tilings\<close>

lemma irreg_axes_map:
  "length ns = length ds \<Longrightarrow> mt.starts_ok (axes_of ns ds m) ps ss \<Longrightarrow> in_grid ns is \<Longrightarrow>
   irreg_axes is ps ss ns ds m =
   map (\<lambda>(a, p, s, i). (mt.share a p s, mt.before a p s i, mt.len a i)) (zip (axes_of ns ds m) (zip ps (zip ss is)))"
proof (induction ns ds m arbitrary: ps ss "is" rule: axes_of.induct)
  case (1 n ns d ds m)
  have st: "mt.starts_ok ((n, d, m) # axes_of ns ds (drop (nat n) m)) ps ss" using 1(3) by simp
  obtain p ps' s ss' where ps: "ps = p # ps'" "ss = s # ss'" using mt.starts_cases [OF st] by blast
  obtain i is' where i: "is = i # is'" using 1(4) by (cases "is") auto
  have ok: "0 < s" "0 \<le> p" "mt.starts_ok (axes_of ns ds (drop (nat n) m)) ps' ss'" using st unfolding ps by auto
  have len: "irreg_len n d m j = mt.len (n, d, m) j" if "0 \<le> j" "j < n" for j
    using that unfolding mt.len_def by (auto simp: irreg_len_def map_first_def map_final_def)
  have c: "map_count (n, d, m) = n" by (simp add: map_count_def)
  have eq: "irreg_len n d m j = mt.len (n, d, m) j" if "j \<in> set (stepped p n s)" for j
    using set_stepped [OF ok(1), of p n] ok(2) len that by auto
  have "sum_list (map (irreg_len n d m) (stepped p n s)) = mt.share (n, d, m) p s"
    unfolding mt.share_def c using eq by (intro arg_cong [of _ _ sum_list] map_cong) auto
  moreover have "sum_list (map (irreg_len n d m) (filter (\<lambda>j. j < i) (stepped p n s))) = mt.before (n, d, m) p s i"
    unfolding mt.before_def c using eq by (intro arg_cong [of _ _ sum_list] map_cong) auto
  moreover have "irreg_len n d m i = mt.len (n, d, m) i" using len 1(4) i by simp
  ultimately show ?case using 1(1) [of ps' ss' is'] 1(2,4) ok(3) unfolding ps i by simp
qed auto

lemma access_irreg:
  assumes "tiled_irreg_ok (ga st g_a)" "grid_spread st (ga st g_a)" "in_grid (num_blocks (ga st g_a)) idx"
  defines "a \<equiv> ga st g_a" and "axes \<equiv> array_axes (ga st g_a) (num_blocks (ga st g_a))"
  shows "pnga_access_block_grid_ptr st g_a idx =
    Inr (ptr a ! nat (pos (nblock a) (mt.starts_of a idx)) + mt.toff axes (mt.starts_of a idx) (nblock a) idx * elemsize a,
      butlast (map2 mt.len axes idx))"
proof -
  note t = tiled_by_irreg [OF assms(1,2), folded a_def axes_def]
  note g = mt.grid_starts [OF t assms(3) [folded a_def]]
  let ?ps = "mt.starts_of a idx"
  have s: "mt.starts_ok axes ?ps (nblock a)" using mt.tiled_starts(1) [OF t g(4,5)] g(3) by simp
  have m: "mapped a (num_blocks a)" "distr_type a = TILED_IRREG" using assms(1) by (auto simp: tiled_irreg_ok_def a_def)
  note ax = mapped_axes [OF m(1)]
  have nb: "length (nblock a) = length (dims a)" "grid_ok (nblock a)" using assms(2) by (auto simp: grid_spread_def a_def)
  have li: "length idx = length (dims a)" using in_grid_length [OF assms(3)] ax(5) by (simp add: a_def)
  have inode: "gam_find_proc_from_sl_indices (nblock a) idx = pos (nblock a) ?ps"
    using proc_from_indices [OF _ nb(2)] in_grid_nonneg [OF assms(3)] li nb(1) by (simp add: mt.starts_of_def)
  have ps: "gam_find_proc_indices (nblock a) (pos (nblock a) ?ps) = ?ps" using g(3) by (simp add: proc_starts_def)
  have ir: "irreg_axes idx ?ps (nblock a) (num_blocks a) (dims a) (the (mapc a)) =
      map (\<lambda>(a, p, s, i). (mt.share a p s, mt.before a p s i, mt.len a i)) (zip axes (zip ?ps (zip (nblock a) idx)))"
    using irreg_axes_map [OF ax(5)] s assms(3) by (simp add: axes_def array_axes_def a_def)
  have l: "length ?ps = length axes" "length (nblock a) = length axes" "length idx = length axes"
    using s mt.on_grid_length [OF s g(2)] by (auto simp: mt.starts_ok_def)
  have proj: "map fst (map (\<lambda>(a, p, s, i). (f a p s, h a p s i, k a i)) (zip as (zip ps (zip ss is)))) = map (\<lambda>(a, p, s). f a p s) (zip as (zip ps ss)) \<and>
      map (fst \<circ> snd) (map (\<lambda>(a, p, s, i). (f a p s, h a p s i, k a i)) (zip as (zip ps (zip ss is)))) = map (\<lambda>(a, p, s, i). h a p s i) (zip as (zip ps (zip ss is))) \<and>
      map (snd \<circ> snd) (map (\<lambda>(a, p, s, i). (f a p s, h a p s i, k a i)) (zip as (zip ps (zip ss is)))) = map2 k as is"
    if "length ps = length as" "length ss = length as" "length is = length as"
    for f :: "'q \<Rightarrow> int \<Rightarrow> int \<Rightarrow> int" and h :: "'q \<Rightarrow> int \<Rightarrow> int \<Rightarrow> int \<Rightarrow> int" and k :: "'q \<Rightarrow> int \<Rightarrow> int" and as ps ss "is"
    using that
  proof (induction as arbitrary: ps ss "is")
    case (Cons a as)
    then obtain p ps' s ss' i is' where "ps = p # ps'" "ss = s # ss'" "is = i # is'" by (metis length_Suc_conv)
    then show ?case using Cons by simp
  qed simp
  note pr = proj [OF l, of mt.share mt.before mt.len]
  show ?thesis
    using find_outside_None [OF assms(3)] m(2) mt.toff_offset [OF s l(3)]
    unfolding pnga_access_block_grid_ptr_def Let_def a_def [symmetric] inode ps ir
    by (simp add: pr [THEN conjunct1] pr [THEN conjunct2, THEN conjunct1] pr [THEN conjunct2, THEN conjunct2] del: map_map)
qed

section \<open>ScaLAPACK arrays\<close>

lemma sl_block_corner:
  "length bs = length ds \<Longrightarrow> length ss = length ds \<Longrightarrow> list_all blk_valid (zip bs ds) \<Longrightarrow> grid_ok ss \<Longrightarrow> in_grid ss ps \<Longrightarrow>
   bt.on_grid (zip bs ds) ps ss is \<Longrightarrow> bt.starts_ok (zip bs ds) ps ss \<Longrightarrow>
   sl_block_offset is ps ss bs ld f =
   sl_offset (map2 blk_first (zip bs ds) is) (map2 blk_first (zip bs ds) is) (map2 (*) bs ss) bs ld f"
proof (induction ds arbitrary: bs ss ps "is" ld f)
  case (Cons d ds)
  obtain b bs' s ss' where e: "bs = b # bs'" "ss = s # ss'" using Cons.prems(1,2) by (metis length_Suc_conv)
  obtain p ps' where p: "ps = p # ps'" using Cons.prems(5) e by (cases ps) auto
  obtain i is' where i: "is = i # is'" using bt.on_grid_cases [of "(b, d)" "zip bs' ds" ps ss "is"] Cons.prems(6,7) e by auto
  have v: "0 < b" "0 < s" "0 \<le> p" "p < s" "p \<le> i" "s dvd i - p" using Cons.prems e p i by (auto simp: blk_valid_def)
  obtain k where k: "i - p = s * k" using v(6) by (auto simp: dvd_def)
  have kn: "0 \<le> k" using k v(2,5) by (metis diff_ge_0_iff_ge zero_le_mult_iff not_less)
  have i2: "i = p + k * s" using k by (simp add: algebra_simps)
  have "cdiv (i - p) s = k" using k kn v(2,5) by simp
  moreover have "i div s = k" using v(2-4) unfolding i2 by simp
  then have "cdiv (blk_first (b, d) i - 1) (b * s) = k"
    using v by (simp add: blk_first_def zdiv_zmult2_eq mult.commute)
  moreover have "(is' = []) = (map2 blk_first (zip bs' ds) is' = [])"
    using bt.on_grid_length [OF Cons.prems(7,6)] Cons.prems(1) e i by (cases is'; cases ds; cases bs') auto
  ultimately show ?case
    using Cons.IH [of bs' ss' ps' is' "tl ld"] Cons.prems e p i by (simp add: blk_first_def)
qed auto

lemma access_scalapack:
  assumes "blocks_ok (ga st g_a)" "distr_type (ga st g_a) = SCALAPACK" "grid_spread st (ga st g_a)"
    "in_grid (num_blocks (ga st g_a)) idx"
  defines "a \<equiv> ga st g_a"
  shows "pnga_access_block_grid_ptr st g_a idx =
    Inr (ptr a ! nat (pos (nblock a) (bt.starts_of a idx)) +
      sl_offset (map2 blk_first (blk_axes a) idx) (map2 blk_first (blk_axes a) idx) (map2 (*) (block_dims a) (nblock a)) (block_dims a)
        (sl_ld (bt.starts_of a idx) (nblock a) (block_dims a) (dims a)) 1 * elemsize a,
      sl_ld (bt.starts_of a idx) (nblock a) (block_dims a) (dims a))"
proof -
  have "distr_type a \<noteq> BLOCK_CYCLIC" using assms(2) by (simp add: a_def)
  note t = tiled_by_blocks [OF assms(1) _ assms(3), folded a_def, OF this]
  note g = bt.grid_starts [OF t assms(4) [folded a_def]]
  let ?ps = "bt.starts_of a idx"
  have s: "bt.starts_ok (blk_axes a) ?ps (nblock a)" using bt.tiled_starts(1) [OF t g(4,5)] g(3) by simp
  have b: "length (block_dims a) = length (dims a)" "list_all blk_valid (zip (block_dims a) (dims a))"
    using assms(1) unfolding blocks_ok_def a_def by blast+
  have nb: "length (nblock a) = length (dims a)" "grid_ok (nblock a)" using assms(3) by (auto simp: grid_spread_def a_def)
  have li: "length idx = length (nblock a)"
    using bt.on_grid_length [OF s g(2)] blocks_axes(4) [OF assms(1)] nb(1) by (simp add: a_def)
  have inode: "gam_find_proc_from_sl_indices (nblock a) idx = pos (nblock a) ?ps"
    using proc_from_indices [OF li nb(2)] in_grid_nonneg [OF assms(4)] by (simp add: bt.starts_of_def)
  have ps: "gam_find_proc_indices (nblock a) (pos (nblock a) ?ps) = ?ps" using g(3) by (simp add: proc_starts_def)
  show ?thesis
    using find_outside_None [OF assms(4)] assms(2) sl_block_corner [OF b(1) nb(1) b(2) nb(2) g(1), of idx] s g(2)
    unfolding pnga_access_block_grid_ptr_def Let_def a_def [symmetric] inode ps by (simp add: blk_axes_def)
qed

section \<open>Tiled arrays\<close>

text \<open>On an axis with two processes the counts of the access routine are right.\<close>

lemma tiled_two:
  assumes "0 < b" "0 < d" "n = blk_count (b, d)" "n \<le> 2147483648" "p = 0 \<or> p = 1" "p < n"
  shows "tiled_extent n p 2 b d = bt.share (b, d) p 2"
    "p \<le> i \<Longrightarrow> i < n \<Longrightarrow> 2 dvd i - p \<Longrightarrow> tiled_before i p 2 * b = bt.before (b, d) p 2 i"
    "p \<le> i \<Longrightarrow> i < n \<Longrightarrow> 2 dvd i - p \<Longrightarrow> (if tiled_before i p 2 = tiled_count n p 2 - 1 then bt.len (b, d) i else b) = bt.len (b, d) i"
proof -
  note cb = blk_count_bounds [OF assms(1,2), folded assms(3)]
  define c where "c = (n - p + 1) div 2"
  have c: "0 \<le> n - p + 1" "tiled_count n p 2 = c" "1 \<le> c" "c \<le> 1073741825"
    using assms(4-6) by (auto simp: tiled_count_def c_def intro!: s32_id)
  have bounds: "n \<le> p + 2 * c" "p + 2 * (c - 1) < n" "p + 2 * (c - 1) = n - 1 \<longleftrightarrow> (n - p + 1) mod 2 = 0"
    using assms(5,6) unfolding c_def by presburger+
  have full: "bt.len (b, d) i = b" if "0 \<le> i" "i < n - 1" for i
  proof -
    have "(i + 1) * b \<le> (n - 1) * b" using that assms(1) by (intro mult_right_mono) auto
    then have "(i + 1) * b \<le> d" using cb(2) by simp
    then show ?thesis unfolding bt.len_def by (simp add: blk_first_def blk_final_def distrib_right)
  qed
  have last: "bt.len (b, d) (n - 1) = (if d mod b = 0 then b else d mod b)"
  proof -
    have "bt.len (b, d) (n - 1) = d - (n - 1) * b"
      using cb(1) unfolding bt.len_def by (simp add: blk_first_def blk_final_def)
    moreover have "d mod b = (d - (n - 1) * b) mod b" by (simp add: mod_diff_right_eq [symmetric])
    moreover have "0 < d - (n - 1) * b" "d - (n - 1) * b \<le> b" using cb by (simp_all add: left_diff_distrib)
    ultimately show ?thesis by (cases "d - (n - 1) * b = b") auto
  qed
  have kb: "bt.before (b, d) p 2 i = i div 2 * b" if "p \<le> i" "i < n" "2 dvd i - p" for i
    using blk_before [OF assms(1,2), of 2 p i] that assms(3,5) by auto
  have tb: "tiled_before i p 2 = i div 2" if "p \<le> i" "2 dvd i - p" for i
  proof -
    have "(i - p + 1) div 2 = i div 2" using that assms(5) by presburger
    then show ?thesis using that by (simp add: tiled_before_def)
  qed
  let ?l = "p + 2 * (c - 1)"
  have l: "p \<le> ?l" "2 dvd ?l - p" "?l div 2 = c - 1" using c(3) assms(5) by auto
  have "bt.share (b, d) p 2 = bt.before (b, d) p 2 (?l + 2)" using bt.before_all [of 2 "(b, d)" "?l + 2" p] bounds(1) assms(3) by simp
  also have "\<dots> = (c - 1) * b + bt.len (b, d) ?l"
    using bt.before_step [of 2 p ?l "(b, d)"] l bounds(2) assms(3) kb [OF l(1) bounds(2) l(2)] by simp
  finally have sh: "bt.share (b, d) p 2 = (c - 1) * b + bt.len (b, d) ?l" .
  show "tiled_extent n p 2 b d = bt.share (b, d) p 2"
  proof (cases "(n - p + 1) mod 2 = 0")
    case True
    then have e: "?l = n - 1" using bounds(3) by simp
    have "bt.len (b, d) ?l = (if d mod b = 0 then b else d mod b)" unfolding e by (rule last)
    then show ?thesis using True sh c assms(1,2) by (auto simp: tiled_extent_def left_diff_distrib)
  next
    case False
    then have "bt.len (b, d) ?l = b" using bounds l(1) assms(5) by (intro full) auto
    then show ?thesis using False sh c by (simp add: tiled_extent_def left_diff_distrib)
  qed
  assume i: "p \<le> i" "i < n" "2 dvd i - p"
  show "tiled_before i p 2 * b = bt.before (b, d) p 2 i" using kb [OF i] tb [OF i(1,3)] by simp
  show "(if tiled_before i p 2 = tiled_count n p 2 - 1 then bt.len (b, d) i else b) = bt.len (b, d) i"
  proof (cases "i = n - 1")
    case True
    have "i div 2 = c - 1" using i(3) assms(5,6) unfolding c_def True by presburger
    then show ?thesis using tb [OF i(1,3)] c(2) by simp
  next
    case False
    then show ?thesis using full [of i] i assms(5) by auto
  qed
qed

lemma tiled_offset_irreg:
  assumes "length bcount = length bidx" "length lld = length bidx" "length ldims = length bidx" "length bs = length bidx" "length bef = length bidx"
    "\<And>j. j < length bidx \<Longrightarrow> bidx ! j * bs ! j = bef ! j"
    "\<And>j. j < length bidx \<Longrightarrow> (if bidx ! j = bcount ! j - 1 then ldims ! j else bs ! j) = ldims ! j"
  shows "tiled_offset bidx bcount lld ldims bs = irreg_offset lld bef ldims"
proof -
  have "bidx ! i * (P * prod_list (map (\<lambda>j. if j > i \<and> bidx ! j = bcount ! j - 1 then ldims ! j else bs ! j) [i..<length bidx])) =
      P * bef ! i * prod_list (map (\<lambda>j. ldims ! j) [i + 1..<length lld])" if "i < length bidx" for i P
  proof -
    have e: "map (\<lambda>j. if j > i \<and> bidx ! j = bcount ! j - 1 then ldims ! j else bs ! j) [Suc i..<length bidx] = map (\<lambda>j. ldims ! j) [Suc i..<length bidx]"
      by (intro map_cong refl) (use assms(7) in auto)
    have "prod_list (map (\<lambda>j. if j > i \<and> bidx ! j = bcount ! j - 1 then ldims ! j else bs ! j) [i..<length bidx]) =
        bs ! i * prod_list (map (\<lambda>j. ldims ! j) [Suc i..<length bidx])"
      unfolding upt_conv_Cons [OF that] list.map e by simp
    then show ?thesis using assms(6) [OF that] assms(2) by (simp add: algebra_simps)
  qed
  then show ?thesis unfolding tiled_offset_def irreg_offset_def assms(2)
    by (intro arg_cong [of _ _ sum_list] map_cong) (simp_all add: assms(2))
qed

lemma factor_le_prod: "grid_ok ns \<Longrightarrow> n \<in> set ns \<Longrightarrow> n \<le> prod_list ns"
proof (induction ns)
  case (Cons m ns)
  then have "0 < m" "0 < prod_list ns" using grid_prod_pos [of ns] by auto
  then have "m * 1 \<le> m * prod_list ns" "1 * prod_list ns \<le> m * prod_list ns"
    by (intro mult_left_mono mult_right_mono; simp)+
  moreover have "n = m \<or> n \<le> prod_list ns" using Cons by auto
  ultimately show ?case by auto
qed simp

lemma access_tiled:
  assumes "blocks_ok (ga st g_a)" "distr_type (ga st g_a) = TILED" "grid_spread st (ga st g_a)"
    "\<forall>s\<in>set (nblock (ga st g_a)). s = 2" "in_grid (num_blocks (ga st g_a)) idx"
  defines "a \<equiv> ga st g_a"
  shows "pnga_access_block_grid_ptr st g_a idx =
    Inr (ptr a ! nat (pos (nblock a) (bt.starts_of a idx)) + bt.toff (blk_axes a) (bt.starts_of a idx) (nblock a) idx * elemsize a,
      butlast (map2 bt.len (blk_axes a) idx))"
proof -
  have "distr_type a \<noteq> BLOCK_CYCLIC" using assms(2) by (simp add: a_def)
  note t = tiled_by_blocks [OF assms(1) _ assms(3), folded a_def, OF this]
  note g = bt.grid_starts [OF t assms(5) [folded a_def]] and ax = blocks_axes [OF assms(1), folded a_def]
  let ?ps = "bt.starts_of a idx" and ?as = "blk_axes a" and ?ss = "nblock a" and ?ns = "num_blocks a"
  have s: "bt.starts_ok ?as ?ps ?ss" using bt.tiled_starts(1) [OF t g(4,5)] g(3) by simp
  have b: "length (block_dims a) = length (dims a)" "block_total a = prod_list ?ns" "block_total a \<le> 2147483648"
    using assms(1) unfolding blocks_ok_def a_def by blast+
  have nb: "length ?ss = length (dims a)" "grid_ok ?ss" using assms(3) by (auto simp: grid_spread_def a_def)
  have l: "length ?ps = length (dims a)" "length idx = length (dims a)" "length ?ns = length (dims a)"
    using s bt.on_grid_length [OF s g(2)] ax(2,4) by (auto simp: bt.starts_ok_def) (metis length_map)
  have inode: "gam_find_proc_from_sl_indices ?ss idx = pos ?ss ?ps"
    using proc_from_indices [OF _ nb(2)] in_grid_nonneg [OF assms(5)] l(2) nb(1) by (simp add: bt.starts_of_def)
  have ps: "gam_find_proc_indices ?ss (pos ?ss ?ps) = ?ps" using g(3) by (simp add: proc_starts_def)
  have axis: "tiled_extent (?ns ! j) (?ps ! j) (?ss ! j) (block_dims a ! j) (dims a ! j) = bt.share (?as ! j) (?ps ! j) (?ss ! j) \<and>
      tiled_before (idx ! j) (?ps ! j) (?ss ! j) * block_dims a ! j = bt.before (?as ! j) (?ps ! j) (?ss ! j) (idx ! j) \<and>
      (if tiled_before (idx ! j) (?ps ! j) (?ss ! j) = tiled_count (?ns ! j) (?ps ! j) (?ss ! j) - 1
       then bt.len (?as ! j) (idx ! j) else block_dims a ! j) = bt.len (?as ! j) (idx ! j)" if j: "j < length (dims a)" for j
  proof -
    have "?ns ! j = blk_count (?as ! j)" using ax(4) j unfolding ax(2) [symmetric] by simp
    then have e: "?as ! j = (block_dims a ! j, dims a ! j)" "?ss ! j = 2" "?ns ! j = blk_count (block_dims a ! j, dims a ! j)"
      using j b(1) nb(1) assms(4) by (simp_all add: blk_axes_def a_def)
    have v: "0 < block_dims a ! j" "0 < dims a ! j" using ax(1,4) j e(1) by (auto simp: list_all_length blk_valid_def)
    have n: "?ns ! j \<le> 2147483648" using factor_le_prod [OF ax(5), of "?ns ! j"] b(2,3) l(3) j by simp
    have "?ps ! j = 0 \<or> ?ps ! j = 1" using g(1) j e(2) nb(1) by (auto simp: in_grid_def list_all2_conv_all_nth)
    moreover have "?ps ! j \<le> idx ! j \<and> idx ! j < ?ns ! j \<and> 2 dvd idx ! j - ?ps ! j"
      using g(2) j e l ax(4) nb(1) by (auto simp: bt.on_grid_def list_all2_conv_all_nth)
    ultimately show ?thesis unfolding e(1,2) using tiled_two [OF v e(3) n, of "?ps ! j"] by auto
  qed
  have lld: "map (\<lambda>(n, p, s, b, d). tiled_extent n p s b d) (zip ?ns (zip ?ps (zip ?ss (zip (block_dims a) (dims a))))) =
      map (\<lambda>(a, p, s). bt.share a p s) (zip ?as (zip ?ps ?ss))"
    using axis l b(1) nb(1) ax(4) by (intro nth_equalityI) auto
  have ld: "map2 (\<lambda>l h. h - l + 1) (fst (tile_limits (block_dims a) (dims a) idx)) (snd (tile_limits (block_dims a) (dims a) idx)) = map2 bt.len ?as idx"
    unfolding tile_limits_blocks [OF b(1) l(2)] using l ax(4) b(1)
    by (intro nth_equalityI) (auto simp: bt.blk_at_def bt.len_def blk_axes_def)
  have off: "tiled_offset (map (\<lambda>(i, p, s). tiled_before i p s) (zip idx (zip ?ps ?ss)))
      (map (\<lambda>(n, p, s). tiled_count n p s) (zip ?ns (zip ?ps ?ss)))
      (map (\<lambda>(a, p, s). bt.share a p s) (zip ?as (zip ?ps ?ss))) (map2 bt.len ?as idx) (block_dims a) =
      bt.toff ?as ?ps ?ss idx"
    unfolding bt.toff_offset [OF s l(2) [folded ax(4)], symmetric]
    using l b(1) nb(1) ax(4) by (intro tiled_offset_irreg) (simp_all add: axis cong: if_cong split del: if_split)
  show ?thesis
    using find_outside_None [OF assms(5)] assms(2)
    unfolding pnga_access_block_grid_ptr_def Let_def a_def [symmetric] inode ps lld ld off by simp
qed

end
