(* ===== verification/GA_Creation.thy ===== *)
theory GA_Creation
  imports GA_Storage GA_Theorems
begin

text \<open>
  The properties of the creation of arrays: the decomposition over the processes, the distributions that
  the user sets, and the memory that every process needs.
\<close>

section \<open>The decomposition\<close>

text \<open>
  C31. The heuristic \<open>ddb_h2\<close>, called as \<open>pnga_allocate\<close> calls it with the threshold 0.0, always returns: its
  process grid has positive dimensions and uses every process, because the divisors it deals to the axes are
  the prime divisors of the number of processes with their multiplicities; the block size of an axis is the
  number of requested blocks on it divided by the processes, rounded up.
\<close>

theorem ddb_h2_grid:
  assumes "ds \<noteq> []" "length blk = length ds" "\<forall>d\<in>set ds. 1 \<le> d \<and> d < 9007199254740992" "1 \<le> npes"
  shows "\<exists>pe. ddb_h2 ds npes (0, 0) bias blk =
      Some (Inr (map2 (\<lambda>t p. (t - 1) div p + 1) (map2 (\<lambda>d b. (d - 1) div max 1 b + 1) ds blk) pe, pe)) \<and>
    length pe = length ds \<and> (\<forall>p\<in>set pe. 1 \<le> p) \<and> prod_list pe = npes"
  using ddb_h2_spec [OF assms] unfolding grains_def by metis

theorem ddb_h2_grid_witness: "\<exists>pe. ddb_h2 [100, 60] 12 (0, 0) 0 [-1, 5] =
      Some (Inr (map2 (\<lambda>t p. (t - 1) div p + 1) (map2 (\<lambda>d b. (d - 1) div max 1 b + 1) [100, 60] [-1, 5]) pe, pe)) \<and>
    length pe = 2 \<and> (\<forall>p\<in>set pe. 1 \<le> p) \<and> prod_list pe = 12"
  using ddb_h2_grid [of "[100, 60]" "[-1, 5]" 12 0] by (simp add: numeral_2_eq_2)

text \<open>
  C32. The loop that makes the map of an axis deals the axis out evenly when its block size \<open>blk\<close> is what
  the decomposition computes for the axis, the number of units of the axis (chunks, else elements) divided by the number of
  processes \<open>pe\<close> on it, rounded up: every process up to the number of processes or of units, whichever is
  smaller, gets a block, and the blocks have \<open>blk\<close> units for the first \<open>c\<close> processes and one unit less for the
  others. (With \<open>chunk[0] = 0\<close> and another chunk above 1 the code runs the loop with a block size in elements but the unit of the
  chunk; that case is not meant here.)
\<close>

theorem axis_blocks_even:
  assumes "1 \<le> d" "1 \<le> pe" "u = (if chk > 1 then min chk d else 1)" "T = (d - 1) div u + 1"
    "blk = (T - 1) div pe + 1" "c = T - (blk - 1) * pe"
  shows "1 \<le> c \<and> c \<le> pe \<and>
    axis_blocks d chk blk pe = map (\<lambda>p. (p * (blk - 1) + min p c) * u + 1) [0..min pe T - 1]"
proof -
  have "u = unit_of d chk" using assms(3) by (simp only: unit_of_def)
  from axis_blocks_balanced [OF assms(1,2) this assms(4-6)] show ?thesis .
qed

theorem axis_blocks_even_witness: "axis_blocks 10 0 3 4 = [1, 4, 7, 9]"
proof -
  have "1 \<le> (2 :: int) \<and> (2 :: int) \<le> 4 \<and>
    axis_blocks 10 0 3 4 = map (\<lambda>p. (p * (3 - 1) + min p 2) * 1 + 1) [0..min 4 10 - 1]"
    by (rule axis_blocks_even) simp_all
  then show ?thesis by (simp add: upto_rec1)
qed

section \<open>Allocation\<close>

lemma default_allocated:
  assumes "handle_ok st g_a" "data_set (ga st g_a)" "distr_type (ga st g_a) = REGULAR" "mapc (ga st g_a) = None"
    and "1 \<le> alloc_npes st (resolve_group st (ga st g_a))" "alloc_npes st (resolve_group st (ga st g_a)) < 2147483648"
    and "GAinitialized st"
  obtains st' mem where "allocate_setup g_a st = Some (Inr (st', mem))" "ga_active st' g_a" "regular_ok (ga st' g_a)"
    "prod_list (nblock (ga st' g_a)) \<le> alloc_npes st (resolve_group st (ga st g_a))"
    "dims (ga st' g_a) = dims (ga st g_a)" "num_rstrctd (ga st' g_a) = num_rstrctd (ga st g_a)"
    "rstrctd_list (ga st' g_a) = rstrctd_list (ga st g_a)" "rank_rstrctd (ga st' g_a) = rank_rstrctd (ga st g_a)"
    "property (ga st' g_a) = property (ga st g_a)"
proof -
  let ?a = "resolve_group st (ga st g_a)"
  have d: "dims (ga st g_a) \<noteq> []" "length (chunk (ga st g_a)) = length (dims (ga st g_a))"
    "\<forall>d\<in>set (dims (ga st g_a)). 1 \<le> d \<and> d < 9007199254740992" "ndim (ga st g_a) \<noteq> -1"
    using assms(2) by (auto simp: data_set_def)
  obtain nb m where nb: "default_map (dims (ga st g_a)) (chunk (ga st g_a)) (alloc_npes st ?a) = Some (Inr (nb, m))"
    "length nb = length (dims (ga st g_a))" "list_all map_valid (axes_of nb (dims (ga st g_a)) m)"
    "prod_list nb \<le> alloc_npes st ?a"
    using default_map_spec [OF d(1-3) assms(5,6)] by blast
  have s: "set_distribution st ?a = Some (Inr (?a\<lparr>nblock := nb, mapc := Some m\<rparr>, 0))"
    using nb(1) assms(3,4) by (simp add: set_distribution_def Let_def)
  show thesis
    by (rule allocate_regular [OF assms(1) d(4) assms(7) s]) (use that nb d(1) assms(3) in auto)
qed

text \<open>What \<open>pnga_set_restricted\<close> leaves behind, or an array that is not restricted.\<close>

definition restriction_set :: "global_array_t \<Rightarrow> bool" where
  "restriction_set a \<longleftrightarrow> num_rstrctd a = 0 \<or>
     num_rstrctd a > 0 \<and> rstrctd_list a \<noteq> None \<and> rank_rstrctd a \<noteq> None \<and>
     num_rstrctd a = int (length (the (rstrctd_list a))) \<and> ranks_ok (the (rstrctd_list a)) (the (rank_rstrctd a))"

text \<open>
  C33. Allocating an array whose distribution the user has left open gives a well-formed regular array: the
  blocks partition the array, there are at most as many as processes, and for a restricted array they go to
  the processes of the list. So \<open>pnga_locate\<close> and \<open>pnga_distribution\<close> agree on it. Before \<open>GA_Initialize\<close> the
  allocation is refused.
\<close>

theorem allocate_default:
  assumes "handle_ok st g_a" "data_set (ga st g_a)" "distr_type (ga st g_a) = REGULAR" "mapc (ga st g_a) = None"
    and "1 \<le> alloc_npes st (resolve_group st (ga st g_a))" "alloc_npes st (resolve_group st (ga st g_a)) < 2147483648"
    and "restriction_set (ga st g_a)" "p_handle (resolve_group st (ga st g_a)) \<noteq> 0"
  shows "if GAinitialized st
    then \<exists>st' mem. allocate_setup g_a st = Some (Inr (st', mem)) \<and> ga_active st' g_a \<and>
      regular_ok (ga st' g_a) \<and> restricted_ok (ga st' g_a) \<and> dims (ga st' g_a) = dims (ga st g_a) \<and>
      prod_list (nblock (ga st' g_a)) \<le> alloc_npes st (resolve_group st (ga st g_a))
    else allocate_setup g_a st = Some (Inl (''GA not initialized '', 0))"
proof (cases "GAinitialized st")
  case True
  obtain st' mem where st': "allocate_setup g_a st = Some (Inr (st', mem))" "ga_active st' g_a" "regular_ok (ga st' g_a)"
    "prod_list (nblock (ga st' g_a)) \<le> alloc_npes st (resolve_group st (ga st g_a))"
    "dims (ga st' g_a) = dims (ga st g_a)" "num_rstrctd (ga st' g_a) = num_rstrctd (ga st g_a)"
    "rstrctd_list (ga st' g_a) = rstrctd_list (ga st g_a)" "rank_rstrctd (ga st' g_a) = rank_rstrctd (ga st g_a)"
    using default_allocated [OF assms(1-6) True] by metis
  have "restricted_ok (ga st' g_a)"
    using st' assms(7,8) by (auto simp: restricted_ok_def restriction_set_def alloc_npes_def split: if_splits)
  then show ?thesis using st' True by auto
next
  case False
  have "ndim (ga st g_a) \<noteq> -1" using assms(2) by (auto simp: data_set_def)
  then show ?thesis using False by (simp add: allocate_uninitialized)
qed

text \<open>A state with a new array of 10 by 6 elements on eight processes.\<close>

definition demo_new :: ga_state where
  "demo_new = demo_state\<lparr>GA := [blank_array]\<rparr>"

definition demo_created :: ga_state where
  "demo_created = demo_state\<lparr>GA := [blank_array\<lparr>p_handle := -2, actv_handle := 1\<rparr>]\<rparr>"

definition demo_data :: ga_state where
  "demo_data = demo_state\<lparr>GA := [blank_array\<lparr>p_handle := -2, actv_handle := 1, ndim := 2, dims := [10, 6],
     chunk := [0, 0], width := [0, 0]\<rparr>]\<rparr>"

lemma demo_initialized [simp]: "GAinitialized demo_data" "GAinitialized demo_new"
  by (simp_all add: demo_data_def demo_new_def demo_state_def)

lemma demo_create: "pnga_create_handle demo_new = Inr (-1000, demo_created)"
  by (simp add: pnga_create_handle_def demo_new_def demo_created_def demo_state_def blank_array_def upd_ga_def ga_def
      gai_init_struct_def GA_OFFSET_def GA_Init_Proc_Group_def)

lemma demo_set_data: "pnga_set_data (-1000) 2 [10, 6] 1004 demo_created = Inr demo_data"
  by (simp add: pnga_set_data_def demo_created_def demo_data_def demo_state_def blank_array_def upd_ga_def ga_def
      GA_OFFSET_def gam_checkdim_def MAXDIM_def GAvalidtypeM_def GAsizeofM_def pnga_type_f2c_def MT_BASE_def
      GA_TYPES_MAX_def ga_types_init_def s32_def eval_nat_numeral)

lemma demo_data_ok:
  "handle_ok demo_data (-1000)" "data_set (ga demo_data (-1000))" "distr_type (ga demo_data (-1000)) = REGULAR"
  "mapc (ga demo_data (-1000)) = None" "alloc_npes demo_data (resolve_group demo_data (ga demo_data (-1000))) = 8"
  "restriction_set (ga demo_data (-1000))" "p_handle (resolve_group demo_data (ga demo_data (-1000))) \<noteq> 0"
  by (simp_all add: handle_ok_def data_set_def ga_def demo_data_def demo_state_def GA_OFFSET_def blank_array_def
      alloc_npes_def resolve_group_def GA_Init_Proc_Group_def restriction_set_def)

theorem allocate_default_witness:
  "\<exists>st' mem. allocate_setup (-1000) demo_data = Some (Inr (st', mem)) \<and> ga_active st' (-1000) \<and>
    regular_ok (ga st' (-1000)) \<and> restricted_ok (ga st' (-1000)) \<and> prod_list (nblock (ga st' (-1000))) \<le> 8"
proof -
  have "1 \<le> alloc_npes demo_data (resolve_group demo_data (ga demo_data (-1000)))"
    "alloc_npes demo_data (resolve_group demo_data (ga demo_data (-1000))) < 2147483648"
    unfolding demo_data_ok(5) by simp_all
  from allocate_default [OF demo_data_ok(1-4) this demo_data_ok(6,7)] show ?thesis unfolding demo_data_ok(5) by auto
qed

lemma created_data:
  assumes "pnga_create_handle st = Inr (g_a, st1)" "pnga_set_data g_a n ds type st1 = Inr st2" "int (length ds) = n"
    and "\<forall>d\<in>set ds. d < 9007199254740992" "GA_Default_Proc_Group st = -1"
  shows "handle_ok st2 g_a" "data_set (ga st2 g_a)" "dims (ga st2 g_a) = ds" "distr_type (ga st2 g_a) = REGULAR"
    "mapc (ga st2 g_a) = None" "num_rstrctd (ga st2 g_a) = 0" "p_handle (ga st2 g_a) = -2" "property (ga st2 g_a) = NO_PROPERTY"
    "GA_Default_Proc_Group st2 = -1" "GAnproc st2 = GAnproc st" "GAinitialized st2 = GAinitialized st"
proof -
  obtain i where i: "i < length (GA st)" "g_a = int i - GA_OFFSET"
    and st1: "st1 = upd_ga g_a (\<lambda>a. (gai_init_struct a)\<lparr>
            p_handle := GA_Init_Proc_Group, ndim := -1, name := [], mapc := None, irreg := 0, ghosts := 0,
            corner_flag := -1, distr_type := REGULAR, block_total := -1, rstrctd_list := None,
            rank_rstrctd := None, num_rstrctd := 0, actv_handle := 1, has_data := 1,
            property := NO_PROPERTY\<rparr>) st"
    using assms(1) by (auto simp: pnga_create_handle_def Let_def find_Some_iff split: option.splits)
  have h: "handle_ok st g_a" using i by (simp add: handle_ok_def)
  then have h1: "handle_ok st1 g_a" by (simp add: st1)
  have nd: "take (nat n) ds = ds" using assms(3) by auto
  have st2: "st2 = upd_ga g_a (\<lambda>a. a\<lparr>gtype := pnga_type_f2c type,
      elemsize := s32 (GAsizeofM st1 (pnga_type_f2c type)), dims := ds, chunk := replicate (nat n) 0,
      width := replicate (nat n) 0, ndim := n\<rparr>) st1" and c: "gam_checkdim n ds = None"
    using assms(2) nd by (auto simp: pnga_set_data_def split: if_splits option.splits)
  have pos: "\<forall>d\<in>set ds. 1 \<le> d" "ds \<noteq> []" "1 \<le> n"
    using c nd assms(3) by (auto simp: gam_checkdim_def find_None_iff not_less split: if_splits)
  have a: "dims (ga st2 g_a) = ds" "ndim (ga st2 g_a) = n" "chunk (ga st2 g_a) = replicate (nat n) 0"
    "distr_type (ga st2 g_a) = REGULAR" "mapc (ga st2 g_a) = None" "num_rstrctd (ga st2 g_a) = 0"
    "p_handle (ga st2 g_a) = -2" "property (ga st2 g_a) = NO_PROPERTY"
    using h1 h by (simp_all add: st2 ga_upd_same) (simp_all add: st1 ga_upd_same GA_Init_Proc_Group_def)
  show "GA_Default_Proc_Group st2 = -1" "GAnproc st2 = GAnproc st" "GAinitialized st2 = GAinitialized st" using assms(5) by (simp_all add: st2 st1 upd_ga_def)
  show "handle_ok st2 g_a" using h1 by (simp add: st2)
  show "data_set (ga st2 g_a)" using a pos assms(3,4) by (auto simp: data_set_def)
  show "dims (ga st2 g_a) = ds" "distr_type (ga st2 g_a) = REGULAR" "mapc (ga st2 g_a) = None" "num_rstrctd (ga st2 g_a) = 0"
    "p_handle (ga st2 g_a) = -2" "property (ga st2 g_a) = NO_PROPERTY" by (fact a)+
qed

lemma regular_located:
  assumes "ga_active st g_a" "regular_ok (ga st g_a)" "num_rstrctd (ga st g_a) = 0" "property (ga st g_a) = NO_PROPERTY"
    "length ss = length (dims (ga st g_a))"
  shows "if subscript_of (ga st g_a) ss
    then \<exists>owner. pnga_locate st g_a ss = Inr (True, owner) \<and> 0 \<le> owner \<and> owner < prod_list (nblock (ga st g_a)) \<and>
      (\<forall>p. \<exists>lo hi. pnga_distribution st g_a p = Inr (lo, hi) \<and> (in_patch lo hi ss \<longleftrightarrow> p = owner))
    else pnga_locate st g_a ss = Inr (False, -1)"
proof (cases "subscript_of (ga st g_a) ss")
  case True
  let ?k = "map_owner (ga st g_a) (nblock (ga st g_a)) ss"
  have m: "mapped (ga st g_a) (nblock (ga st g_a))" using assms(2) by (simp add: regular_ok_def)
  have r: "restricted_ok (ga st g_a)" "property (ga st g_a) \<noteq> READ_ONLY" using assms(3,4) by (simp_all add: restricted_ok_def)
  have "\<exists>lo hi. pnga_distribution st g_a p = Inr (lo, hi) \<and> (in_patch lo hi ss \<longleftrightarrow> p = ?k)" for p
    using distribution_regular [OF assms(1) r(2), of p] regular_block_iff [OF assms(2) r(1) True, of p] assms(3)
    by (cases "ga_ownsM (ga st g_a) p") auto
  then show ?thesis
    using True locate_regular [OF assms(1,2) True] map_owner_range(1,2) [OF m True] assms(3) by (auto simp: proc_of_def)
next
  case False
  then show ?thesis using locate_outside [OF assms(1), of ss] assms(2,5) by (simp add: regular_ok_def)
qed

text \<open>
  C34. The whole life of an array up to its use: after \<open>pnga_create_handle\<close>, \<open>pnga_set_data\<close> with dimensions that it
  accepts and the allocation on all processes, every subscript inside the dimensions has an owner among the
  processes, whose block contains it and nobody else's does; every other subscript is refused. Before
  \<open>GA_Initialize\<close> the allocation is refused.
\<close>

theorem create_allocate_locate:
  assumes "pnga_create_handle st = Inr (g_a, st1)" "pnga_set_data g_a n ds type st1 = Inr st2" "int (length ds) = n"
    and "\<forall>d\<in>set ds. d < 9007199254740992" "GA_Default_Proc_Group st = -1" "1 \<le> GAnproc st" "GAnproc st < 2147483648"
  shows "if GAinitialized st
    then \<exists>st3 mem. allocate_setup g_a st2 = Some (Inr (st3, mem)) \<and>
      (\<forall>ss. length ss = length ds \<longrightarrow>
        (if in_patch (replicate (length ds) 1) ds ss
         then \<exists>owner. pnga_locate st3 g_a ss = Inr (True, owner) \<and> 0 \<le> owner \<and> owner < GAnproc st \<and>
           (\<forall>p. \<exists>lo hi. pnga_distribution st3 g_a p = Inr (lo, hi) \<and> (in_patch lo hi ss \<longleftrightarrow> p = owner))
         else pnga_locate st3 g_a ss = Inr (False, -1)))
    else allocate_setup g_a st2 = Some (Inl (''GA not initialized '', 0))"
proof (cases "GAinitialized st")
  case False
  note d = created_data [OF assms(1-5)]
  have "ndim (ga st2 g_a) \<noteq> -1" using d(2) by (auto simp: data_set_def)
  then show ?thesis using False d(11) by (simp add: allocate_uninitialized)
next
  case True
  note d = created_data [OF assms(1-5)]
  have np: "alloc_npes st2 (resolve_group st2 (ga st2 g_a)) = GAnproc st"
    using d by (simp add: alloc_npes_def resolve_group_def GA_Init_Proc_Group_def)
  obtain st3 mem where st3: "allocate_setup g_a st2 = Some (Inr (st3, mem))" "ga_active st3 g_a" "regular_ok (ga st3 g_a)"
    "prod_list (nblock (ga st3 g_a)) \<le> GAnproc st" "dims (ga st3 g_a) = ds" "num_rstrctd (ga st3 g_a) = 0"
    "property (ga st3 g_a) = NO_PROPERTY"
    using default_allocated [OF d(1,2,4,5)] np assms(6,7) d True by metis
  have "if in_patch (replicate (length ds) 1) ds ss
       then \<exists>owner. pnga_locate st3 g_a ss = Inr (True, owner) \<and> 0 \<le> owner \<and> owner < GAnproc st \<and>
         (\<forall>p. \<exists>lo hi. pnga_distribution st3 g_a p = Inr (lo, hi) \<and> (in_patch lo hi ss \<longleftrightarrow> p = owner))
       else pnga_locate st3 g_a ss = Inr (False, -1)" if "length ss = length ds" for ss
  proof -
    have "subscript_of (ga st3 g_a) ss \<longleftrightarrow> in_patch (replicate (length ds) 1) ds ss" using st3(5) by (simp add: subscript_of_def)
    then show ?thesis using regular_located [OF st3(2,3,6,7), of ss] st3(4,5) that by (auto split: if_splits)
  qed
  then show ?thesis using st3(1) True by auto
qed

theorem create_allocate_locate_witness:
  "pnga_create_handle demo_new = Inr (-1000, demo_created) \<and> pnga_set_data (-1000) 2 [10, 6] 1004 demo_created = Inr demo_data \<and>
   (\<exists>st3 mem owner. allocate_setup (-1000) demo_data = Some (Inr (st3, mem)) \<and>
     pnga_locate st3 (-1000) [7, 4] = Inr (True, owner) \<and> 0 \<le> owner \<and> owner < 8)"
proof -
  have g: "GA_Default_Proc_Group demo_new = -1" "GAnproc demo_new = 8" by (simp_all add: demo_new_def demo_state_def)
  obtain st3 mem where a: "allocate_setup (-1000) demo_data = Some (Inr (st3, mem))"
    and l: "\<forall>ss. length ss = length [10, 6 :: int] \<longrightarrow> (if in_patch (replicate (length [10, 6 :: int]) 1) [10, 6] ss
       then \<exists>owner. pnga_locate st3 (-1000) ss = Inr (True, owner) \<and> 0 \<le> owner \<and> owner < GAnproc demo_new \<and>
         (\<forall>p. \<exists>lo hi. pnga_distribution st3 (-1000) p = Inr (lo, hi) \<and> (in_patch lo hi ss \<longleftrightarrow> p = owner))
       else pnga_locate st3 (-1000) ss = Inr (False, -1))"
    using create_allocate_locate [OF demo_create demo_set_data] g by auto
  have "in_patch (replicate (length [10, 6 :: int]) 1) [10, 6] [7, 4]" by (simp add: eval_nat_numeral)
  then have "\<exists>owner. pnga_locate st3 (-1000) [7, 4] = Inr (True, owner) \<and> 0 \<le> owner \<and> owner < 8"
    using l [rule_format, of "[7, 4]"] g by (auto split: if_splits)
  then show ?thesis using demo_create demo_set_data a by blast
qed

section \<open>Distributions of the user\<close>

text \<open>
  C35. An irregular distribution that \<open>pnga_set_irreg_distr\<close> accepts, with at least one block on every axis and with
  a map that starts at 1 on every axis, makes a well-formed regular array with the user's grid once it is
  allocated. (The routine itself checks neither of the two.) Before \<open>GA_Initialize\<close> the allocation is refused.
\<close>

theorem allocate_irregular:
  assumes "handle_ok st g_a" "data_set (ga st g_a)" "distr_type (ga st g_a) = REGULAR"
    and "pnga_set_irreg_distr g_a m nb st = Inr st1" "length nb = length (dims (ga st g_a))"
    and "\<forall>n\<in>set nb. 1 \<le> n \<and> n < 2147483648" "sum_list nb \<le> int (length m)"
    and "list_all (\<lambda>(n, d, m). m ! 0 = 1) (axes_of nb (dims (ga st g_a)) m)"
  shows "if GAinitialized st
    then \<exists>st2 mem. allocate_setup g_a st1 = Some (Inr (st2, mem)) \<and> ga_active st2 g_a \<and> regular_ok (ga st2 g_a) \<and>
      nblock (ga st2 g_a) = nb \<and> dims (ga st2 g_a) = dims (ga st g_a)
    else allocate_setup g_a st1 = Some (Inl (''GA not initialized '', 0))"
proof -
  let ?ds = "dims (ga st g_a)" let ?m = "take (nat (sum_list nb)) m @ [-1]"
  have d: "?ds \<noteq> []" "\<forall>d\<in>set ?ds. 1 \<le> d \<and> d < 9007199254740992" "ndim (ga st g_a) = int (length ?ds)"
    using assms(2) by (auto simp: data_set_def)
  have t: "take (nat (ndim (ga st g_a))) nb = nb" using d(3) assms(5) by simp
  have st1: "st1 = upd_ga g_a (\<lambda>a. a\<lparr>nblock := map s32 nb, mapc := Some ?m, irreg := 1\<rparr>) st" and c: "check_mapc ?ds nb m = None"
    using assms(4) t by (auto simp: pnga_set_irreg_distr_def Let_def split: if_splits option.splits)
  have nb32: "map s32 nb = nb"
  proof (rule map_idI)
    fix x assume "x \<in> set nb"
    then have "1 \<le> x" "x < 2147483648" using assms(6) by auto
    then show "s32 x = x" by (intro s32_id) linarith+
  qed
  have pos: "\<forall>n\<in>set nb. 1 \<le> n" "0 \<le> sum_list nb" using assms(6) by (auto intro!: sum_list_nonneg)
  have m: "take (nat (sum_list nb)) ?m = take (nat (sum_list nb)) m" "sum_list nb \<le> int (length ?m)"
    using assms(7) pos(2) by auto
  have ax: "list_all (\<lambda>(n, d, m). n \<le> int (length m) \<and> sorted (take (nat n) m) \<and> (\<forall>x\<in>set (take (nat n) m). x \<le> d + 1)) (axes_of nb ?ds ?m)"
    "list_all (\<lambda>(n, d, m). m ! 0 = 1) (axes_of nb ?ds ?m)"
    using check_mapc_None [OF c assms(5) pos(1) assms(7) m] axes_first [OF assms(5) pos(1) m(1) assms(7) m(2) assms(8)] by auto
  have "map_valid x" if x: "x \<in> set (axes_of nb ?ds ?m)" for x
  proof -
    obtain n d' m' where e: "x = (n, d', m')" by (cases x) auto
    have "map_count x \<in> set nb" "map_extent x \<in> set ?ds"
      using x axes_count [OF assms(5), of ?m] axes_extent [OF assms(5), of ?m] by (metis image_eqI list.set_map)+
    then have "1 \<le> n" "n < 2147483648" "1 \<le> d'" "d' < 9007199254740992" using e assms(6) d(2) by (auto simp: map_count_def map_extent_def)
    then show ?thesis using ax x e by (auto simp: map_valid_def list_all_iff)
  qed
  then have v: "list_all map_valid (axes_of nb ?ds ?m)" by (simp add: list_all_iff)
  have a: "ga st1 g_a = (ga st g_a)\<lparr>nblock := nb, mapc := Some ?m, irreg := 1\<rparr>" "handle_ok st1 g_a"
    using assms(1) by (simp_all add: st1 ga_upd_same nb32)
  have s: "set_distribution st1 (resolve_group st1 (ga st1 g_a)) = Some (Inr (resolve_group st1 (ga st1 g_a), 0))"
    using a assms(3) by (simp add: set_distribution_def Let_def block_size_def)
  have nd: "ndim (ga st1 g_a) \<noteq> -1" using a d by simp
  have i: "GAinitialized st1 = GAinitialized st" by (simp add: st1 upd_ga_def)
  show ?thesis
  proof (cases "GAinitialized st")
    case True
    show ?thesis
      by (rule allocate_regular [OF a(2) nd _ s]) (use True i a assms(3,5) d(1) v in auto)
  qed (use i nd allocate_uninitialized in auto)
qed

theorem allocate_irregular_witness:
  "\<exists>st1 st2 mem. pnga_set_irreg_distr (-1000) [1, 4, 4, 1, 3] [3, 2] demo_data = Inr st1 \<and>
    allocate_setup (-1000) st1 = Some (Inr (st2, mem)) \<and> ga_active st2 (-1000) \<and> regular_ok (ga st2 (-1000)) \<and>
    nblock (ga st2 (-1000)) = [3, 2]"
proof -
  have g: "dims (ga demo_data (-1000)) = [10, 6]" "actv (ga demo_data (-1000)) = 0" "ndim (ga demo_data (-1000)) = 2"
    by (simp_all add: ga_def demo_data_def demo_state_def GA_OFFSET_def blank_array_def)
  have "\<exists>st1. pnga_set_irreg_distr (-1000) [1, 4, 4, 1, 3] [3, 2] demo_data = Inr st1"
    by (simp add: pnga_set_irreg_distr_def Let_def g numeral_2_eq_2)
  then obtain st1 where st1: "pnga_set_irreg_distr (-1000) [1, 4, 4, 1, 3] [3, 2] demo_data = Inr st1" by blast
  have "if GAinitialized demo_data
    then \<exists>st2 mem. allocate_setup (-1000) st1 = Some (Inr (st2, mem)) \<and> ga_active st2 (-1000) \<and> regular_ok (ga st2 (-1000)) \<and>
      nblock (ga st2 (-1000)) = [3, 2] \<and> dims (ga st2 (-1000)) = dims (ga demo_data (-1000))
    else allocate_setup (-1000) st1 = Some (Inl (''GA not initialized '', 0))"
    by (rule allocate_irregular [OF demo_data_ok(1-3) st1]) (simp_all add: g eval_nat_numeral)
  then have "\<exists>st2 mem. allocate_setup (-1000) st1 = Some (Inr (st2, mem)) \<and> ga_active st2 (-1000) \<and> regular_ok (ga st2 (-1000)) \<and>
      nblock (ga st2 (-1000)) = [3, 2]" by auto
  then show ?thesis using st1 by blast
qed

lemma restrict_loop_pos:
  "restrict_loop me nproc ps i rank has pos0 = Inr (rank', has', pos') \<Longrightarrow> me \<notin> set ps \<Longrightarrow> pos' = pos0"
proof (induction ps arbitrary: i rank has pos0)
  case (Cons p ps)
  have "restrict_loop me nproc ps (i + 1) (rank[nat p := i]) has pos0 = Inr (rank', has', pos')"
    using Cons.prems by (simp add: Let_def split: if_splits)
  from Cons.IH [OF this] Cons.prems show ?case by simp
qed simp

text \<open>What the loop over the list records, also when a process comes more than once: its last position.\<close>

lemma restrict_loop_records:
  assumes "\<forall>p\<in>set ps. 0 \<le> p \<and> p < nproc" "nproc \<le> int (length rank)"
  shows "\<exists>rank' has' pos'. restrict_loop me nproc ps i rank has pos0 = Inr (rank', has', pos') \<and> length rank' = length rank \<and>
    (\<forall>k<length ps. ps ! k \<notin> set (drop (Suc k) ps) \<longrightarrow> rank' ! nat (ps ! k) = i + int k \<and> (ps ! k = me \<longrightarrow> pos' = i + int k)) \<and>
    (\<forall>p. 0 \<le> p \<and> p \<notin> set ps \<longrightarrow> rank' ! nat p = rank ! nat p)"
  using assms
proof (induction ps arbitrary: i rank has pos0)
  case (Cons p ps)
  let ?r = "rank[nat p := i]" let ?h = "if me = p then 1 else has" let ?q = "if me = p then i else pos0"
  have p: "0 \<le> p" "p < nproc" "nat p < length rank" using Cons.prems by auto
  obtain rank' has' pos' where r: "restrict_loop me nproc ps (i + 1) ?r ?h ?q = Inr (rank', has', pos')" "length rank' = length rank"
    "\<forall>k<length ps. ps ! k \<notin> set (drop (Suc k) ps) \<longrightarrow> rank' ! nat (ps ! k) = i + 1 + int k \<and> (ps ! k = me \<longrightarrow> pos' = i + 1 + int k)"
    "\<forall>p. 0 \<le> p \<and> p \<notin> set ps \<longrightarrow> rank' ! nat p = ?r ! nat p"
    using Cons.IH [of ?r "i + 1" ?h ?q] Cons.prems by auto
  have pos: "pos' = ?q" if "me \<notin> set ps" using restrict_loop_pos [OF r(1) that] .
  have "(p # ps) ! k \<notin> set (drop (Suc k) (p # ps)) \<longrightarrow>
      rank' ! nat ((p # ps) ! k) = i + int k \<and> ((p # ps) ! k = me \<longrightarrow> pos' = i + int k)" if "k < length (p # ps)" for k
    using that r(3,4) p pos by (cases k) auto
  moreover have "rank' ! nat q = rank ! nat q" if "0 \<le> q" "q \<notin> set (p # ps)" for q
  proof -
    have "nat p \<noteq> nat q" using that p(1) by auto
    then show ?thesis using r(4) that by simp
  qed
  moreover have "restrict_loop me nproc (p # ps) i rank has pos0 = Inr (rank', has', pos')" using r(1) p by (simp add: Let_def)
  ultimately show ?case using r(2) by blast
qed simp

text \<open>
  C36. \<open>pnga_set_restricted\<close> records the list as it is given, the number of its entries, whether the caller is in the list and at
  which position, and for every process its rank, the position at which it is in the list; \<open>-1\<close> for the others. A
  process that comes more than once gets its last position (finding: the code does not refuse such a list); for a list of different
  processes list and ranks are inverse to each other. A list with a process outside the group is refused.
\<close>

theorem set_restricted_ranks:
  assumes "handle_ok st g_a" "0 < n" "n \<le> int (length ps)"
    and "rstrctd_group (ga st g_a) st = (me, nproc)" "nproc \<le> GAnproc st"
  defines "l \<equiv> take (nat n) ps"
  shows "if \<exists>p\<in>set l. p < 0 \<or> p \<ge> nproc
    then \<exists>p. pnga_set_restricted g_a ps n st = Inl (''Invalid processor in list'', p)
    else \<exists>st' rank. pnga_set_restricted g_a ps n st = Inr st' \<and> num_rstrctd (ga st' g_a) = n \<and>
      rstrctd_list (ga st' g_a) = Some l \<and> rank_rstrctd (ga st' g_a) = Some rank \<and>
      (\<forall>k<length l. l ! k \<notin> set (drop (Suc k) l) \<longrightarrow> rank ! nat (l ! k) = int k \<and> (l ! k = me \<longrightarrow> rstrctd_id (ga st' g_a) = int k)) \<and>
      (\<forall>p. 0 \<le> p \<and> p < GAnproc st \<and> p \<notin> set l \<longrightarrow> rank ! nat p = -1) \<and>
      (has_data (ga st' g_a) = 1 \<longleftrightarrow> me \<in> set l) \<and> (distinct l \<longrightarrow> restriction_set (ga st' g_a))"
proof (cases "\<exists>p\<in>set l. p < 0 \<or> p \<ge> nproc")
  case True
  show ?thesis
    using restrict_loop_bad [OF True, of me 0 "replicate (nat (GAnproc st)) (-1)" 0 0] assms(4) True
    by (auto simp: pnga_set_restricted_def restrict_to_def l_def)
next
  case False
  have in_range: "\<forall>p\<in>set l. 0 \<le> p \<and> p < nproc" using False by auto
  let ?r0 = "replicate (nat (GAnproc st)) (-1 :: int)"
  have r0: "nproc \<le> int (length ?r0)" using assms(5) by simp
  obtain r h q where r: "restrict_loop me nproc l 0 ?r0 0 0 = Inr (r, h, q)"
    "\<forall>k<length l. l ! k \<notin> set (drop (Suc k) l) \<longrightarrow> r ! nat (l ! k) = int k \<and> (l ! k = me \<longrightarrow> q = int k)"
    "\<forall>p. 0 \<le> p \<and> p \<notin> set l \<longrightarrow> r ! nat p = ?r0 ! nat p"
    using restrict_loop_records [OF in_range r0, of me 0 0 0] by auto
  have "ranks_ok l r" if "distinct l"
    using restrict_loop_ok [of "[]" ?r0 l nproc me 0 0] that in_range r0 r(1) by (auto simp: ranks_ok_def)
  moreover have "int (length l) = n" using assms(2,3) by (simp add: l_def)
  moreover have "\<forall>p. 0 \<le> p \<and> p < GAnproc st \<and> p \<notin> set l \<longrightarrow> r ! nat p = -1" using r(3) by auto
  ultimately show ?thesis
    using False r(1,2) restrict_loop_has [OF r(1)] assms(2,4) ga_upd_same [OF assms(1)]
    by (simp add: pnga_set_restricted_def restrict_to_def restriction_set_def flip: l_def) blast
qed

theorem set_restricted_ranks_witness:
  "(\<exists>st'. pnga_set_restricted (-1000) [7, 5, 3] 3 demo_data = Inr st' \<and> restriction_set (ga st' (-1000)) \<and>
    rstrctd_list (ga st' (-1000)) = Some [7, 5, 3] \<and> has_data (ga st' (-1000)) \<noteq> 1) \<and>
   (\<exists>st' rank. pnga_set_restricted (-1000) [4, 0, 4] 3 demo_data = Inr st' \<and> rank_rstrctd (ga st' (-1000)) = Some rank \<and>
    rank ! 4 = 2 \<and> rank ! 0 = 1 \<and> rank ! 5 = -1 \<and> rstrctd_id (ga st' (-1000)) = 1)"
proof -
  have g: "rstrctd_group (ga demo_data (-1000)) demo_data = (0, 8)" "GAnproc demo_data = 8"
    by (simp_all add: rstrctd_group_def ga_def demo_data_def demo_state_def GA_OFFSET_def blank_array_def)
  note c = set_restricted_ranks [OF demo_data_ok(1), of 3 _ 0 8, unfolded g]
  show ?thesis
  proof
    show "\<exists>st'. pnga_set_restricted (-1000) [7, 5, 3] 3 demo_data = Inr st' \<and> restriction_set (ga st' (-1000)) \<and>
      rstrctd_list (ga st' (-1000)) = Some [7, 5, 3] \<and> has_data (ga st' (-1000)) \<noteq> 1"
      using c [of "[7, 5, 3]"] by auto
    let ?l = "[4, 0, 4 :: int]"
    have l: "take (nat 3) ?l = ?l" "\<not> (\<exists>p\<in>set ?l. p < 0 \<or> p \<ge> 8)" by simp_all
    obtain st' rank where s: "pnga_set_restricted (-1000) ?l 3 demo_data = Inr st'" "rank_rstrctd (ga st' (-1000)) = Some rank"
      and k: "\<forall>k<length ?l. ?l ! k \<notin> set (drop (Suc k) ?l) \<longrightarrow> rank ! nat (?l ! k) = int k \<and>
         (?l ! k = 0 \<longrightarrow> rstrctd_id (ga st' (-1000)) = int k)"
      and o: "\<forall>p. 0 \<le> p \<and> p < 8 \<and> p \<notin> set ?l \<longrightarrow> rank ! nat p = -1"
      using c [of ?l, unfolded l(1)] l(2) by (auto simp del: list.set)
    show "\<exists>st' rank. pnga_set_restricted (-1000) ?l 3 demo_data = Inr st' \<and> rank_rstrctd (ga st' (-1000)) = Some rank \<and>
      rank ! 4 = 2 \<and> rank ! 0 = 1 \<and> rank ! 5 = -1 \<and> rstrctd_id (ga st' (-1000)) = 1"
      using s k [rule_format, of 1] k [rule_format, of 2] o [rule_format, of 5] by auto
  qed
qed

section \<open>Memory\<close>

text \<open>
  C37. The memory that \<open>pnga_allocate\<close> reserves for a block-cyclic or tiled array of the world group, not
  restricted, is exactly the array: over all the processes, the shares add up to the product of the dimensions. An array with a processor grid whose size is
  not the number of processes is refused.
\<close>

theorem block_size_total:
  assumes "blocks_ok a \<or> tiled_irreg_ok a" "length (nblock a) = length (dims a)" "grid_ok (nblock a)" "0 < nproc"
  shows "if distr_type a \<noteq> BLOCK_CYCLIC \<and> prod_list (nblock a) \<noteq> nproc
    then block_size a me nproc nproc = Inl (''Number of processors in processor grid must equal available processors'', 0)
    else \<exists>share. (\<forall>me. block_size a me nproc nproc = Inr (share me)) \<and> (\<Sum>me\<in>{0..<nproc}. share me) = prod_list (dims a)"
proof (cases "distr_type a = BLOCK_CYCLIC")
  case True
  then have b: "blocks_ok a" using assms(1) by (auto simp: tiled_irreg_ok_def)
  have "\<exists>share. (\<forall>me. block_size a me nproc nproc = Inr (share me)) \<and> (\<Sum>me\<in>{0..<nproc}. share me) = prod_list (dims a)"
    by (rule exI [of _ "\<lambda>me. cyclic_share a me nproc"]) (use True cyclic_total [OF b assms(4)] in \<open>simp add: block_size_def\<close>)
  then show ?thesis using True by simp
next
  case no: False
  show ?thesis
  proof (cases "prod_list (nblock a) = nproc")
    case False
    then show ?thesis using no assms(1) by (auto simp: block_size_def blocks_ok_def tiled_irreg_ok_def Let_def)
  next
    case eq: True
    have "\<exists>share. (\<forall>me. block_size a me nproc nproc = Inr (share me)) \<and> (\<Sum>me\<in>{0..<nproc}. share me) = prod_list (dims a)"
      using assms(1)
    proof
      assume b: "blocks_ok a"
      show ?thesis
        by (rule exI [of _ "\<lambda>me. tile_share (gam_find_proc_indices (nblock a) me) (nblock a) (num_blocks a) (block_dims a) (dims a)"])
          (use b no eq tile_total [OF b assms(2,3)] in \<open>auto simp: block_size_def blocks_ok_def Let_def\<close>)
    next
      assume t: "tiled_irreg_ok a"
      then have m: "mapped a (num_blocks a)" by (simp add: tiled_irreg_ok_def)
      show ?thesis
        by (rule exI [of _ "\<lambda>me. irreg_share (gam_find_proc_indices (nblock a) me) (nblock a) (num_blocks a) (dims a) (the (mapc a))"])
          (use t eq irreg_total [OF m assms(2,3)] in \<open>simp add: block_size_def tiled_irreg_ok_def Let_def\<close>)
    qed
    then show ?thesis using eq by simp
  qed
qed

theorem block_size_total_witness:
  "\<exists>share. (\<forall>me. block_size (demo_cyclic SCALAPACK) me 4 4 = Inr (share me)) \<and> (\<Sum>me\<in>{0..<4}. share me) = 60"
proof -
  have d: "nblock (demo_cyclic SCALAPACK) = [2, 2]" "dims (demo_cyclic SCALAPACK) = [10, 6]" by (simp_all add: demo_cyclic_def)
  show ?thesis
    using block_size_total [of "demo_cyclic SCALAPACK" 4] demo_blocks_ok [of SCALAPACK] d by simp
qed

end
