(* ===== verification/GA_Iteration.thy ===== *)
theory GA_Iteration
  imports GA_Local GA_Regular GA_Creation
begin

text \<open>
  The properties of the iterators and of the access to blocks, with concrete arrays on which their hypotheses hold.
\<close>

section \<open>Starting a walk\<close>

context tiling
begin

lemma sits_start:
  assumes "tiled_by (ga st g_a) as" "prod_list (nblock (ga st g_a)) = GAnproc st"
    "it_g_a h = g_a" "it_lo h = lo" "it_hi h = hi" "hdl_for (ga st g_a) h"
  shows "sits st g_a as lo hi (later (ga st g_a) as (GAnproc st) 0) (start_tiles (ga st g_a) h)"
proof -
  let ?a = "ga st g_a"
  have "grid_ok (nblock ?a)" using assms(1) by (simp add: tiled_by_def)
  then have n: "0 < GAnproc st" using grid_prod_pos assms(2) by metis
  then have "starts_ok as (proc_starts ?a 0) (nblock ?a)" using tiled_starts(1) [OF assms(1), of 0] assms(2) by simp
  from start_pos [OF this] show ?thesis
    using assms n later_Cons [OF n, of ?a as] by (simp add: sits_def Let_def start_tiles_def hdl_for_def proc_starts_def)
qed

lemma place_ok:
  assumes "tiled_by a as" "subscript_of a ss"
  shows "0 \<le> fst (place a as ss)" "fst (place a as ss) < prod_list (nblock a)" "0 \<le> snd (place a as ss)"
    "snd (place a as ss) < pshare as (proc_starts a (fst (place a as ss))) (nblock a)"
    "in_grid (num_blocks a) (map2 find as ss)"
    "in_patch (map2 first as (map2 find as ss)) (map2 final as (map2 find as ss)) ss"
proof -
  have t: "list_all valid as" "map count as = num_blocks a" "map extent as = dims a" using assms(1) by (auto simp: tiled_by_def)
  have s: "in_patch (replicate (length as) 1) (map extent as) ss"
    using assms(2) t(3) unfolding subscript_of_def by (metis length_map)
  note g = found_in_grid [OF t(1) s]
  show i: "in_grid (num_blocks a) (map2 find as ss)" using g t(2) by simp
  show x: "in_patch (map2 first as (map2 find as ss)) (map2 final as (map2 find as ss)) ss" using holds_iff [OF t(1) s g] by simp
  show "0 \<le> fst (place a as ss)" "fst (place a as ss) < prod_list (nblock a)" "0 \<le> snd (place a as ss)"
    "snd (place a as ss) < pshare as (proc_starts a (fst (place a as ss))) (nblock a)"
    using grid_starts [OF assms(1) i] offset_bounds [OF assms(1) i x] by (simp_all add: place_def Let_def)
qed

lemma place_inj:
  assumes "tiled_by a as"
  shows "inj_on (place a as) {ss. subscript_of a ss}"
proof (rule inj_onI)
  fix ss ss' assume s: "ss \<in> {ss. subscript_of a ss}" "ss' \<in> {ss. subscript_of a ss}" and e: "place a as ss = place a as ss'"
  let ?i = "map2 find as ss" let ?j = "map2 find as ss'"
  note p = place_ok [OF assms, of ss] and q = place_ok [OF assms, of ss']
  have i: "in_grid (num_blocks a) ?i" "in_grid (num_blocks a) ?j" using p q s by auto
  have "starts_of a ?i = starts_of a ?j"
    using grid_starts(3) [OF assms i(1)] grid_starts(3) [OF assms i(2)] e by (metis fst_conv place_def)
  moreover have "offset_at a as ?i ss = offset_at a as ?j ss'" using e by (simp add: place_def Let_def)
  ultimately show "ss = ss'" using offset_inj [OF assms i] p(6) q(6) s by simp
qed

text \<open>The pointer to a block and its own strides lead to the places too, where blocks are stored one after another.\<close>

lemma local_place:
  assumes "length ss = length as"
  shows "distr_type a \<noteq> SCALAPACK \<Longrightarrow>
    toff as (starts_of a (map2 find as ss)) (nblock a) (map2 find as ss) +
      strided ss (map2 first as (map2 find as ss)) (butlast (map2 len as (map2 find as ss))) 1 = snd (place a as ss)"
proof -
  assume d: "distr_type a \<noteq> SCALAPACK"
  let ?i = "map2 find as ss"
  have "map2 len as ?i = map2 (\<lambda>l h. h - l + 1) (map2 first as ?i) (map2 final as ?i)"
    using assms by (intro nth_equalityI) (simp_all add: len_def)
  then show ?thesis
    using strided_block [of ss "map2 first as ?i" "map2 final as ?i" 1] assms d
    by (simp add: place_def offset_at_def Let_def blk_at_def)
qed

text \<open>The iterator on a tiled array: one layout for all patches, and blocks that lead to it.\<close>

lemma tile_layout:
  assumes "tiled_by a as" "sl_ok a as" "a = ga st g_a" "prod_list (nblock a) = GAnproc st"
    "\<And>p. 0 \<le> p \<Longrightarrow> p < GAnproc st \<Longrightarrow> block_size a p (GAnproc st) (GAnproc st) = Inr (pshare as (proc_starts a p) (nblock a))"
    "\<And>rnd lo hi h. \<exists>h'. gai_iterator_init rnd st g_a lo hi h = Inr (start_tiles a h') \<and> it_g_a h' = g_a \<and> it_lo h' = lo \<and>
       it_hi h' = hi \<and> hdl_for a h' \<and> gai_iterator_reset st (start_tiles a h') = start_tiles a h'"
    "solid a \<longrightarrow> sl_ld_ok a as \<and> full as"
  shows "lays_out st g_a (place a as)"
  unfolding lays_out_def assms(3) [symmetric]
proof (intro conjI allI impI)
  show "inj_on (place a as) {ss. subscript_of a ss}" using place_inj [OF assms(1)] .
  fix ss assume s: "subscript_of a ss"
  show p: "0 \<le> fst (place a as ss)" "fst (place a as ss) < GAnproc st" using place_ok [OF assms(1) s] assms(4) by auto
  have "reserved st a (fst (place a as ss)) = block_size a (fst (place a as ss)) (GAnproc st) (GAnproc st)"
    using assms(1) by (auto simp: reserved_def tiled_by_def)
  then show "\<exists>sz. reserved st a (fst (place a as ss)) = Inr sz \<and> 0 \<le> snd (place a as ss) \<and> snd (place a as ss) < sz"
    using assms(5) [OF p] place_ok(3,4) [OF assms(1) s] by simp
next
  fix rnd :: "nat \<Rightarrow> int" and lo hi h
  assume l: "subscript_of a lo \<and> subscript_of a hi \<and> list_all2 (\<le>) lo hi"
  obtain h' where h: "gai_iterator_init rnd st g_a lo hi h = Inr (start_tiles a h')" "it_g_a h' = g_a" "it_lo h' = lo"
    "it_hi h' = hi" "hdl_for a h'" "gai_iterator_reset st (start_tiles a h') = start_tiles a h'" using assms(6) by blast
  have "sits st g_a as lo hi (later a as (GAnproc st) 0) (start_tiles a h')"
    using sits_start [of st g_a as h'] assms(1,3,4) h by simp
  moreover have again: "\<exists>bs h2. walks (gai_iterator_next st) h1 bs h2 \<and> sits st g_a as lo hi [] h2 \<and> blocks_for st g_a (place a as) lo hi bs"
    if h1: "sits st g_a as lo hi (later a as (GAnproc st) 0) h1" for h1
  proof -
    obtain bs h2 where bs: "walks (gai_iterator_next st) h1 bs h2" "sits st g_a as lo hi [] h2" "serves (place a as) a lo hi bs"
      "\<forall>b\<in>set bs. 0 \<le> ib_proc b \<and> ib_proc b < GAnproc st \<and> (solid a \<longrightarrow> roomy b (pshare as (proc_starts a (ib_proc b)) (nblock a)))"
      using tile_serves [of st g_a as lo hi h1] h1 assms(1,2,4,7) l unfolding assms(3) by blast
    moreover have "reserved st a (ib_proc b) = Inr (pshare as (proc_starts a (ib_proc b)) (nblock a))" if "b \<in> set bs" for b
      using assms(1,5) bs(4) that by (auto simp: reserved_def tiled_by_def)
    ultimately show ?thesis using assms(3) unfolding blocks_for_def by metis
  qed
  ultimately obtain bs h1 where p1: "walks (gai_iterator_next st) (start_tiles a h') bs h1" "sits st g_a as lo hi [] h1"
    "blocks_for st g_a (place a as) lo hi bs" by blast
  have e: "it_g_a h1 = g_a" "it_lo h1 = lo" "it_hi h1 = hi" "hdl_for a h1" using p1(2) assms(3) by (auto simp: sits_def Let_def)
  have r: "gai_iterator_reset st h1 = start_tiles a h1"
    using assms(1,3) e(1) by (auto simp: gai_iterator_reset_def Let_def tiled_by_def)
  have "sits st g_a as lo hi (later a as (GAnproc st) 0) (gai_iterator_reset st h1)"
    using sits_start [of st g_a as h1] assms(1,3,4) e r by simp
  from again [OF this] show "\<exists>h' bs h1 bs' h2. gai_iterator_init rnd st g_a lo hi h = Inr h' \<and>
      walks (gai_iterator_next st) (gai_iterator_reset st h') bs h1 \<and> blocks_for st g_a (place a as) lo hi bs \<and>
      walks (gai_iterator_next st) (gai_iterator_reset st h1) bs' h2 \<and> blocks_for st g_a (place a as) lo hi bs'"
    using h(1,6) p1(1,3) by metis
qed

end

interpretation bw: block_walk "gai_iterator_next st" "it_blocks st" "bt.sits st g_a as lo hi" "bt.tile_hit as lo hi"
  "bt.tile_piece (ga st g_a) as lo hi" for st g_a as lo hi
  by (rule bt.tile_walk)

interpretation mw: block_walk "gai_iterator_next st" "it_blocks st" "mt.sits st g_a as lo hi" "mt.tile_hit as lo hi"
  "mt.tile_piece (ga st g_a) as lo hi" for st g_a as lo hi
  by (rule mt.tile_walk)

lemma init_tiles:
  assumes "grid_spread st (ga st g_a)"
  shows "\<exists>h'. gai_iterator_init rnd st g_a lo hi h = Inr (start_tiles (ga st g_a) h') \<and> it_g_a h' = g_a \<and> it_lo h' = lo \<and>
    it_hi h' = hi \<and> hdl_for (ga st g_a) h' \<and>
    gai_iterator_reset st (start_tiles (ga st g_a) h') = start_tiles (ga st g_a) h'"
proof -
  let ?a = "ga st g_a"
  have "distr_type ?a = SCALAPACK \<or> distr_type ?a = TILED \<or> distr_type ?a = TILED_IRREG"
    using assms by (auto simp: grid_spread_def blocks_ok_def tiled_irreg_ok_def)
  then consider "distr_type ?a = SCALAPACK" | "distr_type ?a = TILED" | "distr_type ?a = TILED_IRREG" by blast
  then show ?thesis
    by cases (auto simp: gai_iterator_init_def gai_iterator_reset_def Let_def hdl_for_def start_tiles_def)
qed

text \<open>
  The layouts of the two kinds of tiled arrays, and the pointer of the access routines to an element: the block that
  \<open>pnga_locate\<close> gives, the pointer of \<open>pnga_access_block_ptr\<close> to it, and its strides.
\<close>

lemma layout_irreg:
  assumes "grid_spread st (ga st g_a)" "tiled_irreg_ok (ga st g_a)"
  shows "lays_out st g_a (mt.place (ga st g_a) (array_axes (ga st g_a) (num_blocks (ga st g_a))))"
proof -
  let ?a = "ga st g_a"
  have n: "prod_list (nblock ?a) = GAnproc st" "mt.sl_ok ?a (array_axes ?a (num_blocks ?a))"
    using assms by (simp_all add: grid_spread_def mt.sl_ok_def tiled_irreg_ok_def)
  have "solid ?a \<longrightarrow> mt.sl_ld_ok ?a (array_axes ?a (num_blocks ?a)) \<and> mt.full (array_axes ?a (num_blocks ?a))"
    using assms(2) by (auto simp: solid_def mt.sl_ld_ok_def mt.full_def tiled_irreg_ok_def)
  from mt.tile_layout [OF tiled_by_irreg [OF assms(2,1)] n(2) refl n(1) block_size_irreg [OF assms(2,1)] init_tiles [OF assms(1)] this]
  show ?thesis .
qed

lemma layout_blocks:
  assumes "grid_spread st (ga st g_a)" "\<not> tiled_irreg_ok (ga st g_a)"
  shows "blocks_ok (ga st g_a)" "distr_type (ga st g_a) \<noteq> BLOCK_CYCLIC" "bt.tiled_by (ga st g_a) (blk_axes (ga st g_a))"
    "bt.sl_ok (ga st g_a) (blk_axes (ga st g_a))" "lays_out st g_a (bt.place (ga st g_a) (blk_axes (ga st g_a)))"
proof -
  show b: "blocks_ok (ga st g_a)" "distr_type (ga st g_a) \<noteq> BLOCK_CYCLIC" using assms by (auto simp: grid_spread_def)
  show t: "bt.tiled_by (ga st g_a) (blk_axes (ga st g_a))" using tiled_by_blocks [OF b assms(1)] .
  show s: "bt.sl_ok (ga st g_a) (blk_axes (ga st g_a))" using sl_ok_blocks [OF b(1) t] .
  have n: "prod_list (nblock (ga st g_a)) = GAnproc st" using assms(1) by (simp add: grid_spread_def)
  have "solid (ga st g_a) \<longrightarrow> bt.sl_ld_ok (ga st g_a) (blk_axes (ga st g_a)) \<and> bt.full (blk_axes (ga st g_a))"
    using sl_ld_ok_blocks [OF b(1) t] full_blocks [OF b(1)] by blast
  from bt.tile_layout [OF t s refl n block_size_blocks [OF b assms(1)] init_tiles [OF assms(1)] this]
  show "lays_out st g_a (bt.place (ga st g_a) (blk_axes (ga st g_a)))" .
qed

definition local_addr :: "ga_state \<Rightarrow> int \<Rightarrow> int list \<Rightarrow> ga_error + int" where
  "local_addr st g_a ss =
     (case pnga_locate st g_a ss of Inl e \<Rightarrow> Inl e | Inr (_, k) \<Rightarrow>
      case pnga_access_block_ptr st g_a k of Inl e \<Rightarrow> Inl e | Inr (p, ld) \<Rightarrow>
      Inr (p + strided ss (fst (ga_ownsM (ga st g_a) k)) ld 1 * elemsize (ga st g_a)))"

lemma local_irreg:
  assumes "ga_active st g_a" "grid_spread st (ga st g_a)" "tiled_irreg_ok (ga st g_a)" "subscript_of (ga st g_a) ss"
  defines "a \<equiv> ga st g_a" and "axes \<equiv> array_axes (ga st g_a) (num_blocks (ga st g_a))"
  shows "local_addr st g_a ss = Inr (ptr a ! nat (fst (mt.place a axes ss)) + snd (mt.place a axes ss) * elemsize a)"
proof -
  let ?k = "map_owner a (num_blocks a) ss" let ?i = "map2 map_find axes ss"
  have m: "mapped a (num_blocks a)" "block_total a = prod_list (num_blocks a)" "block_total a \<le> 2147483648" "distr_type a = TILED_IRREG"
    using assms(3) by (auto simp: tiled_irreg_ok_def a_def)
  note k = map_owner_range [OF m(1) assms(4) [folded a_def]] and ax = mapped_axes [OF m(1)]
  have i: "gam_find_proc_indices (num_blocks a) ?k = ?i" "gam_find_block_indices (num_blocks a) ?k = ?i"
    using proc_indices_of_pos [OF ax(6) k(3)] k(1,2) m(2,3)
    by (simp_all add: map_owner_def axes_def a_def gam_find_block_indices_def s32_id)
  have own: "fst (ga_ownsM a ?k) = map2 map_first axes ?i"
    using irreg_owns [OF assms(3) [folded a_def], of ?k] k(1,2) m(2) i(1) by (simp add: map_block_def axes_def a_def)
  have acc: "pnga_access_block_ptr st g_a ?k = pnga_access_block_grid_ptr st g_a ?i"
    using k(1,2) m(2,4) i(2) by (simp add: pnga_access_block_ptr_def Let_def a_def)
  have l: "length ss = length axes"
    using in_patch_lengths [OF assms(4) [unfolded subscript_of_def]] ax(4) by (simp add: axes_def a_def)
  have g: "in_grid (num_blocks (ga st g_a)) ?i" using k(3) by (simp add: axes_def a_def)
  show ?thesis
    using mt.local_place [OF l, of a] m(4) unfolding local_addr_def locate_irreg [OF assms(1,3,4)] a_def [symmetric]
    by (simp add: acc access_irreg [OF assms(3,2) g, folded a_def axes_def] own mt.place_def Let_def flip: distrib_right)
qed

lemma local_blocks:
  assumes "ga_active st g_a" "grid_spread st (ga st g_a)" "\<not> tiled_irreg_ok (ga st g_a)" "subscript_of (ga st g_a) ss"
    "distr_type (ga st g_a) = TILED \<longrightarrow> (\<forall>s\<in>set (nblock (ga st g_a)). s = 2)"
  defines "a \<equiv> ga st g_a" and "axes \<equiv> blk_axes (ga st g_a)"
  shows "local_addr st g_a ss = Inr (ptr a ! nat (fst (bt.place a axes ss)) + snd (bt.place a axes ss) * elemsize a)"
proof -
  let ?k = "blk_owner a ss" let ?i = "map2 blk_find axes ss"
  note b = layout_blocks [OF assms(2,3)]
  have m: "block_total a = prod_list (num_blocks a)" "block_total a \<le> 2147483648" "distr_type a = SCALAPACK \<or> distr_type a = TILED"
    "length (block_dims a) = length (dims a)"
    using b(1,2) unfolding blocks_ok_def a_def by blast+
  note k = blk_owner_range [OF b(1) assms(4), folded a_def axes_def] and ax = blocks_axes [OF b(1), folded a_def axes_def]
  have i: "gam_find_proc_indices (num_blocks a) ?k = ?i" "gam_find_block_indices (num_blocks a) ?k = ?i"
    using proc_indices_of_pos [OF ax(5) k(3)] k(1,2) m(1,2)
    by (simp_all add: blk_owner_def axes_def a_def gam_find_block_indices_def s32_id)
  have own: "fst (ga_ownsM a ?k) = map2 blk_first axes ?i"
    using blk_owns [OF b(1) [folded a_def], of ?k] k(1,2) i(1) by (simp add: axes_def a_def)
  have acc: "pnga_access_block_ptr st g_a ?k = pnga_access_block_grid_ptr st g_a ?i"
    using k(1,2) m(3) i(2) b(2) by (simp add: pnga_access_block_ptr_def Let_def a_def)
  have l: "length ss = length axes"
    using in_patch_lengths [OF assms(4) [unfolded subscript_of_def]] ax(4) by (simp add: a_def)
  have g: "in_grid (num_blocks (ga st g_a)) ?i" using k(3) by (simp add: a_def)
  note loc = locate_blocks [OF assms(1) b(1) assms(4)]
  show ?thesis
  proof (cases "distr_type a = SCALAPACK")
    case True
    let ?f = "map2 blk_first axes ?i" let ?u = "map2 (*) (block_dims a) (nblock a)"
    let ?ld = "sl_ld (bt.starts_of a ?i) (nblock a) (block_dims a) (dims a)"
    have n: "length (nblock a) = length (dims a)" using assms(2) by (simp add: grid_spread_def a_def)
    have "sl_offset ?f ?f ?u (block_dims a) ?ld 1 + strided ss ?f ?ld 1 = sl_offset ss ?f ?u (block_dims a) ?ld 1"
      using l ax(4) m(4) n by (intro sl_offset_strided) auto
    also have "\<dots> = snd (bt.place a axes ss)"
      using b(4) k(3) bt.place_ok(6) [OF b(3) assms(4)] True
      by (simp add: bt.sl_ok_def bt.place_def bt.offset_at_def Let_def a_def axes_def)
    finally show ?thesis using True unfolding local_addr_def loc a_def [symmetric]
      by (simp add: acc access_scalapack [OF b(1) _ assms(2) g, folded a_def axes_def] own bt.place_def Let_def flip: distrib_right)
  next
    case False
    then have t: "distr_type a = TILED" using m(3) by blast
    have two: "\<forall>s\<in>set (nblock (ga st g_a)). s = 2" using assms(5) t by (simp add: a_def)
    show ?thesis using bt.local_place [OF l, of a] t unfolding local_addr_def loc a_def [symmetric]
      by (simp add: acc access_tiled [OF b(1) t [unfolded a_def] assms(2) two g, folded a_def axes_def] own bt.place_def Let_def flip: distrib_right)
  qed
qed

lemma some_layout:
  assumes "ga_active st g_a" "grid_spread st (ga st g_a) \<or> regular_spread st (ga st g_a)"
  shows "\<exists>place. lays_out st g_a place"
  using layout_irreg layout_blocks(5) layout_regular [OF assms(1)] assms(2) by blast

text \<open>
  C38. The iterator on two kinds of arrays of the world group: tiled and ScaLAPACK arrays, not restricted, on
  a processor grid of exactly all processes with on no axis more positions than blocks (\<open>grid_spread\<close>); and regular arrays,
  restricted or not, with at most as many blocks as processes and blocks that with their ghost cells have a size of at
  most \<open>MAX_INT\<close> bytes (\<open>regular_spread\<close>). The elements of the array have places, a process and an
  offset in its memory, all different and inside the memory that \<open>pnga_allocate\<close> reserves on the process. For every
  patch, started and reset as the one-sided operations do and whatever random numbers the order of the processes is
  made from, the iterator ends; every element of the patch lies in exactly one of its blocks, and the process, the
  pointer and the strides of the block lead to the place of the element. With an idle position in the grid all this can
  fail (\<open>idle_position_repeats\<close>).
\<close>

theorem gai_iterator_layout:
  assumes "ga_active st g_a" "grid_spread st (ga st g_a) \<or> regular_spread st (ga st g_a)"
  shows "\<exists>place. inj_on place {ss. subscript_of (ga st g_a) ss} \<and>
    (\<forall>ss. subscript_of (ga st g_a) ss \<longrightarrow> 0 \<le> fst (place ss) \<and> fst (place ss) < GAnproc st \<and>
      (\<exists>sz. reserved st (ga st g_a) (fst (place ss)) = Inr sz \<and> 0 \<le> snd (place ss) \<and> snd (place ss) < sz)) \<and>
    (\<forall>rnd lo hi h. subscript_of (ga st g_a) lo \<and> subscript_of (ga st g_a) hi \<and> list_all2 (\<le>) lo hi \<longrightarrow>
      (\<exists>h' bs. gai_iterator_init rnd st g_a lo hi h = Inr h' \<and> it_blocks st (gai_iterator_reset st h') = Some (Inr bs) \<and>
        serves place (ga st g_a) lo hi bs))"
proof -
  obtain place where p: "lays_out st g_a place" using some_layout [OF assms] by blast
  show ?thesis using p layout_iterates [OF p] unfolding lays_out_def by (intro exI [of _ place]) blast
qed

text \<open>Four processes in a two by two grid.\<close>

definition demo_four :: ga_state where
  "demo_four = demo_state\<lparr>GAnproc := 4\<rparr>"

lemma demo_four_spread: "grid_spread demo_four (ga demo_four (-998))"
proof -
  have "ga demo_four (-998) = demo_cyclic SCALAPACK" by (simp add: demo_four_def ga_def demo_state_def GA_OFFSET_def)
  then show ?thesis using demo_blocks_ok [of SCALAPACK]
    by (simp add: grid_spread_def) (simp add: demo_cyclic_def demo_four_def blank_array_def)
qed

definition blank_hdl :: iterator_hdl where
  "blank_hdl = \<lparr>it_g_a = 0, it_lo = [], it_hi = [], it_count = 0, it_map = [], proclist = [], proclistperm = [],
     it_mapc = None, it_nproc = 0, it_offset = 0, iproc = 0, iblock = 0, oversize = 0, lobuf = [], hibuf = [], blk_num = [],
     blk_dim = [], blk_inc = [], blk_ld = [], hlf_blk = [], blk_size = [], proc_index = [], it_index = []\<rparr>"

lemma demo_four_patch:
  "subscript_of (ga demo_four (-998)) [2, 2] \<and> subscript_of (ga demo_four (-998)) [9, 5] \<and> list_all2 (\<le>) [2, 2] [9, 5 :: int]"
  "distr_type (ga demo_four (-998)) = SCALAPACK" "ga_active demo_four (-998)"
  by (simp_all add: subscript_of_def demo_four_def ga_active_def ga_def demo_state_def GA_OFFSET_def demo_cyclic_def eval_nat_numeral)

lemma demo_state_spread:
  "regular_spread demo_state (ga demo_state (-1000))" "ga_active demo_state (-1000)"
  "subscript_of (ga demo_state (-1000)) [2, 2] \<and> subscript_of (ga demo_state (-1000)) [9, 5] \<and> list_all2 (\<le>) [2, 2] [9, 5 :: int]"
proof -
  have d: "ga demo_state (-1000) = demo_regular" by (simp add: ga_def demo_state_def GA_OFFSET_def)
  have n: "k = 0 \<or> k = 1 \<or> k = 2 \<or> k = 3 \<or> k = 4 \<or> k = 5" if "0 \<le> k" "k < 6" for k :: int using that by auto
  have "block_elems demo_regular 0 = 14 \<and> block_elems demo_regular 1 = 14 \<and> block_elems demo_regular 2 = 14 \<and>
      block_elems demo_regular 3 = 14 \<and> block_elems demo_regular 4 = 14 \<and> block_elems demo_regular 5 = 14" by code_simp
  then have "block_elems demo_regular k = 14" if "0 \<le> k" "k < 6" for k using n [OF that] by auto
  then show "regular_spread demo_state (ga demo_state (-1000))"
    using demo_regular_ok demo_restricted_ok unfolding d regular_spread_def
    by (simp add: demo_state_def) (simp add: demo_regular_def blank_array_def MAX_INT_VALUE_def)
  show "ga_active demo_state (-1000)"
    by (simp_all add: ga_active_def d) (simp add: demo_state_def demo_regular_def GA_OFFSET_def)
  show "subscript_of (ga demo_state (-1000)) [2, 2] \<and> subscript_of (ga demo_state (-1000)) [9, 5] \<and> list_all2 (\<le>) [2, 2] [9, 5 :: int]"
    unfolding d by (simp add: subscript_of_def demo_regular_def eval_nat_numeral)
qed

theorem gai_iterator_layout_witness:
  "(\<exists>h' bs place. gai_iterator_init (\<lambda>_. 0) demo_four (-998) [2, 2] [9, 5] blank_hdl = Inr h' \<and>
     it_blocks demo_four (gai_iterator_reset demo_four h') = Some (Inr bs) \<and> serves place (ga demo_four (-998)) [2, 2] [9, 5] bs) \<and>
   (\<exists>h' bs place. gai_iterator_init (\<lambda>i. int i + 3) demo_state (-1000) [2, 2] [9, 5] blank_hdl = Inr h' \<and>
     it_blocks demo_state (gai_iterator_reset demo_state h') = Some (Inr bs) \<and> serves place (ga demo_state (-1000)) [2, 2] [9, 5] bs)"
  using gai_iterator_layout [OF demo_four_patch(3) disjI1, OF demo_four_spread] demo_four_patch(1)
    gai_iterator_layout [OF demo_state_spread(2) disjI2, OF demo_state_spread(1)] demo_state_spread(3) by meson

text \<open>
  A 4 by 4 array of irregular tiles, one on the first axis and two on the second, on two processes in a 2 by 1 grid: the second
  process has no tile and no memory. The iterator visits it all the same. Its first tile would start at the second entry of the
  map of the first axis, which is the first entry of the map of the second; so the iterator gives the patch a second time, with
  the second process.
\<close>

definition demo_idle :: ga_state where
  "demo_idle = demo_state\<lparr>GA := [blank_array\<lparr>ndim := 2, actv := 1, actv_handle := 1, dims := [4, 4], distr_type := TILED_IRREG,
     num_blocks := [1, 2], mapc := Some [1, 1, 3, -1], nblock := [2, 1], block_total := 2, ptr := [1000, 2000],
     scale := map2 axis_scale [1, 2] [4, 4], width := [0, 0]\<rparr>], GAnproc := 2\<rparr>"

text \<open>The handle of the walk over the patch from (1, 1) to (2, 2), before and after each step.\<close>

definition idle_walk :: "int \<Rightarrow> int \<Rightarrow> int list \<Rightarrow> int list \<Rightarrow> int list \<Rightarrow> int list \<Rightarrow> iterator_hdl" where
  "idle_walk off ip pidx idx lb hb = blank_hdl\<lparr>it_g_a := -1000, it_lo := [1, 1], it_hi := [2, 2], it_mapc := Some [1, 1, 3, -1],
     it_offset := off, iproc := ip, proc_index := pidx, it_index := idx, lobuf := lb, hibuf := hb\<rparr>"

lemma idle_steps:
  "gai_iterator_init (\<lambda>_. 0) demo_idle (-1000) [1, 1] [2, 2] blank_hdl = Inr (idle_walk 0 0 [0, 0] [0, 0] [] [])"
  "gai_iterator_reset demo_idle (idle_walk 0 0 [0, 0] [0, 0] [] []) = idle_walk 0 0 [0, 0] [0, 0] [] []"
  "gai_iterator_next demo_idle (idle_walk 0 0 [0, 0] [0, 0] [] []) = Some (Inr (idle_walk 8 0 [0, 0] [0, 1] [1, 1] [2, 2],
     Some \<lparr>ib_proc = 0, ib_lo = [1, 1], ib_hi = [2, 2], ib_ptr = 1000, ib_ld = [4]\<rparr>))"
  "gai_iterator_next demo_idle (idle_walk 8 0 [0, 0] [0, 1] [1, 1] [2, 2]) = Some (Inr (idle_walk 4 1 [1, 0] [1, 1] [1, 1] [2, 2],
     Some \<lparr>ib_proc = 1, ib_lo = [1, 1], ib_hi = [2, 2], ib_ptr = 2000, ib_ld = [2]\<rparr>))"
  "gai_iterator_next demo_idle (idle_walk 4 1 [1, 0] [1, 1] [1, 1] [2, 2]) = Some (Inr (idle_walk 8 2 [1, 0] [1, 2] [1, 1] [2, 2], None))"
  by code_simp+

lemma idle_position_repeats:
  "\<exists>h. gai_iterator_init (\<lambda>_. 0) demo_idle (-1000) [1, 1] [2, 2] blank_hdl = Inr h \<and>
     it_blocks demo_idle (gai_iterator_reset demo_idle h) =
       Some (Inr [\<lparr>ib_proc = 0, ib_lo = [1, 1], ib_hi = [2, 2], ib_ptr = 1000, ib_ld = [4]\<rparr>,
         \<lparr>ib_proc = 1, ib_lo = [1, 1], ib_hi = [2, 2], ib_ptr = 2000, ib_ld = [2]\<rparr>])"
  "reserved demo_idle (ga demo_idle (-1000)) 1 = Inr 0"
  by (simp add: idle_steps it_blocks.simps [of demo_idle]) code_simp

text \<open>
  C39. One-sided and local access agree. On a tiled or ScaLAPACK array of the world group, not restricted, on
  a processor grid of exactly all processes with on no axis more positions than blocks (\<open>grid_spread\<close>; for a tiled array
  that is not irregular, moreover, with two positions on every axis), for the elements of every block that an
  iterator gives, the address that the block leads to is the one a process gets when it looks up the block of the
  element with \<open>pnga_locate\<close>, asks \<open>pnga_access_block_ptr\<close> for the block and follows its strides. On tiled arrays the
  access routine counts the blocks of a process right only for two processes on every axis.
\<close>

theorem iterator_access_agree:
  assumes "ga_active st g_a" "grid_spread st (ga st g_a)"
    "distr_type (ga st g_a) = TILED \<longrightarrow> (\<forall>s\<in>set (nblock (ga st g_a)). s = 2)"
    "subscript_of (ga st g_a) lo" "subscript_of (ga st g_a) hi" "list_all2 (\<le>) lo hi"
    "gai_iterator_init rnd st g_a lo hi h = Inr h'" "it_blocks st (gai_iterator_reset st h') = Some (Inr bs)"
    "b \<in> set bs" "in_patch (ib_lo b) (ib_hi b) ss"
  shows "local_addr st g_a ss = Inr (ib_ptr b + strided ss (ib_lo b) (ib_ld b) 1 * elemsize (ga st g_a))"
proof -
  let ?a = "ga st g_a"
  define place where "place = (if tiled_irreg_ok ?a then mt.place ?a (array_axes ?a (num_blocks ?a)) else bt.place ?a (blk_axes ?a))"
  have "lays_out st g_a place" using layout_irreg [OF assms(2)] layout_blocks(5) [OF assms(2)] by (simp add: place_def)
  then obtain h2 bs2 where "gai_iterator_init rnd st g_a lo hi h = Inr h2" "it_blocks st (gai_iterator_reset st h2) = Some (Inr bs2)"
    "serves place ?a lo hi bs2" using layout_iterates assms(4-6) by blast
  then have "serves place ?a lo hi bs" using assms(7,8) by simp
  then have b: "in_patch lo hi ss" "fst (place ss) = ib_proc b"
    "ib_ptr b + strided ss (ib_lo b) (ib_ld b) 1 * elemsize ?a = ptr ?a ! nat (ib_proc b) + snd (place ss) * elemsize ?a"
    using assms(9,10) by (auto simp: serves_def)
  have "subscript_of ?a ss" using subscript_between [OF assms(4,5) b(1)] .
  then have "local_addr st g_a ss = Inr (ptr ?a ! nat (fst (place ss)) + snd (place ss) * elemsize ?a)"
    using local_irreg [OF assms(1,2)] local_blocks [OF assms(1,2) _ _ assms(3)] by (simp add: place_def)
  then show ?thesis using b(2,3) by simp
qed

theorem iterator_access_agree_witness:
  "\<exists>h' bs. gai_iterator_init (\<lambda>_. 0) demo_four (-998) [2, 2] [9, 5] blank_hdl = Inr h' \<and>
     it_blocks demo_four (gai_iterator_reset demo_four h') = Some (Inr bs) \<and>
     (\<exists>b\<in>set bs. local_addr demo_four (-998) [2, 2] = Inr (ib_ptr b + strided [2, 2] (ib_lo b) (ib_ld b) 1 * elemsize (ga demo_four (-998))))"
proof -
  let ?a = "ga demo_four (-998)"
  have "\<exists>place. lays_out demo_four (-998) place" using layout_irreg [OF demo_four_spread] layout_blocks(5) [OF demo_four_spread] by blast
  then obtain place h' bs where i: "gai_iterator_init (\<lambda>_. 0) demo_four (-998) [2, 2] [9, 5] blank_hdl = Inr h'"
    "it_blocks demo_four (gai_iterator_reset demo_four h') = Some (Inr bs)" and s: "serves place ?a [2, 2] [9, 5] bs"
    using layout_iterates [OF _ demo_four_patch(1)] by blast
  have "in_patch [2, 2] [9, 5] [2, 2]" by simp
  then obtain k where "k < length bs" "in_patch (ib_lo (bs ! k)) (ib_hi (bs ! k)) [2, 2]" using s unfolding serves_def by blast
  then obtain b where b: "b \<in> set bs" "in_patch (ib_lo b) (ib_hi b) [2, 2]" using nth_mem by blast
  have d: "distr_type ?a = TILED \<longrightarrow> (\<forall>s\<in>set (nblock ?a). s = 2)" using demo_four_patch(2) by simp
  from iterator_access_agree [OF demo_four_patch(3) demo_four_spread d _ _ _ i b] show ?thesis
    using demo_four_patch(1) i b(1) by blast
qed

end
