(* ===== verification/GA_PutGet.thy ===== *)
theory GA_PutGet
  imports GA_Blocks GA_Iteration
begin

text \<open>
  Put and get on arrays: every element of the patch moves between the buffer and its place, and what a get returns
  after a put.
\<close>

section \<open>The rounds\<close>





section \<open>Put and get\<close>














section \<open>What a get returns after a put\<close>




















end
