(* ===== verification/Spec2Isabelle.thy ===== *)
theory Spec2Isabelle
  imports MA_Inquire Reg_Theorems GA_PutGet
begin

text \<open>
  Global Arrays: the memory allocator MA, the arrays and their distribution, one-sided put and get, and under them the
  strided transfers and the registration cache of COMEX.

  \<^bold>\<open>The program.\<close> Global Arrays (src/global) gives the processes of a parallel program arrays that are spread over
  their memories. A process asks for memory with MA (src/ma), a heap and a stack that grow towards each other in
  one segment. An array is a descriptor in the table \<open>GA\<close>; \<open>pnga_allocate\<close> fixes how its elements are spread over
  the processes, with the decomposition of decomp.c where the user leaves it open, and reserves the memory of
  every process. The one-sided operations find the owners of a patch (\<open>pnga_locate_region\<close>), walk through the blocks
  with the iterators of iterator.c, and hand pointers and strides to the ARMCI layer (src/comex/src-armci), which calls
  COMEX (src/comex/src-mpi-pr). COMEX copies within a node through shared memory and sends messages to other nodes; it
  looks up the memory of every process in a cache of registered segments (reg_cache.c).

  \<^bold>\<open>MA.\<close> The theories with the prefix MA. \<open>MA_Error\<close> models error.c, \<open>MA_Table\<close> the handle table of table.c. \<open>MA_State\<close>
  has the static variables of ma.c as one record, the descriptors and the bytes of the segment by address, the
  layout of a block (\<open>balloc_after\<close>, \<open>balloc_before\<close>) and the other private routines; \<open>MA_Lists\<close> has the routines on the
  linked lists of descriptors with first fit, splitting and coalescing, \<open>MA_Public\<close> the public routines, \<open>MA_Queries\<close> the
  inquiries. \<open>Regions\<close>, \<open>MA_Heap\<close>, \<open>MA_Layout\<close>, \<open>MA_Links\<close>, \<open>MA_Inv\<close>, \<open>MA_Ops\<close>, \<open>MA_FirstFit\<close>, \<open>MA_Alloc\<close>,
  \<open>MA_Release\<close>, \<open>MA_Piece\<close> and \<open>MA_Calls\<close> hold the invariant of the allocator and that every operation keeps it.
  \<open>MA_Steps\<close> has the executions of a client as a transition system: \<open>ma_call_step\<close> has every call of the library and
  writes to memory, unrestricted; \<open>in_contract\<close> says, call by call, what a client has to observe, since the library does not
  check it: the size of a request is at most \<open>2^61\<close> bytes, the handle table has a handle for the new block, a piece is
  returned only from a block laid out as the alignment in force would lay it out, writes go to client spaces of live blocks.
  \<open>MA_Theorems\<close> and \<open>MA_Inquire\<close> state the properties: in every state that a run within the contract reaches, blocks in use
  are disjoint, intact and inside the segment; allocation gives fresh space and fails only when no
  block fits, release gives back what was taken and joins neighbours, verification reports exactly the damaged
  blocks, inquiries promise what an allocation can then get and find all the room there is, and a request that overflows
  is not refused.

  \<^bold>\<open>COMEX registration cache.\<close> \<open>Reg_Cache\<close> models reg_cache.c on a store of linked nodes, with assertions as errors.
  \<open>Reg_Lists\<close> reads the linked lists as lists and keeps the invariant; \<open>Reg_Theorems\<close> states the contract of a cache
  of segments as a locale, that the code implements it, and what the intersection test misses.

  \<^bold>\<open>Distribution of arrays.\<close> \<open>GA_Grid\<close> and \<open>GA_Double\<close> have the index macros of base.h and the double arithmetic of
  the search for a block, rounding included; \<open>GA_Array\<close> the descriptors (\<open>global_array_t\<close>) and the routines that set
  an array up; \<open>GA_Locate\<close> ownership, \<open>pnga_locate\<close> and \<open>pnga_locate_region\<close>; \<open>GA_Decomp\<close> the decomposition of decomp.c;
  \<open>GA_Allocate\<close> the part of \<open>pnga_allocate\<close> up to the request for memory. The locale \<open>partition\<close> (\<open>GA_Partition\<close>) says
  what a way to cut an axis into blocks promises; maps and fixed blocks are its two instances, and what follows for
  patches and owners is proved once. \<open>GA_Region\<close>, \<open>GA_Owner\<close>, \<open>GA_Pieces\<close>, \<open>GA_Setup\<close> and \<open>GA_Storage\<close> carry the
  properties of \<open>GA_Theorems\<close> (every element has one owner, patches are split exactly) and \<open>GA_Creation\<close> (the
  decomposition returns and is even, creation gives well-formed arrays, the memory adds up to the array).

  \<^bold>\<open>Iterators and access.\<close> \<open>GA_Access\<close> models the pointers of onesided.c and \<open>gam_Location\<close>, \<open>GA_Iterator\<close> the whole of
  iterator.c. The locale \<open>tiling\<close> (\<open>GA_Tiles\<close>) extends \<open>partition\<close> with the walk of a process through its blocks, the
  locale \<open>block_walk\<close> (\<open>GA_Walk\<close>) is the contract of an iterator with the loop of its client. \<open>GA_Layout\<close>, \<open>GA_Tiled\<close>,
  \<open>GA_Regular\<close> and \<open>GA_Local\<close> give the places of the elements, in tiled arrays and in regular ones with the permutation of
  the processes; \<open>GA_Iteration\<close> states that the iterator covers every patch exactly and leads to these places, and that
  the access routines lead to the same ones. This is for regular arrays with at most as many blocks as processes
  (\<open>regular_spread\<close>), and for tiled and ScaLAPACK arrays that are not restricted and whose processor grid has on no axis
  more positions than blocks (\<open>grid_spread\<close>). The library accepts other grids, and there the iterator goes wrong:
  \<open>idle_position_repeats\<close> runs it on one where it gives a block twice.

  \<^bold>\<open>Transfers, put and get.\<close> \<open>CX_Strided\<close> models the strided put and get of comex.c on the memories of all processes, with
  every route the configuration can choose (own memory, shared memory, one message, messages of bounded size, packed
  rows, MPI datatypes), and the calls of armci.c that join contiguous rows. \<open>CX_Moves\<close> says what it is to copy bytes
  between places: the loop over the rows enumerates a grid of offsets, packing and unpacking, cutting into messages and
  MPI datatypes all move the same bytes. \<open>CX_Transfer\<close> proves that every route copies the block, on memory that is in a
  segment of a well-formed registration cache (by the contract of \<open>Reg_Theorems\<close>), and states this as the locale
  \<open>strided_transport\<close> with the calls of armci.c as its interpretation. \<open>GA_OneSided\<close> models the put and get calls of
  onesided.c. A call issues a list of transfers; when each takes effect is not fixed by the call. The
  relation \<open>completes\<close> lets the transfers of a call take effect in any order, at any time before the call is complete (at
  its return for blocking calls, at the wait for the others, and for a put as seen by other processes at the fence or
  synchronization). \<open>GA_Moves\<close> and \<open>GA_Blocks\<close> turn the bytes of strided blocks into elements of the array and the buffer,
  from the locale, and show that the order does not matter as the blocks of a call are apart. \<open>GA_PutGet\<close> composes all of
  it: a get after the completion of a put reads what the put wrote, and nothing else changes.

  \<^bold>\<open>Integers and bounds.\<close> C integers are values of \<^typ>\<open>int\<close> with the wrap-around written out (\<open>GA_Prelude\<close>: \<open>s32\<close>, \<open>u64\<close>, \<open>cdiv\<close>,
  \<open>cmod\<close>) where the code narrows a value or computes sizes. The
  properties of MA assume a segment below \<open>2^61\<close> bytes and a handle table below \<open>2^27\<close> entries; those of arrays assume
  dimensions below \<open>2^53\<close>, where the conversion to double is exact, and process and block counts that fit an int,
  because the code passes them through int variables. The loops over strides index arrays of seven entries from 1, so
  that at most six strides are in bounds: the model fails with \<open>out of bounds\<close> at seven. Put and get of whole elements have
  one stride fewer than dimensions. Put and get assume less than \<open>2^31\<close> bytes of an array on each
  process, as strides and counts are of type int, and a positive message size. Loops are recursive functions that are shown to end. The
  backtracking of \<open>ddb_ex\<close>, the searches of the iterators and the traversal of lists that could be cyclic are partial
  functions with \<open>None\<close> for a loop that does not end, as are the loop over the blocks of a patch and the loops that send
  messages; that they return is part of the properties. MPI is a parameter, the displacements of a subarray datatype;
  its hypothesis (\<open>mpi_ok\<close>) is the order of elements that the MPI standard gives.

  \<^bold>\<open>Not modelled.\<close> Process groups beyond the translation of ranks, mirrored arrays, ghost cell updates, mutexes and
  properties of arrays, the numeric operations and everything collective: they are floating-point kernels and
  message passing around the routines modelled here. Of the one-sided operations, accumulate, scatter, gather,
  read-modify-write, put with notification and the read cache of \<open>pnga_get\<close>. The progress server of COMEX and its message
  headers, the handles of non-blocking calls, waits and fences only fix when a transfer takes effect, and are not modelled
  themselves; the effect of one transfer is a single step, so that nothing is said of accesses that race with it. Not
  modelled either are the request of \<open>pnga_allocate\<close> for memory and its failure, vector transfers and the other back ends. CMX and ARMCI are further
  such engines over MPI and network interfaces, and disk resident arrays are file I/O. The heuristic \<open>ddb_h1\<close> is not called
  and goes through \<open>pow\<close>. Printing, tracing, profiling and the C, Fortran and C++ interfaces are left out.
\<close>

end
